(* ===== verification/Cng_Prelude.thy ===== *)
theory Cng_Prelude
  imports Main "HOL-Library.Word" "HOL-Library.Sublist"
begin

text \<open>
  Shared vocabulary of the development: the machine integer types and the casts between them as
  the C sources spell them, the errno values, C strings as lists of characters without a NUL, and
  the generic facts on lists, options and folds that the component theories use. Two generic
  interfaces live here as locales: a checked string copy (\<open>str_copy\<close>) and a transition system with
  an inductive invariant (\<open>inv_system\<close>); each is interpreted on the definitions of the component
  that provides it.
\<close>

unbundle bit_operations_syntax

named_theorems cast_simps \<open>the C casts, unfolded\<close>
named_theorems errno_simps \<open>the errno constants, unfolded\<close>
named_theorems cstr_simps \<open>facts on C strings\<close>

section \<open>Machine integers\<close>

type_synonym u8 = "8 word"
type_synonym u32 = "32 word"
type_synonym u64 = "64 word"

text \<open>
  Where a source variable is a narrow signed or unsigned integer that is read as a number, the
  model holds the number and writes the conversion of every store out: \<open>u16_of\<close>, \<open>s16_of\<close> and
  \<open>s32_of\<close> are the C conversions to those types.
\<close>

definition u16_of :: "int \<Rightarrow> int" where
  [cast_simps]: "u16_of x = x mod 65536"

definition s16_of :: "int \<Rightarrow> int" where
  [cast_simps]: "s16_of x = (x + 32768) mod 65536 - 32768"

definition s32_of :: "int \<Rightarrow> int" where
  [cast_simps]: "s32_of x = (x + 2147483648) mod 4294967296 - 2147483648"

lemma u16_of_id [simp]: "0 \<le> x \<Longrightarrow> x < 65536 \<Longrightarrow> u16_of x = x"
  by (simp add: u16_of_def)

lemma s16_of_id [simp]: "- 32768 \<le> x \<Longrightarrow> x < 32768 \<Longrightarrow> s16_of x = x"
  by (simp add: s16_of_def)

lemma s32_of_id [simp]: "- 2147483648 \<le> x \<Longrightarrow> x < 2147483648 \<Longrightarrow> s32_of x = x"
  by (simp add: s32_of_def)

lemma u16_of_range: "0 \<le> u16_of x" "u16_of x < 65536"
  by (simp_all add: u16_of_def)

lemma s16_of_range: "- 32768 \<le> s16_of x" "s16_of x < 32768"
proof -
  have "0 \<le> (x + 32768) mod 65536" "(x + 32768) mod 65536 < 65536" by simp_all
  then show "- 32768 \<le> s16_of x" "s16_of x < 32768" by (simp_all add: s16_of_def)
qed

text \<open>A sum that is not below its summand did not wrap.\<close>

lemma no_wrap: "\<not> a + b < (a :: u64) \<Longrightarrow> unat (a + b) = unat a + unat b"
proof -
  assume "\<not> a + b < a"
  moreover have "unat b < 2 ^ LENGTH(64)" by (rule unsigned_less)
  ultimately show "unat (a + b) = unat a + unat b" by (auto simp: word_less_nat_alt unat_plus_if' split: if_splits)
qed

section \<open>Errno values\<close>

definition EPERM :: int where [errno_simps]: "EPERM = 1"
definition ENOENT :: int where [errno_simps]: "ENOENT = 2"
definition EINTR :: int where [errno_simps]: "EINTR = 4"
definition EIO :: int where [errno_simps]: "EIO = 5"
definition E2BIG :: int where [errno_simps]: "E2BIG = 7"
definition ENOEXEC :: int where [errno_simps]: "ENOEXEC = 8"
definition EBADF :: int where [errno_simps]: "EBADF = 9"
definition EAGAIN :: int where [errno_simps]: "EAGAIN = 11"
definition ENOMEM :: int where [errno_simps]: "ENOMEM = 12"
definition EACCES :: int where [errno_simps]: "EACCES = 13"
definition EFAULT :: int where [errno_simps]: "EFAULT = 14"
definition EEXIST :: int where [errno_simps]: "EEXIST = 17"
definition ENOTDIR :: int where [errno_simps]: "ENOTDIR = 20"
definition EINVAL :: int where [errno_simps]: "EINVAL = 22"
definition EFBIG :: int where [errno_simps]: "EFBIG = 27"
definition ENOSPC :: int where [errno_simps]: "ENOSPC = 28"
definition EROFS :: int where [errno_simps]: "EROFS = 30"
definition ERANGE :: int where [errno_simps]: "ERANGE = 34"
definition ENAMETOOLONG :: int where [errno_simps]: "ENAMETOOLONG = 36"
definition ENOSYS :: int where [errno_simps]: "ENOSYS = 38"
definition ENOMSG :: int where [errno_simps]: "ENOMSG = 42"
definition EIDRM :: int where [errno_simps]: "EIDRM = 43"

section \<open>Options as checked results\<close>

lemma bind_Some_iff: "Option.bind x f = Some y \<longleftrightarrow> (\<exists>z. x = Some z \<and> f z = Some y)"
  by (cases x) auto

section \<open>C strings\<close>

text \<open>
  A C string is the list of its characters before the terminator. \<open>cat s i\<close> is the character the
  source reads as \<open>s[i]\<close>: the terminator at the end of the string. Every use in the models below
  keeps \<open>i \<le> length s\<close>, as the source does.
\<close>

abbreviation NUL :: char where
  "NUL \<equiv> CHR 0x00"

definition cat :: "string \<Rightarrow> nat \<Rightarrow> char" where
  "cat s i = (if i < length s then s ! i else NUL)"

definition cstring :: "string \<Rightarrow> bool" where
  "cstring s \<longleftrightarrow> NUL \<notin> set s"

lemma cat_append_right [cstr_simps]: "cat (s @ t) (length s) = cat t 0"
  by (cases t) (auto simp: cat_def nth_append)

lemma cat_drop: "n \<le> length s \<Longrightarrow> cat (drop n s) i = cat s (n + i)"
  by (auto simp: cat_def)

section \<open>Decimal numerals\<close>

function digits :: "string \<Rightarrow> nat \<Rightarrow> nat \<Rightarrow> string" where
  "digits dig base n =
     (if base < 2 \<or> n < base then [dig ! n] else digits dig base (n div base) @ [dig ! (n mod base)])"
  by pat_completeness auto
termination
  by (relation "measure (\<lambda>(dig, base, n). n)") auto

declare digits.simps [simp del]

definition dec :: "nat \<Rightarrow> string" where
  "dec = digits ''0123456789'' 10"

section \<open>Checked string copies\<close>

text \<open>
  The contract every caller of a length-reporting string copy relies on: the result is the length
  of the whole source, and the destination, when it has room for a terminator, holds as much of it
  as fits. A caller that finds the returned length below the buffer's size has the whole string; a
  caller that appends a second string after the first has the concatenation or knows it did not
  fit.
\<close>

locale str_copy =
  fixes copy :: "nat \<Rightarrow> string \<Rightarrow> string \<times> nat"
  assumes copy_len: "snd (copy sz s) = length s"
    and copy_content: "0 < sz \<Longrightarrow> fst (copy sz s) = take (sz - 1) s"
begin

lemma copy_fits: "snd (copy sz s) < sz \<Longrightarrow> copy sz s = (s, length s)"
  using copy_len [of sz s] copy_content [of sz s] by (simp add: prod_eq_iff)

lemma copy_short: "length s < sz \<Longrightarrow> fst (copy sz s) = s"
  using copy_fits [of sz s] by (simp add: copy_len)

lemma copy_prefix: "0 < sz \<Longrightarrow> prefix (fst (copy sz s)) s"
  by (simp add: copy_content take_is_prefix)

lemma copy_bound: "0 < sz \<Longrightarrow> length (fst (copy sz s)) < sz"
  by (simp add: copy_content)

lemma copy_join:
  "length a + length b < sz \<Longrightarrow> fst (copy sz a) @ fst (copy (sz - length a) b) = a @ b"
  by (simp add: copy_content)

end

section \<open>Transition systems with an invariant\<close>

text \<open>
  A step function over a state, its events, and a predicate every step preserves: the shape of
  every safety argument about a sequence of requests.
\<close>

lemma replicate_two: "replicate 2 x = [x, x]"
  by (simp add: numeral_2_eq_2)

locale inv_system =
  fixes step :: "'e \<Rightarrow> 's \<Rightarrow> 's" and inv :: "'s \<Rightarrow> bool" and ok :: "'e \<Rightarrow> bool"
  assumes step_inv: "inv s \<Longrightarrow> ok e \<Longrightarrow> inv (step e s)"
begin

lemma run_inv: "inv s \<Longrightarrow> list_all ok es \<Longrightarrow> inv (fold step es s)"
  by (induction es arbitrary: s) (auto intro: step_inv)

lemma run_prefix_inv: "inv s \<Longrightarrow> list_all ok (es @ fs) \<Longrightarrow> inv (fold step es s)"
  by (simp add: run_inv)

end

end
