(* ===== verification/Rt_Mem.thy ===== *)
theory Rt_Mem
  imports Cng_Prelude
begin

text \<open>
  The memory routines of \<open>src/rt/rt.c\<close>: \<open>memset\<close>, \<open>memcpy\<close>, \<open>memmove\<close> and \<open>memcmp\<close>, which work a
  64-bit word at a time, and the zero-byte test \<open>RT_HAS_ZERO\<close> that the string scans of \<open>Rt_Str\<close>
  use. Memory is a partial map from addresses to bytes: an address outside its domain is unmapped,
  and an access to it is a fault, the value \<open>None\<close>. Every routine is the source's loops in the
  source's order, and each is shown to return and to leave exactly what a byte-at-a-time
  definition leaves: in particular \<open>memmove\<close> for every overlap of source and destination.
  Addresses are natural numbers, so an object never wraps around the end of the address space.
\<close>

section \<open>The zero-byte test\<close>

definition RT_ONES :: u64 where "RT_ONES = 0x0101010101010101"
definition RT_HIGHS :: u64 where "RT_HIGHS = 0x8080808080808080"

definition RT_HAS_ZERO :: "u64 \<Rightarrow> u64" where
  "RT_HAS_ZERO w = ((w - RT_ONES) AND NOT w) AND RT_HIGHS"

definition u64_of_bytes :: "u8 list \<Rightarrow> u64" where
  "u64_of_bytes bs = word_of_int (horner_sum uint 256 bs)"

lemma byte_split: "0 \<le> p \<Longrightarrow> p < 256 \<Longrightarrow> p + 256 * q = concat_bit 8 p (q::int)"
  by (simp add: concat_bit_eq push_bit_eq_mult take_bit_int_eq_self)

lemma and_bytewise:
  fixes p q r s :: int
  assumes "0 \<le> p" "p < 256" "0 \<le> r" "r < 256"
  shows "(p + 256 * q) AND (r + 256 * s) = (p AND r) + 256 * (q AND s)"
proof -
  have "0 \<le> p AND r" using assms by simp
  moreover have "p AND r < 256" using assms AND_upper1 [of p r] by linarith
  ultimately have "(p AND r) + 256 * (q AND s) = concat_bit 8 (p AND r) (q AND s)"
    by (rule byte_split)
  then show ?thesis using assms
    by (auto simp: byte_split bit_eq_iff bit_concat_bit_iff bit_and_iff)
qed

primrec ones_int :: "nat \<Rightarrow> int" where
  "ones_int 0 = 0"
| "ones_int (Suc n) = 1 + 256 * ones_int n"

primrec highs_int :: "nat \<Rightarrow> int" where
  "highs_int 0 = 0"
| "highs_int (Suc n) = 128 + 256 * highs_int n"

lemma high_bit_clear:
  assumes "1 \<le> b" "b < 256"
  shows "(b - 1) AND (255 - b) AND (128::int) = 0"
proof -
  have "\<not> bit ((b - 1) AND (255 - b)) 7"
  proof
    assume "bit ((b - 1) AND (255 - b)) 7"
    then have "odd ((b - 1) div 128)" "odd ((255 - b) div 128)"
      unfolding bit_and_iff by (simp_all add: bit_iff_odd)
    moreover have "(b - 1) div 128 = 0 \<or> (255 - b) div 128 = 0"
      using assms by (cases "b \<le> 128") (simp_all add: div_pos_pos_trivial)
    ultimately show False by auto
  qed
  then have "((b - 1) AND (255 - b)) AND 2 ^ 7 = 0"
    by (simp only: and_exp_eq_0_iff_not_bit not_False_eq_True)
  then show ?thesis by (simp add: and.assoc)
qed

lemma has_zero_int:
  "((horner_sum uint 256 bs - ones_int (length bs)) AND NOT (horner_sum uint 256 bs)
     AND highs_int (length bs) = 0) = (0 \<notin> set (bs :: u8 list))"
proof (induction bs)
  case (Cons b bs)
  define X where "X = horner_sum uint 256 bs"
  define K where "K = ones_int (length bs)"
  define H where "H = highs_int (length bs)"
  have b: "0 \<le> uint b" "uint b < 256"
    using uint_bounded [of b] by simp_all
  have NX: "NOT (uint b + 256 * X) = (255 - uint b) + 256 * NOT X"
    by (simp add: not_int_def)
  have H0: "horner_sum uint 256 (b # bs) = uint b + 256 * X"
    by (simp add: X_def)
  show ?case
  proof (cases "b = 0")
    case True
    have e: "256 * X - (1 + 256 * K) = 255 + 256 * (X - K - 1)" by simp
    have n: "NOT (256 * X) = 255 + 256 * NOT X" using NX True by simp
    have "(256 * X - (1 + 256 * K)) AND NOT (256 * X) AND (128 + 256 * H)
        = 128 + 256 * ((X - K - 1) AND NOT X AND H)"
      unfolding e n
      using and_bytewise [of 255 128 "NOT X" H]
        and_bytewise [of 255 128 "X - K - 1" "NOT X AND H"] by simp
    then have "(256 * X - (1 + 256 * K)) AND NOT (256 * X) AND (128 + 256 * H) \<noteq> 0"
      by presburger
    then show ?thesis using True by (simp add: X_def K_def H_def)
  next
    case False
    then have b1: "1 \<le> uint b" using b by (simp add: int_one_le_iff_zero_less less_le unsigned_eq_0_iff)
    have e: "(uint b + 256 * X) - (1 + 256 * K) = (uint b - 1) + 256 * (X - K)" by simp
    have bs: "0 \<le> uint b - 1" "uint b - 1 < 256" "0 \<le> 255 - uint b" "255 - uint b < 256"
      using b b1 by simp_all
    have m: "0 \<le> (255 - uint b) AND 128" "(255 - uint b) AND 128 < (256::int)"
      using bs AND_upper1 [of "255 - uint b" 128] by simp_all
    have "((uint b + 256 * X) - (1 + 256 * K)) AND NOT (uint b + 256 * X) AND (128 + 256 * H)
        = ((uint b - 1) AND (255 - uint b) AND 128) + 256 * ((X - K) AND NOT X AND H)"
      unfolding e NX
      by (simp only: and_bytewise [OF bs(3,4), of 128] and_bytewise [OF bs(1,2) m])
    then show ?thesis using False Cons.IH high_bit_clear [OF b1 b(2)]
      by (simp add: X_def K_def H_def)
  qed
qed simp

lemma highs_int_8: "highs_int 8 = 0x8080808080808080" "ones_int 8 = 0x0101010101010101"
  by (simp_all add: numeral_eq_Suc)

lemma word64_of_int_eq_0:
  assumes "0 \<le> k" "k < 2 ^ 64"
  shows "(word_of_int k = (0 :: u64)) = (k = 0)"
proof -
  have "uint (word_of_int k :: u64) = k"
    using assms by (simp add: uint_word_of_int)
  then show ?thesis by (metis unsigned_eq_0_iff)
qed

lemma RT_HAS_ZERO_bytes:
  assumes "length bs = 8"
  shows "(RT_HAS_ZERO (u64_of_bytes bs) = 0) = (0 \<notin> set bs)"
proof -
  let ?X = "horner_sum uint 256 bs"
  let ?R = "(?X - ones_int 8) AND NOT ?X AND highs_int 8"
  have "RT_HAS_ZERO (u64_of_bytes bs) = word_of_int ?R"
    unfolding RT_HAS_ZERO_def u64_of_bytes_def RT_ONES_def RT_HIGHS_def highs_int_8
    by (simp add: and.assoc of_int_and_eq of_int_not_eq)
  moreover have "(word_of_int ?R = (0 :: u64)) = (?R = 0)"
  proof (rule word64_of_int_eq_0)
    show "0 \<le> ?R" by (simp add: highs_int_8)
    have "((?X - ones_int 8) AND NOT ?X) AND highs_int 8 \<le> highs_int 8"
      by (rule AND_upper2) (simp add: highs_int_8)
    then show "?R < 2 ^ 64" by (simp add: highs_int_8 and.assoc)
  qed
  ultimately have "(RT_HAS_ZERO (u64_of_bytes bs) = 0) = (?R = 0)" by simp
  then show ?thesis using has_zero_int [of bs] assms by simp
qed

section \<open>Memory\<close>

text \<open>
  \<open>load64\<close> is the source's read through \<open>u64_ua\<close> or \<open>u64_al\<close>, \<open>store64\<close> its write; both are
  little-endian, as AArch64 Linux is, and both fault as a whole when one of the eight bytes is not
  mapped.
\<close>

type_synonym mem = "nat \<Rightarrow> u8 option"

definition load64 :: "mem \<Rightarrow> nat \<Rightarrow> u64 option" where
  "load64 m a = map_option u64_of_bytes (those (map (\<lambda>i. m (a + i)) [0..<8]))"

definition bytes_of_u64 :: "u64 \<Rightarrow> u8 list" where
  "bytes_of_u64 w = map (\<lambda>i. ucast (drop_bit (8 * i) w)) [0..<8]"

definition store8 :: "mem \<Rightarrow> nat \<Rightarrow> u8 \<Rightarrow> mem option" where
  "store8 m a v = (if m a = None then None else Some (m(a \<mapsto> v)))"

fun store_bytes :: "mem \<Rightarrow> nat \<Rightarrow> u8 list \<Rightarrow> mem option" where
  "store_bytes m a [] = Some m"
| "store_bytes m a (v # vs) = Option.bind (store8 m a v) (\<lambda>m. store_bytes m (a + 1) vs)"

definition store64 :: "mem \<Rightarrow> nat \<Rightarrow> u64 \<Rightarrow> mem option" where
  "store64 m a w = store_bytes m a (bytes_of_u64 w)"

lemma bytes_of_u64_of_bytes [simp]:
  assumes "length bs = 8"
  shows "bytes_of_u64 (u64_of_bytes bs) = bs"
proof (rule nth_equalityI)
  show "length (bytes_of_u64 (u64_of_bytes bs)) = length bs"
    using assms by (simp add: bytes_of_u64_def)
  fix i assume "i < length (bytes_of_u64 (u64_of_bytes bs))"
  then have i: "i < 8" by (simp add: bytes_of_u64_def)
  have "(ucast (drop_bit (8 * i) (u64_of_bytes bs)) :: u8) = bs ! i"
  proof (rule bit_word_eqI)
    fix n assume n: "n < LENGTH(8)"
    then have "8 * i + n < 64" using i by simp
    then show "bit (ucast (drop_bit (8 * i) (u64_of_bytes bs)) :: u8) n = bit (bs ! i) n"
      using n i assms bit_horner_sum_uint_exp_iff [of bs "8 * i + n"]
      by (simp add: u64_of_bytes_def bit_simps)
  qed
  then show "bytes_of_u64 (u64_of_bytes bs) ! i = bs ! i"
    using i by (simp add: bytes_of_u64_def)
qed

definition rt_unaligned :: "nat \<Rightarrow> bool" where
  "rt_unaligned p \<longleftrightarrow> p mod 8 \<noteq> 0"

definition to_align :: "nat \<Rightarrow> nat" where
  "to_align p = (8 - p mod 8) mod 8"

lemma to_align_Suc: "rt_unaligned a \<Longrightarrow> to_align a = Suc (to_align (Suc a))"
proof -
  assume "rt_unaligned a"
  then have a: "a mod 8 \<noteq> 0" by (simp add: rt_unaligned_def)
  have "a mod 8 < 8" by simp
  then have "a mod 8 = 7 \<or> a mod 8 < 7" by linarith
  then show ?thesis using a by (auto simp: mod_Suc to_align_def)
qed

lemma to_align_0: "\<not> rt_unaligned a \<Longrightarrow> to_align a = 0"
  by (simp add: rt_unaligned_def to_align_def)

lemma to_align_less: "to_align a < 8"
  by (simp add: to_align_def)

lemma those_Some_iff: "(those xs = Some ys) = (xs = map Some ys)"
  by (induction xs arbitrary: ys) (auto split: option.splits)

definition mapped :: "mem \<Rightarrow> nat \<Rightarrow> nat \<Rightarrow> bool" where
  "mapped m a n \<longleftrightarrow> (\<forall>i<n. m (a + i) \<noteq> None)"

definition bytes_at :: "mem \<Rightarrow> nat \<Rightarrow> nat \<Rightarrow> u8 list" where
  "bytes_at m a n = map (\<lambda>i. the (m (a + i))) [0..<n]"

lemma mapped_Suc: "mapped m a (Suc n) \<longleftrightarrow> m a \<noteq> None \<and> mapped m (a + 1) n"
  by (auto simp: mapped_def less_Suc_eq_0_disj)

lemma mapped_sub: "mapped m a n \<Longrightarrow> k + l \<le> n \<Longrightarrow> mapped m (a + k) l"
  by (auto simp: mapped_def add.assoc)

lemma load64_mapped: "mapped m a 8 \<Longrightarrow> load64 m a = Some (u64_of_bytes (bytes_at m a 8))"
proof -
  assume "mapped m a 8"
  then have "those (map (\<lambda>i. m (a + i)) [0..<8]) = Some (bytes_at m a 8)"
    unfolding those_Some_iff bytes_at_def map_map o_def
    by (intro map_cong refl) (auto simp: mapped_def)
  then show ?thesis by (simp add: load64_def)
qed

definition put :: "mem \<Rightarrow> nat \<Rightarrow> u8 list \<Rightarrow> mem" where
  "put m a vs = (\<lambda>x. if a \<le> x \<and> x < a + length vs then Some (vs ! (x - a)) else m x)"

lemma put_Nil [simp]: "put m a [] = m"
  by (auto simp: put_def fun_eq_iff)

lemma put_Cons: "put m a (v # vs) = put (m(a \<mapsto> v)) (a + 1) vs"
  by (rule ext) (auto simp: put_def nth_Cons')

lemma mapped_put: "mapped m b n \<Longrightarrow> mapped (put m a vs) b n"
  by (auto simp: mapped_def put_def)

lemma mapped_upd: "mapped m b n \<Longrightarrow> mapped (m(a \<mapsto> v)) b n"
  by (auto simp: mapped_def)

lemma store_bytes_put:
  "mapped m a (length vs) \<Longrightarrow> store_bytes m a vs = Some (put m a vs)"
proof (induction vs arbitrary: m a)
  case (Cons v vs)
  then have "m a \<noteq> None" "mapped (m(a \<mapsto> v)) (a + 1) (length vs)"
    by (simp_all add: mapped_Suc mapped_upd)
  with Cons.IH show ?case by (simp add: store8_def put_Cons)
qed simp

lemma length_bytes_of_u64 [simp]: "length (bytes_of_u64 w) = 8"
  by (simp add: bytes_of_u64_def)

lemma length_bytes_at [simp]: "length (bytes_at m a n) = n"
  by (simp add: bytes_at_def)

lemma store64_put: "mapped m a 8 \<Longrightarrow> store64 m a w = Some (put m a (bytes_of_u64 w))"
  by (simp add: store64_def store_bytes_put)

section \<open>memcpy and memmove\<close>

text \<open>
  The loops of the two copies: a head that advances byte by byte until the destination is aligned,
  whole words, and a tail. \<open>move_spec\<close> is what a copy that reads every byte before it writes any
  would leave in memory.
\<close>

definition move_spec :: "mem \<Rightarrow> nat \<Rightarrow> nat \<Rightarrow> nat \<Rightarrow> mem" where
  "move_spec m d s n = (\<lambda>x. if d \<le> x \<and> x < d + n then m (s + (x - d)) else m x)"

definition cp8 :: "mem \<Rightarrow> nat \<Rightarrow> nat \<Rightarrow> mem option" where
  "cp8 m a b = Option.bind (m b) (store8 m a)"

definition cp64 :: "mem \<Rightarrow> nat \<Rightarrow> nat \<Rightarrow> mem option" where
  "cp64 m a b = Option.bind (load64 m b) (store64 m a)"

lemma put_bytes_at: "mapped m b n \<Longrightarrow> put m a (bytes_at m b n) = move_spec m a b n"
proof (rule ext)
  fix x assume m: "mapped m b n"
  show "put m a (bytes_at m b n) x = move_spec m a b n x"
  proof (cases "a \<le> x \<and> x < a + n")
    case True
    then have "x - a < n" by auto
    with m obtain y where "m (b + (x - a)) = Some y" unfolding mapped_def by blast
    with True \<open>x - a < n\<close> show ?thesis by (simp add: put_def move_spec_def bytes_at_def)
  qed (auto simp: put_def move_spec_def)
qed

lemma cp8_move: "m a \<noteq> None \<Longrightarrow> m b \<noteq> None \<Longrightarrow> cp8 m a b = Some (move_spec m a b 1)"
  by (auto simp: cp8_def store8_def move_spec_def fun_eq_iff)

lemma cp64_move: "mapped m a 8 \<Longrightarrow> mapped m b 8 \<Longrightarrow> cp64 m a b = Some (move_spec m a b 8)"
  by (simp add: cp64_def load64_mapped store64_put put_bytes_at)

lemma move_spec_0 [simp]: "move_spec m d s 0 = m"
  by (auto simp: move_spec_def fun_eq_iff)

lemma mapped_move: "mapped m c k \<Longrightarrow> mapped m s n \<Longrightarrow> mapped (move_spec m d s n) c k"
proof -
  assume m: "mapped m c k" "mapped m s n"
  show ?thesis unfolding mapped_def
  proof (intro allI impI)
    fix i assume "i < k"
    have "d \<le> c + i \<Longrightarrow> c + i < d + n \<Longrightarrow> m (s + (c + i - d)) \<noteq> None"
      using m(2) less_diff_conv2 unfolding mapped_def by (metis add.commute)
    then show "move_spec m d s n (c + i) \<noteq> None"
      using m(1) \<open>i < k\<close> by (simp add: move_spec_def mapped_def)
  qed
qed

definition up_ok :: "nat \<Rightarrow> nat \<Rightarrow> nat \<Rightarrow> bool" where
  "up_ok d s n \<longleftrightarrow> d \<le> s \<or> s + n \<le> d"

lemma move_spec_up:
  "up_ok d s (k + n) \<Longrightarrow>
     move_spec (move_spec m d s k) (d + k) (s + k) n = move_spec m d s (k + n)"
  by (rule ext) (auto simp: move_spec_def up_ok_def)

lemma move_spec_down:
  "s \<le> d \<Longrightarrow> move_spec (move_spec m (d + n) (s + n) k) d s n = move_spec m d s (n + k)"
  by (rule ext) (auto simp: move_spec_def)

function copy_head_up :: "mem \<Rightarrow> nat \<Rightarrow> nat \<Rightarrow> nat \<Rightarrow> (mem \<times> nat \<times> nat \<times> nat) option" where
  "copy_head_up m a b n =
     (if rt_unaligned a
      then Option.bind (cp8 m a b) (\<lambda>m. copy_head_up m (a + 1) (b + 1) (n - 1))
      else Some (m, a, b, n))"
  by pat_completeness auto
termination
  by (relation "measure (\<lambda>(m, a, b, n). to_align a)")
     (auto simp: to_align_Suc)

function copy_words_up :: "mem \<Rightarrow> nat \<Rightarrow> nat \<Rightarrow> nat \<Rightarrow> (mem \<times> nat \<times> nat \<times> nat) option" where
  "copy_words_up m a b n =
     (if n \<ge> 8
      then Option.bind (cp64 m a b) (\<lambda>m. copy_words_up m (a + 8) (b + 8) (n - 8))
      else Some (m, a, b, n))"
  by pat_completeness auto
termination
  by (relation "measure (\<lambda>(m, a, b, n). n)") auto

fun copy_bytes_up :: "mem \<Rightarrow> nat \<Rightarrow> nat \<Rightarrow> nat \<Rightarrow> mem option" where
  "copy_bytes_up m a b 0 = Some m"
| "copy_bytes_up m a b (Suc n) =
     Option.bind (cp8 m a b) (\<lambda>m. copy_bytes_up m (a + 1) (b + 1) n)"

declare copy_head_up.simps [simp del] copy_words_up.simps [simp del]

definition memcpy :: "mem \<Rightarrow> nat \<Rightarrow> nat \<Rightarrow> nat \<Rightarrow> mem option" where
  "memcpy m d s n =
     Option.bind
       (if n \<ge> 16
        then Option.bind (copy_head_up m d s n) (\<lambda>(m, a, b, n). copy_words_up m a b n)
        else Some (m, d, s, n))
       (\<lambda>(m, a, b, n). copy_bytes_up m a b n)"

lemma up_ok_step: "up_ok d s n \<Longrightarrow> k \<le> n \<Longrightarrow> up_ok (d + k) (s + k) (n - k)"
  by (auto simp: up_ok_def)

lemma copy_bytes_up_move:
  "mapped m a n \<Longrightarrow> mapped m b n \<Longrightarrow> up_ok a b n \<Longrightarrow>
   copy_bytes_up m a b n = Some (move_spec m a b n)"
proof (induction n arbitrary: m a b)
  case (Suc n)
  let ?m = "move_spec m a b 1"
  have m1: "m a \<noteq> None" "m b \<noteq> None" "mapped m (a+1) n" "mapped m (b+1) n" "mapped m b 1"
    using Suc.prems by (auto simp: mapped_Suc mapped_def)
  have "copy_bytes_up ?m (a + 1) (b + 1) n = Some (move_spec ?m (a + 1) (b + 1) n)"
    using Suc.prems(3) m1 by (intro Suc.IH mapped_move) (auto simp: up_ok_def)
  then show ?case
    using m1 cp8_move [of m a b] move_spec_up [of a b 1 n m] Suc.prems(3) by simp
qed simp

lemma copy_head_up_move:
  "mapped m a n \<Longrightarrow> mapped m b n \<Longrightarrow> up_ok a b n \<Longrightarrow> to_align a \<le> n \<Longrightarrow>
   copy_head_up m a b n =
     Some (move_spec m a b (to_align a), a + to_align a, b + to_align a, n - to_align a)"
proof (induction m a b n rule: copy_head_up.induct)
  case (1 m a b n)
  show ?case
  proof (cases "rt_unaligned a")
    case True
    define k where "k = to_align (Suc a)"
    have k: "to_align a = Suc k" using to_align_Suc [OF True] by (simp add: k_def)
    then obtain n' where n: "n = Suc n'" "k \<le> n'" using "1.prems"(4) by (cases n) auto
    let ?m = "move_spec m a b 1"
    have m1: "m a \<noteq> None" "m b \<noteq> None" "mapped m (a+1) n'" "mapped m (b+1) n'" "mapped m b 1"
      using "1.prems" n by (auto simp: mapped_Suc mapped_def)
    have cp: "cp8 m a b = Some ?m" using m1 by (simp add: cp8_move)
    have "copy_head_up ?m (a + 1) (b + 1) n' =
        Some (move_spec ?m (a + 1) (b + 1) k, a + 1 + k, b + 1 + k, n' - k)"
      using "1.IH" [OF True cp] up_ok_step [OF "1.prems"(3), of 1] m1 n
      by (simp add: mapped_move k_def)
    moreover have "move_spec ?m (a + 1) (b + 1) k = move_spec m a b (Suc k)"
      using move_spec_up [of a b 1 k m] "1.prems"(3) n by (auto simp: up_ok_def)
    ultimately show ?thesis
      using True cp n k by (subst copy_head_up.simps) simp
  next
    case False
    then show ?thesis by (subst copy_head_up.simps) (simp add: to_align_0)
  qed
qed

lemma copy_words_up_move:
  "mapped m a n \<Longrightarrow> mapped m b n \<Longrightarrow> up_ok a b n \<Longrightarrow>
   \<exists>k\<le>n. copy_words_up m a b n = Some (move_spec m a b k, a + k, b + k, n - k)"
proof (induction m a b n rule: copy_words_up.induct)
  case (1 m a b n)
  show ?case
  proof (cases "n \<ge> 8")
    case True
    let ?m = "move_spec m a b 8"
    have m1: "mapped m a 8" "mapped m b 8" "mapped m (a + 8) (n - 8)" "mapped m (b + 8) (n - 8)"
      using "1.prems" True mapped_sub [of m a n 0 8] mapped_sub [of m b n 0 8]
        mapped_sub [of m a n 8 "n - 8"] mapped_sub [of m b n 8 "n - 8"] by simp_all
    have cp: "cp64 m a b = Some ?m" using m1 by (simp add: cp64_move)
    obtain k where k: "k \<le> n - 8" "copy_words_up ?m (a + 8) (b + 8) (n - 8) =
        Some (move_spec ?m (a + 8) (b + 8) k, a + 8 + k, b + 8 + k, n - 8 - k)"
      using "1.IH" [OF True cp] "1.prems"(3) m1 True up_ok_step [of a b n 8]
      by (auto simp: mapped_move)
    have "up_ok a b (8 + k)" using "1.prems"(3) k(1) True by (auto simp: up_ok_def)
    then have "move_spec ?m (a + 8) (b + 8) k = move_spec m a b (8 + k)"
      by (rule move_spec_up)
    then have "copy_words_up m a b n = Some (move_spec m a b (8 + k), a + (8 + k), b + (8 + k), n - (8 + k))"
      using True cp k by (subst copy_words_up.simps) (simp add: add.assoc)
    then show ?thesis using k(1) True by (intro exI [of _ "8 + k"]) auto
  next
    case False
    then show ?thesis by (subst copy_words_up.simps) (auto intro: exI [of _ 0])
  qed
qed

lemma memcpy_move:
  assumes m: "mapped m d n" "mapped m s n" and ok: "up_ok d s n"
  shows "memcpy m d s n = Some (move_spec m d s n)"
proof (cases "n \<ge> 16")
  case False
  then show ?thesis using assms by (simp add: memcpy_def copy_bytes_up_move)
next
  case True
  let ?k = "to_align d"
  have k: "?k \<le> n" using to_align_less [of d] True by simp
  let ?m = "move_spec m d s ?k"
  have h: "copy_head_up m d s n = Some (?m, d + ?k, s + ?k, n - ?k)"
    using m ok k by (rule copy_head_up_move)
  have m1: "mapped ?m (d + ?k) (n - ?k)" "mapped ?m (s + ?k) (n - ?k)" "up_ok (d + ?k) (s + ?k) (n - ?k)"
    using m ok k by (auto intro!: mapped_move intro: mapped_sub up_ok_step [OF ok] mapped_sub [of m s n 0, simplified])
  then obtain l where l: "l \<le> n - ?k" "copy_words_up ?m (d + ?k) (s + ?k) (n - ?k) =
      Some (move_spec ?m (d + ?k) (s + ?k) l, d + ?k + l, s + ?k + l, n - ?k - l)"
    using copy_words_up_move by blast
  have e: "move_spec ?m (d + ?k) (s + ?k) l = move_spec m d s (?k + l)"
    using ok l k by (intro move_spec_up) (auto simp: up_ok_def)
  let ?m2 = "move_spec m d s (?k + l)" and ?r = "n - (?k + l)"
  have "mapped ?m2 (d + (?k + l)) ?r" "mapped ?m2 (s + (?k + l)) ?r" "up_ok (d + (?k + l)) (s + (?k + l)) ?r"
    using m ok k l by (auto intro!: mapped_move intro: mapped_sub up_ok_step [OF ok] mapped_sub [of m s n 0, simplified])
  then have "copy_bytes_up ?m2 (d + (?k + l)) (s + (?k + l)) ?r
      = Some (move_spec ?m2 (d + (?k + l)) (s + (?k + l)) ?r)"
    by (rule copy_bytes_up_move)
  moreover have "move_spec ?m2 (d + (?k + l)) (s + (?k + l)) ?r = move_spec m d s n"
    using ok l k by (subst move_spec_up) (auto simp: up_ok_def)
  ultimately show ?thesis
    using True h l(2) e by (simp add: memcpy_def add.assoc)
qed

function copy_head_down :: "mem \<Rightarrow> nat \<Rightarrow> nat \<Rightarrow> nat \<Rightarrow> (mem \<times> nat \<times> nat \<times> nat) option" where
  "copy_head_down m a b n =
     (if rt_unaligned a
      then Option.bind (cp8 m (a - 1) (b - 1)) (\<lambda>m. copy_head_down m (a - 1) (b - 1) (n - 1))
      else Some (m, a, b, n))"
  by pat_completeness auto
termination
  by (relation "measure (\<lambda>(m, a, b, n). a)") (auto simp: rt_unaligned_def)

function copy_words_down :: "mem \<Rightarrow> nat \<Rightarrow> nat \<Rightarrow> nat \<Rightarrow> (mem \<times> nat \<times> nat \<times> nat) option" where
  "copy_words_down m a b n =
     (if n \<ge> 8
      then Option.bind (cp64 m (a - 8) (b - 8)) (\<lambda>m. copy_words_down m (a - 8) (b - 8) (n - 8))
      else Some (m, a, b, n))"
  by pat_completeness auto
termination
  by (relation "measure (\<lambda>(m, a, b, n). n)") auto

fun copy_bytes_down :: "mem \<Rightarrow> nat \<Rightarrow> nat \<Rightarrow> nat \<Rightarrow> mem option" where
  "copy_bytes_down m a b 0 = Some m"
| "copy_bytes_down m a b (Suc n) =
     Option.bind (cp8 m (a - 1) (b - 1)) (\<lambda>m. copy_bytes_down m (a - 1) (b - 1) n)"

declare copy_head_down.simps [simp del] copy_words_down.simps [simp del]

definition memmove :: "mem \<Rightarrow> nat \<Rightarrow> nat \<Rightarrow> nat \<Rightarrow> mem option" where
  "memmove m d s n =
     (if d = s \<or> n = 0 then Some m
      else if d < s then
        Option.bind
          (if n \<ge> 16
           then Option.bind (copy_head_up m d s n) (\<lambda>(m, a, b, n). copy_words_up m a b n)
           else Some (m, d, s, n))
          (\<lambda>(m, a, b, n). copy_bytes_up m a b n)
      else
        Option.bind
          (if n \<ge> 16
           then Option.bind (copy_head_down m (d + n) (s + n) n)
                  (\<lambda>(m, a, b, n). copy_words_down m a b n)
           else Some (m, d + n, s + n, n))
          (\<lambda>(m, a, b, n). copy_bytes_down m a b n))"

lemma copy_bytes_down_move:
  "mapped m d n \<Longrightarrow> mapped m s n \<Longrightarrow> s \<le> d \<Longrightarrow>
   copy_bytes_down m (d + n) (s + n) n = Some (move_spec m d s n)"
proof (induction n arbitrary: m)
  case (Suc n)
  let ?m = "move_spec m (d + n) (s + n) 1"
  have m1: "m (d + n) \<noteq> None" "m (s + n) \<noteq> None" "mapped m d n" "mapped m s n" "mapped m (s + n) 1"
    using Suc.prems by (auto simp: mapped_def)
  have "copy_bytes_down ?m (d + n) (s + n) n = Some (move_spec ?m d s n)"
    using Suc.prems(3) m1 by (intro Suc.IH mapped_move)
  then show ?case
    using m1 cp8_move [of m "d + n" "s + n"] move_spec_down [OF Suc.prems(3), of m n 1] by simp
qed simp

lemma copy_words_down_move:
  "mapped m d n \<Longrightarrow> mapped m s n \<Longrightarrow> s \<le> d \<Longrightarrow>
   \<exists>k\<le>n. copy_words_down m (d + n) (s + n) n =
     Some (move_spec m (d + k) (s + k) (n - k), d + k, s + k, k)"
proof (induction n arbitrary: m rule: less_induct)
  case (less n)
  show ?case
  proof (cases "n \<ge> 8")
    case True
    define l where "l = n - 8"
    have n: "n = l + 8" "l < n" using True by (simp_all add: l_def)
    let ?m = "move_spec m (d + l) (s + l) 8"
    have m1: "mapped m (d + l) 8" "mapped m (s + l) 8" "mapped m d l" "mapped m s l"
      using less.prems n mapped_sub [of m d n l 8] mapped_sub [of m s n l 8]
        mapped_sub [of m d n 0 l] mapped_sub [of m s n 0 l] by simp_all
    have cp: "cp64 m (d + l) (s + l) = Some ?m" using m1 by (simp add: cp64_move)
    obtain k where k: "k \<le> l" "copy_words_down ?m (d + l) (s + l) l =
        Some (move_spec ?m (d + k) (s + k) (l - k), d + k, s + k, k)"
      using less.IH [OF n(2), of ?m] less.prems(3) m1 by (auto simp: mapped_move)
    have "move_spec (move_spec m (d + k + (l - k)) (s + k + (l - k)) 8) (d + k) (s + k) (l - k)
        = move_spec m (d + k) (s + k) (l - k + 8)"
      using less.prems(3) by (intro move_spec_down) simp
    then have "copy_words_down m (d + n) (s + n) n =
        Some (move_spec m (d + k) (s + k) (n - k), d + k, s + k, k)"
      using n k cp by (subst copy_words_down.simps) simp
    then show ?thesis using k(1) n by (intro exI [of _ k]) auto
  next
    case False
    then show ?thesis by (subst copy_words_down.simps) (auto intro: exI [of _ n])
  qed
qed

lemma copy_head_down_move:
  "mapped m d n \<Longrightarrow> mapped m s n \<Longrightarrow> s \<le> d \<Longrightarrow> 8 \<le> n + r \<Longrightarrow> (d + n) mod 8 + r \<le> 8 \<Longrightarrow>
   \<exists>k\<le>n. copy_head_down m (d + n) (s + n) n =
     Some (move_spec m (d + k) (s + k) (n - k), d + k, s + k, k)"
proof (induction n arbitrary: m r)
  case 0
  then have "\<not> rt_unaligned d" by (simp add: rt_unaligned_def)
  then show ?case by (subst copy_head_down.simps) simp
next
  case (Suc n)
  show ?case
  proof (cases "rt_unaligned (d + Suc n)")
    case True
    let ?m = "move_spec m (d + n) (s + n) 1"
    have m1: "m (d + n) \<noteq> None" "m (s + n) \<noteq> None" "mapped m d n" "mapped m s n" "mapped m (s + n) 1"
      using Suc.prems by (auto simp: mapped_def)
    have cp: "cp8 m (d + n) (s + n) = Some ?m" using m1 by (simp add: cp8_move)
    have "(d + n) mod 8 + Suc r \<le> 8" using True Suc.prems(5)
      by (auto simp: rt_unaligned_def mod_Suc split: if_splits)
    then obtain k where k: "k \<le> n" "copy_head_down ?m (d + n) (s + n) n =
        Some (move_spec ?m (d + k) (s + k) (n - k), d + k, s + k, k)"
      using Suc.IH [of ?m "Suc r"] Suc.prems m1 by (auto simp: mapped_move)
    have "move_spec (move_spec m (d + k + (n - k)) (s + k + (n - k)) 1) (d + k) (s + k) (n - k)
        = move_spec m (d + k) (s + k) (n - k + 1)"
      using Suc.prems(3) by (intro move_spec_down) simp
    then have "copy_head_down m (d + Suc n) (s + Suc n) (Suc n) =
        Some (move_spec m (d + k) (s + k) (Suc n - k), d + k, s + k, k)"
      using True k cp by (subst copy_head_down.simps) (simp add: Suc_diff_le)
    then show ?thesis using k(1) by (intro exI [of _ k]) auto
  next
    case False
    then show ?thesis by (subst copy_head_down.simps) (auto intro: exI [of _ "Suc n"])
  qed
qed

lemma memmove_down:
  assumes m: "mapped m d n" "mapped m s n" and sd: "s \<le> d" and n: "n \<ge> 16"
  shows "Option.bind
          (Option.bind (copy_head_down m (d + n) (s + n) n)
                  (\<lambda>(m, a, b, n). copy_words_down m a b n))
          (\<lambda>(m, a, b, n). copy_bytes_down m a b n) = Some (move_spec m d s n)"
proof -
  have dec: "mapped M d k" "mapped M s k" if "k \<le> n" "M = move_spec m (d + k) (s + k) (n - k)" for M k
    using m that mapped_sub [of m d n 0 k] mapped_sub [of m s n 0 k] mapped_sub [of m s n k "n - k"]
    by (simp_all add: mapped_move)
  have j: "move_spec (move_spec m (d + k) (s + k) (n - k)) (d + l) (s + l) (k - l) =
      move_spec m (d + l) (s + l) (n - l)" if "l \<le> k" "k \<le> n" for k l
    using move_spec_down [of "s + l" "d + l" m "k - l" "n - k"] sd that by simp
  have "(d + n) mod 8 + 0 \<le> 8" by (simp add: less_imp_le)
  then obtain k where k: "k \<le> n" "copy_head_down m (d + n) (s + n) n =
      Some (move_spec m (d + k) (s + k) (n - k), d + k, s + k, k)"
    using copy_head_down_move [OF m sd, of 0] n by auto
  let ?m = "move_spec m (d + k) (s + k) (n - k)"
  obtain l where l: "l \<le> k" "copy_words_down ?m (d + k) (s + k) k =
      Some (move_spec ?m (d + l) (s + l) (k - l), d + l, s + l, l)"
    using copy_words_down_move [OF dec(1,2) [OF k(1) refl] sd] by auto
  let ?m2 = "move_spec m (d + l) (s + l) (n - l)"
  have "copy_bytes_down ?m2 (d + l) (s + l) l = Some (move_spec ?m2 d s l)"
    using dec [of l ?m2] l(1) k(1) sd by (intro copy_bytes_down_move) auto
  moreover have "move_spec ?m2 d s l = move_spec m d s n"
    using j [of 0 l] l(1) k(1) by simp
  ultimately show ?thesis using k(2) l(2) j [OF l(1) k(1)] by simp
qed

text \<open>
  C30. \<open>memmove\<close> returns, without a fault, whenever both buffers are mapped, and leaves in the
  destination the bytes the source held before the call, for every overlap of the two and every
  alignment; nothing else changes.
\<close>

theorem memmove_correct:
  assumes m: "mapped m d n" "mapped m s n"
  shows "memmove m d s n = Some (move_spec m d s n)"
proof (cases "d = s \<or> n = 0")
  case True
  then show ?thesis by (auto simp: memmove_def move_spec_def fun_eq_iff)
next
  case False
  show ?thesis
  proof (cases "d < s")
    case True
    then have "memmove m d s n = memcpy m d s n"
      using False by (simp add: memmove_def memcpy_def)
    then show ?thesis using m True by (simp add: memcpy_move up_ok_def)
  next
    case False2: False
    then have "s \<le> d" by simp
    show ?thesis
    proof (cases "n \<ge> 16")
      case True
      then show ?thesis using memmove_down [OF m \<open>s \<le> d\<close> True] False False2
        by (simp add: memmove_def)
    next
      case F3: False
      then show ?thesis using copy_bytes_down_move [OF m \<open>s \<le> d\<close>] False False2
        by (simp add: memmove_def)
    qed
  qed
qed

theorem memmove_witness:
  "memmove (\<lambda>a. Some (of_nat a)) 3 1 40 = Some (move_spec (\<lambda>a. Some (of_nat a)) 3 1 40) \<and>
   move_spec (\<lambda>a. Some (of_nat a)) 3 1 40 (12 :: nat) = Some (10 :: u8)"
  using memmove_correct [of "\<lambda>a. Some (of_nat a)" 3 40 1] by (simp add: mapped_def move_spec_def)

section \<open>memset\<close>

function set_head :: "mem \<Rightarrow> nat \<Rightarrow> u8 \<Rightarrow> nat \<Rightarrow> (mem \<times> nat \<times> nat) option" where
  "set_head m p c n =
     (if rt_unaligned p
      then Option.bind (store8 m p c) (\<lambda>m. set_head m (p + 1) c (n - 1))
      else Some (m, p, n))"
  by pat_completeness auto
termination
  by (relation "measure (\<lambda>(m, p, c, n). to_align p)") (auto simp: to_align_Suc)

function set_words :: "mem \<Rightarrow> nat \<Rightarrow> u64 \<Rightarrow> nat \<Rightarrow> (mem \<times> nat \<times> nat) option" where
  "set_words m p w n =
     (if n \<ge> 8
      then Option.bind (store64 m p w) (\<lambda>m. set_words m (p + 8) w (n - 8))
      else Some (m, p, n))"
  by pat_completeness auto
termination
  by (relation "measure (\<lambda>(m, p, w, n). n)") auto

fun set_bytes :: "mem \<Rightarrow> nat \<Rightarrow> u8 \<Rightarrow> nat \<Rightarrow> mem option" where
  "set_bytes m p c 0 = Some m"
| "set_bytes m p c (Suc n) = Option.bind (store8 m p c) (\<lambda>m. set_bytes m (p + 1) c n)"

declare set_head.simps [simp del] set_words.simps [simp del]

definition memset :: "mem \<Rightarrow> nat \<Rightarrow> u8 \<Rightarrow> nat \<Rightarrow> mem option" where
  "memset m d c n =
     Option.bind
       (if n \<ge> 16
        then Option.bind (set_head m d c n)
               (\<lambda>(m, p, n). set_words m p (ucast c * RT_ONES) n)
        else Some (m, d, n))
       (\<lambda>(m, p, n). set_bytes m p c n)"

lemma repeated_byte: "ucast c * RT_ONES = u64_of_bytes (replicate 8 c)"
proof -
  have o: "ucast c * RT_ONES = word_of_int (uint c * 0x0101010101010101)"
    by (simp add: RT_ONES_def)
  have "replicate 8 c = [c, c, c, c, c, c, c, c]"
    by (simp add: numeral_eq_Suc)
  then have "uint c * 0x0101010101010101 = horner_sum uint 256 (replicate 8 c)"
    by simp
  then show ?thesis unfolding o by (simp add: u64_of_bytes_def)
qed

lemma put_append: "put (put m a xs) (a + length xs) ys = put m a (xs @ ys)"
  by (rule ext) (auto simp: put_def nth_append)

lemma set_bytes_put: "mapped m p n \<Longrightarrow> set_bytes m p c n = Some (put m p (replicate n c))"
proof (induction n arbitrary: m p)
  case (Suc n)
  then have "m p \<noteq> None" "mapped (m(p \<mapsto> c)) (p + 1) n"
    by (simp_all add: mapped_Suc mapped_upd)
  with Suc.IH show ?case by (simp add: store8_def put_Cons)
qed simp

lemma set_head_put:
  "mapped m p n \<Longrightarrow> to_align p \<le> n \<Longrightarrow>
   set_head m p c n = Some (put m p (replicate (to_align p) c), p + to_align p, n - to_align p)"
proof (induction m p c n rule: set_head.induct)
  case (1 m p c n)
  show ?case
  proof (cases "rt_unaligned p")
    case True
    then obtain n' where n: "n = Suc n'" "to_align (Suc p) \<le> n'"
      using "1.prems"(2) to_align_Suc by (cases n) auto
    define m' where "m' = m(p \<mapsto> c)"
    have st: "store8 m p c = Some m'" and "mapped m' (Suc p) n'"
      using "1.prems"(1) n by (simp_all add: m'_def store8_def mapped_Suc mapped_upd)
    then have "set_head m' (p + 1) c n' =
        Some (put m' (Suc p) (replicate (to_align (Suc p)) c), Suc p + to_align (Suc p),
          n' - to_align (Suc p))"
      using "1.IH" [OF True st] n by simp
    with st n True show ?thesis
      by (subst set_head.simps) (simp add: to_align_Suc put_Cons m'_def)
  next
    case False
    then show ?thesis by (subst set_head.simps) (simp add: to_align_0)
  qed
qed

lemma set_words_put:
  "mapped m p n \<Longrightarrow>
   \<exists>k\<le>n. set_words m p (u64_of_bytes (replicate 8 c)) n =
     Some (put m p (replicate k c), p + k, n - k)"
proof (induction n arbitrary: m p rule: less_induct)
  case (less n)
  show ?case
  proof (cases "n \<ge> 8")
    case True
    let ?m = "put m p (replicate 8 c)"
    have m: "mapped m p 8" "mapped ?m (p + 8) (n - 8)"
      using less.prems True mapped_sub [of m p n 0 8] mapped_sub [of m p n 8 "n - 8"]
      by (simp_all add: mapped_put)
    have st: "store64 m p (u64_of_bytes (replicate 8 c)) = Some ?m"
      using m(1) by (simp add: store64_put)
    obtain k where k: "k \<le> n - 8" "set_words ?m (p + 8) (u64_of_bytes (replicate 8 c)) (n - 8) =
        Some (put ?m (p + 8) (replicate k c), p + 8 + k, n - 8 - k)"
      using less.IH [of "n - 8" ?m "p + 8"] m(2) True by auto
    have "put ?m (p + 8) (replicate k c) = put m p (replicate (8 + k) c)"
      using put_append [of m p "replicate 8 c" "replicate k c"] by (simp add: replicate_add)
    then show ?thesis
      using True st k by (subst set_words.simps) (auto intro!: exI [of _ "8 + k"] simp: add.assoc)
  next
    case False
    then show ?thesis by (subst set_words.simps) (auto intro: exI [of _ 0])
  qed
qed

lemma memset_put:
  assumes m: "mapped m d n"
  shows "memset m d c n = Some (put m d (replicate n c))"
proof (cases "n \<ge> 16")
  case False
  then show ?thesis using m by (simp add: memset_def set_bytes_put)
next
  case True
  let ?k = "to_align d"
  have k: "?k \<le> n" using to_align_less [of d] True by simp
  let ?m = "put m d (replicate ?k c)"
  have "mapped ?m (d + ?k) (n - ?k)" using m k by (intro mapped_put mapped_sub [of m d n]) auto
  then obtain l where l: "l \<le> n - ?k"
      "set_words ?m (d + ?k) (u64_of_bytes (replicate 8 c)) (n - ?k) =
        Some (put ?m (d + ?k) (replicate l c), d + ?k + l, n - ?k - l)"
    using set_words_put by blast
  have a: "put ?m (d + ?k) (replicate l c) = put m d (replicate (?k + l) c)"
    using put_append [of m d "replicate ?k c" "replicate l c"] by (simp add: replicate_add)
  let ?m2 = "put m d (replicate (?k + l) c)"
  have "mapped ?m2 (d + (?k + l)) (n - (?k + l))"
    using m k l by (intro mapped_put mapped_sub [of m d n]) auto
  then have "set_bytes ?m2 (d + (?k + l)) c (n - (?k + l)) =
      Some (put ?m2 (d + (?k + l)) (replicate (n - (?k + l)) c))"
    by (rule set_bytes_put)
  also have "put ?m2 (d + (?k + l)) (replicate (n - (?k + l)) c) = put m d (replicate n c)"
    using put_append [of m d "replicate (?k + l) c" "replicate (n - (?k + l)) c"] k l
    by (simp add: replicate_add [symmetric])
  finally show ?thesis
    using True set_head_put [OF m k, of c] l(2) a
    by (simp add: memset_def repeated_byte add.assoc)
qed

section \<open>memcmp\<close>

function cmp_words :: "mem \<Rightarrow> nat \<Rightarrow> nat \<Rightarrow> nat \<Rightarrow> (nat \<times> nat \<times> nat) option" where
  "cmp_words m x y n =
     (if n \<ge> 8
      then Option.bind (load64 m x) (\<lambda>v. Option.bind (load64 m y) (\<lambda>w.
             if v \<noteq> w then Some (x, y, n) else cmp_words m (x + 8) (y + 8) (n - 8)))
      else Some (x, y, n))"
  by pat_completeness auto
termination
  by (relation "measure (\<lambda>(m, x, y, n). n)") auto

fun cmp_tail :: "mem \<Rightarrow> nat \<Rightarrow> nat \<Rightarrow> nat \<Rightarrow> int option" where
  "cmp_tail m x y 0 = Some 0"
| "cmp_tail m x y (Suc n) =
     Option.bind (m x) (\<lambda>v. Option.bind (m y) (\<lambda>w.
       if v \<noteq> w then Some (uint v - uint w) else cmp_tail m (x + 1) (y + 1) n))"

declare cmp_words.simps [simp del]

definition memcmp :: "mem \<Rightarrow> nat \<Rightarrow> nat \<Rightarrow> nat \<Rightarrow> int option" where
  "memcmp m a b n = Option.bind (cmp_words m a b n) (\<lambda>(x, y, n). cmp_tail m x y n)"

fun byte_diff :: "u8 list \<Rightarrow> u8 list \<Rightarrow> int" where
  "byte_diff (v # vs) (w # ws) = (if v \<noteq> w then uint v - uint w else byte_diff vs ws)"
| "byte_diff _ _ = 0"

lemma bytes_at_Suc: "bytes_at m a (Suc n) = the (m a) # bytes_at m (a + 1) n"
  by (rule nth_equalityI) (simp_all add: bytes_at_def nth_Cons split: nat.split del: upt_Suc)

lemma bytes_at_split: "k \<le> n \<Longrightarrow> bytes_at m a n = bytes_at m a k @ bytes_at m (a + k) (n - k)"
  by (rule nth_equalityI) (auto simp: bytes_at_def nth_append)

lemma byte_diff_zero: "length vs = length ws \<Longrightarrow> byte_diff vs ws = 0 \<longleftrightarrow> vs = ws"
  by (induction vs ws rule: byte_diff.induct) (auto simp: word_uint_eq_iff)

lemma byte_diff_same_prefix: "byte_diff (xs @ ys) (xs @ zs) = byte_diff ys zs"
  by (induction xs) auto

lemma u64_of_bytes_inj:
  "length xs = 8 \<Longrightarrow> length ys = 8 \<Longrightarrow> u64_of_bytes xs = u64_of_bytes ys \<longleftrightarrow> xs = ys"
  by (metis bytes_of_u64_of_bytes)

lemma cmp_tail_diff:
  "mapped m x n \<Longrightarrow> mapped m y n \<Longrightarrow>
   cmp_tail m x y n = Some (byte_diff (bytes_at m x n) (bytes_at m y n))"
proof (induction n arbitrary: x y)
  case 0
  show ?case by (simp add: bytes_at_def)
next
  case (Suc n)
  then show ?case by (auto simp: mapped_Suc bytes_at_Suc)
qed

lemma memcmp_diff:
  "mapped m a n \<Longrightarrow> mapped m b n \<Longrightarrow>
   memcmp m a b n = Some (byte_diff (bytes_at m a n) (bytes_at m b n))"
proof (induction n arbitrary: a b rule: less_induct)
  case (less n)
  show ?case
  proof (cases "n \<ge> 8")
    case True
    have m: "mapped m a 8" "mapped m b 8" "mapped m (a + 8) (n - 8)" "mapped m (b + 8) (n - 8)"
      using less.prems True mapped_sub [of m a n 0 8] mapped_sub [of m b n 0 8]
        mapped_sub [of m a n 8 "n - 8"] mapped_sub [of m b n 8 "n - 8"] by simp_all
    show ?thesis
    proof (cases "bytes_at m a 8 = bytes_at m b 8")
      case eq: True
      then have "memcmp m a b n = memcmp m (a + 8) (b + 8) (n - 8)"
        using True m by (simp add: memcmp_def cmp_words.simps [of m a b] load64_mapped)
      also have "\<dots> = Some (byte_diff (bytes_at m (a + 8) (n - 8)) (bytes_at m (b + 8) (n - 8)))"
        using less.IH [of "n - 8"] m True by simp
      finally show ?thesis
        using eq bytes_at_split [OF True, of m a] bytes_at_split [OF True, of m b]
        by (simp add: byte_diff_same_prefix)
    next
      case False
      then have "cmp_words m a b n = Some (a, b, n)"
        using True m by (simp add: cmp_words.simps [of m a b] load64_mapped u64_of_bytes_inj)
      then show ?thesis using less.prems by (simp add: memcmp_def cmp_tail_diff)
    qed
  next
    case False
    then show ?thesis
      using less.prems by (simp add: memcmp_def cmp_words.simps [of m a b] cmp_tail_diff)
  qed
qed

text \<open>
  \<open>memset\<close> fills exactly its buffer and \<open>memcmp\<close> returns the difference of the first bytes that
  differ, zero when none does; both return without a fault on mapped buffers.
\<close>

theorem memset_memcmp_correct:
  assumes "mapped m a n" "mapped m b n"
  shows "memset m a c n = Some (put m a (replicate n c)) \<and>
    memcmp m a b n = Some (byte_diff (bytes_at m a n) (bytes_at m b n)) \<and>
    (memcmp m a b n = Some 0 \<longleftrightarrow> bytes_at m a n = bytes_at m b n)"
  using assms memset_put memcmp_diff byte_diff_zero [of "bytes_at m a n" "bytes_at m b n"] by simp

theorem memset_memcmp_witness:
  "memset (\<lambda>a. Some (of_nat a)) 3 7 20 = Some (put (\<lambda>a. Some (of_nat a)) 3 (replicate 20 7)) \<and>
   memcmp (\<lambda>a. Some (of_nat a)) 3 4 20 = Some (- 1)"
  using memset_memcmp_correct [of "\<lambda>a. Some (of_nat a)" 3 20 4 7]
  by (simp add: mapped_def bytes_at_def upt_conv_Cons)

end
