(* ===== verification/Rt_Str.thy ===== *)
theory Rt_Str
  imports Rt_Mem
begin

text \<open>
  The string routines of \<open>src/rt/rt.c\<close>: \<open>strlen\<close>, \<open>cng_strnlen\<close>, \<open>strcmp\<close>, \<open>strncmp\<close>, \<open>strchr\<close>,
  \<open>strrchr\<close> and \<open>cng_strlcpy\<close>. The scans without a bound are partial functions (a string without a
  terminator runs off the mapping, which is \<open>None\<close>); on a terminated string each is shown to
  return, and to return what the byte-at-a-time definition does.
\<close>

section \<open>Strings in memory\<close>

text \<open>
  \<open>strz m p n\<close>: a string of \<open>n\<close> bytes starts at \<open>p\<close>. \<open>word_granular\<close> is the one fact about
  mappings the scans rely on: an aligned word is mapped as a whole or not at all, since pages are
  a multiple of eight bytes. With it, a scan that loads whole words faults only where the byte
  scan would.
\<close>

definition strz :: "mem \<Rightarrow> nat \<Rightarrow> nat \<Rightarrow> bool" where
  "strz m p n \<longleftrightarrow> (\<forall>i<n. m (p + i) \<noteq> None \<and> m (p + i) \<noteq> Some 0) \<and> m (p + n) = Some 0"

definition word_granular :: "mem \<Rightarrow> bool" where
  "word_granular m \<longleftrightarrow> (\<forall>a b. a div 8 = b div 8 \<longrightarrow> (m a = None) = (m b = None))"

lemma strz_Suc: "strz m p (Suc n) \<longleftrightarrow> m p \<noteq> None \<and> m p \<noteq> Some 0 \<and> strz m (p + 1) n"
  by (auto simp: strz_def less_Suc_eq_0_disj)

lemma strz_0: "strz m p 0 \<longleftrightarrow> m p = Some 0"
  by (simp add: strz_def)

lemma strz_shift: "strz m p (k + n) \<Longrightarrow> strz m (p + k) n"
  by (auto simp: strz_def add.assoc)

lemma granular_mapped:
  assumes "word_granular m" "\<not> rt_unaligned w" "m (w + j) \<noteq> None" "j < 8"
  shows "mapped m w 8"
  unfolding mapped_def
proof (intro allI impI)
  fix i :: nat assume "i < 8"
  obtain q where w: "w = 8 * q"
    using assms(2) by (auto simp: rt_unaligned_def mod_eq_0_iff_dvd elim: dvdE)
  then have "(w + i) div 8 = (w + j) div 8" using \<open>i < 8\<close> assms(4) by simp
  then show "m (w + i) \<noteq> None" using assms(1,3) unfolding word_granular_def by metis
qed

lemma zero_in_bytes_at:
  "mapped m w 8 \<Longrightarrow> 0 \<in> set (bytes_at m w 8) \<longleftrightarrow> (\<exists>i<8. m (w + i) = Some 0)"
  by (force simp: bytes_at_def mapped_def image_iff)

lemma has_zero_load:
  "mapped m w 8 \<Longrightarrow> \<exists>v. load64 m w = Some v \<and> (RT_HAS_ZERO v = 0 \<longleftrightarrow> (\<forall>i<8. m (w + i) \<noteq> Some 0))"
  by (simp add: load64_mapped RT_HAS_ZERO_bytes zero_in_bytes_at)

section \<open>strlen\<close>

function strlen_head :: "mem \<Rightarrow> nat \<Rightarrow> (nat + nat) option" where
  "strlen_head m p =
     (if rt_unaligned p
      then Option.bind (m p) (\<lambda>c. if c = 0 then Some (Inl p) else strlen_head m (p + 1))
      else Some (Inr p))"
  by pat_completeness auto
termination
  by (relation "measure (\<lambda>(m, p). to_align p)") (auto simp: to_align_Suc)

partial_function (option) strlen_words :: "mem \<Rightarrow> nat \<Rightarrow> nat option" where
  "strlen_words m w =
     Option.bind (load64 m w) (\<lambda>v. if RT_HAS_ZERO v = 0 then strlen_words m (w + 8) else Some w)"

partial_function (option) strlen_tail :: "mem \<Rightarrow> nat \<Rightarrow> nat option" where
  "strlen_tail m p = Option.bind (m p) (\<lambda>c. if c = 0 then Some p else strlen_tail m (p + 1))"

declare strlen_head.simps [simp del]

definition strlen :: "mem \<Rightarrow> nat \<Rightarrow> nat option" where
  "strlen m s = Option.bind (strlen_head m s) (\<lambda>r. case r of
       Inl p \<Rightarrow> Some (p - s)
     | Inr p \<Rightarrow> Option.bind (strlen_words m p) (\<lambda>w.
                 Option.bind (strlen_tail m w) (\<lambda>p. Some (p - s))))"

lemma strlen_head_strz:
  "strz m p n \<Longrightarrow> strlen_head m p =
     Some (if n < to_align p then Inl (p + n) else Inr (p + to_align p))"
proof (induction m p arbitrary: n rule: strlen_head.induct)
  case (1 m p)
  show ?case
  proof (cases "rt_unaligned p")
    case True
    note a = to_align_Suc [OF True]
    show ?thesis
    proof (cases n)
      case 0
      with "1.prems" True a show ?thesis by (subst strlen_head.simps) (simp add: strz_0)
    next
      case (Suc n')
      then obtain c where c: "m p = Some c" "c \<noteq> 0" "strz m (p + 1) n'"
        using "1.prems" by (auto simp: strz_Suc)
      from "1.IH" [OF True c(1,2,3)] c True Suc a show ?thesis
        by (subst strlen_head.simps) simp
    qed
  next
    case False
    then show ?thesis by (subst strlen_head.simps) (simp add: to_align_0)
  qed
qed

lemma aligned_add8: "\<not> rt_unaligned w \<Longrightarrow> \<not> rt_unaligned (w + 8)"
  by (simp add: rt_unaligned_def)

lemma aligned_to_align: "\<not> rt_unaligned (p + to_align p)"
proof -
  define q r where "q = p div 8" and "r = p mod 8"
  have "p = 8 * q + r" "r < 8" by (simp_all add: q_def r_def)
  then have "p + (8 - r) = 8 * (q + 1)" "r = 0 \<Longrightarrow> p mod 8 = 0" by simp_all
  then show ?thesis
    using \<open>r < 8\<close> by (cases "r = 0") (simp_all add: rt_unaligned_def to_align_def r_def [symmetric])
qed

lemma strlen_words_strz:
  assumes "word_granular m"
  shows "strz m w n \<Longrightarrow> \<not> rt_unaligned w \<Longrightarrow>
     \<exists>k. strlen_words m w = Some (w + k) \<and> k \<le> n \<and> strz m (w + k) (n - k)"
proof (induction n arbitrary: w rule: less_induct)
  case (less n)
  have "m (w + 0) \<noteq> None" using less.prems(1) by (cases n) (auto simp: strz_0 strz_Suc)
  then have "mapped m w 8" using assms less.prems(2) by (intro granular_mapped [of m w 0]) auto
  then obtain v where v: "load64 m w = Some v" "RT_HAS_ZERO v = 0 \<longleftrightarrow> (\<forall>i<8. m (w + i) \<noteq> Some 0)"
    using has_zero_load by blast
  show ?case
  proof (cases "8 \<le> n")
    case True
    then have "RT_HAS_ZERO v = 0" using v(2) less.prems(1) unfolding strz_def by auto
    moreover have "strz m (w + 8) (n - 8)" using less.prems(1) True by (intro strz_shift) simp
    ultimately obtain k where "strlen_words m (w + 8) = Some (w + 8 + k)" "k \<le> n - 8"
        "strz m (w + 8 + k) (n - 8 - k)"
      using less.IH [of "n - 8" "w + 8"] aligned_add8 less.prems(2) True by auto
    with v(1) \<open>RT_HAS_ZERO v = 0\<close> True show ?thesis
      by (subst strlen_words.simps) (auto intro!: exI [of _ "8 + k"] simp: add.assoc)
  next
    case False
    then have "RT_HAS_ZERO v \<noteq> 0"
      using v(2) less.prems(1) unfolding strz_def by (auto intro!: exI [of _ n])
    with v(1) less.prems(1) show ?thesis
      by (subst strlen_words.simps) (auto intro!: exI [of _ 0])
  qed
qed

lemma strlen_tail_strz: "strz m p n \<Longrightarrow> strlen_tail m p = Some (p + n)"
proof (induction n arbitrary: p)
  case 0
  then show ?case by (subst strlen_tail.simps) (simp add: strz_0)
next
  case (Suc n)
  then obtain c where "m p = Some c" "c \<noteq> 0" "strz m (p + 1) n" by (auto simp: strz_Suc)
  with Suc.IH show ?case by (subst strlen_tail.simps) simp
qed

lemma strlen_strz:
  assumes "word_granular m" "strz m s n"
  shows "strlen m s = Some n"
proof (cases "n < to_align s")
  case True
  then show ?thesis using assms by (simp add: strlen_def strlen_head_strz)
next
  case False
  let ?p = "s + to_align s"
  have "strz m ?p (n - to_align s)" using assms(2) False by (intro strz_shift) simp
  moreover have "\<not> rt_unaligned ?p" by (rule aligned_to_align)
  ultimately obtain k where k: "strlen_words m ?p = Some (?p + k)" "k \<le> n - to_align s"
      "strz m (?p + k) (n - to_align s - k)"
    using strlen_words_strz [OF assms(1)] by blast
  from strlen_tail_strz [OF k(3)] k(1,2) assms False show ?thesis
    by (simp add: strlen_def strlen_head_strz)
qed

section \<open>cng_strnlen\<close>

function strnlen_head :: "mem \<Rightarrow> nat \<Rightarrow> nat \<Rightarrow> nat \<Rightarrow> (nat + nat) option" where
  "strnlen_head m s mx i =
     (if i < mx \<and> rt_unaligned (s + i)
      then Option.bind (m (s + i)) (\<lambda>c. if c = 0 then Some (Inl i) else strnlen_head m s mx (i + 1))
      else Some (Inr i))"
  by pat_completeness auto
termination
  by (relation "measure (\<lambda>(m, s, mx, i). mx - i)") auto

function strnlen_words :: "mem \<Rightarrow> nat \<Rightarrow> nat \<Rightarrow> nat \<Rightarrow> nat option" where
  "strnlen_words m s mx i =
     (if mx - i \<ge> 8
      then Option.bind (load64 m (s + i)) (\<lambda>v.
             if RT_HAS_ZERO v = 0 then strnlen_words m s mx (i + 8) else Some i)
      else Some i)"
  by pat_completeness auto
termination
  by (relation "measure (\<lambda>(m, s, mx, i). mx - i)") auto

function strnlen_tail :: "mem \<Rightarrow> nat \<Rightarrow> nat \<Rightarrow> nat \<Rightarrow> nat option" where
  "strnlen_tail m s mx i =
     (if i < mx
      then Option.bind (m (s + i)) (\<lambda>c. if c = 0 then Some i else strnlen_tail m s mx (i + 1))
      else Some i)"
  by pat_completeness auto
termination
  by (relation "measure (\<lambda>(m, s, mx, i). mx - i)") auto

declare strnlen_head.simps [simp del] strnlen_words.simps [simp del] strnlen_tail.simps [simp del]

definition cng_strnlen :: "mem \<Rightarrow> nat \<Rightarrow> nat \<Rightarrow> nat option" where
  "cng_strnlen m s mx = Option.bind (strnlen_head m s mx 0) (\<lambda>r. case r of
       Inl i \<Rightarrow> Some i
     | Inr i \<Rightarrow> Option.bind (strnlen_words m s mx i) (strnlen_tail m s mx))"

definition strnz :: "mem \<Rightarrow> nat \<Rightarrow> nat \<Rightarrow> nat \<Rightarrow> bool" where
  "strnz m s mx k \<longleftrightarrow> k \<le> mx \<and> (\<forall>i<k. m (s + i) \<noteq> None \<and> m (s + i) \<noteq> Some 0) \<and>
     (k < mx \<longrightarrow> m (s + k) = Some 0)"

lemma strnz_step:
  assumes "strnz m s mx k" "i \<le> k" "i \<noteq> k"
  obtains c where "m (s + i) = Some c" "c \<noteq> 0" "i < mx" "i + 1 \<le> k"
proof -
  have "m (s + i) \<noteq> None \<and> m (s + i) \<noteq> Some 0" "i < mx" "i + 1 \<le> k"
    using assms by (auto simp: strnz_def)
  then show thesis using that by auto
qed

lemma uint_eq_iff: "(uint x = uint y) = (x = y)"
  by (simp add: word_uint_eq_iff)

lemma strnlen_head_strnz:
  "strnz m s mx k \<Longrightarrow> i \<le> k \<Longrightarrow>
   strnlen_head m s mx i = Some (Inl k) \<or>
   (\<exists>j. i \<le> j \<and> j \<le> k \<and> (j < mx \<longrightarrow> \<not> rt_unaligned (s + j)) \<and> strnlen_head m s mx i = Some (Inr j))"
proof (induction m s mx i rule: strnlen_head.induct)
  case (1 m s mx i)
  show ?case
  proof (cases "i < mx \<and> rt_unaligned (s + i)")
    case True
    show ?thesis
    proof (cases "i = k")
      case ik: True
      then have "m (s + i) = Some 0" using "1.prems"(1) True by (simp add: strnz_def)
      with True ik show ?thesis by (subst strnlen_head.simps) simp
    next
      case False
      then obtain c where c: "m (s + i) = Some c" "c \<noteq> 0" "i + 1 \<le> k"
        using strnz_step "1.prems" by blast
      from "1.IH" [OF True c(1,2) "1.prems"(1) c(3)] True c show ?thesis
        by (subst (1 2) strnlen_head.simps) (auto intro: Suc_leD)
    qed
  next
    case False
    then have "strnlen_head m s mx i = Some (Inr i)" by (subst strnlen_head.simps) auto
    then show ?thesis using "1.prems"(2) False by auto
  qed
qed

lemma strnlen_words_strnz:
  assumes "word_granular m"
  shows "strnz m s mx k \<Longrightarrow> i \<le> k \<Longrightarrow> i < mx \<longrightarrow> \<not> rt_unaligned (s + i) \<Longrightarrow>
   \<exists>j. i \<le> j \<and> j \<le> k \<and> strnlen_words m s mx i = Some j"
proof (induction "mx - i" arbitrary: i rule: less_induct)
  case less
  show ?case
  proof (cases "mx - i \<ge> 8")
    case True
    have "m (s + i + 0) \<noteq> None" using less.prems True by (cases "i = k") (auto simp: strnz_def)
    then have "mapped m (s + i) 8"
      using assms less.prems(3) True by (intro granular_mapped [of m "s + i" 0]) auto
    then obtain v where v: "load64 m (s + i) = Some v"
        "RT_HAS_ZERO v = 0 \<longleftrightarrow> (\<forall>l<8. m (s + i + l) \<noteq> Some 0)"
      using has_zero_load by blast
    show ?thesis
    proof (cases "RT_HAS_ZERO v = 0")
      case z: True
      then have nz: "\<forall>l<8. m (s + i + l) \<noteq> Some 0" using v(2) by simp
      have "i + 8 \<le> k"
      proof (rule ccontr)
        assume "\<not> i + 8 \<le> k"
        then have "k - i < 8" "k < mx" using True by auto
        then have "m (s + i + (k - i)) = Some 0" using less.prems by (simp add: strnz_def)
        with nz \<open>k - i < 8\<close> show False by blast
      qed
      moreover have "i + 8 < mx \<longrightarrow> \<not> rt_unaligned (s + (i + 8))"
        using less.prems(3) True aligned_add8 [of "s + i"] by (simp add: add.assoc)
      moreover have "mx - (i + 8) < mx - i" using True by linarith
      ultimately obtain j where "i + 8 \<le> j" "j \<le> k" "strnlen_words m s mx (i + 8) = Some j"
        using less.hyps [of "i + 8"] less.prems(1) by blast
      with True v(1) z show ?thesis by (subst strnlen_words.simps) auto
    next
      case False
      with True v(1) less.prems(2) show ?thesis by (subst strnlen_words.simps) auto
    qed
  next
    case False
    with less.prems(2) show ?thesis by (subst strnlen_words.simps) auto
  qed
qed

lemma strnlen_tail_strnz: "strnz m s mx k \<Longrightarrow> i \<le> k \<Longrightarrow> strnlen_tail m s mx i = Some k"
proof (induction m s mx i rule: strnlen_tail.induct)
  case (1 m s mx i)
  show ?case
  proof (cases "i = k")
    case True
    with "1.prems"(1) show ?thesis by (subst strnlen_tail.simps) (auto simp: strnz_def)
  next
    case False
    then obtain c where c: "m (s + i) = Some c" "c \<noteq> 0" "i < mx" "i + 1 \<le> k"
      using strnz_step "1.prems" by blast
    with "1.IH" [OF c(3,1,2) "1.prems"(1) c(4)] show ?thesis by (subst strnlen_tail.simps) simp
  qed
qed

lemma cng_strnlen_strnz:
  assumes g: "word_granular m" and k: "strnz m s mx k"
  shows "cng_strnlen m s mx = Some k"
  using strnlen_head_strnz [OF k le0]
proof (elim disjE exE conjE)
  assume "strnlen_head m s mx 0 = Some (Inl k)"
  then show ?thesis by (simp add: cng_strnlen_def)
next
  fix j assume j: "j \<le> k" "j < mx \<longrightarrow> \<not> rt_unaligned (s + j)" "strnlen_head m s mx 0 = Some (Inr j)"
  then obtain l where "l \<le> k" "strnlen_words m s mx j = Some l"
    using strnlen_words_strnz [OF g k] by blast
  with j(3) strnlen_tail_strnz [OF k] show ?thesis by (simp add: cng_strnlen_def)
qed

section \<open>strcmp and strncmp\<close>

partial_function (option) strcmp :: "mem \<Rightarrow> nat \<Rightarrow> nat \<Rightarrow> int option" where
  "strcmp m a b =
     Option.bind (m a) (\<lambda>x. Option.bind (m b) (\<lambda>y.
       if x \<noteq> 0 \<and> x = y then strcmp m (a + 1) (b + 1) else Some (uint x - uint y)))"

fun strncmp :: "mem \<Rightarrow> nat \<Rightarrow> nat \<Rightarrow> nat \<Rightarrow> int option" where
  "strncmp m a b 0 = Some 0"
| "strncmp m a b (Suc n) =
     Option.bind (m a) (\<lambda>x. Option.bind (m b) (\<lambda>y.
       if x \<noteq> y then Some (uint x - uint y)
       else if x = 0 then Some 0
       else strncmp m (a + 1) (b + 1) n))"

definition str_bytes :: "mem \<Rightarrow> nat \<Rightarrow> u8 list \<Rightarrow> bool" where
  "str_bytes m p bs \<longleftrightarrow> strz m p (length bs) \<and> bytes_at m p (length bs) = bs"

lemma str_bytes_Nil: "str_bytes m p [] \<longleftrightarrow> m p = Some 0"
  by (simp add: str_bytes_def strz_0 bytes_at_def)

lemma str_bytes_Cons: "str_bytes m p (b # bs) \<longleftrightarrow> m p = Some b \<and> b \<noteq> 0 \<and> str_bytes m (p + 1) bs"
  by (auto simp: str_bytes_def strz_Suc bytes_at_Suc)

lemma strcmp_bytes:
  "str_bytes m a xs \<Longrightarrow> str_bytes m b ys \<Longrightarrow>
   strcmp m a b = Some (byte_diff (xs @ [0]) (ys @ [0]))"
proof (induction xs arbitrary: a b ys)
  case Nil
  then show ?case
    by (cases ys; subst strcmp.simps) (auto simp: str_bytes_Nil str_bytes_Cons)
next
  case (Cons x xs)
  show ?case
  proof (cases ys)
    case Nil
    with Cons.prems show ?thesis
      by (subst strcmp.simps) (auto simp: str_bytes_Nil str_bytes_Cons)
  next
    case (Cons y ys')
    with Cons.prems have "strcmp m (a + 1) (b + 1) = Some (byte_diff (xs @ [0]) (ys' @ [0]))"
      using Cons.IH [of "a + 1" "b + 1" ys'] by (auto simp: str_bytes_Cons)
    with Cons Cons.prems show ?thesis
      by (subst strcmp.simps) (auto simp: str_bytes_Cons)
  qed
qed

lemma strncmp_bytes:
  "str_bytes m a xs \<Longrightarrow> str_bytes m b ys \<Longrightarrow>
   strncmp m a b n = Some (byte_diff (take n (xs @ [0])) (take n (ys @ [0])))"
proof (induction n arbitrary: a b xs ys)
  case (Suc n)
  show ?case
  proof (cases "xs = [] \<or> ys = []")
    case True
    with Suc.prems show ?thesis
      by (cases xs; cases ys; cases n) (auto simp: str_bytes_Nil str_bytes_Cons)
  next
    case False
    then obtain x xs' y ys' where e: "xs = x # xs'" "ys = y # ys'" by (auto simp: neq_Nil_conv)
    with Suc.prems have
      "strncmp m (a + 1) (b + 1) n = Some (byte_diff (take n (xs' @ [0])) (take n (ys' @ [0])))"
      using Suc.IH [of "a + 1" xs' "b + 1" ys'] by (auto simp: str_bytes_Cons)
    with e Suc.prems show ?thesis by (auto simp: str_bytes_Cons)
  qed
qed simp

section \<open>strchr\<close>

lemma bit_u64_of_bytes:
  assumes "length bs = 8" "n < 64"
  shows "bit (u64_of_bytes bs) n \<longleftrightarrow> bit (bs ! (n div 8)) (n mod 8)"
  using assms bit_horner_sum_uint_exp_iff [of bs n]
  by (auto simp: u64_of_bytes_def bit_simps)

lemma u64_of_bytes_xor:
  assumes "length xs = 8"
  shows "u64_of_bytes xs XOR u64_of_bytes (replicate 8 c) = u64_of_bytes (map (\<lambda>b. b XOR c) xs)"
proof (rule bit_word_eqI)
  fix n assume "n < LENGTH(64)"
  then have "n < 64" "n div 8 < 8" by auto
  then show "bit (u64_of_bytes xs XOR u64_of_bytes (replicate 8 c)) n =
      bit (u64_of_bytes (map (\<lambda>b. b XOR c) xs)) n"
    using assms by (simp add: bit_u64_of_bytes bit_xor_iff)
qed

lemma u8_xor_eq_0: "(b XOR c = 0) \<longleftrightarrow> b = (c :: u8)"
proof
  assume "b XOR c = 0"
  then have "(b XOR c) XOR c = c" by simp
  then show "b = c" by (simp add: xor.assoc)
qed simp

lemma has_byte_load:
  assumes "mapped m w 8"
  obtains v where "load64 m w = Some v" "RT_HAS_ZERO v = 0 \<longleftrightarrow> (\<forall>i<8. m (w + i) \<noteq> Some 0)"
    "RT_HAS_ZERO (v XOR (ucast c * RT_ONES)) = 0 \<longleftrightarrow> (\<forall>i<8. m (w + i) \<noteq> Some c)"
proof
  let ?v = "u64_of_bytes (bytes_at m w 8)"
  show "load64 m w = Some ?v" using assms by (rule load64_mapped)
  show "RT_HAS_ZERO ?v = 0 \<longleftrightarrow> (\<forall>i<8. m (w + i) \<noteq> Some 0)"
    using assms by (simp add: RT_HAS_ZERO_bytes zero_in_bytes_at)
  have "0 \<in> set (map (\<lambda>b. b XOR c) (bytes_at m w 8)) \<longleftrightarrow> (\<exists>i<8. m (w + i) = Some c)"
    using assms by (force simp: bytes_at_def mapped_def image_iff u8_xor_eq_0)
  then show "RT_HAS_ZERO (?v XOR (ucast c * RT_ONES)) = 0 \<longleftrightarrow> (\<forall>i<8. m (w + i) \<noteq> Some c)"
    unfolding repeated_byte by (simp add: u64_of_bytes_xor RT_HAS_ZERO_bytes)
qed

function strchr_head :: "mem \<Rightarrow> nat \<Rightarrow> u8 \<Rightarrow> (nat option + nat) option" where
  "strchr_head m s ch =
     (if rt_unaligned s
      then Option.bind (m s) (\<lambda>c.
        if c = ch then Some (Inl (Some s))
        else if c = 0 then Some (Inl None)
        else strchr_head m (s + 1) ch)
      else Some (Inr s))"
  by pat_completeness auto
termination
  by (relation "measure (\<lambda>(m, s, ch). to_align s)") (auto simp: to_align_Suc)

partial_function (option) strchr_words :: "mem \<Rightarrow> nat \<Rightarrow> u64 \<Rightarrow> nat option" where
  "strchr_words m w pat =
     Option.bind (load64 m w) (\<lambda>v.
       if RT_HAS_ZERO v OR RT_HAS_ZERO (v XOR pat) \<noteq> 0 then Some w
       else strchr_words m (w + 8) pat)"

partial_function (option) strchr_tail :: "mem \<Rightarrow> nat \<Rightarrow> u8 \<Rightarrow> nat option option" where
  "strchr_tail m s ch = Option.bind (m s) (\<lambda>c.
     if c = ch then Some (Some s) else if c = 0 then Some None else strchr_tail m (s + 1) ch)"

declare strchr_head.simps [simp del]

definition strchr :: "mem \<Rightarrow> nat \<Rightarrow> u8 \<Rightarrow> nat option option" where
  "strchr m s ch =
     (if ch = 0 then map_option (\<lambda>n. Some (s + n)) (strlen m s)
      else Option.bind (strchr_head m s ch) (\<lambda>r. case r of
             Inl p \<Rightarrow> Some p
           | Inr p \<Rightarrow> Option.bind (strchr_words m p (ucast ch * RT_ONES))
                       (\<lambda>w. strchr_tail m w ch)))"

definition first_at :: "mem \<Rightarrow> nat \<Rightarrow> nat \<Rightarrow> u8 \<Rightarrow> nat option" where
  "first_at m s n ch =
     map_option (\<lambda>i. s + i) (List.find (\<lambda>i. m (s + i) = Some ch) [0..<n])"

lemma find_upt_Suc: "List.find P [0..<Suc n] = (if P 0 then Some 0 else map_option Suc (List.find (P \<circ> Suc) [0..<n]))"
proof -
  have "[0..<Suc n] = 0 # map Suc [0..<n]" by (simp add: map_Suc_upt upt_conv_Cons del: upt_Suc)
  moreover have "List.find P (map Suc xs) = map_option Suc (List.find (P \<circ> Suc) xs)" for xs
    by (induction xs) auto
  ultimately show ?thesis by simp
qed

lemma first_at_Suc:
  "first_at m s (Suc n) ch = (if m s = Some ch then Some s else first_at m (s + 1) n ch)"
  unfolding first_at_def find_upt_Suc by (auto simp: o_def option.map_comp intro!: option.map_cong)

lemma first_at_0: "first_at m s 0 ch = None"
  by (simp add: first_at_def)

lemma first_at_skip:
  "(\<And>i. i < k \<Longrightarrow> m (s + i) \<noteq> Some ch) \<Longrightarrow> k \<le> n \<Longrightarrow> first_at m s n ch = first_at m (s + k) (n - k) ch"
proof (induction k arbitrary: s n)
  case (Suc k)
  then obtain n' where n: "n = Suc n'" by (cases n) auto
  have "first_at m (s + 1) n' ch = first_at m (s + 1 + k) (n' - k) ch"
    using Suc.prems(1) [of "Suc _"] Suc.prems(2) n by (intro Suc.IH) auto
  then show ?case using Suc.prems(1) [of 0] n by (simp add: first_at_Suc)
qed simp

lemma strchr_tail_strz: "strz m s n \<Longrightarrow> ch \<noteq> 0 \<Longrightarrow> strchr_tail m s ch = Some (first_at m s n ch)"
proof (induction n arbitrary: s)
  case 0
  then show ?case by (subst strchr_tail.simps) (simp add: strz_0 first_at_0)
next
  case (Suc n)
  then show ?case by (subst strchr_tail.simps) (auto simp: strz_Suc first_at_Suc)
qed

lemma strchr_head_strz:
  "strz m s n \<Longrightarrow> ch \<noteq> 0 \<Longrightarrow>
   strchr_head m s ch = Some (Inl (first_at m s n ch)) \<or>
   (to_align s \<le> n \<and> strchr_head m s ch = Some (Inr (s + to_align s)) \<and>
    (\<forall>i<to_align s. m (s + i) \<noteq> Some ch))"
proof (induction m s ch arbitrary: n rule: strchr_head.induct)
  case (1 m s ch)
  show ?case
  proof (cases "rt_unaligned s")
    case True
    note a = to_align_Suc [OF True]
    show ?thesis
    proof (cases n)
      case 0
      with "1.prems" True show ?thesis
        by (subst strchr_head.simps) (simp add: strz_0 first_at_0)
    next
      case (Suc n')
      then obtain c where c: "m s = Some c" "c \<noteq> 0" "strz m (s + 1) n'"
        using "1.prems" by (auto simp: strz_Suc)
      show ?thesis
      proof (cases "c = ch")
        case True2: True
        with True c Suc show ?thesis by (subst strchr_head.simps) (simp add: first_at_Suc)
      next
        case False
        from "1.IH" [OF True c(1) False c(2,3) "1.prems"(2)] show ?thesis
          using True c Suc False a
          by (subst (1 2) strchr_head.simps) (auto simp: first_at_Suc less_Suc_eq_0_disj)
      qed
    qed
  next
    case False
    then show ?thesis by (subst (1 2) strchr_head.simps) (simp add: to_align_0)
  qed
qed

lemma or_eq_0: "(a OR b = 0) \<longleftrightarrow> a = 0 \<and> b = (0 :: u64)"
  by (fact or_eq_0_iff)

lemma strchr_words_strz:
  assumes g: "word_granular m"
  shows "strz m w n \<Longrightarrow> \<not> rt_unaligned w \<Longrightarrow>
     \<exists>k\<le>n. strchr_words m w (ucast ch * RT_ONES) = Some (w + k) \<and>
       (\<forall>i<k. m (w + i) \<noteq> Some ch) \<and> strz m (w + k) (n - k)"
proof (induction n arbitrary: w rule: less_induct)
  case (less n)
  have "m (w + 0) \<noteq> None" using less.prems(1) by (cases n) (auto simp: strz_0 strz_Suc)
  then have "mapped m w 8" using g less.prems(2) by (intro granular_mapped [of m w 0]) auto
  then obtain v where v: "load64 m w = Some v" "RT_HAS_ZERO v = 0 \<longleftrightarrow> (\<forall>i<8. m (w + i) \<noteq> Some 0)"
    "RT_HAS_ZERO (v XOR (ucast ch * RT_ONES)) = 0 \<longleftrightarrow> (\<forall>i<8. m (w + i) \<noteq> Some ch)"
    by (rule has_byte_load)
  show ?case
  proof (cases "RT_HAS_ZERO v OR RT_HAS_ZERO (v XOR (ucast ch * RT_ONES)) = 0")
    case True
    then have nz: "\<forall>i<8. m (w + i) \<noteq> Some 0" and nc: "\<forall>i<8. m (w + i) \<noteq> Some ch"
      using v by (auto simp: or_eq_0)
    have n8: "8 \<le> n" using nz less.prems(1) unfolding strz_def by (meson not_le)
    then have "strz m (w + 8) (n - 8)" using less.prems(1) by (intro strz_shift) simp
    then obtain k where k: "k \<le> n - 8" "strchr_words m (w + 8) (ucast ch * RT_ONES) = Some (w + 8 + k)"
        "\<forall>i<k. m (w + 8 + i) \<noteq> Some ch" "strz m (w + 8 + k) (n - 8 - k)"
      using less.IH [of "n - 8" "w + 8"] aligned_add8 less.prems(2) n8 by auto
    have "\<forall>i<8 + k. m (w + i) \<noteq> Some ch"
    proof (intro allI impI)
      fix i assume "i < 8 + k"
      show "m (w + i) \<noteq> Some ch"
        using nc k(3) \<open>i < 8 + k\<close> by (cases "i < 8") (auto dest: spec [of _ "i - 8"])
    qed
    with v(1) True k n8 show ?thesis
      by (subst strchr_words.simps) (auto intro!: exI [of _ "8 + k"] simp: add.assoc)
  next
    case False
    with v(1) less.prems(1) show ?thesis
      by (subst strchr_words.simps) (auto intro!: exI [of _ 0])
  qed
qed

lemma strchr_strz:
  assumes g: "word_granular m" and z: "strz m s n" and ch: "ch \<noteq> 0"
  shows "strchr m s ch = Some (first_at m s n ch)"
  using strchr_head_strz [OF z ch]
proof (elim disjE conjE)
  assume "strchr_head m s ch = Some (Inl (first_at m s n ch))"
  then show ?thesis using ch by (simp add: strchr_def)
next
  let ?a = "to_align s"
  assume h: "?a \<le> n" "strchr_head m s ch = Some (Inr (s + ?a))" "\<forall>i<?a. m (s + i) \<noteq> Some ch"
  have z2: "strz m (s + ?a) (n - ?a)" using z h(1) by (intro strz_shift) simp
  then obtain k where k: "k \<le> n - ?a" "strchr_words m (s + ?a) (ucast ch * RT_ONES) = Some (s + ?a + k)"
      "\<forall>i<k. m (s + ?a + i) \<noteq> Some ch" "strz m (s + ?a + k) (n - ?a - k)"
    using strchr_words_strz [OF g] aligned_to_align by blast
  have "first_at m s n ch = first_at m (s + ?a) (n - ?a) ch"
    using h by (intro first_at_skip) auto
  also have "\<dots> = first_at m (s + ?a + k) (n - ?a - k) ch"
    using k by (intro first_at_skip) auto
  finally show ?thesis using h(2) k(2) strchr_tail_strz [OF k(4) ch] ch by (simp add: strchr_def)
qed

section \<open>strrchr\<close>

function strrchr_head :: "mem \<Rightarrow> nat \<Rightarrow> u8 \<Rightarrow> nat option \<Rightarrow> (nat option + nat \<times> nat option) option" where
  "strrchr_head m s ch r =
     (if rt_unaligned s
      then Option.bind (m s) (\<lambda>c.
        let r' = (if c = ch then Some s else r)
        in if c = 0 then Some (Inl r') else strrchr_head m (s + 1) ch r')
      else Some (Inr (s, r)))"
  by pat_completeness auto
termination
  by (relation "measure (\<lambda>(m, s, ch, r). to_align s)") (auto simp: to_align_Suc)

declare strrchr_head.simps [simp del]

fun strrchr_word :: "mem \<Rightarrow> nat \<Rightarrow> u8 \<Rightarrow> nat option \<Rightarrow> nat \<Rightarrow> (nat option + nat option) option" where
  "strrchr_word m p ch r 0 = Some (Inr r)"
| "strrchr_word m p ch r (Suc k) = Option.bind (m p) (\<lambda>c.
     let r' = (if c = ch then Some p else r)
     in if c = 0 then Some (Inl r') else strrchr_word m (p + 1) ch r' k)"

partial_function (option) strrchr_words ::
    "mem \<Rightarrow> nat \<Rightarrow> u8 \<Rightarrow> nat option \<Rightarrow> nat option option" where
  "strrchr_words m w ch r =
     Option.bind (load64 m w) (\<lambda>v.
       if RT_HAS_ZERO v OR RT_HAS_ZERO (v XOR (ucast ch * RT_ONES)) = 0
       then strrchr_words m (w + 8) ch r
       else Option.bind (strrchr_word m w ch r 8) (\<lambda>x. case x of
              Inl r' \<Rightarrow> Some r' | Inr r' \<Rightarrow> strrchr_words m (w + 8) ch r'))"

definition strrchr :: "mem \<Rightarrow> nat \<Rightarrow> u8 \<Rightarrow> nat option option" where
  "strrchr m s ch =
     (if ch = 0 then map_option (\<lambda>n. Some (s + n)) (strlen m s)
      else Option.bind (strrchr_head m s ch None) (\<lambda>x. case x of
             Inl r \<Rightarrow> Some r
           | Inr (w, r) \<Rightarrow> strrchr_words m w ch r))"

fun last_at :: "mem \<Rightarrow> nat \<Rightarrow> nat \<Rightarrow> u8 \<Rightarrow> nat option \<Rightarrow> nat option" where
  "last_at m s 0 ch r = r"
| "last_at m s (Suc n) ch r = (if m (s + n) = Some ch then Some (s + n) else last_at m s n ch r)"

lemma last_at_front:
  "last_at m s (Suc n) ch r = last_at m (s + 1) n ch (if m s = Some ch then Some s else r)"
  by (induction n) auto

lemma last_at_split:
  "last_at m s (k + n) ch r = last_at m (s + k) n ch (last_at m s k ch r)"
  by (induction n) (auto simp: add.assoc)

lemma last_at_none: "(\<And>i. i < k \<Longrightarrow> m (s + i) \<noteq> Some ch) \<Longrightarrow> last_at m s k ch r = r"
  by (induction k) auto

lemma strrchr_word_strz:
  "strz m p n \<Longrightarrow> ch \<noteq> 0 \<Longrightarrow> strrchr_word m p ch r k =
     Some (if n < k then Inl (last_at m p n ch r) else Inr (last_at m p k ch r))"
proof (induction k arbitrary: p n r)
  case (Suc k)
  show ?case
  proof (cases n)
    case 0
    with Suc.prems show ?thesis by (simp add: strz_0 Let_def)
  next
    case (Suc n')
    with Suc.prems obtain c where c: "m p = Some c" "c \<noteq> 0" "strz m (p + 1) n'"
      by (auto simp: strz_Suc)
    show ?thesis using Suc.IH [OF c(3) Suc.prems(2)] c(1,2)
      unfolding \<open>n = Suc n'\<close> last_at_front by (simp add: Let_def del: last_at.simps)
  qed
qed simp

lemma strrchr_head_strz:
  "strz m s n \<Longrightarrow> ch \<noteq> 0 \<Longrightarrow> strrchr_head m s ch r =
     Some (if n < to_align s then Inl (last_at m s n ch r)
           else Inr (s + to_align s, last_at m s (to_align s) ch r))"
proof (induction m s ch r arbitrary: n rule: strrchr_head.induct)
  case (1 m s ch r)
  show ?case
  proof (cases "rt_unaligned s")
    case True
    note a = to_align_Suc [OF True]
    show ?thesis
    proof (cases n)
      case 0
      with "1.prems" True a show ?thesis by (subst strrchr_head.simps) (simp add: strz_0 Let_def)
    next
      case (Suc n')
      then obtain c where c: "m s = Some c" "c \<noteq> 0" "strz m (s + 1) n'"
        using "1.prems" by (auto simp: strz_Suc)
      from "1.IH" [OF True c(1) refl c(2,3) "1.prems"(2)] c True Suc a show ?thesis
        unfolding Suc a last_at_front by (subst strrchr_head.simps) (simp add: Let_def del: last_at.simps)
    qed
  next
    case False
    then show ?thesis by (subst strrchr_head.simps) (simp add: to_align_0)
  qed
qed

lemma strrchr_words_strz:
  assumes g: "word_granular m" and ch: "ch \<noteq> 0"
  shows "strz m w n \<Longrightarrow> \<not> rt_unaligned w \<Longrightarrow> strrchr_words m w ch r = Some (last_at m w n ch r)"
proof (induction n arbitrary: w r rule: less_induct)
  case (less n)
  have "m (w + 0) \<noteq> None" using less.prems(1) by (cases n) (auto simp: strz_0 strz_Suc)
  then have "mapped m w 8" using g less.prems(2) by (intro granular_mapped [of m w 0]) auto
  then obtain v where v: "load64 m w = Some v" "RT_HAS_ZERO v = 0 \<longleftrightarrow> (\<forall>i<8. m (w + i) \<noteq> Some 0)"
    "RT_HAS_ZERO (v XOR (ucast ch * RT_ONES)) = 0 \<longleftrightarrow> (\<forall>i<8. m (w + i) \<noteq> Some ch)"
    by (rule has_byte_load)
  have next_word: "strrchr_words m (w + 8) ch r' = Some (last_at m (w + 8) (n - 8) ch r')" if "8 \<le> n" for r'
    using less.prems that strz_shift [of m w 8 "n - 8"] aligned_add8 by (intro less.IH) auto
  have split: "last_at m w n ch r = last_at m (w + 8) (n - 8) ch (last_at m w 8 ch r)" if "8 \<le> n" for r
    using that last_at_split [of m w 8 "n - 8" ch r] by simp
  show ?case
  proof (cases "RT_HAS_ZERO v OR RT_HAS_ZERO (v XOR (ucast ch * RT_ONES)) = 0")
    case True
    then have nz: "\<forall>i<8. m (w + i) \<noteq> Some 0" and nc: "\<forall>i<8. m (w + i) \<noteq> Some ch"
      using v by (auto simp: or_eq_0)
    have "8 \<le> n" using nz less.prems(1) unfolding strz_def by (meson not_le)
    moreover have "last_at m w 8 ch r = r" using nc by (intro last_at_none) auto
    ultimately show ?thesis using True v(1) next_word split by (subst strrchr_words.simps) simp
  next
    case False
    show ?thesis using False v(1) strrchr_word_strz [OF less.prems(1) ch, of r 8] next_word split
      by (subst strrchr_words.simps) (auto simp del: strrchr_word.simps)
  qed
qed

lemma strrchr_strz:
  assumes g: "word_granular m" and z: "strz m s n" and ch: "ch \<noteq> 0"
  shows "strrchr m s ch = Some (last_at m s n ch None)"
proof (cases "n < to_align s")
  case True
  then show ?thesis using ch z by (simp add: strrchr_def strrchr_head_strz)
next
  case False
  let ?a = "to_align s"
  have "strz m (s + ?a) (n - ?a)" using z False by (intro strz_shift) simp
  then have "strrchr_words m (s + ?a) ch r = Some (last_at m (s + ?a) (n - ?a) ch r)" for r
    using strrchr_words_strz [OF g ch] aligned_to_align by blast
  then show ?thesis using ch z False last_at_split [of m s ?a "n - ?a" ch None]
    by (simp add: strrchr_def strrchr_head_strz)
qed

section \<open>cng_strlcpy\<close>

text \<open>
  \<open>clear_of\<close> is the documented condition on the two buffers: the destination may overlap the
  source from below only.
\<close>

function strlcpy_loop :: "mem \<Rightarrow> nat \<Rightarrow> nat \<Rightarrow> nat \<Rightarrow> nat \<Rightarrow> (mem \<times> nat) option" where
  "strlcpy_loop m dst src room n =
     (if n < room
      then let byte_step = Option.bind (m (src + n)) (\<lambda>c.
             if c = 0 then Some (m, n)
             else Option.bind (store8 m (dst + n) c) (\<lambda>m'. strlcpy_loop m' dst src room (n + 1)))
           in if \<not> rt_unaligned (src + n) \<and> 8 \<le> room - n
              then Option.bind (load64 m (src + n)) (\<lambda>w.
                     if RT_HAS_ZERO w = 0
                     then Option.bind (store64 m (dst + n) w)
                            (\<lambda>m'. strlcpy_loop m' dst src room (n + 8))
                     else byte_step)
              else byte_step
      else Some (m, n))"
  by pat_completeness auto
termination
  by (relation "measure (\<lambda>(m, dst, src, room, n). room - n)") auto

declare strlcpy_loop.simps [simp del]

definition cng_strlcpy :: "mem \<Rightarrow> nat \<Rightarrow> nat \<Rightarrow> nat \<Rightarrow> (mem \<times> nat) option" where
  "cng_strlcpy m dst src sz =
     (let room = (if sz \<noteq> 0 then sz - 1 else 0) in
      Option.bind (strlcpy_loop m dst src room 0) (\<lambda>(m', n).
      Option.bind (if sz \<noteq> 0 then store8 m' (dst + n) 0 else Some m') (\<lambda>m''.
      Option.bind (strlen m'' (src + n)) (\<lambda>l. Some (m'', n + l)))))"

definition clear_of :: "nat \<Rightarrow> nat \<Rightarrow> nat \<Rightarrow> bool" where
  "clear_of dst src l \<longleftrightarrow> dst < src \<or> src + l < dst"

lemma word_granular_put:
  "word_granular m \<Longrightarrow> mapped m a (length vs) \<Longrightarrow> word_granular (put m a vs)"
proof -
  assume g: "word_granular m" and mp: "mapped m a (length vs)"
  have e: "(put m a vs x = None) = (m x = None)" for x
  proof (cases "a \<le> x \<and> x < a + length vs")
    case True
    then have "x - a < length vs" by arith
    then have "m (a + (x - a)) \<noteq> None" using mp unfolding mapped_def by blast
    with True show ?thesis by (simp add: put_def)
  qed (auto simp: put_def)
  show ?thesis unfolding word_granular_def e by (rule g [unfolded word_granular_def])
qed

lemma put_other: "x < a \<or> a + length vs \<le> x \<Longrightarrow> put m a vs x = m x"
  by (auto simp: put_def)

lemma strz_put:
  assumes "strz m p n" "a + length vs \<le> p \<or> p + n < a"
  shows "strz (put m a vs) p n"
  using assms by (auto simp: strz_def put_def)

lemma bytes_at_put:
  assumes "a + length vs \<le> p \<or> p + n \<le> a"
  shows "bytes_at (put m a vs) p n = bytes_at m p n"
  using assms by (auto simp: bytes_at_def put_def)

lemma store8_put: "m a \<noteq> None \<Longrightarrow> store8 m a v = Some (put m a [v])"
  by (auto simp: store8_def put_def fun_eq_iff)

lemma strlcpy_chunk:
  fixes m dst src n j
  defines "m' \<equiv> put m (dst + n) (bytes_at m (src + n) j)"
  assumes c: "clear_of dst src (n + l)" and g: "word_granular m" and z: "strz m (src + n) l"
    and mp: "mapped m (dst + n) r" and j: "j \<le> l" "j \<le> r"
  shows "word_granular m'" "strz m' (src + (n + j)) (l - j)" "mapped m' (dst + (n + j)) (r - j)"
    "k \<le> l - j \<Longrightarrow> put m' (dst + (n + j)) (bytes_at m' (src + (n + j)) k) =
       put m (dst + n) (bytes_at m (src + n) (j + k))"
proof -
  have len: "length (bytes_at m (src + n) j) = j" by (simp add: bytes_at_def)
  show "word_granular m'"
    unfolding m'_def using g mapped_sub [OF mp, of 0 j] j len by (intro word_granular_put) auto
  have off: "dst + n + j \<le> src + (n + j) \<or> src + (n + j) + (l - j) < dst + n"
    using c j by (auto simp: clear_of_def)
  then show "strz m' (src + (n + j)) (l - j)"
    unfolding m'_def using strz_shift [of m "src + n" j "l - j"] z j len
    by (intro strz_put) (auto simp: add.assoc)
  show "mapped m' (dst + (n + j)) (r - j)"
    unfolding m'_def using mapped_sub [OF mp, of j "r - j"] j by (intro mapped_put) (auto simp: add.assoc)
  assume k: "k \<le> l - j"
  have "bytes_at m' (src + (n + j)) k = bytes_at m (src + (n + j)) k"
    unfolding m'_def using off k len by (intro bytes_at_put) auto
  then show "put m' (dst + (n + j)) (bytes_at m' (src + (n + j)) k) =
       put m (dst + n) (bytes_at m (src + n) (j + k))"
    using put_append [of m "dst + n" "bytes_at m (src + n) j" "bytes_at m (src + (n + j)) k"] len
      bytes_at_split [of j "j + k" m "src + n"]
    by (simp add: m'_def add.assoc)
qed

lemma strlcpy_loop_strz:
  "clear_of dst src (n + l) \<Longrightarrow> word_granular m \<Longrightarrow> strz m (src + n) l \<Longrightarrow>
   mapped m (dst + n) (room - n) \<Longrightarrow> n \<le> room \<Longrightarrow>
   strlcpy_loop m dst src room n =
     Some (put m (dst + n) (bytes_at m (src + n) (min l (room - n))), n + min l (room - n))"
proof (induction m dst src room n arbitrary: l rule: strlcpy_loop.induct)
  case (1 m dst src room n)
  note chunk = strlcpy_chunk [OF "1.prems"(1-4)]
  let ?k = "min l (room - n)"
  let ?res = "Some (put m (dst + n) (bytes_at m (src + n) ?k), n + ?k)"
  let ?byte = "Option.bind (m (src + n)) (\<lambda>c.
             if c = 0 then Some (m, n)
             else Option.bind (store8 m (dst + n) c) (\<lambda>m'. strlcpy_loop m' dst src room (n + 1)))"
  show ?case
  proof (cases "n < room")
    case room: True
    have d: "m (dst + n) \<noteq> None"
      using "1.prems"(4) room by (auto simp: mapped_def dest: spec [of _ 0])
    have byte: "?byte = ?res"
    proof (cases l)
      case 0
      then show ?thesis using "1.prems"(3) by (simp add: strz_0 bytes_at_def)
    next
      case (Suc l')
      then obtain c where c: "m (src + n) = Some c" "c \<noteq> 0" using "1.prems"(3) by (auto simp: strz_Suc)
      let ?m = "put m (dst + n) (bytes_at m (src + n) 1)"
      have st: "store8 m (dst + n) c = Some ?m" using d c by (simp add: store8_put bytes_at_def)
      have "strlcpy_loop ?m dst src room (n + 1) =
          Some (put ?m (dst + (n + 1)) (bytes_at ?m (src + (n + 1)) (min (l - 1) (room - (n + 1)))),
                n + 1 + min (l - 1) (room - (n + 1)))"
        using "1.prems"(1) chunk(1-3) [of 1] Suc room
        by (intro "1.IH"(1) [OF room c st]) (auto simp: add.commute)
      also have "\<dots> = ?res"
      proof -
        have k: "1 + min (l - 1) (room - (n + 1)) = ?k" using Suc room by auto
        show ?thesis unfolding k [symmetric] using Suc room
          by (subst chunk(4)) (auto simp: add.assoc)
      qed
      finally show ?thesis using c st by simp
    qed
    show ?thesis
    proof (cases "\<not> rt_unaligned (src + n) \<and> 8 \<le> room - n")
      case True
      have "m (src + n + 0) \<noteq> None" using "1.prems"(3) by (cases l) (auto simp: strz_0 strz_Suc)
      then have m8: "mapped m (src + n) 8"
        using "1.prems"(2) True by (intro granular_mapped [of m "src + n" 0]) auto
      let ?v = "u64_of_bytes (bytes_at m (src + n) 8)"
      have v: "load64 m (src + n) = Some ?v"
          "RT_HAS_ZERO ?v = 0 \<longleftrightarrow> (\<forall>i<8. m (src + n + i) \<noteq> Some 0)"
        using load64_mapped [OF m8] has_zero_load [OF m8] by auto
      show ?thesis
      proof (cases "RT_HAS_ZERO ?v = 0")
        case nz: True
        then have l8: "8 \<le> l" using v(2) "1.prems"(3) unfolding strz_def by (meson not_le)
        let ?m = "put m (dst + n) (bytes_at m (src + n) 8)"
        have st: "store64 m (dst + n) ?v = Some ?m"
          using mapped_sub [OF "1.prems"(4), of 0 8] True by (simp add: store64_put length_bytes_at)
        have "strlcpy_loop ?m dst src room (n + 8) =
            Some (put ?m (dst + (n + 8)) (bytes_at ?m (src + (n + 8)) (min (l - 8) (room - (n + 8)))),
                  n + 8 + min (l - 8) (room - (n + 8)))"
        proof (rule "1.IH"(2) [OF room refl True v(1) nz st])
          show "clear_of dst src (n + 8 + (l - 8))" using "1.prems"(1) l8 by simp
          show "mapped ?m (dst + (n + 8)) (room - (n + 8))" using chunk(3) [of 8] l8 True by simp
        qed (use chunk(1,2) [of 8] l8 True in auto)
        also have "\<dots> = ?res"
        proof -
          have k: "8 + min (l - 8) (room - (n + 8)) = ?k" using l8 True by auto
          show ?thesis unfolding k [symmetric] using l8 True
            by (subst chunk(4)) (auto simp: add.assoc)
        qed
        finally show ?thesis using room True v(1) nz st by (subst strlcpy_loop.simps) (simp add: Let_def)
      next
        case False
        with byte show ?thesis using room True False v(1) by (subst strlcpy_loop.simps) (simp add: Let_def)
      qed
    next
      case False
      with byte show ?thesis using room False by (subst strlcpy_loop.simps) (auto simp: Let_def)
    qed
  next
    case False
    then show ?thesis using "1.prems"(5) by (subst strlcpy_loop.simps) (simp add: bytes_at_def)
  qed
qed

lemma cng_strlcpy_strz:
  assumes c: "clear_of dst src l" and g: "word_granular m" and z: "strz m src l" and mp: "mapped m dst sz"
  shows "cng_strlcpy m dst src sz =
    Some (if sz = 0 then m else put m dst (take (sz - 1) (bytes_at m src l) @ [0]), l)"
proof (cases "sz = 0")
  case True
  then have "strlcpy_loop m dst src 0 0 = Some (m, 0)" by (subst strlcpy_loop.simps) (simp add: Let_def)
  with True g z show ?thesis by (simp add: cng_strlcpy_def strlen_strz)
next
  case False
  let ?k = "min l (sz - 1)"
  let ?b = "bytes_at m src ?k"
  have mp': "mapped m dst (sz - 1)" using mapped_sub [OF mp, of 0 "sz - 1"] by simp
  have loop: "strlcpy_loop m dst src (sz - 1) 0 = Some (put m dst ?b, ?k)"
    using strlcpy_loop_strz [of dst src 0 l m "sz - 1"] c g z mp' by simp
  have ch: "word_granular (put m dst ?b)" "strz (put m dst ?b) (src + ?k) (l - ?k)"
      "mapped (put m dst ?b) (dst + ?k) (sz - ?k)"
    using strlcpy_chunk(1-3) [of dst src 0 l m sz ?k] c g z mp False by auto
  then have "put m dst ?b (dst + ?k) \<noteq> None" using False mapped_sub [OF ch(3), of 0 1] by (simp add: mapped_Suc)
  then have "store8 (put m dst ?b) (dst + ?k) 0 = Some (put (put m dst ?b) (dst + ?k) [0])"
    by (rule store8_put)
  moreover have "put (put m dst ?b) (dst + ?k) [0] = put m dst (?b @ [0])"
    using put_append [of m dst ?b "[0]"] by (simp add: bytes_at_def)
  moreover have "strlen (put (put m dst ?b) (dst + ?k) [0]) (src + ?k) = Some (l - ?k)"
  proof (rule strlen_strz)
    show "word_granular (put (put m dst ?b) (dst + ?k) [0])"
      using False mapped_sub [OF ch(3), of 0 1] by (intro word_granular_put [OF ch(1)]) auto
    show "strz (put (put m dst ?b) (dst + ?k) [0]) (src + ?k) (l - ?k)"
      using c by (intro strz_put [OF ch(2)]) (auto simp: clear_of_def)
  qed
  moreover have "take (sz - 1) (bytes_at m src l) = ?b"
    by (rule nth_equalityI) (auto simp: bytes_at_def)
  ultimately show ?thesis using False loop by (simp add: cng_strlcpy_def)
qed

section \<open>The routines on whole strings\<close>

text \<open>
  The components above the runtime handle C strings as values; these lemmas are where a string in
  memory and its value meet. \<open>cstr_at m p s\<close>: the string \<open>s\<close> lies at \<open>p\<close>, terminated. \<open>str_lcpy\<close> is
  the value-level copy the path component uses.
\<close>

definition cstr_at :: "mem \<Rightarrow> nat \<Rightarrow> string \<Rightarrow> bool" where
  "cstr_at m p s \<longleftrightarrow> str_bytes m p (map of_char s)"

definition str_lcpy :: "nat \<Rightarrow> string \<Rightarrow> string \<times> nat" where
  "str_lcpy sz s = (take (sz - 1) s, length s)"

interpretation lcpy: str_copy str_lcpy
  by unfold_locales (simp_all add: str_lcpy_def)

lemma str_bytes_put:
  assumes "0 \<notin> set bs"
  shows "str_bytes (put m p (bs @ [0])) p bs"
proof -
  have "strz (put m p (bs @ [0])) p (length bs)"
    using assms by (auto simp: strz_def put_def nth_append in_set_conv_nth)
  moreover have "bytes_at (put m p (bs @ [0])) p (length bs) = bs"
    by (rule nth_equalityI) (auto simp: bytes_at_def put_def nth_append)
  ultimately show ?thesis by (simp add: str_bytes_def)
qed

lemma str_bytes_nonzero: "str_bytes m p bs \<Longrightarrow> 0 \<notin> set bs"
  by (induction bs arbitrary: p) (auto simp: str_bytes_Cons)

lemma byte_diff_terminated:
  "0 \<notin> set xs \<Longrightarrow> 0 \<notin> set ys \<Longrightarrow> byte_diff (xs @ [0]) (ys @ [0]) = 0 \<longleftrightarrow> xs = ys"
proof (induction xs arbitrary: ys)
  case Nil
  then show ?case by (cases ys) (auto simp: unsigned_eq_0_iff)
next
  case (Cons x xs)
  then show ?case by (cases ys) (auto simp: unsigned_eq_0_iff uint_eq_iff)
qed

lemma byte_diff_bounded:
  "0 \<notin> set xs \<Longrightarrow> 0 \<notin> set ys \<Longrightarrow>
   byte_diff (take n (xs @ [0])) (take n (ys @ [0])) = 0 \<longleftrightarrow> take n xs = take n ys"
proof (induction n arbitrary: xs ys)
  case (Suc n)
  then show ?case
    by (cases xs; cases ys) (auto simp: unsigned_eq_0_iff uint_eq_iff)
qed simp

lemma first_at_bytes:
  assumes "str_bytes m p bs"
  shows "ch \<notin> set bs \<Longrightarrow> first_at m p (length bs) ch = None"
    and "i < length bs \<Longrightarrow> bs ! i = ch \<Longrightarrow> ch \<notin> set (take i bs) \<Longrightarrow>
         first_at m p (length bs) ch = Some (p + i)"
  using assms
proof (induction bs arbitrary: p i)
  case (Cons b bs)
  { case 1 then show ?case using Cons.IH(1) by (auto simp: first_at_Suc str_bytes_Cons) }
  { case 2 then show ?case using Cons.IH(2)
      by (cases i) (auto simp: first_at_Suc str_bytes_Cons) }
qed (simp_all add: first_at_0)

lemma last_at_bytes_gen:
  assumes "str_bytes m p bs"
  shows "ch \<notin> set bs \<Longrightarrow> last_at m p (length bs) ch r = r"
    and "i < length bs \<Longrightarrow> bs ! i = ch \<Longrightarrow> ch \<notin> set (drop (Suc i) bs) \<Longrightarrow>
         last_at m p (length bs) ch r = Some (p + i)"
  using assms
proof (induction bs arbitrary: p i r)
  case (Cons b bs)
  { case 1 then show ?case using Cons.IH(1)
      by (auto simp: last_at_front str_bytes_Cons simp del: last_at.simps) }
  { case 2 then show ?case using Cons.IH
      by (cases i) (auto simp: last_at_front str_bytes_Cons simp del: last_at.simps) }
qed simp_all

lemmas last_at_bytes = last_at_bytes_gen [where r = None]

lemma strnz_of_bytes: "str_bytes m p bs \<Longrightarrow> strnz m p mx (min (length bs) mx)"
  by (auto simp: str_bytes_def strz_def strnz_def)

text \<open>
  On a terminated string the word-at-a-time \<open>strlen\<close> and \<open>cng_strnlen\<close> return, without a fault,
  the string's length and that length cut at the bound.
\<close>

theorem strlen_strnlen_correct:
  assumes "word_granular m" "str_bytes m p bs"
  shows "strlen m p = Some (length bs) \<and> cng_strnlen m p mx = Some (min (length bs) mx)"
  using assms strlen_strz cng_strnlen_strnz strnz_of_bytes unfolding str_bytes_def by blast

definition demo_mem :: mem where
  "demo_mem = (\<lambda>a. Some (if a mod 32 = 21 then 0 else if a mod 32 = 13 then 66 else 65))"

lemma demo_granular: "word_granular demo_mem"
  by (simp add: word_granular_def demo_mem_def)

theorem strlen_strnlen_witness:
  "str_bytes demo_mem 11 [65, 65, 66, 65, 65, 65, 65, 65, 65, 65] \<and>
   strlen demo_mem 11 = Some 10 \<and> cng_strnlen demo_mem 11 7 = Some 7"
proof -
  have b: "str_bytes demo_mem 11 [65, 65, 66, 65, 65, 65, 65, 65, 65, 65]"
    by (simp add: str_bytes_Cons str_bytes_Nil demo_mem_def)
  with strlen_strnlen_correct [OF demo_granular b, of 7] show ?thesis by simp
qed

text \<open>
  \<open>strcmp\<close> and \<open>strncmp\<close> return the difference of the first differing bytes, the terminator
  included, and \<open>strncmp\<close> looks at no more than its bound; the result is zero exactly for equal
  strings and equal bounded prefixes.
\<close>

theorem strcmp_strncmp_correct:
  assumes "str_bytes m a xs" "str_bytes m b ys"
  shows "strcmp m a b = Some (byte_diff (xs @ [0]) (ys @ [0])) \<and>
    (strcmp m a b = Some 0 \<longleftrightarrow> xs = ys) \<and>
    strncmp m a b n = Some (byte_diff (take n (xs @ [0])) (take n (ys @ [0]))) \<and>
    (strncmp m a b n = Some 0 \<longleftrightarrow> take n xs = take n ys)"
proof -
  have z: "0 \<notin> set xs" "0 \<notin> set ys" using assms str_bytes_nonzero by blast+
  then have "byte_diff (xs @ [0]) (ys @ [0]) = 0 \<longleftrightarrow> xs = ys" by (rule byte_diff_terminated)
  moreover have "byte_diff (take n (xs @ [0])) (take n (ys @ [0])) = 0 \<longleftrightarrow> take n xs = take n ys"
    using z by (rule byte_diff_bounded)
  ultimately show ?thesis
    using strcmp_bytes [OF assms] strncmp_bytes [OF assms, of n] by simp
qed

theorem strcmp_strncmp_witness:
  "strcmp demo_mem 17 16 = Some (- 65) \<and> strncmp demo_mem 17 16 4 = Some 0"
proof -
  have a: "str_bytes demo_mem 17 [65, 65, 65, 65]" and b: "str_bytes demo_mem 16 [65, 65, 65, 65, 65]"
    by (simp_all add: str_bytes_Cons str_bytes_Nil demo_mem_def)
  show ?thesis using strcmp_strncmp_correct [OF a b, of 4] by simp
qed

text \<open>
  \<open>strchr\<close> and \<open>strrchr\<close> on a terminated string: the first and the last occurrence of the byte, a
  null pointer when it does not occur, the terminator itself when that is what is looked for.
\<close>

theorem strchr_strrchr_correct:
  assumes g: "word_granular m" and s: "str_bytes m p bs"
  shows "strchr m p 0 = Some (Some (p + length bs)) \<and> strrchr m p 0 = Some (Some (p + length bs)) \<and>
    (ch \<notin> set bs \<and> ch \<noteq> 0 \<longrightarrow> strchr m p ch = Some None \<and> strrchr m p ch = Some None) \<and>
    (i < length bs \<and> bs ! i = ch \<and> ch \<notin> set (take i bs) \<longrightarrow> strchr m p ch = Some (Some (p + i))) \<and>
    (i < length bs \<and> bs ! i = ch \<and> ch \<notin> set (drop (Suc i) bs) \<longrightarrow>
       strrchr m p ch = Some (Some (p + i)))"
proof -
  have z: "strz m p (length bs)" using s by (simp add: str_bytes_def)
  have nz: "bs ! i \<noteq> 0" if "i < length bs"
    using that str_bytes_nonzero [OF s] by (metis nth_mem)
  have "strlen m p = Some (length bs)" using g z by (rule strlen_strz)
  then have "strchr m p 0 = Some (Some (p + length bs))" "strrchr m p 0 = Some (Some (p + length bs))"
    by (simp_all add: strchr_def strrchr_def)
  then show ?thesis
    using strchr_strz [OF g z, of ch] strrchr_strz [OF g z, of ch] nz
      first_at_bytes [OF s, where ch = ch] last_at_bytes [OF s, where ch = ch] by auto
qed

theorem strchr_strrchr_witness:
  "strchr demo_mem 11 66 = Some (Some 13) \<and> strrchr demo_mem 11 65 = Some (Some 20) \<and>
   strchr demo_mem 11 47 = Some None"
proof -
  have b: "str_bytes demo_mem 11 [65, 65, 66, 65, 65, 65, 65, 65, 65, 65]"
    by (simp add: str_bytes_Cons str_bytes_Nil demo_mem_def)
  show ?thesis
    using strchr_strrchr_correct [OF demo_granular b, of 66 2]
      strchr_strrchr_correct [OF demo_granular b, of 65 9]
      strchr_strrchr_correct [OF demo_granular b, of 47] by simp
qed

text \<open>
  C31. \<open>cng_strlcpy\<close> refines the value-level copy: it returns the length of the whole source, leaves
  as much of it as fits in the destination, terminated, and changes nothing outside the
  destination buffer. The destination may overlap the source from below.
\<close>

theorem cng_strlcpy_refines:
  assumes "word_granular m" "cstr_at m src s" "mapped m dst sz" "clear_of dst src (length s)"
  shows "\<exists>m'. cng_strlcpy m dst src sz = Some (m', snd (str_lcpy sz s)) \<and>
    (0 < sz \<longrightarrow> cstr_at m' dst (fst (str_lcpy sz s))) \<and>
    (\<forall>x. x < dst \<or> dst + sz \<le> x \<longrightarrow> m' x = m x)"
proof -
  let ?bs = "map of_char s :: u8 list"
  have z: "strz m src (length s)" "bytes_at m src (length s) = ?bs"
    using assms(2) by (auto simp: cstr_at_def str_bytes_def)
  have nz: "0 \<notin> set ?bs" using assms(2) str_bytes_nonzero unfolding cstr_at_def by blast
  then have "0 \<notin> set (take (sz - 1) ?bs)" by (meson in_set_takeD)
  then have "str_bytes (put m dst (take (sz - 1) ?bs @ [0])) dst (take (sz - 1) ?bs)"
    by (rule str_bytes_put)
  then show ?thesis
    using cng_strlcpy_strz [OF assms(4,1) z(1) assms(3)] z(2)
    by (auto simp: str_lcpy_def cstr_at_def take_map put_def)
qed

theorem cng_strlcpy_witness:
  "\<exists>m'. cng_strlcpy demo_mem 100 16 4 = Some (m', 5) \<and> cstr_at m' 100 ''AAA'' \<and> m' 104 = Some 65"
proof -
  have c: "cstr_at demo_mem 16 ''AAAAA''"
    by (simp add: cstr_at_def str_bytes_Cons str_bytes_Nil demo_mem_def)
  show ?thesis
    using cng_strlcpy_refines [OF demo_granular c, of 100 4]
    by (auto simp: clear_of_def str_lcpy_def mapped_def) (auto simp: demo_mem_def)
qed

end
