(* ===== verification/Path_Canon.thy ===== *)
theory Path_Canon
  imports Rt_Str
begin

text \<open>
  Lexical path handling of \<open>src/path/path.c\<close>: \<open>cng_path_canon\<close>, which collapses repeated slashes,
  \<open>.\<close> and \<open>..\<close> into a bounded buffer, and \<open>cng_path_wants_dir\<close>, which asks whether a spelling
  demands a directory. The reference the canonicaliser is measured against is a walk over the
  components with a stack (\<open>norm\<close>); canonical paths are those whose components are all proper names.
\<close>

abbreviation SL :: char where
  "SL \<equiv> CHR ''/''"

abbreviation DOT :: string where
  "DOT \<equiv> ''.''"

abbreviation DOTDOT :: string where
  "DOTDOT \<equiv> ''..''"

definition CNG_PATH_MAX :: nat where
  "CNG_PATH_MAX = 4096"

section \<open>The canonicaliser\<close>

text \<open>
  The output buffer is the list of the characters written so far. \<open>drop_comp\<close> is the backing-up
  loop of a \<open>..\<close>: back to the last slash, then over it.
\<close>

definition drop_comp :: "string \<Rightarrow> string" where
  "drop_comp out = butlast (rev (dropWhile (\<lambda>c. c \<noteq> SL) (rev out)))"

function canon_loop :: "nat \<Rightarrow> string \<Rightarrow> string \<Rightarrow> string option" where
  "canon_loop outsz p out =
     (if p = [] then Some out
      else let p1 = dropWhile (\<lambda>c. c = SL) p in
        if p1 = [] then Some out
        else let comp = takeWhile (\<lambda>c. c \<noteq> SL) p1; p2 = dropWhile (\<lambda>c. c \<noteq> SL) p1 in
          if comp = DOT then canon_loop outsz p2 out
          else if comp = DOTDOT then canon_loop outsz p2 (drop_comp out)
          else if length out + 1 + length comp \<ge> outsz then None
          else canon_loop outsz p2 (out @ SL # comp))"
  by pat_completeness auto

lemma dropWhile_hd: "dropWhile P p \<noteq> [] \<Longrightarrow> \<exists>c q. dropWhile P p = c # q \<and> \<not> P c"
  by (induction p) auto

lemma dropWhile_shorter:
  "dropWhile (\<lambda>c. c = SL) p \<noteq> [] \<Longrightarrow>
   length (dropWhile (\<lambda>c. c \<noteq> SL) (dropWhile (\<lambda>c. c = SL) p)) < length p"
proof -
  assume "dropWhile (\<lambda>c. c = SL) p \<noteq> []"
  then obtain c q where q: "dropWhile (\<lambda>c. c = SL) p = c # q" "c \<noteq> SL"
    using dropWhile_hd [of "\<lambda>c. c = SL" p] by blast
  then have "length (dropWhile (\<lambda>c. c \<noteq> SL) (c # q)) \<le> length q"
    by (simp add: length_dropWhile_le)
  also have "length q < length p"
    using q(1) length_dropWhile_le [of "\<lambda>c. c = SL" p] by simp
  finally show ?thesis using q(1) by simp
qed

termination canon_loop
  by (relation "measure (\<lambda>(outsz, p, out). length p)") (auto simp: dropWhile_shorter)

declare canon_loop.simps [simp del]

definition cng_path_canon :: "string \<Rightarrow> nat \<Rightarrow> string option" where
  "cng_path_canon path outsz =
     map_option (\<lambda>out. if out = [] then [SL] else out) (canon_loop outsz path [])"

section \<open>Components\<close>

function comps :: "string \<Rightarrow> string list" where
  "comps p = (let p1 = dropWhile (\<lambda>c. c = SL) p in
     if p1 = [] then []
     else takeWhile (\<lambda>c. c \<noteq> SL) p1 # comps (dropWhile (\<lambda>c. c \<noteq> SL) p1))"
  by pat_completeness auto
termination
  by (relation "measure length") (auto simp: dropWhile_shorter)

declare comps.simps [simp del]

definition render :: "string list \<Rightarrow> string" where
  "render cs = concat (map (\<lambda>c. SL # c) cs)"

definition good_comp :: "string \<Rightarrow> bool" where
  "good_comp c \<longleftrightarrow> c \<noteq> [] \<and> SL \<notin> set c \<and> c \<noteq> DOT \<and> c \<noteq> DOTDOT"

definition plain_comp :: "string \<Rightarrow> bool" where
  "plain_comp c \<longleftrightarrow> c \<noteq> [] \<and> SL \<notin> set c"

fun walk :: "string list \<Rightarrow> string list \<Rightarrow> string list" where
  "walk st [] = st"
| "walk st (c # cs) =
     (if c = DOT then walk st cs
      else if c = DOTDOT then walk (butlast st) cs
      else walk (st @ [c]) cs)"

definition path_of :: "string list \<Rightarrow> string" where
  "path_of cs = (if cs = [] then [SL] else render cs)"

definition norm :: "string \<Rightarrow> string" where
  "norm p = path_of (walk [] (comps p))"

definition canonical :: "string \<Rightarrow> bool" where
  "canonical p \<longleftrightarrow> p = path_of (comps p) \<and> list_all good_comp (comps p)"

lemma render_simps [simp]:
  "render [] = []" "render (c # cs) = SL # c @ render cs" "render (as @ bs) = render as @ render bs"
  by (simp_all add: render_def)

lemma render_eq_Nil [simp]: "render cs = [] \<longleftrightarrow> cs = []"
  by (cases cs) auto

lemma plain_good: "good_comp c \<Longrightarrow> plain_comp c"
  by (simp add: good_comp_def plain_comp_def)

lemma comps_plain: "list_all plain_comp (comps p)"
proof (induction p rule: comps.induct)
  case (1 p)
  let ?p = "dropWhile (\<lambda>c. c = SL) p"
  show ?case
  proof (cases "?p = []")
    case True
    then show ?thesis by (subst comps.simps) simp
  next
    case False
    then obtain c q where q: "?p = c # q" "c \<noteq> SL"
      using dropWhile_hd [of "\<lambda>c. c = SL" p] by blast
    then have "plain_comp (takeWhile (\<lambda>c. c \<noteq> SL) ?p)"
      by (auto simp: plain_comp_def dest: set_takeWhileD)
    with 1 False show ?thesis by (subst comps.simps) (simp add: Let_def)
  qed
qed

lemma comps_render_app:
  "list_all plain_comp cs \<Longrightarrow> rest = [] \<or> hd rest = SL \<Longrightarrow> comps (render cs @ rest) = cs @ comps rest"
proof (induction cs)
  case (Cons c cs)
  let ?r = "render cs @ rest"
  have c: "c \<noteq> []" "\<And>x. x \<in> set c \<Longrightarrow> x \<noteq> SL" using Cons.prems(1) by (auto simp: plain_comp_def)
  have r: "?r = [] \<or> hd ?r = SL" using Cons.prems(2) by (cases cs) auto
  have d: "dropWhile (\<lambda>c. c = SL) (c @ ?r) = c @ ?r" using c by (cases c) auto
  have t: "takeWhile (\<lambda>c. c \<noteq> SL) (c @ ?r) = c" "dropWhile (\<lambda>c. c \<noteq> SL) (c @ ?r) = ?r"
    using c r by (cases ?r; auto simp: takeWhile_append2 dropWhile_append2)+
  have "comps (render (c # cs) @ rest) = c # comps ?r"
    using c d t by (subst comps.simps) (simp add: Let_def)
  with Cons show ?case by simp
qed simp

lemma comps_render [simp]: "list_all plain_comp cs \<Longrightarrow> comps (render cs) = cs"
  using comps_render_app [of cs "[]"] by (simp add: comps.simps [of "[]"])

lemma comps_slash [simp]: "comps [SL] = []" "comps [] = []"
  by (simp_all add: comps.simps)

lemma comps_path_of [simp]: "list_all plain_comp cs \<Longrightarrow> comps (path_of cs) = cs"
  by (simp add: path_of_def)

lemma canonical_path_of: "list_all good_comp cs \<Longrightarrow> canonical (path_of cs)"
  by (simp add: canonical_def list.pred_mono_strong plain_good)

lemma canonicalE:
  assumes "canonical p" obtains cs where "p = path_of cs" "list_all good_comp cs" "comps p = cs"
  using assms by (auto simp: canonical_def)

lemma walk_good: "list_all good_comp cs \<Longrightarrow> walk st cs = st @ cs"
  by (induction cs arbitrary: st) (auto simp: good_comp_def)

lemma list_all_butlast: "list_all P xs \<Longrightarrow> list_all P (butlast xs)"
  by (simp add: list_all_iff in_set_butlastD)

lemma walk_keeps_good:
  "list_all good_comp st \<Longrightarrow> list_all plain_comp cs \<Longrightarrow> list_all good_comp (walk st cs)"
  by (induction st cs rule: walk.induct) (auto simp: list_all_butlast good_comp_def plain_comp_def)

lemma norm_canonical: "canonical (norm p)"
  unfolding norm_def using comps_plain by (intro canonical_path_of walk_keeps_good) auto

lemma norm_id: "canonical p \<Longrightarrow> norm p = p"
  by (auto elim!: canonicalE simp: norm_def walk_good)

section \<open>The canonicaliser against the walk\<close>

lemma drop_comp_render: "list_all plain_comp st \<Longrightarrow> drop_comp (render st) = render (butlast st)"
proof (induction st rule: rev_induct)
  case (snoc c st)
  then have "\<And>x. x \<in> set (rev c) \<Longrightarrow> x \<noteq> SL" by (auto simp: plain_comp_def)
  then show ?case
    using dropWhile_append2 [of "rev c" "\<lambda>c. c \<noteq> SL" "SL # rev (render st)"]
    by (simp add: drop_comp_def)
qed (simp add: drop_comp_def)

text \<open>
  The walk over the components, refused at the first state whose rendering does not fit: the shape
  the buffer loop has once the text is cut into components.
\<close>

fun bounded_walk :: "nat \<Rightarrow> string list \<Rightarrow> string list \<Rightarrow> string list option" where
  "bounded_walk sz st [] = Some st"
| "bounded_walk sz st (c # cs) =
     (if c = DOT then bounded_walk sz st cs
      else if c = DOTDOT then bounded_walk sz (butlast st) cs
      else if length (render (st @ [c])) \<ge> sz then None
      else bounded_walk sz (st @ [c]) cs)"

lemma canon_loop_bounded_walk:
  "list_all plain_comp st \<Longrightarrow>
   canon_loop sz p (render st) = map_option render (bounded_walk sz st (comps p))"
proof (induction p arbitrary: st rule: comps.induct)
  case (1 p)
  let ?p1 = "dropWhile (\<lambda>c. c = SL) p"
  let ?c = "takeWhile (\<lambda>c. c \<noteq> SL) ?p1" and ?p2 = "dropWhile (\<lambda>c. c \<noteq> SL) ?p1"
  show ?case
  proof (cases "?p1 = []")
    case True
    then show ?thesis by (subst canon_loop.simps, subst comps.simps) simp
  next
    case False
    then have cs: "comps p = ?c # comps ?p2" by (subst comps.simps) (simp only: Let_def if_False)
    have "p \<noteq> []" using False by auto
    define c q where "c = ?c" and "q = ?p2"
    have step: "canon_loop sz p (render st) =
        (if c = DOT then canon_loop sz q (render st)
         else if c = DOTDOT then canon_loop sz q (drop_comp (render st))
         else if length (render (st @ [c])) \<ge> sz then None
         else canon_loop sz q (render (st @ [c])))"
      using False \<open>p \<noteq> []\<close> by (subst canon_loop.simps) (simp only: Let_def if_False c_def q_def, simp)
    have pl: "plain_comp c" using comps_plain [of p] cs by (simp add: c_def)
    note ih = "1.IH" [OF refl False, folded q_def]
    show ?thesis
      using ih [OF "1.prems"] ih [of "butlast st"] ih [of "st @ [c]"] pl "1.prems"
      unfolding cs [folded c_def q_def] step
      by (simp add: drop_comp_render list_all_butlast del: render_simps)
  qed
qed

lemma bounded_walk_Some: "bounded_walk sz st cs = Some st' \<Longrightarrow> st' = walk st cs"
  by (induction sz st cs rule: bounded_walk.induct) (auto split: if_splits)

lemma render_butlast_le: "length (render (butlast st)) \<le> length (render st)"
  by (induction st rule: rev_induct) auto

lemma bounded_walk_None:
  "length (render st) < sz \<Longrightarrow> bounded_walk sz st cs = None \<longleftrightarrow>
   (\<exists>as bs. cs = as @ bs \<and> sz \<le> length (render (walk st as)))"
proof (induction sz st cs rule: bounded_walk.induct)
  case (2 sz st c cs)
  have split: "(\<exists>as bs. c # cs = as @ bs \<and> P as) \<longleftrightarrow> P [] \<or> (\<exists>as bs. cs = as @ bs \<and> P (c # as))" for P
    by (auto simp: Cons_eq_append_conv)
  show ?case
  proof (cases "c = DOT \<or> c = DOTDOT")
    case True
    then show ?thesis using 2 le_less_trans [OF render_butlast_le]
      by (subst split) (auto split: if_splits)
  next
    case False
    show ?thesis
    proof (cases "length (render (st @ [c])) \<ge> sz")
      case True
      then have "sz \<le> length (render (walk st (c # [])))" using False by simp
      then show ?thesis using True False by (subst split) fastforce
    next
      case F2: False
      then show ?thesis using 2 False by (subst split) (auto split: if_splits)
    qed
  qed
qed auto

lemma walk_length: "length (render (walk st cs)) \<le> length (render st) + length (render cs)"
proof (induction st cs rule: walk.induct)
  case (2 st c cs)
  then show ?case using render_butlast_le [of st] by (auto split: if_splits)
qed simp

lemma comps_length: "length (render (comps p)) \<le> Suc (length p)"
  and comps_length_abs: "hd p = SL \<Longrightarrow> p \<noteq> [] \<Longrightarrow> length (render (comps p)) \<le> length p"
proof -
  have *: "length (render (comps p)) \<le> (if p \<noteq> [] \<and> hd p = SL then length p else Suc (length p))"
  proof (induction p rule: comps.induct)
    case (1 p)
    let ?p1 = "dropWhile (\<lambda>c. c = SL) p"
    let ?c = "takeWhile (\<lambda>c. c \<noteq> SL) ?p1" and ?p2 = "dropWhile (\<lambda>c. c \<noteq> SL) ?p1"
    show ?case
    proof (cases "?p1 = []")
      case True
      then show ?thesis by (subst comps.simps) simp
    next
      case False
      have aux: "length (render (comps q)) \<le> length q"
        if "length (render (comps q)) \<le> (if q \<noteq> [] \<and> hd q = SL then length q else Suc (length q))"
          "q = [] \<or> hd q = SL" for q
        using that by (cases q) auto
      have ih: "length (render (comps ?p2)) \<le> length ?p2"
        using dropWhile_hd [of "\<lambda>c. c \<noteq> SL" ?p1] by (intro aux [OF 1 [OF refl False]]) auto
      have sum: "length ?c + length ?p2 = length ?p1"
        using takeWhile_dropWhile_id [of "\<lambda>c. c \<noteq> SL" ?p1, THEN arg_cong [of _ _ length]]
        unfolding length_append .
      have "length ?p1 \<le> (if p \<noteq> [] \<and> hd p = SL then length p - 1 else length p)"
        using length_dropWhile_le [of "\<lambda>c. c = SL" "tl p"] by (cases p) auto
      moreover have "length (render (comps p)) = Suc (length ?c + length (render (comps ?p2)))"
        using False by (subst comps.simps) (simp add: Let_def)
      moreover have "p \<noteq> []" using False by auto
      ultimately show ?thesis using ih sum by (cases p) (auto split: if_splits)
    qed
  qed
  then show "length (render (comps p)) \<le> Suc (length p)" by (auto split: if_splits)
  show "hd p = SL \<Longrightarrow> p \<noteq> [] \<Longrightarrow> length (render (comps p)) \<le> length p" using * by simp
qed

lemma cng_path_canon_walk:
  "cng_path_canon p sz = map_option path_of (bounded_walk sz [] (comps p))"
  using canon_loop_bounded_walk [of "[]" sz p]
  by (cases "bounded_walk sz [] (comps p)") (auto simp: cng_path_canon_def path_of_def)

lemma cng_path_canon_norm: "cng_path_canon p sz = Some r \<Longrightarrow> r = norm p"
  using bounded_walk_Some by (auto simp: cng_path_canon_walk norm_def)

lemma cng_path_canon_canonical: "cng_path_canon p sz = Some r \<Longrightarrow> canonical r"
  using cng_path_canon_norm norm_canonical by blast

lemma cng_path_canon_fits:
  assumes "p \<noteq> []" "hd p = SL" "length p < sz"
  shows "cng_path_canon p sz = Some (norm p)"
proof -
  have "bounded_walk sz [] (comps p) \<noteq> None"
  proof
    assume "bounded_walk sz [] (comps p) = None"
    then obtain as bs where a: "comps p = as @ bs" "sz \<le> length (render (walk [] as))"
      using assms by (auto simp: bounded_walk_None)
    then have "length (render (walk [] as)) \<le> length (render (comps p))"
      using walk_length [of "[]" as] by simp
    with a(2) comps_length_abs [OF assms(2,1)] assms(3) show False by simp
  qed
  then obtain st where "cng_path_canon p sz = Some (path_of st)" by (auto simp: cng_path_canon_walk)
  then show ?thesis using cng_path_canon_norm by auto
qed

lemma cng_path_canon_length: "2 \<le> sz \<Longrightarrow> cng_path_canon p sz = Some r \<Longrightarrow> length r < sz"
proof -
  assume sz: "2 \<le> sz" and r: "cng_path_canon p sz = Some r"
  then obtain st where st: "bounded_walk sz [] (comps p) = Some st" "r = path_of st"
    by (auto simp: cng_path_canon_walk)
  have "\<not> sz \<le> length (render (walk [] (comps p)))"
    using bounded_walk_None [of "[]" sz "comps p"] st sz by auto
  then show "length r < sz"
    using st bounded_walk_Some [OF st(1)] sz by (auto simp: path_of_def)
qed

text \<open>
  C25. The canonicaliser against the component walk: whatever it returns is the walk's result, is
  canonical (so no \<open>..\<close> is left to climb with) and fits the buffer; it refuses only a path one of
  whose intermediate results does not fit, and never an absolute path shorter than the buffer.
\<close>

theorem cng_path_canon_correct:
  assumes "2 \<le> sz"
  shows "(case cng_path_canon p sz of
      Some r \<Rightarrow> r = norm p \<and> canonical r \<and> length r < sz
    | None \<Rightarrow> \<exists>as bs. comps p = as @ bs \<and> sz \<le> length (render (walk [] as))) \<and>
    (p \<noteq> [] \<and> hd p = SL \<and> length p < sz \<longrightarrow> cng_path_canon p sz \<noteq> None)"
proof (cases "cng_path_canon p sz")
  case None
  then have "bounded_walk sz [] (comps p) = None" by (simp add: cng_path_canon_walk)
  then show ?thesis
    using None assms bounded_walk_None [of "[]" sz "comps p"] cng_path_canon_fits [of p sz] by auto
next
  case (Some r)
  then show ?thesis
    using cng_path_canon_norm [OF Some] norm_canonical cng_path_canon_length [OF assms Some] by simp
qed

theorem cng_path_canon_witness:
  "cng_path_canon ''/a/../../b//./c/'' 8 = Some ''/b/c'' \<and> canonical ''/b/c'' \<and>
   cng_path_canon ''/aaaa/bbbb'' 8 = None"
proof -
  have a: "comps ''/a/../../b//./c/'' = [''a'', DOTDOT, DOTDOT, ''b'', DOT, ''c'']"
    by (simp add: comps.simps)
  have b: "comps ''/aaaa/bbbb'' = [''aaaa'', ''bbbb'']" by (simp add: comps.simps)
  have r: "cng_path_canon ''/a/../../b//./c/'' 8 = Some ''/b/c''"
    by (simp add: cng_path_canon_walk a path_of_def)
  have "2 \<le> (8 :: nat)" by simp
  from cng_path_canon_correct [OF this, of "''/a/../../b//./c/''"] have "canonical ''/b/c''"
    unfolding r option.case by blast
  moreover have "cng_path_canon ''/aaaa/bbbb'' 8 = None"
    by (simp add: cng_path_canon_walk b)
  ultimately show ?thesis using r by blast
qed

lemma cng_path_canon_id:
  assumes "canonical p" "length p < sz"
  shows "cng_path_canon p sz = Some p"
proof -
  have "p \<noteq> [] \<and> hd p = SL" using assms(1) by (auto elim!: canonicalE simp: path_of_def neq_Nil_conv)
  then show ?thesis using cng_path_canon_fits assms norm_id by simp
qed

text \<open>
  Canonicalising is idempotent: a canonical path that fits the buffer is returned unchanged, so
  a view stored from one call (the cwd, a bind's guest prefix) is a fixed point of the next.
\<close>

theorem cng_path_canon_idempotent:
  assumes "canonical p" "length p < sz"
  shows "cng_path_canon p sz = Some p"
  using assms by (rule cng_path_canon_id)

theorem cng_path_canon_idempotent_witness:
  "canonical ''/usr/lib'' \<and> cng_path_canon ''/usr/lib'' 9 = Some ''/usr/lib''"
proof -
  have "comps ''/usr/lib'' = [''usr'', ''lib'']" by (simp add: comps.simps)
  then have "canonical ''/usr/lib''" by (simp add: canonical_def path_of_def good_comp_def)
  then show ?thesis using cng_path_canon_idempotent [of "''/usr/lib''" 9] by simp
qed

section \<open>cng_path_wants_dir\<close>

fun wants_dir_scan :: "string \<Rightarrow> nat \<Rightarrow> bool \<Rightarrow> bool" where
  "wants_dir_scan path 0 want = want"
| "wants_dir_scan path (Suc k) want =
     (if path ! k = SL then wants_dir_scan path k True
      else if path ! k = CHR ''.'' \<and> (k = 0 \<or> path ! (k - 1) = SL) then wants_dir_scan path k True
      else want)"

definition cng_path_wants_dir :: "string \<Rightarrow> bool" where
  "cng_path_wants_dir path = wants_dir_scan path (length path) False"

lemma wants_dir_scan_True: "wants_dir_scan path n True"
  by (induction n) auto

lemma wants_dir_iff:
  "cng_path_wants_dir p \<longleftrightarrow> suffix ''/'' p \<or> p = DOT \<or> suffix ''/.'' p"
proof (cases p rule: rev_cases)
  case (snoc q c)
  show ?thesis
  proof (cases q rule: rev_cases)
    case Nil
    with snoc show ?thesis
      by (auto simp: cng_path_wants_dir_def wants_dir_scan_True suffix_def)
  next
    case (snoc r d)
    with \<open>p = q @ [c]\<close> show ?thesis
      by (auto simp: cng_path_wants_dir_def wants_dir_scan_True suffix_def nth_append)
  qed
qed (simp add: cng_path_wants_dir_def)

lemma canonical_wants_dir:
  assumes "canonical p" "p \<noteq> [SL]"
  shows "\<not> cng_path_wants_dir p" "last p \<noteq> SL"
proof -
  obtain cs where cs: "p = path_of cs" "list_all good_comp cs" using assms(1) by (auto elim: canonicalE)
  then have "cs \<noteq> []" using assms(2) by (auto simp: path_of_def)
  then obtain ds c where c: "cs = ds @ [c]" by (cases cs rule: rev_cases) auto
  then have g: "good_comp c" and p: "p = (render ds @ [SL]) @ c" using cs by (auto simp: path_of_def)
  obtain c' x where x: "c = c' @ [x]" "x \<noteq> SL" using g by (cases c rule: rev_cases) (auto simp: good_comp_def)
  then show "last p \<noteq> SL" using p by simp
  have "\<not> suffix ''/.'' p"
  proof (cases c' rule: rev_cases)
    case Nil
    then show ?thesis using p x g by (auto simp: suffix_def good_comp_def)
  next
    case (snoc c2 y)
    then have "y \<noteq> SL" using x g by (auto simp: good_comp_def)
    then show ?thesis using p x snoc by (auto simp: suffix_def)
  qed
  moreover have "\<not> suffix ''/'' p" using p x by (auto simp: suffix_def)
  moreover have "p \<noteq> DOT" using p g by (cases ds) (auto simp: good_comp_def)
  ultimately show "\<not> cng_path_wants_dir p" by (simp add: wants_dir_iff)
qed

text \<open>
  The backward scan of \<open>cng_path_wants_dir\<close> answers yes exactly for a spelling that ends in a
  slash or whose last component is a single dot; a final \<open>..\<close> is not one of them.
\<close>

theorem cng_path_wants_dir_iff:
  "cng_path_wants_dir p \<longleftrightarrow> suffix ''/'' p \<or> p = DOT \<or> suffix ''/.'' p"
  by (rule wants_dir_iff)

end
