(* ===== verification/Path_Core.thy ===== *)
theory Path_Core
  imports Path_Canon
begin

text \<open>
  The path view of \<open>src/path/path.c\<close>: the rootfs, the bind table and the cwd (\<open>cng_fs\<close>), the /proc
  and /dev zones, the forward translation of a guest path to a host path, the reverse translation,
  the read-only test and the emulated \<open>chroot\<close>. The operations here are the ones the source
  suffixes with \<open>_1\<close>, on one fixed view; how a view is published to concurrent readers is
  \<open>Path_View\<close>, and where the host's own spelling of a prefix comes from is \<open>Path_Host\<close>.

  C strings are values without a terminator, so the source's test that \<open>s[i]\<close> is NUL is
  \<open>length s \<le> i\<close>. A buffer that a call did not fill (the source returned -1) is \<open>None\<close>.
\<close>

definition CNG_MAX_BINDS :: nat where "CNG_MAX_BINDS = 64"
definition GUEST_SZ :: nat where "GUEST_SZ = 256"
definition HOST_SZ :: nat where "HOST_SZ = 512"
definition CNG_MOUNT_ROOTFS :: int where "CNG_MOUNT_ROOTFS = - 1"
definition CNG_MOUNT_PROC :: int where "CNG_MOUNT_PROC = - 2"
definition CNG_MOUNT_DEV :: int where "CNG_MOUNT_DEV = - 3"

lemmas path_consts = CNG_PATH_MAX_def CNG_MAX_BINDS_def GUEST_SZ_def HOST_SZ_def
  CNG_MOUNT_ROOTFS_def CNG_MOUNT_PROC_def CNG_MOUNT_DEV_def

record cng_bind =
  b_guest :: string
  b_host :: string
  b_glen :: nat
  b_hlen :: nat
  b_base :: nat
  b_ro :: bool

record cng_fs =
  fs_rootfs :: string
  fs_rlen :: nat
  fs_binds :: "cng_bind list"
  fs_has_ro :: bool
  fs_cwd :: string

text \<open>
  What the path component reads of the rest of the monitor: the two zone switches, the host paths
  of the two directory nodes of /dev, and the process registry's answer to whether a pid is a
  guest process.
\<close>

record path_env =
  no_proc :: bool
  no_dev :: bool
  shm_host :: string
  pts_host :: string
  procreg_has :: "int \<Rightarrow> bool"

section \<open>String tests and joins\<close>

definition strn_eq :: "string \<Rightarrow> string \<Rightarrow> nat \<Rightarrow> bool" where
  "strn_eq a b n \<longleftrightarrow> take n a = take n b"

definition at_boundary :: "string \<Rightarrow> nat \<Rightarrow> bool" where
  "at_boundary s i \<longleftrightarrow> length s \<le> i \<or> s ! i = SL"

definition join2 :: "nat \<Rightarrow> string \<Rightarrow> string \<Rightarrow> string option" where
  "join2 outsz a b =
     (let (o1, n) = str_lcpy outsz a in
      if n \<ge> outsz then None
      else let (o2, k) = str_lcpy (outsz - n) b in
        if k \<ge> outsz - n then None else Some (o1 @ o2))"

section \<open>The zones\<close>

definition proc_zone :: "path_env \<Rightarrow> string \<Rightarrow> bool" where
  "proc_zone e canon \<longleftrightarrow> \<not> no_proc e \<and> strn_eq canon ''/proc'' 5 \<and> at_boundary canon 5"

definition cng_dev_nodes :: "path_env \<Rightarrow> (string \<times> string) list" where
  "cng_dev_nodes e =
    [(''null'', ''/dev/null''), (''zero'', ''/dev/zero''),
     (''full'', ''/dev/full''), (''random'', ''/dev/random''),
     (''urandom'', ''/dev/urandom''), (''tty'', ''/dev/tty''),
     (''ptmx'', ''/dev/ptmx''), (''console'', ''/dev/tty''),
     (''pts'', pts_host e), (''shm'', shm_host e),
     (''fd'', ''/proc/self/fd''), (''stdin'', ''/proc/self/fd/0''),
     (''stdout'', ''/proc/self/fd/1''), (''stderr'', ''/proc/self/fd/2'')]"

fun find_node :: "string \<Rightarrow> (string \<times> string) list \<Rightarrow> nat \<Rightarrow> (nat \<times> string) option" where
  "find_node leaf [] i = None"
| "find_node leaf ((name, h) # ns) i =
     (let nl = length name in
      if \<not> strn_eq leaf name nl then find_node leaf ns (i + 1)
      else if at_boundary leaf nl then Some (i, drop nl leaf)
      else find_node leaf ns (i + 1))"

definition dev_zone_node :: "path_env \<Rightarrow> string \<Rightarrow> (nat \<times> string) option" where
  "dev_zone_node e canon =
     (if no_dev e then None
      else if \<not> strn_eq canon ''/dev'' 4 \<or> \<not> at_boundary canon 4 then None
      else if length canon \<le> 4 then None
      else find_node (drop 5 canon) (cng_dev_nodes e) 0)"

text \<open>\<open>dev_zone\<close>: \<open>None\<close> falls through (0), \<open>Some None\<close> did not fit (-1), \<open>Some (Some out)\<close> is 1.\<close>

definition dev_zone :: "path_env \<Rightarrow> string \<Rightarrow> nat \<Rightarrow> string option option" where
  "dev_zone e canon outsz =
     (case dev_zone_node e canon of
        None \<Rightarrow> None
      | Some (i, rest) \<Rightarrow>
          if rest = [] then Some (Some (fst (str_lcpy outsz (snd (cng_dev_nodes e ! i)))))
          else Some (join2 outsz (snd (cng_dev_nodes e ! i)) rest))"

definition is_digit :: "char \<Rightarrow> bool" where
  "is_digit c \<longleftrightarrow> of_char c \<ge> (48 :: nat) \<and> of_char c \<le> (57 :: nat)"

definition digit_val :: "char \<Rightarrow> int" where
  "digit_val c = int (of_char c) - 48"

fun pid_scan :: "string \<Rightarrow> int \<Rightarrow> int option" where
  "pid_scan [] pid = Some pid"
| "pid_scan (c # p) pid =
     (if c = SL then Some pid
      else if \<not> is_digit c then None
      else let pid' = pid * 10 + digit_val c in
        if pid' > 0x7fffffff then None else pid_scan p pid')"

definition host_proc_hidden :: "path_env \<Rightarrow> string \<Rightarrow> bool" where
  "host_proc_hidden e h =
     (if no_proc e \<or> \<not> strn_eq h ''/proc/'' 6 then False
      else let p = drop 6 h in
        if p = [] \<or> \<not> is_digit (hd p) then False
        else case pid_scan p 0 of None \<Rightarrow> False | Some pid \<Rightarrow> \<not> procreg_has e pid)"

definition hide_proc_pid :: "string \<Rightarrow> nat \<Rightarrow> string" where
  "hide_proc_pid out outsz =
     (let rest = dropWhile (\<lambda>c. c \<noteq> SL) (drop 6 out);
          (t1, n) = str_lcpy CNG_PATH_MAX ''/proc/0'';
          (t2, k) = str_lcpy (CNG_PATH_MAX - n) rest
      in fst (str_lcpy outsz (t1 @ t2)))"

section \<open>Resolving a guest path\<close>

definition abscanon_1 :: "cng_fs \<Rightarrow> string \<Rightarrow> nat \<Rightarrow> string option" where
  "abscanon_1 fs path outsz =
     (if path \<noteq> [] \<and> hd path = SL then
        (let (tmp, n) = str_lcpy CNG_PATH_MAX path in
         if n \<ge> CNG_PATH_MAX then None else cng_path_canon tmp outsz)
      else
        (let (tmp, n) = str_lcpy CNG_PATH_MAX (fs_cwd fs) in
         if n \<ge> CNG_PATH_MAX then None
         else if n \<noteq> 0 \<and> tmp ! (n - 1) \<noteq> SL \<and> n + 1 \<ge> CNG_PATH_MAX then None
         else let tmp = (if n \<noteq> 0 \<and> tmp ! (n - 1) \<noteq> SL then tmp @ [SL] else tmp);
                  n = length tmp;
                  (t2, k) = str_lcpy (CNG_PATH_MAX - n) path
              in if k \<ge> CNG_PATH_MAX - n then None else cng_path_canon (tmp @ t2) outsz))"

fun mount_scan :: "string \<Rightarrow> cng_bind list \<Rightarrow> nat \<Rightarrow> int \<Rightarrow> nat \<Rightarrow> int" where
  "mount_scan canon [] i best blen = best"
| "mount_scan canon (b # bs) i best blen =
     (if strn_eq canon (b_guest b) (b_glen b) \<and> at_boundary canon (b_glen b) \<and> b_glen b > blen
      then mount_scan canon bs (i + 1) (int i) (b_glen b)
      else mount_scan canon bs (i + 1) best blen)"

definition mount_of_1 :: "path_env \<Rightarrow> cng_fs \<Rightarrow> string \<Rightarrow> int" where
  "mount_of_1 e fs canon =
     (let best = mount_scan canon (fs_binds fs) 0 (- 1) 0 in
      if best \<ge> 0 then best
      else if proc_zone e canon then CNG_MOUNT_PROC
      else if dev_zone_node e canon \<noteq> None then CNG_MOUNT_DEV
      else CNG_MOUNT_ROOTFS)"

definition host_of_mount :: "path_env \<Rightarrow> cng_fs \<Rightarrow> int \<Rightarrow> string \<Rightarrow> nat \<Rightarrow> string option" where
  "host_of_mount e fs m canon outsz =
     (if m \<ge> 0 then
        (let b = fs_binds fs ! nat m in join2 outsz (b_host b) (drop (b_glen b) canon))
      else if m = CNG_MOUNT_PROC then
        (let (out, n) = str_lcpy outsz canon in if n \<ge> outsz then None else Some out)
      else if m = CNG_MOUNT_DEV then
        (case dev_zone e canon outsz of None \<Rightarrow> None | Some r \<Rightarrow> r)
      else join2 outsz (fs_rootfs fs) canon)"

definition add_slash :: "string \<Rightarrow> string \<Rightarrow> nat \<Rightarrow> string option" where
  "add_slash path out outsz =
     (if cng_path_wants_dir path \<and> out \<noteq> [] \<and> last out \<noteq> SL
      then (if length out + 2 > outsz then None else Some (out @ [SL]))
      else Some out)"

text \<open>The mount is reported also when the path does not fit, as \<open>*mount_out\<close> is.\<close>

definition translate_mnt_1 :: "path_env \<Rightarrow> cng_fs \<Rightarrow> string \<Rightarrow> nat \<Rightarrow> int \<times> string option" where
  "translate_mnt_1 e fs path outsz =
     (case abscanon_1 fs path CNG_PATH_MAX of
        None \<Rightarrow> (CNG_MOUNT_ROOTFS, None)
      | Some canon \<Rightarrow>
          let m = mount_of_1 e fs canon in
          (m, Option.bind (host_of_mount e fs m canon outsz) (\<lambda>out.
                let out = (if host_proc_hidden e out then hide_proc_pid out outsz else out)
                in add_slash path out outsz)))"

definition translate_1 :: "path_env \<Rightarrow> cng_fs \<Rightarrow> string \<Rightarrow> nat \<Rightarrow> string option" where
  "translate_1 e fs path outsz = snd (translate_mnt_1 e fs path outsz)"

section \<open>The reverse translation and the read-only test\<close>

definition host_under :: "string \<Rightarrow> string \<Rightarrow> nat \<Rightarrow> bool" where
  "host_under h pfx len \<longleftrightarrow> len = 0 \<or> (strn_eq h pfx len \<and> at_boundary h len)"

fun untranslate_scan :: "string \<Rightarrow> cng_bind list \<Rightarrow> nat \<Rightarrow> int \<Rightarrow> nat \<Rightarrow> int \<times> nat" where
  "untranslate_scan h [] i best blen = (best, blen)"
| "untranslate_scan h (b # bs) i best blen =
     (if b_hlen b > blen \<and> host_under h (b_host b) (b_hlen b)
      then untranslate_scan h bs (i + 1) (int i) (b_hlen b)
      else untranslate_scan h bs (i + 1) best blen)"

definition untranslate_1 :: "cng_fs \<Rightarrow> string \<Rightarrow> nat \<Rightarrow> string option" where
  "untranslate_1 fs h outsz =
     (let (best0, blen0) =
            (if host_under h (fs_rootfs fs) (fs_rlen fs) then (- 1, fs_rlen fs) else (- 2, 0));
          (best, blen) = untranslate_scan h (fs_binds fs) 0 best0 blen0
      in if best = - 2 then None
         else map_option (\<lambda>out. if out = [] then fst (str_lcpy outsz [SL]) else out)
                (join2 outsz (if best \<ge> 0 then b_guest (fs_binds fs ! nat best) else [])
                   (drop blen h)))"

fun ro_scan :: "string \<Rightarrow> cng_bind list \<Rightarrow> nat \<Rightarrow> int \<Rightarrow> nat \<Rightarrow> int" where
  "ro_scan h [] i best blen = best"
| "ro_scan h (b # bs) i best blen =
     (if b_hlen b \<noteq> 0 \<and> strn_eq h (b_host b) (b_hlen b) \<and> at_boundary h (b_hlen b) \<and> b_hlen b > blen
      then ro_scan h bs (i + 1) (int i) (b_hlen b)
      else ro_scan h bs (i + 1) best blen)"

definition host_ro_1 :: "cng_fs \<Rightarrow> string \<Rightarrow> bool" where
  "host_ro_1 fs h =
     (if \<not> fs_has_ro fs then False
      else let best = ro_scan h (fs_binds fs) 0 (- 1) 0 in
        best \<ge> 0 \<and> b_ro (fs_binds fs ! nat best))"

section \<open>Changing the view\<close>

definition bind_measure :: "cng_bind \<Rightarrow> cng_bind" where
  "bind_measure b =
     b\<lparr>b_glen := length (b_guest b), b_hlen := length (b_host b),
       b_base := foldl (\<lambda>base i. if b_guest b ! i = SL then i + 1 else base) 0
                   [0..<length (b_guest b)]\<rparr>"

function strip_slashes :: "string \<Rightarrow> string" where
  "strip_slashes d = (if length d > 1 \<and> last d = SL then strip_slashes (butlast d) else d)"
  by pat_completeness auto
termination
  by (relation "measure length") auto

declare strip_slashes.simps [simp del]

definition normalize_root :: "nat \<Rightarrow> string \<Rightarrow> string \<times> int" where
  "normalize_root dstsz src =
     (let (d, n) = str_lcpy dstsz src in
      if n \<ge> dstsz then ([], - 1)
      else let d = strip_slashes d in (if d = [SL] then [] else d, 0))"

definition rebase :: "nat \<Rightarrow> string \<Rightarrow> string \<Rightarrow> nat \<Rightarrow> string option" where
  "rebase dstsz p root rlen =
     (if rlen = 0 then Some (fst (str_lcpy dstsz p))
      else if \<not> strn_eq p root rlen \<or> \<not> at_boundary p rlen then None
      else Some (fst (str_lcpy dstsz (if rlen < length p then drop rlen p else [SL]))))"

fun chroot_binds :: "string \<Rightarrow> nat \<Rightarrow> cng_bind list \<Rightarrow> cng_bind list \<times> bool \<Rightarrow> cng_bind list \<times> bool" where
  "chroot_binds root rlen [] acc = acc"
| "chroot_binds root rlen (b # bs) (ws, has_ro) =
     (case rebase GUEST_SZ (b_guest b) root rlen of
        None \<Rightarrow> chroot_binds root rlen bs (ws, has_ro)
      | Some g \<Rightarrow>
          if g = [SL] then chroot_binds root rlen bs (ws, has_ro)
          else let b' = bind_measure (b\<lparr>b_guest := fst (str_lcpy GUEST_SZ g)\<rparr>)
               in chroot_binds root rlen bs (ws @ [b'], has_ro \<or> b_ro b'))"

definition chroot_1 :: "cng_fs \<Rightarrow> string \<Rightarrow> string \<Rightarrow> cng_fs" where
  "chroot_1 fs guest_root host_root =
     (case cng_path_canon guest_root CNG_PATH_MAX of
        None \<Rightarrow> fs
      | Some root \<Rightarrow>
          let rlen = (if length root = 1 then 0 else length root);
              (bs, ro) = chroot_binds root rlen (fs_binds fs) ([], False);
              cwd = (case rebase CNG_PATH_MAX (fs_cwd fs) root rlen of
                       Some c \<Rightarrow> fst (str_lcpy CNG_PATH_MAX c)
                     | None \<Rightarrow> fst (str_lcpy CNG_PATH_MAX [SL]));
              rootfs = fst (normalize_root HOST_SZ host_root)
          in fs\<lparr>fs_binds := bs, fs_has_ro := ro, fs_cwd := cwd, fs_rootfs := rootfs,
                fs_rlen := length rootfs\<rparr>)"

definition set_cwd_1 :: "cng_fs \<Rightarrow> string \<Rightarrow> cng_fs" where
  "set_cwd_1 fs guest_cwd =
     (if guest_cwd \<noteq> [] \<and> hd guest_cwd = SL
      then case cng_path_canon guest_cwd CNG_PATH_MAX of
             Some canon \<Rightarrow> fs\<lparr>fs_cwd := fst (str_lcpy CNG_PATH_MAX canon)\<rparr>
           | None \<Rightarrow> fs
      else fs)"

end
