(* ===== verification/Path_Props.thy ===== *)
theory Path_Props
  imports Path_Core
begin

text \<open>
  What the path view promises. The three table scans of the source (the mount of a guest path, the
  mount of a host path, the read-only test) are instances of one search for the longest matching
  prefix, of which the first wins a tie; the translation is shown to stay below the host root of
  the mount it picked, to reverse exactly, and to hide foreign processes; the well-formedness of a
  view is an invariant of every operation that changes it.
\<close>

section \<open>Joins and prefixes\<close>

lemma join2_eq: "join2 sz a b = (if length a + length b < sz then Some (a @ b) else None)"
  using lcpy.copy_join [of a b sz]
  by (auto simp: join2_def str_lcpy_def)

definition path_under :: "string \<Rightarrow> string \<Rightarrow> bool" where
  "path_under s p \<longleftrightarrow> (\<exists>r. s = p @ r \<and> (r = [] \<or> hd r = SL))"

lemma path_under_scan: "strn_eq s p (length p) \<and> at_boundary s (length p) \<longleftrightarrow> path_under s p"
proof
  assume a: "strn_eq s p (length p) \<and> at_boundary s (length p)"
  then have "s = p @ drop (length p) s" by (metis append_take_drop_id strn_eq_def take_all_iff le_refl)
  moreover have "drop (length p) s = [] \<or> hd (drop (length p) s) = SL"
    using a hd_drop_conv_nth [of "length p" s]
    by (cases "length p < length s") (auto simp: at_boundary_def)
  ultimately show "path_under s p" unfolding path_under_def by blast
next
  assume "path_under s p"
  then obtain r where "s = p @ r" "r = [] \<or> hd r = SL" by (auto simp: path_under_def)
  then show "strn_eq s p (length p) \<and> at_boundary s (length p)"
    by (cases r) (auto simp: strn_eq_def at_boundary_def)
qed

lemma path_under_drop: "path_under s p \<Longrightarrow> p @ drop (length p) s = s"
  by (auto simp: path_under_def)

lemma path_under_rest: "path_under s p \<Longrightarrow> drop (length p) s = [] \<or> hd (drop (length p) s) = SL"
  by (auto simp: path_under_def)

lemma suffix_render:
  "render cs = g @ r \<Longrightarrow> list_all good_comp cs \<Longrightarrow> r = [] \<or> hd r = SL \<Longrightarrow>
   \<exists>cs2. r = render cs2 \<and> list_all good_comp cs2"
proof (induction cs arbitrary: g)
  case Nil
  then show ?case by (auto intro: exI [of _ "[]"])
next
  case (Cons c cs)
  show ?case
  proof (cases g)
    case Nil
    with Cons.prems show ?thesis by (auto intro!: exI [of _ "c # cs"])
  next
    case (Cons x g')
    then have "c @ render cs = g' @ r" using Cons.prems(1) by simp
    then obtain us where "c = g' @ us \<and> us @ render cs = r \<or> c @ us = g' \<and> render cs = us @ r"
      by (auto simp: append_eq_append_conv2)
    then show ?thesis
    proof (elim disjE conjE)
      assume "c = g' @ us" "us @ render cs = r"
      moreover from this have "us = []"
        using Cons.prems(2,3) by (cases us) (auto simp: good_comp_def)
      ultimately show ?thesis using Cons.prems(2) by auto
    next
      assume "render cs = us @ r"
      with Cons.IH Cons.prems(2,3) show ?thesis by simp
    qed
  qed
qed

lemma canonical_suffix:
  assumes "canonical p" "p = g @ r" "g \<noteq> []" "r = [] \<or> hd r = SL"
  shows "\<exists>cs. r = render cs \<and> list_all good_comp cs"
proof -
  obtain cs where cs: "p = path_of cs" "list_all good_comp cs" using assms(1) by (auto elim: canonicalE)
  show ?thesis
  proof (cases "cs = []")
    case True
    then have "g @ r = [SL]" using cs assms(2) by (simp add: path_of_def)
    then have "r = []" using assms(3) by (auto simp: append_eq_Cons_conv)
    then show ?thesis by (auto intro: exI [of _ "[]"])
  next
    case False
    then have "render cs = g @ r" using cs assms(2) by (simp add: path_of_def)
    with suffix_render cs(2) assms(4) show ?thesis by blast
  qed
qed

section \<open>The longest matching prefix\<close>

fun longest :: "('b \<Rightarrow> nat) \<Rightarrow> ('b \<Rightarrow> bool) \<Rightarrow> 'b list \<Rightarrow> nat \<Rightarrow> int \<Rightarrow> nat \<Rightarrow> int \<times> nat" where
  "longest len hit [] i best blen = (best, blen)"
| "longest len hit (b # bs) i best blen =
     (if hit b \<and> len b > blen then longest len hit bs (i + 1) (int i) (len b)
      else longest len hit bs (i + 1) best blen)"

definition best_hit :: "('b \<Rightarrow> nat) \<Rightarrow> ('b \<Rightarrow> bool) \<Rightarrow> 'b list \<Rightarrow> nat \<Rightarrow> bool" where
  "best_hit len hit bs j \<longleftrightarrow> j < length bs \<and> hit (bs ! j) \<and>
     (\<forall>k<length bs. hit (bs ! k) \<longrightarrow> len (bs ! k) \<le> len (bs ! j)) \<and>
     (\<forall>k<j. hit (bs ! k) \<longrightarrow> len (bs ! k) < len (bs ! j))"

lemma best_hit_unique: "best_hit len hit bs j \<Longrightarrow> best_hit len hit bs k \<Longrightarrow> j = k"
  unfolding best_hit_def by (metis leD linorder_neqE_nat)

lemma best_hit_Cons_0:
  "hit b \<Longrightarrow> (\<forall>x\<in>set bs. hit x \<longrightarrow> len x \<le> len b) \<Longrightarrow> best_hit len hit (b # bs) 0"
  by (auto simp: best_hit_def nth_Cons split: nat.split)

lemma best_hit_Cons_Suc:
  "best_hit len hit bs j \<Longrightarrow> (hit b \<longrightarrow> len b < len (bs ! j)) \<Longrightarrow> best_hit len hit (b # bs) (Suc j)"
  by (auto simp: best_hit_def nth_Cons split: nat.split)

lemma longest_spec:
  "(longest len hit bs i best blen = (best, blen) \<and> (\<forall>b\<in>set bs. hit b \<longrightarrow> len b \<le> blen)) \<or>
   (\<exists>j. longest len hit bs i best blen = (int (i + j), len (bs ! j)) \<and>
        blen < len (bs ! j) \<and> best_hit len hit bs j)"
proof (induction len hit bs i best blen rule: longest.induct)
  case (2 len hit b bs i best blen)
  show ?case
  proof (cases "hit b \<and> len b > blen")
    case True
    from "2.IH"(1) [OF True] show ?thesis
    proof (elim disjE exE conjE)
      assume "longest len hit bs (i + 1) (int i) (len b) = (int i, len b)"
        "\<forall>x\<in>set bs. hit x \<longrightarrow> len x \<le> len b"
      then show ?thesis using True best_hit_Cons_0 [of hit b bs len]
        by (intro disjI2 exI [of _ 0]) auto
    next
      fix j assume "longest len hit bs (i + 1) (int i) (len b) = (int (i + 1 + j), len (bs ! j))"
        "len b < len (bs ! j)" "best_hit len hit bs j"
      then show ?thesis using True best_hit_Cons_Suc [of len hit bs j b]
        by (intro disjI2 exI [of _ "Suc j"]) auto
    qed
  next
    case False
    from "2.IH"(2) [OF False] show ?thesis
    proof (elim disjE exE conjE)
      assume "longest len hit bs (i + 1) best blen = (best, blen)" "\<forall>x\<in>set bs. hit x \<longrightarrow> len x \<le> blen"
      then show ?thesis using False by auto
    next
      fix j assume "longest len hit bs (i + 1) best blen = (int (i + 1 + j), len (bs ! j))"
        "blen < len (bs ! j)" "best_hit len hit bs j"
      then show ?thesis using False best_hit_Cons_Suc [of len hit bs j b]
        by (intro disjI2 exI [of _ "Suc j"]) auto
    qed
  qed
qed simp

lemma mount_scan_longest:
  "mount_scan canon bs i best blen =
   fst (longest b_glen (\<lambda>b. strn_eq canon (b_guest b) (b_glen b) \<and> at_boundary canon (b_glen b)) bs i best blen)"
  by (induction canon bs i best blen rule: mount_scan.induct) auto

lemma untranslate_scan_longest:
  "untranslate_scan h bs i best blen =
   longest b_hlen (\<lambda>b. host_under h (b_host b) (b_hlen b)) bs i best blen"
  by (induction h bs i best blen rule: untranslate_scan.induct) auto

lemma ro_scan_longest:
  "ro_scan h bs i best blen = fst (longest b_hlen
     (\<lambda>b. b_hlen b \<noteq> 0 \<and> strn_eq h (b_host b) (b_hlen b) \<and> at_boundary h (b_hlen b)) bs i best blen)"
  by (induction h bs i best blen rule: ro_scan.induct) auto

section \<open>Well-formed views\<close>

definition bind_ok :: "cng_bind \<Rightarrow> bool" where
  "bind_ok b \<longleftrightarrow> canonical (b_guest b) \<and> length (b_guest b) < GUEST_SZ \<and>
     length (b_host b) < HOST_SZ \<and> (b_host b = [] \<or> last (b_host b) \<noteq> SL) \<and>
     bind_measure b = b"

definition wf_fs :: "cng_fs \<Rightarrow> bool" where
  "wf_fs fs \<longleftrightarrow> length (fs_rootfs fs) < HOST_SZ \<and> (fs_rootfs fs = [] \<or> last (fs_rootfs fs) \<noteq> SL) \<and>
     fs_rlen fs = length (fs_rootfs fs) \<and> length (fs_binds fs) \<le> CNG_MAX_BINDS \<and>
     list_all bind_ok (fs_binds fs) \<and> fs_has_ro fs = list_ex b_ro (fs_binds fs) \<and>
     canonical (fs_cwd fs) \<and> length (fs_cwd fs) < CNG_PATH_MAX"

lemma bind_measure_lens [simp]:
  "b_glen (bind_measure b) = length (b_guest b)" "b_hlen (bind_measure b) = length (b_host b)"
  "b_guest (bind_measure b) = b_guest b" "b_host (bind_measure b) = b_host b"
  "b_ro (bind_measure b) = b_ro b"
  by (simp_all add: bind_measure_def)

lemma bind_measure_idem [simp]: "bind_measure (bind_measure b) = bind_measure b"
  by (simp add: bind_measure_def)

lemma bind_ok_lens: "bind_ok b \<Longrightarrow> b_glen b = length (b_guest b)" "bind_ok b \<Longrightarrow> b_hlen b = length (b_host b)"
  by (metis bind_ok_def bind_measure_lens(1)) (metis bind_ok_def bind_measure_lens(2))

lemma wf_bind: "wf_fs fs \<Longrightarrow> i < length (fs_binds fs) \<Longrightarrow> bind_ok (fs_binds fs ! i)"
  by (simp add: wf_fs_def list_all_length)

lemma canonical_nonempty: "canonical p \<Longrightarrow> p \<noteq> [] \<and> hd p = SL"
  by (auto elim!: canonicalE simp: path_of_def neq_Nil_conv)

section \<open>Which mount answers\<close>

definition covers :: "string \<Rightarrow> cng_bind \<Rightarrow> bool" where
  "covers canon b \<longleftrightarrow> strn_eq canon (b_guest b) (b_glen b) \<and> at_boundary canon (b_glen b)"

lemma covers_under: "bind_ok b \<Longrightarrow> covers canon b \<longleftrightarrow> path_under canon (b_guest b)"
  using path_under_scan by (simp add: covers_def bind_ok_lens)

lemma mount_of_cases:
  "(\<exists>j. mount_of_1 e fs canon = int j \<and> best_hit b_glen (covers canon) (fs_binds fs) j \<and>
        0 < b_glen (fs_binds fs ! j)) \<or>
   (\<forall>b\<in>set (fs_binds fs). covers canon b \<longrightarrow> b_glen b = 0) \<and>
     mount_of_1 e fs canon =
       (if proc_zone e canon then CNG_MOUNT_PROC
        else if dev_zone_node e canon \<noteq> None then CNG_MOUNT_DEV else CNG_MOUNT_ROOTFS)"
proof -
  have h: "(\<lambda>b. strn_eq canon (b_guest b) (b_glen b) \<and> at_boundary canon (b_glen b)) = covers canon"
    by (simp add: covers_def fun_eq_iff)
  from longest_spec [of b_glen "covers canon" "fs_binds fs" 0 "- 1" 0] show ?thesis
  proof (elim disjE exE conjE)
    assume "longest b_glen (covers canon) (fs_binds fs) 0 (- 1) 0 = (- 1, 0)"
      "\<forall>b\<in>set (fs_binds fs). covers canon b \<longrightarrow> b_glen b \<le> 0"
    then show ?thesis by (simp add: mount_of_1_def mount_scan_longest h)
  next
    fix j assume "longest b_glen (covers canon) (fs_binds fs) 0 (- 1) 0 =
        (int (0 + j), b_glen (fs_binds fs ! j))"
      "0 < b_glen (fs_binds fs ! j)" "best_hit b_glen (covers canon) (fs_binds fs) j"
    then show ?thesis by (intro disjI1 exI [of _ j]) (simp add: mount_of_1_def mount_scan_longest h)
  qed
qed

text \<open>
  The precedence of the mount table: a path belongs to the longest bind prefix that covers it at
  a component boundary, the first of equals; only when no bind covers it do the /proc zone, then
  the /dev whitelist, then the rootfs answer.
\<close>

theorem mount_of_precedence:
  "let m = mount_of_1 e fs canon in
    (m \<ge> 0 \<longleftrightarrow> (\<exists>b\<in>set (fs_binds fs). covers canon b \<and> b_glen b > 0)) \<and>
    (m \<ge> 0 \<longrightarrow> best_hit b_glen (covers canon) (fs_binds fs) (nat m)) \<and>
    (m < 0 \<longrightarrow> m = (if proc_zone e canon then CNG_MOUNT_PROC
        else if dev_zone_node e canon \<noteq> None then CNG_MOUNT_DEV else CNG_MOUNT_ROOTFS))"
  using mount_of_cases [of e fs canon]
proof (elim disjE exE conjE)
  fix j assume j: "mount_of_1 e fs canon = int j" "best_hit b_glen (covers canon) (fs_binds fs) j"
    "0 < b_glen (fs_binds fs ! j)"
  then have "fs_binds fs ! j \<in> set (fs_binds fs) \<and> covers canon (fs_binds fs ! j)"
    by (simp add: best_hit_def)
  with j show ?thesis by (auto simp: Let_def)
next
  assume "\<forall>b\<in>set (fs_binds fs). covers canon b \<longrightarrow> b_glen b = 0"
    "mount_of_1 e fs canon = (if proc_zone e canon then CNG_MOUNT_PROC
        else if dev_zone_node e canon \<noteq> None then CNG_MOUNT_DEV else CNG_MOUNT_ROOTFS)"
  then show ?thesis by (auto simp: Let_def path_consts)
qed

text \<open>A small view for the examples: a rootfs, a read-only bind and a bind nested under it.\<close>

definition demo_bind :: "string \<Rightarrow> string \<Rightarrow> bool \<Rightarrow> cng_bind" where
  "demo_bind g h r = bind_measure
     \<lparr>b_guest = g, b_host = h, b_glen = 0, b_hlen = 0, b_base = 0, b_ro = r\<rparr>"

definition demo_fs :: cng_fs where
  "demo_fs = \<lparr>fs_rootfs = ''/r'', fs_rlen = 2,
     fs_binds = [demo_bind ''/d'' ''/x'' True, demo_bind ''/d/e'' ''/y'' False],
     fs_has_ro = True, fs_cwd = ''/''\<rparr>"

definition demo_env :: path_env where
  "demo_env = \<lparr>no_proc = False, no_dev = False, shm_host = ''/dev/shm'', pts_host = ''/dev/pts'',
     procreg_has = (\<lambda>pid. pid = 7)\<rparr>"

lemmas demo_simps = demo_fs_def demo_bind_def demo_env_def bind_measure_def

theorem mount_of_precedence_witness:
  "mount_of_1 demo_env demo_fs ''/d/e/f'' = 1 \<and>
   best_hit b_glen (covers ''/d/e/f'') (fs_binds demo_fs) 1 \<and>
   mount_of_1 demo_env demo_fs ''/proc/7'' = CNG_MOUNT_PROC"
proof -
  have m: "mount_of_1 demo_env demo_fs ''/d/e/f'' = 1"
    by (simp add: mount_of_1_def demo_simps strn_eq_def at_boundary_def)
  have p: "mount_of_1 demo_env demo_fs ''/proc/7'' < 0" "proc_zone demo_env ''/proc/7''"
    by (simp_all add: mount_of_1_def demo_simps strn_eq_def at_boundary_def proc_zone_def path_consts)
  show ?thesis
    using m p mount_of_precedence [of demo_env demo_fs "''/d/e/f''"]
      mount_of_precedence [of demo_env demo_fs "''/proc/7''"] by (simp add: Let_def)
qed

lemma mount_of_kinds:
  "(\<exists>j. mount_of_1 e fs canon = int j) \<or>
   proc_zone e canon \<and> mount_of_1 e fs canon = CNG_MOUNT_PROC \<or>
   \<not> proc_zone e canon \<and> dev_zone_node e canon \<noteq> None \<and> mount_of_1 e fs canon = CNG_MOUNT_DEV \<or>
   \<not> proc_zone e canon \<and> dev_zone_node e canon = None \<and> mount_of_1 e fs canon = CNG_MOUNT_ROOTFS"
  using mount_of_cases [of e fs canon] by metis

lemma mount_of_PROC: "mount_of_1 e fs canon = CNG_MOUNT_PROC \<Longrightarrow> proc_zone e canon"
  using mount_of_kinds [of e fs canon] by (auto simp: path_consts)

lemma mount_of_best:
  assumes "0 \<le> mount_of_1 e fs canon"
  shows "best_hit b_glen (covers canon) (fs_binds fs) (nat (mount_of_1 e fs canon))"
    "0 < b_glen (fs_binds fs ! nat (mount_of_1 e fs canon))"
proof -
  have "mount_of_1 e fs canon \<noteq> (if proc_zone e canon then CNG_MOUNT_PROC
        else if dev_zone_node e canon \<noteq> None then CNG_MOUNT_DEV else CNG_MOUNT_ROOTFS)"
    using assms by (auto simp: path_consts)
  then obtain j where "mount_of_1 e fs canon = int j" "best_hit b_glen (covers canon) (fs_binds fs) j"
      "0 < b_glen (fs_binds fs ! j)"
    using mount_of_cases [of e fs canon] by blast
  then show "best_hit b_glen (covers canon) (fs_binds fs) (nat (mount_of_1 e fs canon))"
    "0 < b_glen (fs_binds fs ! nat (mount_of_1 e fs canon))" by simp_all
qed

lemma mount_of_bind:
  assumes "0 \<le> m" "m = mount_of_1 e fs canon"
  shows "nat m < length (fs_binds fs)" "covers canon (fs_binds fs ! nat m)"
    "0 < b_glen (fs_binds fs ! nat m)"
  using mount_of_best [of e fs canon] assms by (simp_all add: best_hit_def)

section \<open>Absolute guest paths\<close>

definition full_path :: "cng_fs \<Rightarrow> string \<Rightarrow> string" where
  "full_path fs path =
     (if path \<noteq> [] \<and> hd path = SL then path
      else if last (fs_cwd fs) = SL then fs_cwd fs @ path
      else fs_cwd fs @ [SL] @ path)"

lemma abscanon_canonical: "abscanon_1 fs path sz = Some c \<Longrightarrow> canonical c"
  by (auto simp: abscanon_1_def Let_def split: if_splits prod.splits dest: cng_path_canon_canonical)

lemma abscanon_full:
  assumes "wf_fs fs"
  shows "abscanon_1 fs path sz =
    (if length (full_path fs path) < CNG_PATH_MAX then cng_path_canon (full_path fs path) sz else None)"
proof (cases "path \<noteq> [] \<and> hd path = SL")
  case True
  then show ?thesis by (auto simp: abscanon_1_def full_path_def str_lcpy_def)
next
  case False
  have c: "fs_cwd fs \<noteq> []" "length (fs_cwd fs) < CNG_PATH_MAX"
    using assms canonical_nonempty by (auto simp: wf_fs_def)
  then show ?thesis using False
    by (auto simp: abscanon_1_def full_path_def str_lcpy_def Let_def last_conv_nth)
qed

lemma full_path_abs: "wf_fs fs \<Longrightarrow> full_path fs path \<noteq> [] \<and> hd (full_path fs path) = SL"
  using canonical_nonempty by (auto simp: full_path_def wf_fs_def)

lemma abscanon_norm:
  "wf_fs fs \<Longrightarrow> abscanon_1 fs path CNG_PATH_MAX =
     (if length (full_path fs path) < CNG_PATH_MAX then Some (norm (full_path fs path)) else None)"
  using cng_path_canon_fits full_path_abs by (auto simp: abscanon_full)

lemma abscanon_Some:
  assumes "wf_fs fs" "abscanon_1 fs path CNG_PATH_MAX = Some canon"
  shows "canonical canon" "canon = norm (full_path fs path)" "length canon < CNG_PATH_MAX"
proof -
  have c: "cng_path_canon (full_path fs path) CNG_PATH_MAX = Some canon"
    using assms by (simp add: abscanon_full split: if_splits)
  show "canonical canon" using c by (rule cng_path_canon_canonical)
  show "canon = norm (full_path fs path)" using c by (rule cng_path_canon_norm)
  show "length canon < CNG_PATH_MAX" using c by (intro cng_path_canon_length) (auto simp: CNG_PATH_MAX_def)
qed

section \<open>Containment\<close>

definition env_ok :: "path_env \<Rightarrow> bool" where
  "env_ok e \<longleftrightarrow> length (shm_host e) < CNG_PATH_MAX \<and> length (pts_host e) < CNG_PATH_MAX"

definition mount_roots :: "path_env \<Rightarrow> cng_fs \<Rightarrow> int \<Rightarrow> string set" where
  "mount_roots e fs m =
     (if m \<ge> 0 then {b_host (fs_binds fs ! nat m)}
      else if m = CNG_MOUNT_PROC then {''/proc''}
      else if m = CNG_MOUNT_DEV then set (map snd (cng_dev_nodes e))
      else {fs_rootfs fs})"

lemma find_node_Some:
  "find_node leaf ns i = Some (j, rest) \<Longrightarrow>
   \<exists>k<length ns. j = i + k \<and> leaf = fst (ns ! k) @ rest \<and> (rest = [] \<or> hd rest = SL)"
proof (induction leaf ns i rule: find_node.induct)
  case (2 leaf name h ns i)
  show ?case
  proof (cases "strn_eq leaf name (length name) \<and> at_boundary leaf (length name)")
    case True
    then have "path_under leaf name" by (simp add: path_under_scan)
    moreover have "j = i" "rest = drop (length name) leaf" using True "2.prems" by simp_all
    ultimately show ?thesis
      using path_under_drop path_under_rest by (intro exI [of _ 0]) auto
  next
    case False
    then have "find_node leaf ns (i + 1) = Some (j, rest)" using "2.prems" by (auto simp: Let_def split: if_splits)
    then obtain k where "k < length ns \<and> j = i + 1 + k \<and> leaf = fst (ns ! k) @ rest \<and> (rest = [] \<or> hd rest = SL)"
      using 2 False by (auto simp: Let_def split: if_splits)
    then show ?thesis by (intro exI [of _ "Suc k"]) auto
  qed
qed simp

lemma cng_dev_nodes_short:
  "env_ok e \<Longrightarrow> n \<in> set (cng_dev_nodes e) \<Longrightarrow> length (snd n) < CNG_PATH_MAX"
  by (auto simp: cng_dev_nodes_def env_ok_def CNG_PATH_MAX_def)

lemma dev_zone_node_Some:
  assumes "dev_zone_node e canon = Some (i, rest)"
  shows "i < length (cng_dev_nodes e)" "canon = ''/dev/'' @ fst (cng_dev_nodes e ! i) @ rest"
    "rest = [] \<or> hd rest = SL"
proof -
  have f: "find_node (drop 5 canon) (cng_dev_nodes e) 0 = Some (i, rest)"
    and s: "strn_eq canon ''/dev'' 4" "at_boundary canon 4" "4 < length canon"
    using assms by (auto simp: dev_zone_node_def split: if_splits)
  from find_node_Some [OF f] have f': "i < length (cng_dev_nodes e)"
      "drop 5 canon = fst (cng_dev_nodes e ! i) @ rest" "rest = [] \<or> hd rest = SL" by auto
  have t: "take 4 canon = ''/dev''" using s(1) by (simp add: strn_eq_def)
  have d: "drop 4 canon = SL # drop 5 canon"
    using s(2,3) Cons_nth_drop_Suc [of 4 canon] by (simp add: at_boundary_def)
  have "canon = take 4 canon @ drop 4 canon" by simp
  also have "\<dots> = ''/dev/'' @ drop 5 canon" unfolding t d by simp
  finally show "canon = ''/dev/'' @ fst (cng_dev_nodes e ! i) @ rest" using f'(2) by simp
  show "i < length (cng_dev_nodes e)" "rest = [] \<or> hd rest = SL" using f' by blast+
qed

lemma dev_zone_contained:
  assumes "canonical canon" "env_ok e" "dev_zone e canon CNG_PATH_MAX = Some (Some out)"
  shows "\<exists>root\<in>set (map snd (cng_dev_nodes e)). \<exists>cs. list_all good_comp cs \<and> out = root @ render cs"
proof -
  obtain i rest where n: "dev_zone_node e canon = Some (i, rest)"
    using assms(3) by (auto simp: dev_zone_def split: option.splits)
  note d = dev_zone_node_Some [OF n]
  let ?h = "snd (cng_dev_nodes e ! i)"
  have "?h \<in> set (map snd (cng_dev_nodes e))" using d(1) by auto
  moreover have "length ?h < CNG_PATH_MAX" using d(1) assms(2) by (simp add: cng_dev_nodes_short)
  then have "out = ?h @ rest"
    using assms(3) n by (auto simp: dev_zone_def join2_eq lcpy.copy_short split: if_splits)
  moreover obtain cs where "rest = render cs" "list_all good_comp cs"
    using canonical_suffix [OF assms(1), of "''/dev/'' @ fst (cng_dev_nodes e ! i)" rest] d by auto
  ultimately show ?thesis by auto
qed

lemma host_of_mount_contained:
  assumes c: "canonical canon" and w: "wf_fs fs" and e: "env_ok e" and m: "m = mount_of_1 e fs canon"
    and o: "host_of_mount e fs m canon CNG_PATH_MAX = Some out"
  shows "\<exists>root\<in>mount_roots e fs m. \<exists>cs. list_all good_comp cs \<and>
    (out = root @ render cs \<or> out = root @ [SL] \<and> cs = [])"
proof (cases "m \<ge> 0")
  case True
  let ?b = "fs_binds fs ! nat m"
  have b: "nat m < length (fs_binds fs)" "covers canon ?b" "0 < b_glen ?b"
    using mount_of_bind True m by blast+
  then have ok: "bind_ok ?b" using w wf_bind by blast
  then have u: "path_under canon (b_guest ?b)" using b(2) covers_under by blast
  obtain cs where "drop (b_glen ?b) canon = render cs" "list_all good_comp cs"
    using canonical_suffix [OF c path_under_drop [OF u, symmetric]] path_under_rest [OF u] ok b(3)
    by (auto simp: bind_ok_lens)
  then show ?thesis using o True by (auto simp: host_of_mount_def Let_def join2_eq mount_roots_def split: if_splits)
next
  case neg: False
  show ?thesis
  proof (cases "m = CNG_MOUNT_DEV")
    case True
    then show ?thesis
      using o dev_zone_contained [OF c e] by (auto simp: host_of_mount_def mount_roots_def path_consts split: option.splits) 
  next
    case False
    show ?thesis
    proof (cases "m = CNG_MOUNT_PROC")
      case True
      then have "proc_zone e canon" using m mount_of_PROC by simp
      then have u: "path_under canon ''/proc''"
        using path_under_scan [of canon "''/proc''"] by (simp add: proc_zone_def numeral_eq_Suc)
      then obtain cs where "drop (length ''/proc'') canon = render cs" "list_all good_comp cs"
        using canonical_suffix [OF c path_under_drop [OF u, symmetric]] path_under_rest [OF u] by auto
      moreover have "out = canon"
        using o True by (auto simp: host_of_mount_def path_consts str_lcpy_def split: if_splits)
      ultimately show ?thesis
        using True path_under_drop [OF u] by (auto simp: mount_roots_def path_consts)
    next
      case F2: False
      then have "out = fs_rootfs fs @ canon"
        using o neg False by (auto simp: host_of_mount_def join2_eq split: if_splits)
      moreover obtain cs where "canon = path_of cs" "list_all good_comp cs"
        using c by (auto elim: canonicalE)
      ultimately show ?thesis using neg False F2
        by (intro bexI [of _ "fs_rootfs fs"] exI [of _ cs])
          (auto simp: mount_roots_def path_of_def split: if_splits)
    qed
  qed
qed

lemma not_digit_slash: "\<not> is_digit SL"
  by (simp add: is_digit_def)

lemma pid_scan_slash: "pid_scan (p @ [SL]) n = pid_scan p n"
  by (induction p n rule: pid_scan.induct) (auto simp: Let_def)

lemma hidden_slash: "host_proc_hidden e (out @ [SL]) \<longleftrightarrow> host_proc_hidden e out"
proof (cases "6 \<le> length out")
  case True
  then have "strn_eq (out @ [SL]) ''/proc/'' 6 = strn_eq out ''/proc/'' 6"
    "drop 6 (out @ [SL]) = drop 6 out @ [SL]" by (simp_all add: strn_eq_def)
  moreover have "drop 6 out = [] \<Longrightarrow> \<not> is_digit SL" by (simp add: is_digit_def)
  ultimately show ?thesis
    by (cases "drop 6 out") (auto simp: host_proc_hidden_def Let_def pid_scan_slash is_digit_def)
next
  case False
  then have "drop 6 (out @ [SL]) = []" "drop 6 out = []" by simp_all
  then show ?thesis by (simp add: host_proc_hidden_def)
qed

definition proc0 :: "string \<Rightarrow> bool" where
  "proc0 h \<longleftrightarrow> path_under h ''/proc/0''"

lemma hide_proc_pid_eq:
  assumes "host_proc_hidden e out" "length out < CNG_PATH_MAX"
  shows "hide_proc_pid out CNG_PATH_MAX = ''/proc/0'' @ dropWhile (\<lambda>c. c \<noteq> SL) (drop 6 out)"
proof -
  have p: "drop 6 out \<noteq> []" "is_digit (hd (drop 6 out))"
    using assms(1) by (auto simp: host_proc_hidden_def Let_def split: if_splits)
  then obtain c q where q: "drop 6 out = c # q" "c \<noteq> SL" 
    using not_digit_slash by (cases "drop 6 out") auto
  have "length (dropWhile (\<lambda>c. c \<noteq> SL) (drop 6 out)) \<le> length q"
    using q by (simp add: length_dropWhile_le)
  moreover have "length (drop 6 out) = length out - 6" by simp
  then have "length q + 7 = length out" using q(1) by (simp only: list.size)
  ultimately have "length (dropWhile (\<lambda>c. c \<noteq> SL) (drop 6 out)) + 7 < CNG_PATH_MAX"
    using assms(2) by linarith
  then show ?thesis
    by (simp add: hide_proc_pid_def str_lcpy_def Let_def CNG_PATH_MAX_def)
qed

lemma hide_proc_pid_proc0:
  assumes "host_proc_hidden e out" "length out < CNG_PATH_MAX"
  shows "proc0 (hide_proc_pid out CNG_PATH_MAX)"
proof -
  have "dropWhile (\<lambda>c. c \<noteq> SL) (drop 6 out) = [] \<or> hd (dropWhile (\<lambda>c. c \<noteq> SL) (drop 6 out)) = SL"
    using dropWhile_hd [of "\<lambda>c. c \<noteq> SL" "drop 6 out"] by fastforce
  then show ?thesis unfolding proc0_def path_under_def hide_proc_pid_eq [OF assms] by blast
qed

lemma proc0_slash: "proc0 h \<Longrightarrow> proc0 (h @ [SL])"
  unfolding proc0_def path_under_def by (metis append_assoc hd_append2 list.sel(1) append_Nil)

lemma host_of_mount_length:
  assumes "host_of_mount e fs m canon CNG_PATH_MAX = Some out"
  shows "length out < CNG_PATH_MAX"
proof -
  have "dev_zone e canon CNG_PATH_MAX = Some (Some out) \<Longrightarrow> length out < CNG_PATH_MAX"
    using lcpy.copy_bound [of CNG_PATH_MAX]
    by (auto simp: dev_zone_def join2_eq CNG_PATH_MAX_def split: option.splits if_splits)
  then show ?thesis using assms
    by (auto simp: host_of_mount_def join2_eq str_lcpy_def Let_def split: if_splits option.splits)
qed

lemma translate_Some:
  assumes "translate_mnt_1 e fs path CNG_PATH_MAX = (m, Some h)"
  obtains canon out where "abscanon_1 fs path CNG_PATH_MAX = Some canon" "m = mount_of_1 e fs canon"
    "host_of_mount e fs m canon CNG_PATH_MAX = Some out"
    "add_slash path (if host_proc_hidden e out then hide_proc_pid out CNG_PATH_MAX else out) CNG_PATH_MAX
      = Some h"
  using assms by (auto simp: translate_mnt_1_def Let_def bind_Some_iff split: option.splits)

lemma add_slash_Some: "add_slash path out sz = Some h \<Longrightarrow> h = out \<or> h = out @ [SL]"
  by (auto simp: add_slash_def split: if_splits)

text \<open>
  C3. Containment: a translated path is the host root of the mount that answered, followed by
  proper components only (no \<open>.\<close>, no \<open>..\<close>, no empty ones), up to a final slash; the one other answer
  is a name at or below /proc/0, which stands for a process that does not exist. No spelling of a
  guest path climbs out of the mount it falls in.
\<close>

theorem translate_contained:
  assumes "wf_fs fs" "env_ok e" "translate_mnt_1 e fs path CNG_PATH_MAX = (m, Some h)"
  shows "proc0 h \<or> (\<exists>root\<in>mount_roots e fs m. \<exists>cs. list_all good_comp cs \<and>
    (h = root @ render cs \<or> h = root @ render cs @ [SL]))"
proof -
  from assms(3) obtain canon out where t: "abscanon_1 fs path CNG_PATH_MAX = Some canon"
    "m = mount_of_1 e fs canon" "host_of_mount e fs m canon CNG_PATH_MAX = Some out"
    "add_slash path (if host_proc_hidden e out then hide_proc_pid out CNG_PATH_MAX else out) CNG_PATH_MAX
      = Some h" by (rule translate_Some)
  show ?thesis
  proof (cases "host_proc_hidden e out")
    case True
    then have "proc0 (hide_proc_pid out CNG_PATH_MAX)"
      using host_of_mount_length [OF t(3)] by (rule hide_proc_pid_proc0)
    then show ?thesis using t(4) True add_slash_Some proc0_slash by fastforce
  next
    case False
    obtain root cs where r: "root \<in> mount_roots e fs m" "list_all good_comp cs"
        "out = root @ render cs \<or> out = root @ [SL] \<and> cs = []"
      using host_of_mount_contained [OF abscanon_canonical [OF t(1)] assms(1,2) t(2,3)] by blast
    have "h = out \<or> h = out @ [SL] \<and> last out \<noteq> SL"
      using t(4) False by (auto simp: add_slash_def split: if_splits)
    with r(3) have "h = root @ render cs \<or> h = root @ render cs @ [SL]" by auto
    with r show ?thesis by blast
  qed
qed

lemma demo_wf: "wf_fs demo_fs" "env_ok demo_env"
  by (simp_all add: wf_fs_def env_ok_def bind_ok_def canonical_def comps.simps path_of_def good_comp_def
      demo_simps path_consts)

lemmas demo_eval = translate_mnt_1_def abscanon_1_def cng_path_canon_walk comps.simps path_of_def
  mount_of_1_def host_of_mount_def add_slash_def cng_path_wants_dir_def join2_eq str_lcpy_def
  strn_eq_def at_boundary_def host_proc_hidden_def proc_zone_def is_digit_def digit_val_def
  demo_simps path_consts

lemma demo_translate: "translate_mnt_1 demo_env demo_fs ''/d/../d/e/./f/'' CNG_PATH_MAX = (1, Some ''/y/f/'')"
  by (simp add: demo_eval)

theorem translate_contained_witness:
  "translate_mnt_1 demo_env demo_fs ''/d/../d/e/./f/'' CNG_PATH_MAX = (1, Some ''/y/f/'') \<and>
   (proc0 ''/y/f/'' \<or> (\<exists>root\<in>mount_roots demo_env demo_fs 1. \<exists>cs. list_all good_comp cs \<and>
      (''/y/f/'' = root @ render cs \<or> ''/y/f/'' = root @ render cs @ [SL])))"
  using translate_contained [OF demo_wf demo_translate] demo_translate by blast


lemma demo_hidden:
  "translate_mnt_1 demo_env demo_fs ''/proc/12/maps'' CNG_PATH_MAX = (- 2, Some ''/proc/0/maps'')"
  by (simp add: demo_eval hide_proc_pid_def)


section \<open>The reverse translation\<close>

lemma untranslate_bind:
  assumes m: "k < length (fs_binds fs)" "hit (fs_binds fs ! k)" "b_hlen (fs_binds fs ! k) > blen"
    and other: "\<And>j. j < length (fs_binds fs) \<Longrightarrow> j \<noteq> k \<Longrightarrow> hit (fs_binds fs ! j) \<Longrightarrow>
        b_hlen (fs_binds fs ! j) < b_hlen (fs_binds fs ! k)"
  shows "longest b_hlen hit (fs_binds fs) 0 best blen = (int k, b_hlen (fs_binds fs ! k))"
  using longest_spec [of b_hlen hit "fs_binds fs" 0 best blen]
proof (elim disjE exE conjE)
  assume "\<forall>b\<in>set (fs_binds fs). hit b \<longrightarrow> b_hlen b \<le> blen"
  with m show ?thesis by (meson leD nth_mem)
next
  fix j assume j: "longest b_hlen hit (fs_binds fs) 0 best blen = (int (0 + j), b_hlen (fs_binds fs ! j))"
    "best_hit b_hlen hit (fs_binds fs) j"
  then have "j = k" using m other [of j] unfolding best_hit_def by (meson leD)
  with j show ?thesis by simp
qed

lemma longest_keeps:
  "(\<And>b. b \<in> set bs \<Longrightarrow> hit b \<Longrightarrow> len b \<le> blen) \<Longrightarrow> longest len hit bs i best blen = (best, blen)"
  by (induction len hit bs i best blen rule: longest.induct) force+

lemma host_under_append: "host_under (p @ r) p (length p) \<longleftrightarrow> p = [] \<or> r = [] \<or> hd r = SL"
proof -
  have "path_under (p @ r) p \<longleftrightarrow> r = [] \<or> hd r = SL" by (simp add: path_under_def)
  then show ?thesis using path_under_scan [of "p @ r" p] by (simp add: host_under_def)
qed

lemma no_slash_out:
  "\<not> cng_path_wants_dir path \<Longrightarrow> add_slash path out sz = Some h \<Longrightarrow> h = out"
  by (simp add: add_slash_def)

text \<open>The mount's host root is the only answer for \<open>h\<close>: no other mount root at least as long covers it.\<close>

definition unshadowed :: "cng_fs \<Rightarrow> int \<Rightarrow> string \<Rightarrow> bool" where
  "unshadowed fs m h \<longleftrightarrow>
     (if m \<ge> 0 then
        (host_under h (fs_rootfs fs) (fs_rlen fs) \<longrightarrow> fs_rlen fs < b_hlen (fs_binds fs ! nat m)) \<and>
        0 < b_hlen (fs_binds fs ! nat m) \<and>
        (\<forall>k<length (fs_binds fs). k \<noteq> nat m \<longrightarrow>
           host_under h (b_host (fs_binds fs ! k)) (b_hlen (fs_binds fs ! k)) \<longrightarrow>
           b_hlen (fs_binds fs ! k) < b_hlen (fs_binds fs ! nat m))
      else (\<forall>k<length (fs_binds fs).
           host_under h (b_host (fs_binds fs ! k)) (b_hlen (fs_binds fs ! k)) \<longrightarrow>
           b_hlen (fs_binds fs ! k) \<le> fs_rlen fs))"

lemma untranslate_bind_case:
  assumes w: "wf_fs fs" and k: "k < length (fs_binds fs)" and sh: "unshadowed fs (int k) h"
    and h: "h = b_host (fs_binds fs ! k) @ rest" "rest = [] \<or> hd rest = SL"
    and fit: "length (b_guest (fs_binds fs ! k) @ rest) < sz" and ne: "b_guest (fs_binds fs ! k) \<noteq> []"
  shows "untranslate_1 fs h sz = Some (b_guest (fs_binds fs ! k) @ rest)"
proof -
  let ?b = "fs_binds fs ! k"
  let ?hit = "\<lambda>b. host_under h (b_host b) (b_hlen b)"
  have hl: "b_hlen ?b = length (b_host ?b)" using wf_bind [OF w k] by (rule bind_ok_lens)
  have hit: "?hit ?b" unfolding hl h(1) host_under_append using h(2) by simp
  have "longest b_hlen ?hit (fs_binds fs) 0 best blen = (int k, b_hlen ?b)"
    if "blen = 0 \<or> blen = fs_rlen fs \<and> host_under h (fs_rootfs fs) (fs_rlen fs)" for best blen
    using sh that hit k by (intro untranslate_bind) (auto simp: unshadowed_def)
  then show ?thesis using fit ne hl h(1)
    by (simp add: untranslate_1_def untranslate_scan_longest join2_eq)
qed

lemma untranslate_rootfs_case:
  assumes w: "wf_fs fs" and sh: "unshadowed fs CNG_MOUNT_ROOTFS h"
    and h: "h = fs_rootfs fs @ canon" and c: "canonical canon" and fit: "length canon < sz"
  shows "untranslate_1 fs h sz = Some canon"
proof -
  let ?hit = "\<lambda>b. host_under h (b_host b) (b_hlen b)"
  have rl: "fs_rlen fs = length (fs_rootfs fs)" using w by (simp add: wf_fs_def)
  have u: "host_under h (fs_rootfs fs) (fs_rlen fs)"
    unfolding rl h host_under_append using canonical_nonempty [OF c] by simp
  have "longest b_hlen ?hit (fs_binds fs) 0 (- 1) (fs_rlen fs) = (- 1, fs_rlen fs)"
    using sh by (intro longest_keeps) (auto simp: unshadowed_def path_consts in_set_conv_nth)
  then show ?thesis using u fit rl h canonical_nonempty [OF c]
    by (simp add: untranslate_1_def untranslate_scan_longest join2_eq)
qed


lemma demo_rt:
  "translate_mnt_1 demo_env demo_fs ''/d/q/../e/f'' CNG_PATH_MAX = (1, Some ''/y/f'')"
  "unshadowed demo_fs 1 ''/y/f''" "\<not> proc0 ''/y/f''" "\<not> cng_path_wants_dir ''/d/q/../e/f''"
  by (simp_all add: demo_eval unshadowed_def host_under_def less_Suc_eq proc0_def path_under_def)


end
