(* ===== verification/Path_Chroot.thy ===== *)
theory Path_Chroot
  imports Path_Props
begin

text \<open>
  The operations of \<open>src/path/path.c\<close> that change a view: \<open>rebase\<close> and \<open>chroot_1\<close>, \<open>set_cwd_1\<close> and
  \<open>normalize_root\<close>. They keep a view well-formed; a \<open>chroot\<close> makes a guest path mean what the path
  below the new root meant before; and two ways in which it changes more than the root are made
  precise: the read-only bit of a bind that covers the new root is lost, and a host root of 512
  bytes or more becomes the host's own root.
\<close>

section \<open>Host prefixes\<close>

lemma strip_slashes_length: "length (strip_slashes d) \<le> length d"
proof (induction d rule: strip_slashes.induct)
  case (1 d)
  then show ?case by (subst strip_slashes.simps) auto
qed

lemma strip_slashes_last: "length (strip_slashes d) \<le> 1 \<or> last (strip_slashes d) \<noteq> SL"
proof (induction d rule: strip_slashes.induct)
  case (1 d)
  then show ?case by (subst (1 2) strip_slashes.simps) auto
qed

lemma strip_slashes_id: "last d \<noteq> SL \<Longrightarrow> strip_slashes d = d"
  by (subst strip_slashes.simps) simp

lemma normalize_root_ok:
  "length (fst (normalize_root sz src)) < sz \<or> sz = 0"
  "fst (normalize_root sz src) = [] \<or> last (fst (normalize_root sz src)) \<noteq> SL"
proof -
  let ?d = "strip_slashes (take (sz - 1) src)"
  have "length ?d \<le> sz - 1" using strip_slashes_length [of "take (sz - 1) src"] by simp
  then show "length (fst (normalize_root sz src)) < sz \<or> sz = 0"
    by (auto simp: normalize_root_def str_lcpy_def Let_def)
  have "?d = [SL] \<or> ?d = [] \<or> last ?d \<noteq> SL"
    using strip_slashes_last [of "take (sz - 1) src"] by (cases ?d) auto
  then show "fst (normalize_root sz src) = [] \<or> last (fst (normalize_root sz src)) \<noteq> SL"
    by (auto simp: normalize_root_def str_lcpy_def Let_def)
qed

lemma normalize_root_id:
  "length src < sz \<Longrightarrow> src = [] \<or> last src \<noteq> SL \<Longrightarrow> normalize_root sz src = (src, 0)"
  by (auto simp: normalize_root_def str_lcpy_def Let_def strip_slashes_id strip_slashes.simps [of "[]"])

lemma normalize_root_slash:
  assumes "length src + 1 < sz" "src = [] \<or> last src \<noteq> SL"
  shows "normalize_root sz (src @ [SL]) = (src, 0)"
proof -
  have "strip_slashes (src @ [SL]) = (if src = [] then [SL] else src)"
    using assms(2) by (subst strip_slashes.simps) (auto simp: strip_slashes_id)
  then show ?thesis using assms by (auto simp: normalize_root_def str_lcpy_def Let_def)
qed

section \<open>Rebasing\<close>

definition root_len :: "string \<Rightarrow> nat" where
  "root_len root = (if length root = 1 then 0 else length root)"

definition root_pre :: "string \<Rightarrow> string" where
  "root_pre root = (if length root = 1 then [] else root)"

lemma root_len_pre: "root_len root = length (root_pre root)"
  by (simp add: root_len_def root_pre_def)

definition below :: "string \<Rightarrow> string \<Rightarrow> string" where
  "below root p = (if p = root_pre root then [SL] else drop (root_len root) p)"

lemma canonical_one: "canonical root \<Longrightarrow> length root = 1 \<longleftrightarrow> root = [SL]"
  using canonical_nonempty [of root] by (cases root) auto

lemma rebase_eq:
  assumes "canonical root" "canonical p" "length p < sz" "2 \<le> sz"
  shows "rebase sz p root (root_len root) =
    (if path_under p (root_pre root) then Some (below root p) else None)"
proof (cases "length root = 1")
  case True
  have "p \<noteq> []" "hd p = SL" using assms canonical_nonempty by auto
  then show ?thesis using True assms
    by (simp add: rebase_def root_len_def root_pre_def below_def path_under_def str_lcpy_def)
next
  case False
  have u: "path_under p root \<Longrightarrow> length root < length p \<longleftrightarrow> p \<noteq> root"
    by (auto simp: path_under_def)
  have "root \<noteq> []" using assms(1) canonical_nonempty by auto
  then show ?thesis using False assms u path_under_scan [of p root]
    by (auto simp: rebase_def root_len_def root_pre_def below_def str_lcpy_def)
qed

lemma below_canonical:
  assumes "canonical root" "canonical p" "path_under p (root_pre root)"
  shows "canonical (below root p)" "length (below root p) \<le> length p"
proof -
  have p: "p \<noteq> []" "hd p = SL" using assms(2) canonical_nonempty by auto
  show "length (below root p) \<le> length p" using p by (cases p) (auto simp: below_def)
  show "canonical (below root p)"
  proof (cases "p = root_pre root")
    case True
    then show ?thesis using canonical_path_of [of "[]"] by (simp add: below_def path_of_def)
  next
    case False
    show ?thesis
    proof (cases "root_pre root = []")
      case True
      then show ?thesis using False assms(2) by (simp add: below_def root_len_pre)
    next
      case ne: False
      obtain r where r: "p = root_pre root @ r" "r = [] \<or> hd r = SL"
        using assms(3) by (auto simp: path_under_def)
      obtain cs where cs: "r = render cs" "list_all good_comp cs"
        using canonical_suffix [OF assms(2) r(1) ne r(2)] by blast
      moreover have "cs \<noteq> []" using False r cs by auto
      ultimately have "below root p = path_of cs" using False r by (simp add: below_def root_len_pre path_of_def)
      then show ?thesis using canonical_path_of cs by simp
    qed
  qed
qed

definition rebase_bind :: "string \<Rightarrow> cng_bind \<Rightarrow> cng_bind option" where
  "rebase_bind root b =
     (if path_under (b_guest b) (root_pre root) \<and> below root (b_guest b) \<noteq> [SL]
      then Some (bind_measure (b\<lparr>b_guest := below root (b_guest b)\<rparr>)) else None)"

lemma chroot_binds_map_filter:
  "canonical root \<Longrightarrow> list_all bind_ok bs \<Longrightarrow>
   chroot_binds root (root_len root) bs (ws, r) =
     (ws @ List.map_filter (rebase_bind root) bs, r \<or> list_ex b_ro (List.map_filter (rebase_bind root) bs))"
proof (induction bs arbitrary: ws r)
  case Nil
  then show ?case by (simp add: List.map_filter_def)
next
  case (Cons b bs)
  have ok: "canonical (b_guest b)" "length (b_guest b) < GUEST_SZ" using Cons.prems by (auto simp: bind_ok_def)
  note rb = rebase_eq [OF Cons.prems(1) ok]
  have "path_under (b_guest b) (root_pre root) \<Longrightarrow> fst (str_lcpy GUEST_SZ (below root (b_guest b))) = below root (b_guest b)"
    using below_canonical(2) [OF Cons.prems(1) ok(1)] ok(2) by (intro lcpy.copy_short) simp
  then show ?case using Cons rb
    by (simp add: rebase_bind_def map_filter_simps GUEST_SZ_def Let_def)
qed

lemma chroot_binds_ok:
  assumes "canonical root" "list_all bind_ok bs"
  shows "list_all bind_ok (List.map_filter (rebase_bind root) bs)"
  using assms(2)
proof (induction bs)
  case (Cons b bs)
  then show ?case
    using below_canonical [OF assms(1), of "b_guest b"]
    by (auto simp: map_filter_simps rebase_bind_def bind_ok_def split: option.splits)
qed (simp add: List.map_filter_def)

lemma map_filter_length: "length (List.map_filter f xs) \<le> length xs"
  by (simp add: List.map_filter_def)

section \<open>The invariant\<close>

lemma chroot_1_eq:
  assumes w: "wf_fs fs" and root: "cng_path_canon g CNG_PATH_MAX = Some root"
  shows "chroot_1 fs g h = fs\<lparr>
      fs_binds := List.map_filter (rebase_bind root) (fs_binds fs),
      fs_has_ro := list_ex b_ro (List.map_filter (rebase_bind root) (fs_binds fs)),
      fs_cwd := (if path_under (fs_cwd fs) (root_pre root) then below root (fs_cwd fs) else [SL]),
      fs_rootfs := fst (normalize_root HOST_SZ h),
      fs_rlen := length (fst (normalize_root HOST_SZ h))\<rparr>"
proof -
  have c: "canonical root" using root by (rule cng_path_canon_canonical)
  have wf: "list_all bind_ok (fs_binds fs)" "canonical (fs_cwd fs)" "length (fs_cwd fs) < CNG_PATH_MAX"
    using w by (auto simp: wf_fs_def)
  have rb: "rebase CNG_PATH_MAX (fs_cwd fs) root (root_len root) =
      (if path_under (fs_cwd fs) (root_pre root) then Some (below root (fs_cwd fs)) else None)"
    using rebase_eq [OF c wf(2,3)] by (simp add: CNG_PATH_MAX_def)
  have cp: "path_under (fs_cwd fs) (root_pre root) \<Longrightarrow> fst (str_lcpy CNG_PATH_MAX (below root (fs_cwd fs))) = below root (fs_cwd fs)"
    using below_canonical(2) [OF c wf(2)] wf(3) by (intro lcpy.copy_short) simp
  have sl: "fst (str_lcpy CNG_PATH_MAX [SL]) = [SL]" by (simp add: str_lcpy_def CNG_PATH_MAX_def)
  show ?thesis
    unfolding chroot_1_def root option.case Let_def root_len_def [symmetric] rb
      chroot_binds_map_filter [OF c wf(1)]
    using cp sl by simp
qed

lemma wf_chroot: "wf_fs fs \<Longrightarrow> wf_fs (chroot_1 fs g h)"
proof (cases "cng_path_canon g CNG_PATH_MAX")
  case None
  then show "wf_fs fs \<Longrightarrow> wf_fs (chroot_1 fs g h)" by (simp add: chroot_1_def)
next
  case (Some root)
  assume w: "wf_fs fs"
  have c: "canonical root" using Some by (rule cng_path_canon_canonical)
  have "canonical [SL]" using canonical_path_of [of "[]"] by (simp add: path_of_def)
  then show "wf_fs (chroot_1 fs g h)"
    unfolding chroot_1_eq [OF w Some]
    using w c normalize_root_ok [of HOST_SZ h] chroot_binds_ok [OF c] below_canonical [OF c]
      map_filter_length [of "rebase_bind root" "fs_binds fs"]
    by (auto simp: wf_fs_def HOST_SZ_def CNG_PATH_MAX_def intro: le_less_trans)
qed

lemma set_cwd_1_eq:
  "set_cwd_1 fs g = (case cng_path_canon g CNG_PATH_MAX of
     Some canon \<Rightarrow> if g \<noteq> [] \<and> hd g = SL then fs\<lparr>fs_cwd := canon\<rparr> else fs | None \<Rightarrow> fs)"
proof -
  have "fst (str_lcpy CNG_PATH_MAX canon) = canon" if "cng_path_canon g CNG_PATH_MAX = Some canon" for canon
    using cng_path_canon_length [OF _ that] by (intro lcpy.copy_short) (simp add: CNG_PATH_MAX_def)
  then show ?thesis by (auto simp: set_cwd_1_def split: option.split)
qed

lemma wf_set_cwd:
  assumes "wf_fs fs"
  shows "wf_fs (set_cwd_1 fs g)"
proof (cases "cng_path_canon g CNG_PATH_MAX")
  case (Some canon)
  have "canonical canon" using Some by (rule cng_path_canon_canonical)
  moreover have "length canon < CNG_PATH_MAX"
    using Some by (intro cng_path_canon_length) (auto simp: CNG_PATH_MAX_def)
  ultimately show ?thesis using assms Some by (simp add: set_cwd_1_eq wf_fs_def)
qed (simp add: set_cwd_1_eq assms)

section \<open>What a guest path means after a chroot\<close>

text \<open>
  With the zones switched off a translation is a fold over the bind table that keeps the longest
  covering prefix seen so far and the host name it gives.
\<close>

fun pick :: "string \<Rightarrow> cng_bind list \<Rightarrow> nat \<Rightarrow> string \<Rightarrow> string" where
  "pick x [] blen res = res"
| "pick x (b # bs) blen res =
     (if covers x b \<and> b_glen b > blen then pick x bs (b_glen b) (b_host b @ drop (b_glen b) x)
      else pick x bs blen res)"

lemma mount_scan_pick:
  "best < int i \<Longrightarrow> length pre = i \<Longrightarrow> all = pre @ bs \<Longrightarrow>
    (let m = mount_scan x bs i best blen in
     (if m \<ge> 0 then b_host (all ! nat m) @ drop (b_glen (all ! nat m)) x else root)) =
    pick x bs blen (if best \<ge> 0 then b_host (all ! nat best) @ drop (b_glen (all ! nat best)) x else root)"
proof (induction bs arbitrary: i best blen pre)
  case (Cons b bs)
  then have "all ! i = b" by auto
  then show ?case using Cons.prems Cons.IH [of "int i" "i + 1" "pre @ [b]" "b_glen b"]
      Cons.IH [of best "i + 1" "pre @ [b]" blen]
    by (auto simp: covers_def Let_def)
qed simp

lemma zones_off:
  assumes "no_proc e" "no_dev e"
  shows "mount_of_1 e fs x = (let m = mount_scan x (fs_binds fs) 0 (- 1) 0 in if m \<ge> 0 then m else CNG_MOUNT_ROOTFS)"
    "\<not> host_proc_hidden e h"
  using assms by (simp_all add: mount_of_1_def proc_zone_def dev_zone_node_def host_proc_hidden_def)

lemma host_of_mount_pick:
  assumes "no_proc e" "no_dev e"
  shows "host_of_mount e fs (mount_of_1 e fs x) x sz =
    (let r = pick x (fs_binds fs) 0 (fs_rootfs fs @ x) in if length r < sz then Some r else None)"
proof -
  let ?m = "mount_scan x (fs_binds fs) 0 (- 1) 0"
  have p: "pick x (fs_binds fs) 0 (fs_rootfs fs @ x) =
      (if ?m \<ge> 0 then b_host (fs_binds fs ! nat ?m) @ drop (b_glen (fs_binds fs ! nat ?m)) x
       else fs_rootfs fs @ x)"
    using mount_scan_pick [of "- 1" 0 "[]" "fs_binds fs" "fs_binds fs" x 0 "fs_rootfs fs @ x"]
    by (simp add: Let_def)
  show ?thesis
    unfolding zones_off [OF assms] p
    by (simp add: host_of_mount_def Let_def join2_eq path_consts)
qed

lemma abscanon_id: "canonical x \<Longrightarrow> length x < CNG_PATH_MAX \<Longrightarrow> abscanon_1 fs x CNG_PATH_MAX = Some x"
  using canonical_nonempty [of x] cng_path_canon_id [of x CNG_PATH_MAX]
  by (simp add: abscanon_1_def str_lcpy_def)

lemma translate_pick:
  assumes z: "no_proc e" "no_dev e" and x: "canonical x" "x \<noteq> [SL]" "length x < CNG_PATH_MAX"
  shows "translate_1 e fs x CNG_PATH_MAX =
    (let r = pick x (fs_binds fs) 0 (fs_rootfs fs @ x) in if length r < CNG_PATH_MAX then Some r else None)"
  using canonical_wants_dir [OF x(1,2)]
  by (simp add: translate_1_def translate_mnt_1_def abscanon_id [OF x(1,3)] host_of_mount_pick [OF z]
      zones_off(2) [OF z] add_slash_def Let_def)

definition inside :: "string \<Rightarrow> cng_bind \<Rightarrow> bool" where
  "inside root b \<longleftrightarrow> path_under (b_guest b) (root_pre root) \<and> b_guest b \<noteq> root_pre root"

lemma root_pre_cases: "canonical root \<Longrightarrow> root_pre root = [] \<and> root = [SL] \<or> root_pre root = root \<and> root \<noteq> [SL] \<and> canonical root"
  using canonical_one [of root] by (auto simp: root_pre_def)

lemma rebase_inside:
  assumes c: "canonical root" and b: "bind_ok b" "b_guest b \<noteq> [SL]" and i: "inside root b"
    and q: "canonical p"
  obtains b' where "rebase_bind root b = Some b'" "b_host b' = b_host b"
    "b_glen b = b_glen b' + root_len root" "0 < b_glen b'"
    "covers p b' \<longleftrightarrow> covers (root_pre root @ p) b"
proof -
  let ?g = "root_pre root"
  obtain r where r: "b_guest b = ?g @ r" "r \<noteq> []" "hd r = SL"
    using i by (auto simp: inside_def path_under_def)
  have cg: "canonical (b_guest b)" using b by (simp add: bind_ok_def)
  have be: "below root (b_guest b) = r" using r by (simp add: below_def root_len_pre)
  have "r \<noteq> [SL]"
  proof
    assume "r = [SL]"
    then have "last (b_guest b) = SL" using r by simp
    then show False using canonical_wants_dir(2) [OF cg b(2)] by simp
  qed
  then have rb: "rebase_bind root b = Some (bind_measure (b\<lparr>b_guest := r\<rparr>))"
    using i be by (simp add: rebase_bind_def inside_def)
  let ?b = "bind_measure (b\<lparr>b_guest := r\<rparr>)"
  have "covers p ?b \<longleftrightarrow> path_under p r"
    using path_under_scan [of p r] by (simp add: covers_def)
  also have "\<dots> \<longleftrightarrow> path_under (?g @ p) (?g @ r)" by (simp add: path_under_def)
  also have "\<dots> \<longleftrightarrow> covers (?g @ p) b" using covers_under [OF b(1)] r(1) by simp
  finally have "covers p ?b \<longleftrightarrow> covers (?g @ p) b" .
  then show thesis using that [OF rb] b(1) r by (simp add: bind_ok_lens root_len_pre)
qed

lemma path_under_comparable:
  assumes "path_under (g @ p) x" "p = [] \<or> hd p = SL" "\<not> (path_under x g \<and> x \<noteq> g)"
  shows "path_under g x" "length x \<le> length g"
proof -
  obtain r where r: "g @ p = x @ r" "r = [] \<or> hd r = SL" using assms(1) by (auto simp: path_under_def)
  then obtain us where "g = x @ us \<and> us @ p = r \<or> g @ us = x \<and> p = us @ r"
    by (auto simp: append_eq_append_conv2)
  then have "\<exists>us. g = x @ us \<and> us @ p = r"
  proof (elim disjE conjE)
    assume a: "g @ us = x" "p = us @ r"
    then have "path_under x g" using assms(2) by (cases us) (auto simp: path_under_def)
    then have "x = g" using assms(3) by simp
    then show ?thesis using a by auto
  qed blast
  then obtain us where us: "g = x @ us" "us @ p = r" by blast
  then have "us = [] \<or> hd us = SL" using r(2) by (cases us) auto
  then show "path_under g x" "length x \<le> length g" using us by (auto simp: path_under_def)
qed

lemma path_under_app: "path_under g x \<Longrightarrow> p = [] \<or> hd p = SL \<Longrightarrow> path_under (g @ p) x"
  by (force simp: path_under_def hd_append)

lemma outside_covers:
  assumes c: "canonical root" and b: "bind_ok b" and i: "\<not> inside root b"
    and q: "canonical p"
  shows "rebase_bind root b = None" "covers (root_pre root @ p) b \<longleftrightarrow> covers (root_pre root) b"
    "covers (root_pre root) b \<Longrightarrow> b_glen b \<le> root_len root"
proof -
  let ?g = "root_pre root"
  show "rebase_bind root b = None" using i by (auto simp: rebase_bind_def inside_def below_def)
  have hp: "p = [] \<or> hd p = SL" using canonical_nonempty [OF q] by simp
  have "path_under ?g (b_guest b) \<Longrightarrow> path_under (?g @ p) (b_guest b)"
    by (rule path_under_app [OF _ hp])
  moreover have "path_under (?g @ p) (b_guest b) \<Longrightarrow> path_under ?g (b_guest b)"
    using path_under_comparable(1) [OF _ hp] i by (auto simp: inside_def)
  ultimately show "covers (?g @ p) b \<longleftrightarrow> covers ?g b" using covers_under [OF b] by blast
  show "covers ?g b \<Longrightarrow> b_glen b \<le> root_len root"
    using covers_under [OF b] bind_ok_lens(1) [OF b] by (auto simp: path_under_def root_len_pre)
qed

lemma inside_not_covers:
  assumes "bind_ok b" "inside root b"
  shows "\<not> covers (root_pre root) b"
proof
  assume "covers (root_pre root) b"
  then have "path_under (root_pre root) (b_guest b)" using covers_under [OF assms(1)] by blast
  then have "length (b_guest b) \<le> length (root_pre root)" by (auto simp: path_under_def)
  moreover obtain r where "b_guest b = root_pre root @ r" "r \<noteq> []"
    using assms(2) by (auto simp: inside_def path_under_def)
  ultimately show False by simp
qed

lemma pick_above:
  assumes c: "canonical root" and q: "canonical p"
  shows "list_all (\<lambda>b. bind_ok b \<and> b_guest b \<noteq> [SL]) bs \<Longrightarrow> root_len root < blen \<Longrightarrow>
    pick (root_pre root @ p) bs blen res =
    pick p (List.map_filter (rebase_bind root) bs) (blen - root_len root) res"
proof (induction bs arbitrary: blen res)
  case (Cons b bs)
  have b: "bind_ok b" "b_guest b \<noteq> [SL]" and bs: "list_all (\<lambda>b. bind_ok b \<and> b_guest b \<noteq> [SL]) bs"
    using Cons.prems by auto
  show ?case
  proof (cases "inside root b")
    case True
    then obtain b' where b': "rebase_bind root b = Some b'" "b_host b' = b_host b"
        "b_glen b = b_glen b' + root_len root" "0 < b_glen b'"
        "covers p b' \<longleftrightarrow> covers (root_pre root @ p) b"
      using rebase_inside [OF c b True q] by blast
    have d: "drop (b_glen b) (root_pre root @ p) = drop (b_glen b') p"
      using b'(3) by (simp add: root_len_pre)
    show ?thesis using Cons.IH [OF bs, of "b_glen b"] Cons.IH [OF bs Cons.prems(2)] b' d Cons.prems(2)
      by (auto simp: map_filter_simps)
  next
    case False
    note o = outside_covers [OF c b(1) False q]
    show ?thesis using Cons.IH [OF bs Cons.prems(2)] o Cons.prems(2) by (auto simp: map_filter_simps)
  qed
qed (simp add: List.map_filter_def)

lemma pick_below:
  assumes c: "canonical root" and q: "canonical p"
  shows "list_all (\<lambda>b. bind_ok b \<and> b_guest b \<noteq> [SL]) bs \<Longrightarrow> blen \<le> root_len root \<Longrightarrow>
    pick (root_pre root @ p) bs blen (rg @ p) =
    pick p (List.map_filter (rebase_bind root) bs) 0 (pick (root_pre root) bs blen rg @ p)"
proof (induction bs arbitrary: blen rg)
  case (Cons b bs)
  have b: "bind_ok b" "b_guest b \<noteq> [SL]" and bs: "list_all (\<lambda>b. bind_ok b \<and> b_guest b \<noteq> [SL]) bs"
    using Cons.prems by auto
  show ?case
  proof (cases "inside root b")
    case True
    then obtain b' where b': "rebase_bind root b = Some b'" "b_host b' = b_host b"
        "b_glen b = b_glen b' + root_len root" "0 < b_glen b'"
        "covers p b' \<longleftrightarrow> covers (root_pre root @ p) b"
      using rebase_inside [OF c b True q] by blast
    have d: "drop (b_glen b) (root_pre root @ p) = drop (b_glen b') p"
      using b'(3) by (simp add: root_len_pre)
    show ?thesis
      using Cons.IH [OF bs Cons.prems(2)] pick_above [OF c q bs, of "b_glen b"] b' d Cons.prems(2)
        inside_not_covers [OF b(1) True]
      by (auto simp: map_filter_simps)
  next
    case False
    note o = outside_covers [OF c b(1) False q]
    have d: "covers (root_pre root) b \<Longrightarrow>
        b_host b @ drop (b_glen b) (root_pre root @ p) = (b_host b @ drop (b_glen b) (root_pre root)) @ p"
      using o(3) by (simp add: root_len_pre)
    show ?thesis
      using Cons.IH [OF bs Cons.prems(2)] Cons.IH [OF bs, of "b_glen b" "b_host b @ drop (b_glen b) (root_pre root)"]
        o d by (auto simp: map_filter_simps)
  qed
qed (simp add: List.map_filter_def)

lemma pick_last:
  "list_all bind_ok bs \<Longrightarrow> last x \<noteq> SL \<Longrightarrow> res = [] \<or> last res \<noteq> SL \<Longrightarrow>
   pick x bs blen res = [] \<or> last (pick x bs blen res) \<noteq> SL"
proof (induction bs arbitrary: blen res)
  case (Cons b bs)
  have "b_host b @ drop (b_glen b) x = [] \<or> last (b_host b @ drop (b_glen b) x) \<noteq> SL"
    using Cons.prems by (auto simp: bind_ok_def last_append last_drop)
  then show ?case using Cons by simp
qed simp

lemma pick_no_cover: "(\<And>b. b \<in> set bs \<Longrightarrow> \<not> covers x b) \<Longrightarrow> pick x bs blen res = res"
  by (induction bs) auto

lemma root_bind_cover:
  assumes "bind_ok b" "b_guest b \<noteq> [SL]"
  shows "\<not> covers [SL] b" "\<not> covers [] b"
proof -
  have "b_guest b \<noteq> []" using assms(1) canonical_nonempty by (auto simp: bind_ok_def)
  then show "\<not> covers [SL] b" "\<not> covers [] b"
    using assms covers_under [OF assms(1)] by (auto simp: path_under_def Cons_eq_append_conv)
qed

lemma canonical_join:
  assumes "canonical g" "canonical p" "p \<noteq> [SL]"
  shows "canonical (root_pre g @ p)" "root_pre g @ p \<noteq> [SL]"
proof -
  obtain gs ps where g: "g = path_of gs" "list_all good_comp gs" and p: "p = path_of ps" "list_all good_comp ps"
    using assms by (auto elim!: canonicalE)
  have ps: "ps \<noteq> []" using p assms(3) by (auto simp: path_of_def)
  have "gs = [] \<longleftrightarrow> length g = 1" using g canonical_one [OF assms(1)]
    by (auto simp: path_of_def render_def good_comp_def neq_Nil_conv)
  then have "root_pre g @ p = path_of (gs @ ps)"
    using g p ps by (auto simp: root_pre_def path_of_def)
  then show "canonical (root_pre g @ p)" "root_pre g @ p \<noteq> [SL]"
    using canonical_path_of [of "gs @ ps"] g p ps by (auto simp: path_of_def good_comp_def neq_Nil_conv)
qed

lemma new_root:
  assumes w: "wf_fs fs" and z: "no_proc e" "no_dev e" and g: "canonical g" "length g < CNG_PATH_MAX"
    and nb: "\<forall>b\<in>set (fs_binds fs). b_guest b \<noteq> [SL]"
    and h: "translate_1 e fs g CNG_PATH_MAX = Some h" and len: "length h < HOST_SZ"
  shows "fst (normalize_root HOST_SZ h) = pick (root_pre g) (fs_binds fs) 0 (fs_rootfs fs @ root_pre g)"
proof (cases "g = [SL]")
  case True
  have ok: "\<And>b. b \<in> set (fs_binds fs) \<Longrightarrow> bind_ok b" using w by (auto simp: wf_fs_def list_all_iff)
  have "pick [SL] (fs_binds fs) 0 (fs_rootfs fs @ [SL]) = fs_rootfs fs @ [SL]"
    "pick [] (fs_binds fs) 0 (fs_rootfs fs) = fs_rootfs fs"
    using ok nb root_bind_cover by (intro pick_no_cover; blast)+
  moreover have "h = fs_rootfs fs @ [SL]"
    using h True calculation
    by (auto simp: translate_1_def translate_mnt_1_def abscanon_id [OF g, unfolded True] host_of_mount_pick [OF z]
        zones_off(2) [OF z] add_slash_def Let_def split: if_splits)
  ultimately show ?thesis using True len w normalize_root_slash [of "fs_rootfs fs" HOST_SZ]
    by (simp add: root_pre_def wf_fs_def)
next
  case False
  then have r: "root_pre g = g" using root_pre_cases [OF g(1)] by auto
  have hp: "h = pick g (fs_binds fs) 0 (fs_rootfs fs @ g)"
    using h translate_pick [OF z g(1) False g(2)] by (auto simp: Let_def split: if_splits)
  have "last g \<noteq> SL" "g \<noteq> []" using canonical_wants_dir(2) [OF g(1) False] canonical_nonempty [OF g(1)] by auto
  then have "h = [] \<or> last h \<noteq> SL"
    unfolding hp using w by (intro pick_last) (auto simp: wf_fs_def)
  then show ?thesis using normalize_root_id [OF len] hp r by simp
qed


definition plain_env :: path_env where
  "plain_env = demo_env\<lparr>no_proc := True, no_dev := True\<rparr>"

lemma demo_chroot: "translate_1 plain_env demo_fs ''/d'' CNG_PATH_MAX = Some ''/x''"
  "translate_1 plain_env demo_fs ''/d/e/f'' CNG_PATH_MAX = Some ''/y/f''"
  by (simp_all add: translate_1_def plain_env_def demo_eval)


section \<open>What else a chroot changes\<close>

lemma chroot_ro_inside:
  assumes w: "wf_fs fs" and g: "cng_path_canon g CNG_PATH_MAX = Some root"
    and ro: "host_ro_1 (chroot_1 fs g h) x"
  shows "\<exists>b\<in>set (fs_binds fs). b_ro b \<and> inside root b"
proof -
  let ?bs = "List.map_filter (rebase_bind root) (fs_binds fs)"
  have "list_ex b_ro ?bs" using ro by (auto simp: host_ro_1_def chroot_1_eq [OF w g] split: if_splits)
  then obtain b' where "b' \<in> set ?bs" "b_ro b'" by (auto simp: list_ex_iff)
  then obtain b where b: "b \<in> set (fs_binds fs)" "rebase_bind root b = Some b'"
    by (force simp: List.map_filter_def)
  then show ?thesis using \<open>b_ro b'\<close>
    by (intro bexI [of _ b]) (auto simp: rebase_bind_def inside_def below_def split: if_splits)
qed

text \<open>
  C27. After a chroot a host path is read-only only by a bind strictly below the new root: a
  read-only bind at the new root, or above it, no longer protects anything, although the new root
  and all below it are still the files of that bind.
\<close>

theorem chroot_drops_read_only:
  assumes "wf_fs fs" "cng_path_canon g CNG_PATH_MAX = Some root"
    and "\<forall>b\<in>set (fs_binds fs). b_ro b \<longrightarrow> \<not> inside root b"
  shows "\<not> host_ro_1 (chroot_1 fs g h) x"
  using chroot_ro_inside assms by blast

theorem chroot_drops_read_only_witness:
  "host_ro_1 demo_fs ''/x/f'' \<and> \<not> host_ro_1 (chroot_1 demo_fs ''/d'' ''/x'') ''/x/f'' \<and>
   translate_1 plain_env (chroot_1 demo_fs ''/d'' ''/x'') ''/f'' CNG_PATH_MAX = Some ''/x/f''"
proof -
  have c: "cng_path_canon ''/d'' CNG_PATH_MAX = Some ''/d''" by (simp add: demo_eval)
  have "\<forall>b\<in>set (fs_binds demo_fs). b_ro b \<longrightarrow> \<not> inside ''/d'' b"
    by (simp add: demo_simps inside_def root_pre_def)
  moreover have "host_ro_1 demo_fs ''/x/f''" by (simp add: host_ro_1_def demo_simps strn_eq_def at_boundary_def)
  moreover have "translate_1 plain_env (chroot_1 demo_fs ''/d'' ''/x'') ''/f'' CNG_PATH_MAX = Some ''/x/f''"
    unfolding chroot_1_eq [OF demo_wf(1) c]
    by (simp add: translate_1_def demo_eval plain_env_def
        map_filter_simps rebase_bind_def root_pre_def root_len_def below_def path_under_def
        normalize_root_def strip_slashes.simps dev_zone_node_def)
  ultimately show ?thesis using chroot_drops_read_only [OF demo_wf(1) c] by blast
qed

text \<open>
  C28. A chroot to a directory whose host name is 512 bytes or longer makes the host's root directory
  the guest's root: the name is refused by \<open>normalize_root\<close>, which leaves the empty prefix, and the
  empty prefix means the identity root. Guest paths then translate to themselves.
\<close>

theorem chroot_long_root_escapes:
  assumes w: "wf_fs fs" and g: "cng_path_canon g CNG_PATH_MAX = Some root"
    and long: "HOST_SZ \<le> length h"
    and z: "no_proc e" "no_dev e" and nb: "fs_binds fs = []"
    and p: "canonical p" "p \<noteq> [SL]" "length p < CNG_PATH_MAX"
  shows "fs_rootfs (chroot_1 fs g h) = [] \<and> translate_1 e (chroot_1 fs g h) p CNG_PATH_MAX = Some p"
proof -
  have n: "fst (normalize_root HOST_SZ h) = []" using long by (simp add: normalize_root_def str_lcpy_def)
  show ?thesis
    using p by (simp add: translate_pick [OF z p] chroot_1_eq [OF w g] n nb Let_def List.map_filter_def)
qed

theorem chroot_long_root_witness:
  "\<exists>h. length h = 512 \<and> prefix ''/r/'' h \<and>
    translate_1 plain_env (chroot_1 (demo_fs\<lparr>fs_binds := [], fs_has_ro := False\<rparr>) ''/d'' h)
      ''/etc/passwd'' CNG_PATH_MAX = Some ''/etc/passwd''"
proof (intro exI conjI)
  let ?h = "''/r/'' @ replicate 509 (CHR ''d'')"
  show "length ?h = 512" "prefix ''/r/'' ?h" by simp_all
  have w: "wf_fs (demo_fs\<lparr>fs_binds := [], fs_has_ro := False\<rparr>)"
    using demo_wf(1) by (simp add: wf_fs_def)
  have c: "cng_path_canon ''/d'' CNG_PATH_MAX = Some ''/d''" by (simp add: demo_eval)
  have p: "canonical ''/etc/passwd''" by (simp add: canonical_def comps.simps path_of_def good_comp_def)
  show "translate_1 plain_env (chroot_1 (demo_fs\<lparr>fs_binds := [], fs_has_ro := False\<rparr>) ''/d'' ?h)
      ''/etc/passwd'' CNG_PATH_MAX = Some ''/etc/passwd''"
    using chroot_long_root_escapes [OF w c _ _ _ _ p, of ?h plain_env]
    by (simp add: plain_env_def path_consts)
qed

end
