(* ===== verification/Path_Host.thy ===== *)
theory Path_Host
  imports Path_Chroot
begin

text \<open>
  Where the host prefixes of a view come from: \<open>canon_host_root\<close>, which stores a prefix the way the
  kernel spells it, \<open>cng_fs_init\<close> and \<open>cng_fs_add_bind\<close>, which build the view, and the start-up that
  settles the guest's /dev/shm (\<open>cng_private_tmp_dir\<close>, \<open>cng_dev_shm_init\<close>). The host kernel is a
  parameter: a record of the system calls the source makes, over an unspecified kernel state.
\<close>

section \<open>The host kernel\<close>

record kstat =
  st_dev :: u64
  st_ino :: u64
  st_mode :: u32
  st_uid :: u32

text \<open>
  \<open>k_open_path\<close> opens with \<open>O_PATH|O_CLOEXEC\<close>, \<open>k_open_dir\<close> with \<open>O_PATH|O_DIRECTORY|O_NOFOLLOW\<close> as
  well; both return a descriptor or a negative errno. \<open>k_readlink_fd\<close> is the target of
  \<open>/proc/self/fd/<fd>\<close>.
\<close>

record 'h kernel =
  k_open_path :: "'h \<Rightarrow> string \<Rightarrow> 'h \<times> int"
  k_open_dir :: "'h \<Rightarrow> string \<Rightarrow> 'h \<times> int"
  k_readlink_fd :: "'h \<Rightarrow> int \<Rightarrow> string option"
  k_fstat :: "'h \<Rightarrow> int \<Rightarrow> kstat option"
  k_stat :: "'h \<Rightarrow> string \<Rightarrow> int + kstat"
  k_close :: "'h \<Rightarrow> int \<Rightarrow> 'h"
  k_mkdir :: "'h \<Rightarrow> string \<Rightarrow> 'h \<times> int"
  k_uid :: u32
  k_envp :: "string list"

definition S_ISDIR :: "u32 \<Rightarrow> bool" where
  "S_ISDIR mode \<longleftrightarrow> mode AND 0xF000 = 0x4000"

fun cng_broker_env :: "string list \<Rightarrow> string \<Rightarrow> string option" where
  "cng_broker_env [] name = None"
| "cng_broker_env (e # es) name =
     (let nl = length name in
      if strn_eq e name nl \<and> cat e nl = CHR ''='' \<and> nl + 1 < length e
      then Some (drop (nl + 1) e) else cng_broker_env es name)"

definition is_dir :: "'h kernel \<Rightarrow> 'h \<Rightarrow> string \<Rightarrow> bool" where
  "is_dir k h path = (case k_stat k h path of Inl _ \<Rightarrow> False | Inr st \<Rightarrow> S_ISDIR (st_mode st))"

section \<open>Host prefixes as the kernel spells them\<close>

definition fd_names :: "'h kernel \<Rightarrow> 'h \<Rightarrow> int \<Rightarrow> string \<Rightarrow> bool" where
  "fd_names k h fd path =
     (case (k_fstat k h fd, k_stat k h path) of
        (Some a, Inr b) \<Rightarrow> st_dev a = st_dev b \<and> st_ino a = st_ino b
      | _ \<Rightarrow> False)"

definition canon_host_root :: "'h kernel \<Rightarrow> 'h \<Rightarrow> nat \<Rightarrow> string \<Rightarrow> 'h \<times> string \<times> int" where
  "canon_host_root k h dstsz src =
     (let (h1, fd) = k_open_path k h src in
      if fd \<ge> 0 then
        (let real = (case k_readlink_fd k h1 fd of None \<Rightarrow> [] | Some t \<Rightarrow> take (CNG_PATH_MAX - 1) t);
             named = (real \<noteq> [] \<and> hd real = SL \<and> fd_names k h1 fd real);
             h2 = k_close k h1 fd
         in if named then (h2, normalize_root dstsz real) else (h2, normalize_root dstsz src))
      else (h1, normalize_root dstsz src))"

definition cng_fs_init :: "'h kernel \<Rightarrow> 'h \<Rightarrow> string option \<Rightarrow> 'h \<times> cng_fs \<times> int" where
  "cng_fs_init k h rootfs =
     (let (h1, root, r) =
            canon_host_root k h HOST_SZ (case rootfs of Some s \<Rightarrow> s | None \<Rightarrow> [SL])
      in (h1, \<lparr>fs_rootfs = root, fs_rlen = length root, fs_binds = [], fs_has_ro = False,
               fs_cwd = [SL]\<rparr>, r))"

definition cng_fs_add_bind ::
    "'h kernel \<Rightarrow> 'h \<Rightarrow> cng_fs \<Rightarrow> string \<Rightarrow> string \<Rightarrow> bool \<Rightarrow> 'h \<times> cng_fs \<times> int" where
  "cng_fs_add_bind k h fs guest host ro =
     (if length (fs_binds fs) \<ge> CNG_MAX_BINDS then (h, fs, - 1)
      else if guest = [] \<or> hd guest \<noteq> SL then (h, fs, - 1)
      else case cng_path_canon guest CNG_PATH_MAX of
        None \<Rightarrow> (h, fs, - 1)
      | Some canon \<Rightarrow>
          let (g, n) = str_lcpy GUEST_SZ canon in
          if n \<ge> GUEST_SZ then (h, fs, - 1)
          else let (h1, bh, r) = canon_host_root k h HOST_SZ host in
            if r \<noteq> 0 then (h1, fs, - 1)
            else let b = bind_measure \<lparr>b_guest = g, b_host = bh, b_glen = 0, b_hlen = 0, b_base = 0,
                           b_ro = ro\<rparr>
                 in (h1, fs\<lparr>fs_binds := fs_binds fs @ [b], fs_has_ro := fs_has_ro fs \<or> b_ro b\<rparr>, 0))"

section \<open>The stand-in for /dev/shm\<close>

definition tmp_parent_unsafe :: "'h kernel \<Rightarrow> 'h \<Rightarrow> string \<Rightarrow> string option" where
  "tmp_parent_unsafe k h dir =
     (case k_stat k h dir of
        Inl r \<Rightarrow> Some (if r = - ENOENT then ''does not exist'' else ''cannot be reached'')
      | Inr st \<Rightarrow>
          if \<not> S_ISDIR (st_mode st) then Some ''is not a directory''
          else if st_uid st \<noteq> 0 \<and> st_uid st \<noteq> k_uid k then Some ''is owned by another user''
          else if st_mode st AND 0x12 \<noteq> 0 \<and> st_mode st AND 0x200 = 0
            then Some ''is group- or world-writable and not sticky''
          else None)"

definition shm_dir_ours :: "'h kernel \<Rightarrow> 'h \<Rightarrow> string \<Rightarrow> 'h \<times> bool" where
  "shm_dir_ours k h path =
     (let (h1, fd) = k_open_dir k h path in
      if fd < 0 then (h1, False)
      else let ok = (case k_fstat k h1 fd of
                 None \<Rightarrow> False
               | Some st \<Rightarrow> S_ISDIR (st_mode st) \<and> st_mode st AND 0x3F = 0 \<and> st_uid st = k_uid k)
           in (k_close k h1 fd, ok))"

definition canon_dev_dir :: "'h kernel \<Rightarrow> 'h \<Rightarrow> string \<Rightarrow> nat \<Rightarrow> 'h \<times> string" where
  "canon_dev_dir k h node sz =
     (let (h1, tmp, r) = canon_host_root k h CNG_PATH_MAX node in
      if r = 0 \<and> tmp \<noteq> [] then (h1, fst (str_lcpy sz tmp)) else (h1, node))"

definition stand_in :: "'h kernel \<Rightarrow> string \<Rightarrow> string \<Rightarrow> string" where
  "stand_in k dir stem = dir @ ''/'' @ stem @ ''.'' @ dec (unat (k_uid k))"

text \<open>One turn of the candidate loop: the path to adopt, or why the candidate was passed over.\<close>

definition try_candidate ::
    "'h kernel \<Rightarrow> 'h \<Rightarrow> string \<Rightarrow> string \<Rightarrow> 'h \<times> (string + string)" where
  "try_candidate k h stem dir =
     (case tmp_parent_unsafe k h dir of
        Some no \<Rightarrow> (h, Inl no)
      | None \<Rightarrow>
          let path = stand_in k dir stem in
          if length path \<ge> CNG_PATH_MAX then (h, Inl ''is too long a path to hold one'')
          else let (h1, r) = k_mkdir k h path in
            if r \<noteq> 0 \<and> r \<noteq> - EEXIST
            then (h1, Inl (take 127 (''refused a directory (errno '' @ dec (nat (- r)) @ '')'')))
            else let (h2, ours) = shm_dir_ours k h1 path in
              if \<not> ours
              then (h2, Inl (take 127 (''has a '' @ stem @ ''.'' @ dec (unat (k_uid k)) @
                               '' that is not a private directory of ours'')))
              else (h2, Inr path))"

definition why_append :: "nat \<Rightarrow> string \<times> nat \<Rightarrow> string \<Rightarrow> string \<times> nat" where
  "why_append whysz wy txt =
     (if snd wy < whysz
      then (take (snd wy) (fst wy) @ take (whysz - snd wy - 1) txt, snd wy + length txt) else wy)"

definition why_text :: "nat \<Rightarrow> string option \<Rightarrow> string \<Rightarrow> string \<Rightarrow> string" where
  "why_text wn var dir no =
     (if wn \<noteq> 0 then ''; '' else []) @
     (case var of None \<Rightarrow> [] | Some v \<Rightarrow> ''$'' @ v @ ''='') @ dir @ '' '' @ no"

fun tmp_dir_loop ::
    "'h kernel \<Rightarrow> 'h \<Rightarrow> string \<Rightarrow> nat \<Rightarrow> nat \<Rightarrow> bool \<Rightarrow> (string option \<times> string option) list \<Rightarrow>
     string \<times> nat \<Rightarrow> 'h \<times> string option \<times> string" where
  "tmp_dir_loop k h stem sz whysz env_only [] wy = (h, None, fst wy)"
| "tmp_dir_loop k h stem sz whysz env_only ((var, d) # cs) wy =
     (case d of
        None \<Rightarrow> tmp_dir_loop k h stem sz whysz env_only cs wy
      | Some dir \<Rightarrow>
          if env_only \<and> var = None then tmp_dir_loop k h stem sz whysz env_only cs wy
          else case try_candidate k h stem dir of
            (h1, Inr path) \<Rightarrow>
              let (h2, out) = canon_dev_dir k h1 (fst (str_lcpy sz path)) sz in (h2, Some out, fst wy)
          | (h1, Inl no) \<Rightarrow>
              tmp_dir_loop k h1 stem sz whysz env_only cs
                (why_append whysz wy (why_text (snd wy) var dir no)))"

definition tmp_candidates :: "string list \<Rightarrow> (string option \<times> string option) list" where
  "tmp_candidates envp =
     [(Some ''TMPDIR'', cng_broker_env envp ''TMPDIR''),
      (Some ''XDG_RUNTIME_DIR'', cng_broker_env envp ''XDG_RUNTIME_DIR''),
      (None, Some ''/data/local/tmp''), (None, Some ''/tmp'')]"

definition cng_private_tmp_dir ::
    "'h kernel \<Rightarrow> 'h \<Rightarrow> string \<Rightarrow> nat \<Rightarrow> nat \<Rightarrow> 'h \<times> string option \<times> string" where
  "cng_private_tmp_dir k h stem sz whysz =
     tmp_dir_loop k h stem sz whysz (cng_broker_env (k_envp k) ''CNG_TMP_ENV_ONLY'' \<noteq> None)
       (tmp_candidates (k_envp k)) ([], 0)"

record dev_cfg =
  d_shm_host :: string
  d_pts_host :: string
  d_shm_why :: string
  d_shm_none :: bool

definition dev_cfg_start :: dev_cfg where
  "dev_cfg_start = \<lparr>d_shm_host = ''/dev/shm'', d_pts_host = ''/dev/pts'', d_shm_why = [],
     d_shm_none = False\<rparr>"

definition cng_dev_shm_init :: "'h kernel \<Rightarrow> bool \<Rightarrow> 'h \<Rightarrow> dev_cfg \<Rightarrow> 'h \<times> dev_cfg" where
  "cng_dev_shm_init k nodev h d =
     (if nodev then (h, d)
      else let (h1, pts) = canon_dev_dir k h (d_pts_host d) CNG_PATH_MAX;
               d = d\<lparr>d_pts_host := pts\<rparr>
           in if cng_broker_env (k_envp k) ''CNG_DEVSHM_FORCE_TMP'' = None \<and> is_dir k h1 ''/dev/shm''
              then let (h2, shm) = canon_dev_dir k h1 (d_shm_host d) CNG_PATH_MAX
                   in (h2, d\<lparr>d_shm_host := shm\<rparr>)
              else let (h2, out, why) = cng_private_tmp_dir k h1 ''chroot-ng-shm.v1'' CNG_PATH_MAX 1024;
                       d = d\<lparr>d_shm_host := (case out of Some s \<Rightarrow> s | None \<Rightarrow> d_shm_host d),
                             d_shm_why := why, d_shm_none := out = None\<rparr>
                   in if d_shm_none d \<and> is_dir k h2 (d_shm_host d)
                      then (h2, d\<lparr>d_shm_host := ''/dev/.chroot-ng-no-shm''\<rparr>) else (h2, d))"

definition cng_dev_shm_missing :: "dev_cfg \<Rightarrow> string option" where
  "cng_dev_shm_missing d = (if d_shm_none d then Some (d_shm_why d) else None)"

definition cng_dev_shm_ok :: "'h kernel \<Rightarrow> bool \<Rightarrow> 'h \<Rightarrow> dev_cfg \<Rightarrow> bool" where
  "cng_dev_shm_ok k nodev h d \<longleftrightarrow> \<not> nodev \<and> is_dir k h (d_shm_host d)"

section \<open>The invariant of a view, from its start\<close>

lemma canon_host_root_ok:
  assumes "canon_host_root k h sz src = (h', d, r)" "0 < sz"
  shows "length d < sz" "d = [] \<or> last d \<noteq> SL"
proof -
  obtain s where "normalize_root sz s = (d, r)"
    using assms(1) by (auto simp: canon_host_root_def Let_def split: prod.splits if_splits)
  then have "d = fst (normalize_root sz s)" by simp
  then show "length d < sz" "d = [] \<or> last d \<noteq> SL" using normalize_root_ok [of sz s] assms(2) by auto
qed

lemma canonical_root: "canonical [SL]"
  using canonical_path_of [of "[]"] by (simp add: path_of_def)

lemma wf_init: "cng_fs_init k h root = (h', fs, r) \<Longrightarrow> wf_fs fs"
proof -
  assume i: "cng_fs_init k h root = (h', fs, r)"
  obtain d where d: "canon_host_root k h HOST_SZ (case root of Some s \<Rightarrow> s | None \<Rightarrow> [SL]) = (h', d, r)"
      "fs = \<lparr>fs_rootfs = d, fs_rlen = length d, fs_binds = [], fs_has_ro = False, fs_cwd = [SL]\<rparr>"
    using i by (auto simp: cng_fs_init_def split: prod.splits)
  show "wf_fs fs"
    using canon_host_root_ok [OF d(1)] canonical_root d(2) by (simp add: wf_fs_def path_consts)
qed

lemma add_bind_cases:
  assumes "cng_fs_add_bind k h fs guest host ro = (h', fs', r)"
  obtains "fs' = fs" "r = - 1"
  | canon bh where "r = 0" "length (fs_binds fs) < CNG_MAX_BINDS" "cng_path_canon guest CNG_PATH_MAX = Some canon"
      "length canon < GUEST_SZ" "canon_host_root k h HOST_SZ host = (h', bh, 0)"
      "fs' = fs\<lparr>fs_binds := fs_binds fs @ [bind_measure \<lparr>b_guest = canon, b_host = bh, b_glen = 0,
          b_hlen = 0, b_base = 0, b_ro = ro\<rparr>], fs_has_ro := fs_has_ro fs \<or> ro\<rparr>"
  using assms
  by (auto simp: cng_fs_add_bind_def Let_def str_lcpy_def split: if_splits option.splits prod.splits)

lemma wf_add_bind:
  assumes "wf_fs fs" "cng_fs_add_bind k h fs guest host ro = (h', fs', r)"
  shows "wf_fs fs'"
  using assms(2)
proof (cases rule: add_bind_cases)
  case (2 canon bh)
  have "canonical canon" using 2(3) by (rule cng_path_canon_canonical)
  moreover have "length bh < HOST_SZ" "bh = [] \<or> last bh \<noteq> SL"
    using canon_host_root_ok [OF 2(5)] by (auto simp: HOST_SZ_def)
  ultimately show ?thesis using assms(1) 2 by (auto simp: wf_fs_def bind_ok_def)
qed (use assms in simp)

datatype fs_op = Add_Bind string string bool | Chroot string string | Set_Cwd string

fun fs_step :: "'h kernel \<Rightarrow> fs_op \<Rightarrow> 'h \<times> cng_fs \<Rightarrow> 'h \<times> cng_fs" where
  "fs_step k (Add_Bind g b ro) (h, fs) = (let (h', fs', _) = cng_fs_add_bind k h fs g b ro in (h', fs'))"
| "fs_step k (Chroot g r) (h, fs) = (h, chroot_1 fs g r)"
| "fs_step k (Set_Cwd g) (h, fs) = (h, set_cwd_1 fs g)"

interpretation fsv: inv_system "fs_step k" "\<lambda>s. wf_fs (snd s)" "\<lambda>_. True"
proof
  fix s :: "'a \<times> cng_fs" and op
  assume w: "wf_fs (snd s)"
  obtain h fs where s: "s = (h, fs)" by force
  show "wf_fs (snd (fs_step k op s))"
  proof (cases op)
    case (Add_Bind g b ro)
    then show ?thesis using w s wf_add_bind [of fs k h g b ro]
      by (cases "cng_fs_add_bind k h fs g b ro") auto
  qed (use w s in \<open>auto intro: wf_chroot wf_set_cwd\<close>)
qed

text \<open>
  C24. The view built by \<open>cng_fs_init\<close> and changed by any sequence of \<open>cng_fs_add_bind\<close>, chroot and
  chdir calls, failing ones included, is well-formed: every string fits its field, every prefix is
  canonical or free of a trailing slash, the cached lengths and the read-only flag agree with the
  table, and the cwd is canonical.
\<close>

theorem view_always_well_formed:
  "case cng_fs_init k h rootfs of (h1, fs, r) \<Rightarrow> wf_fs (snd (fold (fs_step k) ops (h1, fs)))"
proof -
  obtain h1 fs r where i: "cng_fs_init k h rootfs = (h1, fs, r)" by (cases "cng_fs_init k h rootfs")
  then have "wf_fs (snd (h1, fs))" using wf_init by simp
  then have "wf_fs (snd (fold (fs_step k) ops (h1, fs)))" by (rule fsv.run_inv) (simp add: list_all_iff)
  then show ?thesis using i by simp
qed

section \<open>Adopting a directory\<close>

lemma tmp_dir_loop_adopts:
  "tmp_dir_loop k h stem sz whysz env_only cs wy = (h', Some out, why) \<Longrightarrow>
   \<exists>var dir h1 h2 path. (var, Some dir) \<in> set cs \<and> (env_only \<longrightarrow> var \<noteq> None) \<and>
     try_candidate k h1 stem dir = (h2, Inr path) \<and>
     canon_dev_dir k h2 (fst (str_lcpy sz path)) sz = (h', out)"
proof (induction k h stem sz whysz env_only cs wy rule: tmp_dir_loop.induct)
  case (2 k h stem sz whysz env_only var d cs wy)
  show ?case
  proof (cases d)
    case None
    then have "tmp_dir_loop k h stem sz whysz env_only cs wy = (h', Some out, why)" using "2.prems" by simp
    from "2.IH"(1) [OF None this] show ?thesis by fastforce
  next
    case (Some dir)
    show ?thesis
    proof (cases "env_only \<and> var = None")
      case True
      then have "tmp_dir_loop k h stem sz whysz env_only cs wy = (h', Some out, why)"
        using "2.prems" Some by simp
      from "2.IH"(2) [OF Some True this] show ?thesis by fastforce
    next
      case False
      obtain h1 res where t: "try_candidate k h stem dir = (h1, res)" by force
      show ?thesis
      proof (cases res)
        case (Inl no)
        then have "tmp_dir_loop k h1 stem sz whysz env_only cs
            (why_append whysz wy (why_text (snd wy) var dir no)) = (h', Some out, why)"
          using "2.prems" Some False t by simp
        from "2.IH"(3) [OF Some False t [symmetric] Inl this] show ?thesis by fastforce
      next
        case (Inr path)
        then have "canon_dev_dir k h1 (fst (str_lcpy sz path)) sz = (h', out)"
          using "2.prems" Some False t by (simp split: prod.splits)
        moreover have "(var, Some dir) \<in> set ((var, d) # cs)" using Some by simp
        ultimately show ?thesis using False t Inr by blast
      qed
    qed
  qed
qed simp

text \<open>
  C29. \<open>cng_private_tmp_dir\<close> adopts a directory only below a candidate that is a directory owned by
  root or by us and not open to renames by others, and only if the name itself, opened without
  following a symlink, is a directory of ours that nobody else may enter, whether we just made it
  or found it there.
\<close>

theorem private_tmp_dir_is_private:
  assumes "cng_private_tmp_dir k h stem sz whysz = (h', Some out, why)"
  shows "\<exists>dir h1 h2 pst h3 fd st. tmp_parent_unsafe k h1 dir = None \<and>
    k_stat k h1 dir = Inr pst \<and> S_ISDIR (st_mode pst) \<and> (st_uid pst = 0 \<or> st_uid pst = k_uid k) \<and>
    (st_mode pst AND 0x12 = 0 \<or> st_mode pst AND 0x200 \<noteq> 0) \<and>
    k_open_dir k h2 (stand_in k dir stem) = (h3, fd) \<and> 0 \<le> fd \<and> k_fstat k h3 fd = Some st \<and>
    S_ISDIR (st_mode st) \<and> st_mode st AND 0x3F = 0 \<and> st_uid st = k_uid k \<and>
    canon_dev_dir k (k_close k h3 fd) (fst (str_lcpy sz (stand_in k dir stem))) sz = (h', out)"
proof -
  obtain dir h1 h2 path where c: "try_candidate k h1 stem dir = (h2, Inr path)"
      "canon_dev_dir k h2 (fst (str_lcpy sz path)) sz = (h', out)"
    using tmp_dir_loop_adopts [OF assms [unfolded cng_private_tmp_dir_def]] by blast
  from c(1) have p: "tmp_parent_unsafe k h1 dir = None"
    by (auto simp: try_candidate_def split: option.splits)
  moreover from p obtain pst where "k_stat k h1 dir = Inr pst" "S_ISDIR (st_mode pst)"
      "st_uid pst = 0 \<or> st_uid pst = k_uid k" "st_mode pst AND 0x12 = 0 \<or> st_mode pst AND 0x200 \<noteq> 0"
    by (auto simp: tmp_parent_unsafe_def split: sum.splits if_splits)
  moreover from c(1) p obtain m1 where "path = stand_in k dir stem" "shm_dir_ours k m1 path = (h2, True)"
    by (auto simp: try_candidate_def Let_def split: if_splits prod.splits)
  moreover from this obtain h3 fd st where "k_open_dir k m1 path = (h3, fd)" "0 \<le> fd"
      "k_fstat k h3 fd = Some st" "S_ISDIR (st_mode st)" "st_mode st AND 0x3F = 0" "st_uid st = k_uid k"
      "h2 = k_close k h3 fd"
    by (auto simp: shm_dir_ours_def Let_def split: if_splits prod.splits option.splits)
  ultimately show ?thesis using c(2) by blast
qed

definition demo_kernel :: "unit kernel" where
  "demo_kernel = \<lparr>k_open_path = (\<lambda>h p. (h, 3)), k_open_dir = (\<lambda>h p. (h, 3)),
     k_readlink_fd = (\<lambda>h fd. Some ''/tmp/x''),
     k_fstat = (\<lambda>h fd. Some \<lparr>st_dev = 1, st_ino = 2, st_mode = 0x41C0, st_uid = 1000\<rparr>),
     k_stat = (\<lambda>h p. Inr \<lparr>st_dev = 1, st_ino = 2, st_mode = 0x43FF, st_uid = 0\<rparr>),
     k_close = (\<lambda>h fd. h), k_mkdir = (\<lambda>h p. (h, - 17)), k_uid = 1000, k_envp = []\<rparr>"

theorem private_tmp_dir_witness:
  "cng_private_tmp_dir demo_kernel () ''s'' 64 64 = ((), Some ''/tmp/x'', []) \<and>
   (\<exists>dir. stand_in demo_kernel dir ''s'' = ''/data/local/tmp/s.1000'')"
proof -
  have d: "dec 1000 = ''1000''" by (simp add: dec_def digits.simps)
  have c: "cng_private_tmp_dir demo_kernel () ''s'' 64 64 = ((), Some ''/tmp/x'', [])"
    by (simp add: cng_private_tmp_dir_def tmp_candidates_def try_candidate_def tmp_parent_unsafe_def
        S_ISDIR_def demo_kernel_def stand_in_def d shm_dir_ours_def canon_dev_dir_def canon_host_root_def
        fd_names_def normalize_root_def strip_slashes.simps str_lcpy_def path_consts EEXIST_def)
  have "stand_in demo_kernel ''/data/local/tmp'' ''s'' = ''/data/local/tmp/s.1000''"
    by (simp add: stand_in_def demo_kernel_def d)
  with c private_tmp_dir_is_private [OF c] show ?thesis by blast
qed

end
