(* ===== verification/Ipc_State.thy ===== *)
theory Ipc_State
  imports Cng_Prelude
begin

text \<open>
  The state of the broker daemon's System V registry (\<open>src/monitor/ipcreg.c\<close>): semaphore sets, the
  per-process undo rows, message queues, parked waiters, and the request and reply records of
  \<open>include/cng/broker.h\<close>. A table is a list of optional rows whose length is the table's capacity, an
  unused slot being \<open>None\<close>; a semaphore vector, an operation vector and a queue are lists. What the
  daemon learns from the host while it serves one request (the two clocks, the start time of a
  process, whether the arena can grow) is the record \<open>ipc_env\<close>. Values of the narrow signed types
  are integers, flag words and the queue's counters are machine words.
\<close>

section \<open>Constants\<close>

definition SEM_SET_MAX :: nat where "SEM_SET_MAX = 1024"
definition MSG_QUEUE_MAX :: nat where "MSG_QUEUE_MAX = 1024"
definition SEM_UNDO_MAX :: nat where "SEM_UNDO_MAX = 4096"
definition IPC_WAITER_MAX :: nat where "IPC_WAITER_MAX = 512"
definition CNG_SEMVMX :: int where "CNG_SEMVMX = 32767"
definition CNG_SEMAEM :: int where "CNG_SEMAEM = 32767"
definition CNG_SEMMSL :: nat where "CNG_SEMMSL = 32000"
definition CNG_SEMOPM :: nat where "CNG_SEMOPM = 500"
definition CNG_MSGMAX :: nat where "CNG_MSGMAX = 8192"
definition CNG_MSGMNB :: nat where "CNG_MSGMNB = 16384"

definition CNG_IPC_CREAT :: u32 where "CNG_IPC_CREAT = 0x200"
definition CNG_IPC_EXCL :: u32 where "CNG_IPC_EXCL = 0x400"
definition CNG_IPC_NOWAIT :: u32 where "CNG_IPC_NOWAIT = 0x800"
definition CNG_MSG_NOERROR :: u32 where "CNG_MSG_NOERROR = 0x1000"
definition CNG_MSG_EXCEPT :: u32 where "CNG_MSG_EXCEPT = 0x2000"
definition OP_NOWAIT :: "16 word" where "OP_NOWAIT = 0x800"
definition CNG_SEM_UNDO :: "16 word" where "CNG_SEM_UNDO = 0x1000"

definition CNG_IPC_RMID :: u32 where "CNG_IPC_RMID = 0"
definition CNG_IPC_SET :: u32 where "CNG_IPC_SET = 1"
definition CNG_IPC_STAT :: u32 where "CNG_IPC_STAT = 2"
definition CNG_IPC_INFO :: u32 where "CNG_IPC_INFO = 3"
definition CNG_GETPID :: u32 where "CNG_GETPID = 11"
definition CNG_GETVAL :: u32 where "CNG_GETVAL = 12"
definition CNG_GETALL :: u32 where "CNG_GETALL = 13"
definition CNG_GETNCNT :: u32 where "CNG_GETNCNT = 14"
definition CNG_GETZCNT :: u32 where "CNG_GETZCNT = 15"
definition CNG_SETVAL :: u32 where "CNG_SETVAL = 16"
definition CNG_SETALL :: u32 where "CNG_SETALL = 17"
definition CNG_SEM_STAT :: u32 where "CNG_SEM_STAT = 18"
definition CNG_SEM_INFO :: u32 where "CNG_SEM_INFO = 19"
definition CNG_SEM_STAT_ANY :: u32 where "CNG_SEM_STAT_ANY = 20"
definition CNG_MSG_STAT :: u32 where "CNG_MSG_STAT = 11"
definition CNG_MSG_INFO :: u32 where "CNG_MSG_INFO = 12"
definition CNG_MSG_STAT_ANY :: u32 where "CNG_MSG_STAT_ANY = 13"
definition BROKER_SEMNSEMS :: u32 where "BROKER_SEMNSEMS = - 100"

lemmas ipc_cmds = CNG_IPC_RMID_def CNG_IPC_SET_def CNG_IPC_STAT_def CNG_IPC_INFO_def CNG_GETPID_def
  CNG_GETVAL_def CNG_GETALL_def CNG_GETNCNT_def CNG_GETZCNT_def CNG_SETVAL_def CNG_SETALL_def
  CNG_SEM_STAT_def CNG_SEM_INFO_def CNG_SEM_STAT_ANY_def CNG_MSG_STAT_def CNG_MSG_INFO_def
  CNG_MSG_STAT_ANY_def BROKER_SEMNSEMS_def

lemmas ipc_limits = SEM_SET_MAX_def MSG_QUEUE_MAX_def SEM_UNDO_MAX_def IPC_WAITER_MAX_def
  CNG_SEMVMX_def CNG_SEMAEM_def CNG_SEMMSL_def CNG_SEMOPM_def CNG_MSGMAX_def CNG_MSGMNB_def

lemmas ipc_flags = CNG_IPC_CREAT_def CNG_IPC_EXCL_def CNG_IPC_NOWAIT_def CNG_MSG_NOERROR_def
  CNG_MSG_EXCEPT_def OP_NOWAIT_def CNG_SEM_UNDO_def

datatype ipc_req = SEMGET | SEMOP | SEMCTL | MSGGET | MSGSND | MSGRCV | MSGCTL | CANCEL | OTHER

definition flag_set :: "'a::len word \<Rightarrow> 'a word \<Rightarrow> bool" where
  "flag_set w f \<longleftrightarrow> w AND f \<noteq> 0"

section \<open>Records\<close>

record sembuf =
  sem_num :: nat
  sem_op :: int
  sem_flg :: "16 word"

record sem_set =
  s_semid :: int
  s_key :: int
  s_nsems :: nat
  s_mode :: u32
  s_uid :: u32
  s_gid :: u32
  s_cuid :: u32
  s_cgid :: u32
  s_otime :: int
  s_ctime :: int
  s_val :: "int list"
  s_lpid :: "int list"
  s_cpid :: int
  s_tpid :: int

record sem_undo =
  u_pid :: int
  u_start :: u64
  u_semid :: int
  u_adj :: "int list"

record gmsg =
  g_mtype :: int
  g_data :: "u8 list"

definition g_size :: "gmsg \<Rightarrow> nat" where
  "g_size m = length (g_data m)"

record msg_q =
  q_msqid :: int
  q_key :: int
  q_mode :: u32
  q_uid :: u32
  q_gid :: u32
  q_cuid :: u32
  q_cgid :: u32
  q_stime :: int
  q_rtime :: int
  q_ctime :: int
  q_cbytes :: u64
  q_qnum :: u64
  q_qbytes :: u64
  q_lspid :: int
  q_lrpid :: int
  q_cpid :: int
  q_tpid :: int
  q_msgs :: "gmsg list"

record waiter =
  w_cfd :: int
  w_op :: ipc_req
  w_id :: int
  w_pid :: int
  w_start :: u64
  w_seq :: u64
  w_deadline :: int
  w_sops :: "sembuf list"
  w_blk :: nat
  w_msg :: "gmsg option"
  w_msgtyp :: int
  w_msgsz :: nat
  w_msgflg :: u32

record breq =
  r_op :: ipc_req
  r_key :: int
  r_size :: nat
  r_id :: int
  r_arg :: u32
  r_pid :: int
  r_uid :: u32
  r_gid :: u32
  r_set_mode :: u32
  r_set_uid :: u32
  r_set_gid :: u32
  r_semnum :: int
  r_val :: int
  r_mtype :: int
  r_timeout :: int

record bresp =
  p_ret :: int
  p_key :: int
  p_size :: u64
  p_nattch :: u64
  p_mode :: u32
  p_uid :: u32
  p_gid :: u32
  p_cuid :: u32
  p_cgid :: u32
  p_cpid :: int
  p_lpid :: int
  p_atime :: int
  p_dtime :: int
  p_ctime :: int
  p_used :: int
  p_tot :: u64
  p_cbytes :: u64
  p_mtype :: int

definition resp0 :: bresp where
  "resp0 = \<lparr>p_ret = 0, p_key = 0, p_size = 0, p_nattch = 0, p_mode = 0, p_uid = 0, p_gid = 0,
     p_cuid = 0, p_cgid = 0, p_cpid = 0, p_lpid = 0, p_atime = 0, p_dtime = 0, p_ctime = 0,
     p_used = 0, p_tot = 0, p_cbytes = 0, p_mtype = 0\<rparr>"

definition resp :: "int \<Rightarrow> bresp" where
  "resp r = resp0\<lparr>p_ret := r\<rparr>"

text \<open>What the daemon does to a connection: answer it with a reply and a payload, or close it.\<close>

datatype event = Reply int bresp "u8 list" | Close int

record ipc =
  i_tabs :: bool
  i_sem :: "sem_set option list"
  i_undo :: "sem_undo option list"
  i_msq :: "msg_q option list"
  i_wait :: "waiter option list"
  i_next_semid :: int
  i_next_msqid :: int
  i_seq :: u64
  i_nwait :: int
  i_nundo :: int
  i_out :: "event list"

record ipc_env =
  e_now :: int
  e_mono :: int
  e_start :: "int \<Rightarrow> u64"
  e_zombie :: "int \<Rightarrow> bool"
  e_alloc :: "nat \<Rightarrow> bool"

definition emit :: "event \<Rightarrow> ipc \<Rightarrow> ipc" where
  "emit ev st = st\<lparr>i_out := i_out st @ [ev]\<rparr>"

section \<open>Tables of optional rows\<close>

text \<open>The first row a predicate holds of, and the first unused slot.\<close>

fun find_row :: "('a \<Rightarrow> bool) \<Rightarrow> 'a option list \<Rightarrow> nat option" where
  "find_row P [] = None"
| "find_row P (None # xs) = map_option Suc (find_row P xs)"
| "find_row P (Some x # xs) = (if P x then Some 0 else map_option Suc (find_row P xs))"

fun free_slot :: "'a option list \<Rightarrow> nat option" where
  "free_slot [] = None"
| "free_slot (None # xs) = Some 0"
| "free_slot (Some x # xs) = map_option Suc (free_slot xs)"

definition n_used :: "'a option list \<Rightarrow> nat" where
  "n_used xs = length (filter (\<lambda>x. x \<noteq> None) xs)"

definition rows :: "'a option list \<Rightarrow> 'a set" where
  "rows xs = {x. Some x \<in> set xs}"

lemma find_row_Some:
  "find_row P xs = Some i \<Longrightarrow> i < length xs \<and> (\<exists>x. xs ! i = Some x \<and> P x)"
  by (induction P xs arbitrary: i rule: find_row.induct) (fastforce split: if_splits)+

lemma find_row_None: "find_row P xs = None \<longleftrightarrow> (\<forall>x\<in>rows xs. \<not> P x)"
  by (induction P xs rule: find_row.induct) (auto simp: rows_def)

lemma free_slot_Some: "free_slot xs = Some i \<Longrightarrow> i < length xs \<and> xs ! i = None"
  by (induction xs arbitrary: i rule: free_slot.induct) auto

lemma free_slot_None: "free_slot xs = None \<longleftrightarrow> None \<notin> set xs"
  by (induction xs rule: free_slot.induct) auto

lemma n_used_simps [simp]:
  "n_used [] = 0" "n_used (None # xs) = n_used xs" "n_used (Some x # xs) = Suc (n_used xs)"
  by (simp_all add: n_used_def)

lemma n_used_upd:
  "i < length xs \<Longrightarrow> n_used (xs[i := y]) + (if xs ! i = None then 0 else 1) =
     n_used xs + (if y = None then 0 else 1)"
proof (induction xs arbitrary: i)
  case (Cons x xs)
  then show ?case by (cases i; cases x; cases y) fastforce+
qed simp

lemma rows_nth: "i < length xs \<Longrightarrow> xs ! i = Some x \<Longrightarrow> x \<in> rows xs"
  unfolding rows_def by (metis mem_Collect_eq nth_mem)

lemma rows_ex: "x \<in> rows xs \<Longrightarrow> \<exists>i<length xs. xs ! i = Some x"
  unfolding rows_def by (auto simp: in_set_conv_nth)

lemma rows_upd_sub: "rows (xs[i := y]) \<subseteq> rows xs \<union> (case y of None \<Rightarrow> {} | Some z \<Rightarrow> {z})"
  using set_update_subset_insert [of xs i y] by (auto simp: rows_def split: option.splits)

lemma rows_upd_iff:
  assumes "i < length xs"
  shows "z \<in> rows (xs[i := y]) \<longleftrightarrow> y = Some z \<or> (\<exists>j<length xs. j \<noteq> i \<and> xs ! j = Some z)"
proof
  assume "z \<in> rows (xs[i := y])"
  from rows_ex [OF this] obtain j where j: "j < length (xs[i := y])" "xs[i := y] ! j = Some z"
    by (elim exE conjE)
  show "y = Some z \<or> (\<exists>j<length xs. j \<noteq> i \<and> xs ! j = Some z)"
  proof (cases "j = i")
    case True
    then show ?thesis using j by simp
  next
    case False
    then show ?thesis using j by (intro disjI2 exI [of _ j]) simp
  qed
next
  assume "y = Some z \<or> (\<exists>j<length xs. j \<noteq> i \<and> xs ! j = Some z)"
  then show "z \<in> rows (xs[i := y])"
  proof
    assume "y = Some z"
    then show ?thesis using assms by (intro rows_nth [of i]) simp_all
  next
    assume "\<exists>j<length xs. j \<noteq> i \<and> xs ! j = Some z"
    then obtain j where "j < length xs" "j \<noteq> i" "xs ! j = Some z" by blast
    then show ?thesis by (intro rows_nth [of j]) simp_all
  qed
qed

text \<open>A key that identifies a row: no two used rows share it.\<close>

definition uniq_by :: "('a \<Rightarrow> 'k) \<Rightarrow> 'a option list \<Rightarrow> bool" where
  "uniq_by f xs \<longleftrightarrow> (\<forall>i<length xs. \<forall>j<length xs. \<forall>x y.
     xs ! i = Some x \<longrightarrow> xs ! j = Some y \<longrightarrow> f x = f y \<longrightarrow> i = j)"

lemma uniq_byD:
  "uniq_by f xs \<Longrightarrow> i < length xs \<Longrightarrow> j < length xs \<Longrightarrow> xs ! i = Some x \<Longrightarrow> xs ! j = Some y \<Longrightarrow>
   f x = f y \<Longrightarrow> i = j"
  unfolding uniq_by_def by blast

lemma nth_clear: "xs[i := None] ! j = Some y \<Longrightarrow> j < length xs \<Longrightarrow> j \<noteq> i \<and> xs ! j = Some y"
  by (cases "j = i") simp_all

lemma uniq_by_clear:
  assumes "uniq_by f xs"
  shows "uniq_by f (xs[i := None])"
  unfolding uniq_by_def
proof (intro allI impI)
  fix j k y z
  assume "j < length (xs[i := None])" "k < length (xs[i := None])" "xs[i := None] ! j = Some y"
    "xs[i := None] ! k = Some z" "f y = f z"
  then show "j = k" using uniq_byD [OF assms, of j k y z] nth_clear [of xs i] by simp
qed

lemma uniq_by_put:
  assumes "uniq_by f xs" "\<And>j y. j < length xs \<Longrightarrow> j \<noteq> i \<Longrightarrow> xs ! j = Some y \<Longrightarrow> f y \<noteq> f x"
  shows "uniq_by f (xs[i := Some x])"
  unfolding uniq_by_def
proof (intro allI impI)
  fix j k y z
  assume jk: "j < length (xs[i := Some x])" "k < length (xs[i := Some x])"
    and y: "xs[i := Some x] ! j = Some y" and z: "xs[i := Some x] ! k = Some z" and e: "f y = f z"
  show "j = k"
  proof (cases "j = i \<or> k = i")
    case True
    then show ?thesis using jk y z e assms(2) [of j y] assms(2) [of k z]
      by (cases "j = i"; cases "k = i") auto
  next
    case False
    then show ?thesis using jk y z e uniq_byD [OF assms(1), of j k] by auto
  qed
qed

lemma uniq_by_same:
  assumes "uniq_by f xs" "i < length xs" "xs ! i = Some x0" "f x = f x0"
  shows "uniq_by f (xs[i := Some x])"
  using assms(1)
proof (rule uniq_by_put)
  fix j y assume "j < length xs" "j \<noteq> i" "xs ! j = Some y"
  then show "f y \<noteq> f x" using uniq_byD [OF assms(1) _ assms(2) _ assms(3)] assms(4) by metis
qed

lemma find_row_uniq:
  assumes "uniq_by f xs" "i < length xs" "xs ! i = Some x" "f x = k"
  shows "find_row (\<lambda>y. f y = k) xs = Some i"
proof (cases "find_row (\<lambda>y. f y = k) xs")
  case None
  then show ?thesis using assms rows_nth by (fastforce simp: find_row_None)
next
  case (Some j)
  then obtain y where "j < length xs" "xs ! j = Some y" "f y = k" using find_row_Some by blast
  then show ?thesis using Some uniq_byD [OF assms(1) _ assms(2) _ assms(3)] assms(4) by metis
qed

section \<open>Set-up of the tables\<close>

text \<open>
  The registry as the daemon starts it: nothing is mapped, the tables have their capacity. The
  capacities are arguments; \<open>ipc0\<close> has those of the source.
\<close>

definition ipc_empty :: "nat \<Rightarrow> nat \<Rightarrow> nat \<Rightarrow> nat \<Rightarrow> ipc" where
  "ipc_empty nsem nundo nmsq nwait = \<lparr>i_tabs = False, i_sem = replicate nsem None, i_undo = replicate nundo None,
     i_msq = replicate nmsq None, i_wait = replicate nwait None,
     i_next_semid = 1, i_next_msqid = 1, i_seq = 1, i_nwait = 0, i_nundo = 0, i_out = []\<rparr>"

definition ipc0 :: ipc where
  "ipc0 = ipc_empty SEM_SET_MAX SEM_UNDO_MAX MSG_QUEUE_MAX IPC_WAITER_MAX"

definition tables_size :: nat where
  "tables_size = SEM_SET_MAX * 80 + SEM_UNDO_MAX * 32 + MSG_QUEUE_MAX * 112 + IPC_WAITER_MAX * 96"

definition tables :: "ipc_env \<Rightarrow> ipc \<Rightarrow> ipc option" where
  "tables env st =
     (if i_tabs st then Some st
      else if e_alloc env tables_size then Some (st\<lparr>i_tabs := True\<rparr>) else None)"

section \<open>Lookup and permissions\<close>

definition sem_find :: "ipc \<Rightarrow> int \<Rightarrow> nat option" where
  "sem_find st semid =
     (if semid \<le> 0 \<or> \<not> i_tabs st then None else find_row (\<lambda>s. s_semid s = semid) (i_sem st))"

definition msg_find :: "ipc \<Rightarrow> int \<Rightarrow> nat option" where
  "msg_find st msqid =
     (if msqid \<le> 0 \<or> \<not> i_tabs st then None else find_row (\<lambda>q. q_msqid q = msqid) (i_msq st))"

definition sem_at :: "ipc \<Rightarrow> nat \<Rightarrow> sem_set" where
  "sem_at st i = the (i_sem st ! i)"

definition msq_at :: "ipc \<Rightarrow> nat \<Rightarrow> msg_q" where
  "msq_at st i = the (i_msq st ! i)"

definition ipc_access :: "u32 \<Rightarrow> u32 \<Rightarrow> u32 \<Rightarrow> u32 \<Rightarrow> u32 \<Rightarrow> u32 \<Rightarrow> u32 \<Rightarrow> u32 \<Rightarrow> bool" where
  "ipc_access mode ouid cuid ogid cgid uid gid need =
     (if uid = 0 then True
      else let m = (if uid = ouid \<or> uid = cuid then drop_bit 6 mode
                    else if gid = ogid \<or> gid = cgid then drop_bit 3 mode else mode)
           in m AND need AND 7 = need)"

definition ipc_owner :: "u32 \<Rightarrow> u32 \<Rightarrow> u32 \<Rightarrow> bool" where
  "ipc_owner ouid cuid uid \<longleftrightarrow> uid = 0 \<or> uid = ouid \<or> uid = cuid"

definition sem_access :: "sem_set \<Rightarrow> breq \<Rightarrow> u32 \<Rightarrow> bool" where
  "sem_access s q need = ipc_access (s_mode s) (s_uid s) (s_cuid s) (s_gid s) (s_cgid s)
     (r_uid q) (r_gid q) need"

definition msg_access :: "msg_q \<Rightarrow> breq \<Rightarrow> u32 \<Rightarrow> bool" where
  "msg_access mq q need = ipc_access (q_mode mq) (q_uid mq) (q_cuid mq) (q_gid mq) (q_cgid mq)
     (r_uid q) (r_gid q) need"

section \<open>Allocating an identifier\<close>

definition next_id :: "int \<Rightarrow> int" where
  "next_id n = (let m = s32_of (n + 1) in if m \<le> 0 then 1 else m)"

fun alloc_id :: "(int \<Rightarrow> bool) \<Rightarrow> int \<Rightarrow> nat \<Rightarrow> int option \<times> int" where
  "alloc_id used n 0 = (None, n)"
| "alloc_id used n (Suc t) =
     (if n > 0 \<and> \<not> used n then (Some n, next_id n) else alloc_id used (next_id n) t)"

definition sem_alloc_id :: "ipc \<Rightarrow> int option \<times> int" where
  "sem_alloc_id st = alloc_id (\<lambda>i. sem_find st i \<noteq> None) (i_next_semid st) (length (i_sem st) * 4)"

definition msg_alloc_id :: "ipc \<Rightarrow> int option \<times> int" where
  "msg_alloc_id st = alloc_id (\<lambda>i. msg_find st i \<noteq> None) (i_next_msqid st) (length (i_msq st) * 4)"

text \<open>
  Both tables allocate by the same scan: from the cursor upwards, wrapping past the largest 32-bit
  identifier back to 1. It never hands out an identifier in use, and as long as fewer identifiers are
  in use than it tries, it finds one.
\<close>

definition id_range :: "int \<Rightarrow> bool" where
  "id_range n \<longleftrightarrow> 0 < n \<and> n \<le> 2147483647"

lemma next_id_eq: "id_range n \<Longrightarrow> next_id n = (if n = 2147483647 then 1 else n + 1)"
  by (auto simp: next_id_def id_range_def s32_of_def Let_def)

lemma id_range_next: "id_range n \<Longrightarrow> id_range (next_id n)"
  by (auto simp: next_id_eq id_range_def)

lemma alloc_id_Some:
  assumes "alloc_id used n t = (Some i, n')" "id_range n"
  shows "id_range i \<and> \<not> used i \<and> id_range n'"
  using assms
proof (induction t arbitrary: n)
  case (Suc t)
  show ?case
  proof (cases "n > 0 \<and> \<not> used n")
    case True
    then show ?thesis using Suc.prems id_range_next by auto
  next
    case False
    then have "alloc_id used (next_id n) t = (Some i, n')" using Suc.prems(1) by (auto split: if_splits)
    then show ?thesis using Suc.IH id_range_next Suc.prems by blast
  qed
qed simp

lemma alloc_id_range: "id_range n \<Longrightarrow> id_range (snd (alloc_id used n t))"
  by (induction t arbitrary: n) (auto simp: id_range_next)

definition nth_id :: "int \<Rightarrow> nat \<Rightarrow> int" where
  "nth_id n k = (n - 1 + int k) mod 2147483647 + 1"

lemma nth_id_0: "id_range n \<Longrightarrow> nth_id n 0 = n"
  by (simp add: nth_id_def id_range_def)

lemma nth_id_next: "id_range n \<Longrightarrow> nth_id (next_id n) k = nth_id n (Suc k)"
proof (cases "n = 2147483647")
  case True
  have "(2147483647 + int k) mod 2147483647 = int k mod 2147483647" by simp
  then show ?thesis using True by (simp add: nth_id_def next_id_eq id_range_def add.commute)
next
  case False
  assume "id_range n"
  then show ?thesis using False by (simp add: nth_id_def next_id_eq algebra_simps)
qed

lemma alloc_id_None: "alloc_id used n t = (None, n') \<Longrightarrow> id_range n \<Longrightarrow> k < t \<Longrightarrow> used (nth_id n k)"
proof (induction t arbitrary: n k)
  case (Suc t)
  have u: "used n" "alloc_id used (next_id n) t = (None, n')"
    using Suc.prems by (auto simp: id_range_def split: if_splits)
  show ?case
  proof (cases k)
    case 0
    then show ?thesis using u nth_id_0 Suc.prems by simp
  next
    case (Suc j)
    then show ?thesis
      using Suc.IH [OF u(2) id_range_next, of j] Suc.prems nth_id_next by simp
  qed
qed simp

lemma nth_id_inj: "t \<le> 2147483647 \<Longrightarrow> inj_on (nth_id n) {..<t}"
proof (rule inj_onI)
  fix a b assume t: "t \<le> 2147483647" and ab: "a \<in> {..<t}" "b \<in> {..<t}" and e: "nth_id n a = nth_id n b"
  have "(n - 1 + int a) mod 2147483647 = (n - 1 + int b) mod 2147483647"
    using e by (simp add: nth_id_def)
  then have "2147483647 dvd (n - 1 + int a) - (n - 1 + int b)" by (simp only: mod_eq_dvd_iff)
  then have "2147483647 dvd int a - int b" by simp
  moreover have "\<bar>int a - int b\<bar> < 2147483647" using t ab by auto
  ultimately have "int a - int b = 0" using zdvd_not_zless by (metis abs_zero dvd_abs_iff zero_less_abs_iff)
  then show "a = b" by simp
qed

locale id_table =
  fixes used :: "'s \<Rightarrow> int set" and cursor :: "'s \<Rightarrow> int" and cap :: "'s \<Rightarrow> nat"
    and alloc :: "'s \<Rightarrow> int option \<times> int" and ok :: "'s \<Rightarrow> bool"
  assumes alloc_eq: "ok s \<Longrightarrow> alloc s = alloc_id (\<lambda>i. i \<in> used s) (cursor s) (cap s * 4)"
    and cursor_ok: "ok s \<Longrightarrow> id_range (cursor s)"
    and used_fin: "ok s \<Longrightarrow> finite (used s) \<and> card (used s) \<le> cap s"
    and cap_ok: "ok s \<Longrightarrow> 0 < cap s \<and> cap s \<le> 4096"
begin

lemma alloc_total: "ok s \<Longrightarrow> \<exists>i n. alloc s = (Some i, n) \<and> id_range i \<and> i \<notin> used s \<and> id_range n"
proof -
  assume k: "ok s"
  let ?t = "cap s * 4"
  obtain r n where a: "alloc_id (\<lambda>i. i \<in> used s) (cursor s) ?t = (r, n)" by force
  have "r \<noteq> None"
  proof
    assume "r = None"
    then have "nth_id (cursor s) ` {..<?t} \<subseteq> used s"
      using alloc_id_None [of "\<lambda>i. i \<in> used s"] a cursor_ok [OF k] by auto
    then have "card (nth_id (cursor s) ` {..<?t}) \<le> cap s"
      using used_fin [OF k] card_mono by (meson order_trans)
    moreover have "card (nth_id (cursor s) ` {..<?t}) = ?t"
      using card_image [OF nth_id_inj] cap_ok [OF k] by simp
    ultimately show False using cap_ok [OF k] by simp
  qed
  then obtain i where i: "r = Some i" by blast
  then show ?thesis using alloc_id_Some a cursor_ok [OF k] alloc_eq [OF k] by metis
qed

end

lemma rows_finite: "finite (rows xs)"
proof (rule finite_subset)
  show "rows xs \<subseteq> the ` set xs" unfolding rows_def by force
qed simp

lemma rows_card: "card (f ` rows xs) \<le> length xs"
proof -
  have "f ` rows xs \<subseteq> (\<lambda>i. f (the (xs ! i))) ` {..<length xs}"
  proof
    fix y assume "y \<in> f ` rows xs"
    then obtain x where x: "x \<in> rows xs" "y = f x" by blast
    obtain i where "i < length xs" "xs ! i = Some x" using rows_ex [OF x(1)] by (elim exE conjE)
    then show "y \<in> (\<lambda>i. f (the (xs ! i))) ` {..<length xs}" using x(2) by (intro image_eqI [of _ _ i]) simp_all
  qed
  then have "card (f ` rows xs) \<le> card ((\<lambda>i. f (the (xs ! i))) ` {..<length xs})"
    by (intro card_mono) auto
  also have "\<dots> \<le> length xs" using card_image_le [of "{..<length xs}"] by fastforce
  finally show ?thesis .
qed

definition sem_ids :: "ipc \<Rightarrow> int set" where
  "sem_ids st = s_semid ` rows (i_sem st)"

definition msq_ids :: "ipc \<Rightarrow> int set" where
  "msq_ids st = q_msqid ` rows (i_msq st)"

lemma sem_find_None: "i_tabs st \<Longrightarrow> 0 < i \<Longrightarrow> sem_find st i = None \<longleftrightarrow> i \<notin> sem_ids st"
  by (auto simp: sem_find_def find_row_None sem_ids_def)

lemma msg_find_None: "i_tabs st \<Longrightarrow> 0 < i \<Longrightarrow> msg_find st i = None \<longleftrightarrow> i \<notin> msq_ids st"
  by (auto simp: msg_find_def find_row_None msq_ids_def)

lemma alloc_id_cong:
  "(\<And>i. id_range i \<Longrightarrow> u i = v i) \<Longrightarrow> id_range n \<Longrightarrow> alloc_id u n t = alloc_id v n t"
  by (induction t arbitrary: n) (auto simp: id_range_next)

definition table_ok :: "'a option list \<Rightarrow> int \<Rightarrow> bool" where
  "table_ok xs n \<longleftrightarrow> id_range n \<and> 0 < length xs \<and> length xs \<le> 4096"

interpretation semtab: id_table sem_ids i_next_semid "\<lambda>st. length (i_sem st)" sem_alloc_id
  "\<lambda>st. i_tabs st \<and> table_ok (i_sem st) (i_next_semid st)"
proof unfold_locales
  fix s :: ipc assume "i_tabs s \<and> table_ok (i_sem s) (i_next_semid s)"
  then show "sem_alloc_id s = alloc_id (\<lambda>i. i \<in> sem_ids s) (i_next_semid s) (length (i_sem s) * 4)"
    unfolding sem_alloc_id_def
    by (intro alloc_id_cong) (use sem_find_None in \<open>auto simp: id_range_def table_ok_def\<close>)
qed (auto simp: table_ok_def sem_ids_def rows_finite rows_card)

interpretation msqtab: id_table msq_ids i_next_msqid "\<lambda>st. length (i_msq st)" msg_alloc_id
  "\<lambda>st. i_tabs st \<and> table_ok (i_msq st) (i_next_msqid st)"
proof unfold_locales
  fix s :: ipc assume "i_tabs s \<and> table_ok (i_msq s) (i_next_msqid s)"
  then show "msg_alloc_id s = alloc_id (\<lambda>i. i \<in> msq_ids s) (i_next_msqid s) (length (i_msq s) * 4)"
    unfolding msg_alloc_id_def
    by (intro alloc_id_cong) (use msg_find_None in \<open>auto simp: id_range_def table_ok_def\<close>)
qed (auto simp: table_ok_def msq_ids_def rows_finite rows_card)

end
