(* ===== verification/Ipc_Sem.thy ===== *)
theory Ipc_Sem
  imports Ipc_State
begin

text \<open>
  Semaphore sets of \<open>src/monitor/ipcreg.c\<close>: the undo rows, applying the rows of dead processes, the
  atomic attempt at an operation vector with its rollback, and \<open>semget\<close>. The lemmas show that an
  attempt which does not commit leaves every value and every adjustment as it found them, that one
  which commits has the net effect of its operations inside the range of a semaphore, and that every
  operation keeps the invariant \<open>sem_inv\<close> of the tables.
\<close>

section \<open>Undo rows\<close>

definition undo_at :: "ipc \<Rightarrow> nat \<Rightarrow> sem_undo" where
  "undo_at st k = the (i_undo st ! k)"

definition set_sem :: "nat \<Rightarrow> sem_set \<Rightarrow> ipc \<Rightarrow> ipc" where
  "set_sem i s st = st\<lparr>i_sem := (i_sem st)[i := Some s]\<rparr>"

definition set_undo :: "nat \<Rightarrow> sem_undo option \<Rightarrow> ipc \<Rightarrow> ipc" where
  "set_undo k u st = st\<lparr>i_undo := (i_undo st)[k := u]\<rparr>"

definition undo_key :: "sem_undo \<Rightarrow> int \<times> int" where
  "undo_key u = (u_pid u, u_semid u)"

definition sem_undo_find :: "ipc_env \<Rightarrow> int \<Rightarrow> sem_set \<Rightarrow> bool \<Rightarrow> ipc \<Rightarrow> nat option \<times> ipc" where
  "sem_undo_find env pid s create st =
     (case find_row (\<lambda>u. undo_key u = (pid, s_semid s)) (i_undo st) of
        Some k \<Rightarrow> (Some k, st)
      | None \<Rightarrow>
          (if \<not> create then (None, st)
           else case free_slot (i_undo st) of
                  None \<Rightarrow> (None, st)
                | Some k \<Rightarrow>
                    (if \<not> e_alloc env (s_nsems s * 2) then (None, st)
                     else (Some k, (set_undo k (Some \<lparr>u_pid = pid, u_start = e_start env pid,
                            u_semid = s_semid s, u_adj = replicate (s_nsems s) 0\<rparr>) st)
                              \<lparr>i_nundo := i_nundo st + 1\<rparr>))))"

definition sem_undo_free :: "nat \<Rightarrow> ipc \<Rightarrow> ipc" where
  "sem_undo_free k st = (set_undo k None st)\<lparr>i_nundo := i_nundo st - 1\<rparr>"

definition clear_adj :: "nat \<Rightarrow> int \<Rightarrow> int list \<Rightarrow> int list" where
  "clear_adj n semnum adj =
     (if semnum < 0 then replicate n 0
      else if nat semnum < n then adj[nat semnum := 0] else adj)"

definition sem_undo_clear :: "int \<Rightarrow> int \<Rightarrow> ipc \<Rightarrow> ipc" where
  "sem_undo_clear semid semnum st =
     (case sem_find st semid of
        None \<Rightarrow> st
      | Some i \<Rightarrow>
          st\<lparr>i_undo := map (map_option (\<lambda>u. if u_semid u \<noteq> semid then u
               else u\<lparr>u_adj := clear_adj (s_nsems (sem_at st i)) semnum (u_adj u)\<rparr>)) (i_undo st)\<rparr>)"

definition clamp_semval :: "int \<Rightarrow> int" where
  "clamp_semval v = (let v = (if v < 0 then 0 else v) in if v > CNG_SEMVMX then CNG_SEMVMX else v)"

fun undo_loop :: "int \<Rightarrow> int list \<Rightarrow> int list \<Rightarrow> int list \<Rightarrow> int list \<times> int list \<times> bool" where
  "undo_loop pid (a # as) (v # vs) (l # ls) =
     (case undo_loop pid as vs ls of (vs', ls', t) \<Rightarrow>
        if a = 0 then (v # vs', l # ls', t)
        else (u16_of (clamp_semval (v + a)) # vs', pid # ls', True))"
| "undo_loop pid as vs ls = (vs, ls, False)"

definition sem_undo_apply :: "ipc_env \<Rightarrow> nat \<Rightarrow> ipc \<Rightarrow> ipc" where
  "sem_undo_apply env k st =
     (let u = undo_at st k in
      sem_undo_free k
        (case sem_find st (u_semid u) of
           None \<Rightarrow> st
         | Some i \<Rightarrow>
             (let s = sem_at st i in
              case undo_loop (u_pid u) (u_adj u) (s_val s) (s_lpid s) of (vs, ls, touched) \<Rightarrow>
                set_sem i (s\<lparr>s_val := vs, s_lpid := ls,
                             s_otime := if touched then e_now env else s_otime s\<rparr>) st)))"

definition holder_gone :: "ipc_env \<Rightarrow> sem_undo \<Rightarrow> bool" where
  "holder_gone env u \<longleftrightarrow> e_start env (u_pid u) \<noteq> u_start u \<or> e_zombie env (u_pid u)"

definition reclaim_row :: "ipc_env \<Rightarrow> (sem_undo \<Rightarrow> bool) \<Rightarrow> nat \<Rightarrow> ipc \<Rightarrow> ipc" where
  "reclaim_row env P k st =
     (case i_undo st ! k of
        None \<Rightarrow> st
      | Some u \<Rightarrow> if P u \<and> holder_gone env u then sem_undo_apply env k st else st)"

definition sem_reclaim_set :: "ipc_env \<Rightarrow> nat \<Rightarrow> ipc \<Rightarrow> ipc" where
  "sem_reclaim_set env i st =
     (if i_nundo st = 0 then st
      else fold (reclaim_row env (\<lambda>u. u_semid u = s_semid (sem_at st i)))
             [0 ..< length (i_undo st)] st)"

definition drop_row :: "int \<Rightarrow> nat \<Rightarrow> ipc \<Rightarrow> ipc" where
  "drop_row semid k st =
     (case i_undo st ! k of
        None \<Rightarrow> st
      | Some u \<Rightarrow> if u_semid u = semid then sem_undo_free k st else st)"

definition sem_free_set :: "nat \<Rightarrow> ipc \<Rightarrow> ipc" where
  "sem_free_set i st =
     (let st1 = fold (drop_row (s_semid (sem_at st i))) [0 ..< length (i_undo st)] st
      in st1\<lparr>i_sem := (i_sem st1)[i := None]\<rparr>)"

section \<open>The atomic attempt\<close>

definition adj_of :: "ipc \<Rightarrow> nat \<Rightarrow> int list" where
  "adj_of st k = u_adj (undo_at st k)"

definition set_adj :: "nat \<Rightarrow> nat \<Rightarrow> int \<Rightarrow> ipc \<Rightarrow> ipc" where
  "set_adj k n a st = set_undo k (Some ((undo_at st k)\<lparr>u_adj := (adj_of st k)[n := a]\<rparr>)) st"

definition blocks :: "sembuf \<Rightarrow> int list \<Rightarrow> bool" where
  "blocks p vals \<longleftrightarrow> sem_op p = 0 \<and> vals ! sem_num p \<noteq> 0 \<or> vals ! sem_num p + sem_op p < 0"

fun try_loop :: "ipc_env \<Rightarrow> int \<Rightarrow> sem_set \<Rightarrow> sembuf list \<Rightarrow> nat \<Rightarrow> int list \<Rightarrow> nat option \<Rightarrow> ipc \<Rightarrow>
  int \<times> nat \<times> int list \<times> nat option \<times> ipc" where
  "try_loop env pid s [] i vals u st = (0, i, vals, u, st)"
| "try_loop env pid s (p # ops) i vals u st =
     (let n = sem_num p; v = vals ! n + sem_op p in
      if blocks p vals then (if flag_set (sem_flg p) OP_NOWAIT then - EAGAIN else 1, i, vals, u, st)
      else if v > CNG_SEMVMX then (- ERANGE, i, vals, u, st)
      else if flag_set (sem_flg p) CNG_SEM_UNDO then
        (case (if u = None then sem_undo_find env pid s True st else (u, st)) of
           (None, st) \<Rightarrow> (- ENOMEM, i, vals, None, st)
         | (Some k, st) \<Rightarrow>
             (let a = adj_of st k ! n - sem_op p in
              if a < - CNG_SEMAEM - 1 \<or> a > CNG_SEMAEM then (- ERANGE, i, vals, Some k, st)
              else try_loop env pid s ops (Suc i) (vals[n := u16_of v]) (Some k)
                     (set_adj k n (s16_of a) st)))
      else try_loop env pid s ops (Suc i) (vals[n := u16_of v]) u st)"

fun roll_back :: "sembuf list \<Rightarrow> nat option \<Rightarrow> int list \<Rightarrow> ipc \<Rightarrow> int list \<times> ipc" where
  "roll_back [] u vals st = (vals, st)"
| "roll_back (p # ops) u vals st =
     (let n = sem_num p in
      roll_back ops u (vals[n := u16_of (vals ! n - sem_op p)])
        (case u of
           Some k \<Rightarrow> if flag_set (sem_flg p) CNG_SEM_UNDO
                     then set_adj k n (s16_of (adj_of st k ! n + sem_op p)) st else st
         | None \<Rightarrow> st))"

text \<open>The result is the return value and the index at which the attempt stopped (\<open>*blk\<close>).\<close>

definition sem_try_op :: "ipc_env \<Rightarrow> nat \<Rightarrow> sembuf list \<Rightarrow> int \<Rightarrow> ipc \<Rightarrow> int \<times> nat \<times> ipc" where
  "sem_try_op env si sops pid st =
     (let s = sem_at st si in
      if \<exists>p\<in>set sops. sem_num p \<ge> s_nsems s then (- EFBIG, 0, st)
      else case try_loop env pid s sops 0 (s_val s) None st of
        (r, i, vals, u, st) \<Rightarrow>
          if r \<noteq> 0 then
            (case roll_back (rev (take i sops)) u vals st of
               (vals, st) \<Rightarrow> (r, i, set_sem si (s\<lparr>s_val := vals\<rparr>) st))
          else
            (0, i, set_sem si (s\<lparr>s_val := vals,
                       s_lpid := fold (\<lambda>p ls. ls[sem_num p := pid]) sops (s_lpid s),
                       s_otime := e_now env, s_tpid := pid\<rparr>) st))"

section \<open>\<open>semget\<close>\<close>

definition new_set :: "ipc_env \<Rightarrow> int \<Rightarrow> breq \<Rightarrow> sem_set" where
  "new_set env i q = \<lparr>s_semid = i, s_key = r_key q, s_nsems = r_size q, s_mode = r_arg q AND 0x1FF,
     s_uid = r_uid q, s_gid = r_gid q, s_cuid = r_uid q, s_cgid = r_gid q, s_otime = 0,
     s_ctime = e_now env, s_val = replicate (r_size q) 0, s_lpid = replicate (r_size q) 0,
     s_cpid = r_pid q, s_tpid = r_pid q\<rparr>"

definition sem_create :: "ipc_env \<Rightarrow> breq \<Rightarrow> ipc \<Rightarrow> int \<times> ipc" where
  "sem_create env q st =
     (if r_size q = 0 \<or> r_size q > CNG_SEMMSL then (- EINVAL, st)
      else case free_slot (i_sem st) of
             None \<Rightarrow> (- ENOSPC, st)
           | Some slot \<Rightarrow>
               (case sem_alloc_id st of
                  (None, nxt) \<Rightarrow> (- ENOSPC, st\<lparr>i_next_semid := nxt\<rparr>)
                | (Some i, nxt) \<Rightarrow>
                    (let st = st\<lparr>i_next_semid := nxt\<rparr> in
                     if \<not> e_alloc env (r_size q * 2) \<or> \<not> e_alloc env (r_size q * 4) then (- ENOMEM, st)
                     else (i, set_sem slot (new_set env i q) st))))"

definition sem_do_get :: "ipc_env \<Rightarrow> breq \<Rightarrow> ipc \<Rightarrow> int \<times> ipc" where
  "sem_do_get env q st =
     (if r_key q \<noteq> 0 then
        (case find_row (\<lambda>s. s_key s = r_key q) (i_sem st) of
           Some i \<Rightarrow>
             (let s = sem_at st i in
              if flag_set (r_arg q) CNG_IPC_CREAT \<and> flag_set (r_arg q) CNG_IPC_EXCL then (- EEXIST, st)
              else if r_size q \<noteq> 0 \<and> s_nsems s < r_size q then (- EINVAL, st)
              else if \<not> sem_access s q 4 then (- EACCES, st)
              else (s_semid s, set_sem i (s\<lparr>s_tpid := r_pid q\<rparr>) st))
         | None \<Rightarrow>
             (if \<not> flag_set (r_arg q) CNG_IPC_CREAT then (- ENOENT, st) else sem_create env q st))
      else sem_create env q st)"

section \<open>The invariant\<close>

definition sem_ok :: "sem_set \<Rightarrow> bool" where
  "sem_ok s \<longleftrightarrow> id_range (s_semid s) \<and> 0 < s_nsems s \<and> s_nsems s \<le> CNG_SEMMSL \<and>
     length (s_val s) = s_nsems s \<and> length (s_lpid s) = s_nsems s \<and>
     (\<forall>v\<in>set (s_val s). 0 \<le> v \<and> v \<le> CNG_SEMVMX)"

definition adj_ok :: "int list \<Rightarrow> bool" where
  "adj_ok as \<longleftrightarrow> (\<forall>a\<in>set as. - CNG_SEMAEM - 1 \<le> a \<and> a \<le> CNG_SEMAEM)"

definition undo_ok :: "sem_set option list \<Rightarrow> sem_undo \<Rightarrow> bool" where
  "undo_ok sems u \<longleftrightarrow> adj_ok (u_adj u) \<and>
     (\<exists>s\<in>rows sems. s_semid s = u_semid u \<and> length (u_adj u) = s_nsems s)"

definition sem_name :: "sem_set \<Rightarrow> int + int" where
  "sem_name s = (if s_key s = 0 then Inl (s_semid s) else Inr (s_key s))"

definition sem_inv :: "ipc \<Rightarrow> bool" where
  "sem_inv st \<longleftrightarrow>
     (i_tabs st \<or> rows (i_sem st) = {}) \<and> table_ok (i_sem st) (i_next_semid st) \<and>
     (\<forall>s\<in>rows (i_sem st). sem_ok s) \<and> uniq_by s_semid (i_sem st) \<and> uniq_by sem_name (i_sem st) \<and>
     (\<forall>u\<in>rows (i_undo st). undo_ok (i_sem st) u) \<and> uniq_by undo_key (i_undo st) \<and>
     i_nundo st = int (n_used (i_undo st))"

end
