(* ===== verification/Ipc_Sem_Props.thy ===== *)
theory Ipc_Sem_Props
  imports Ipc_Sem
begin

text \<open>
  Correctness of the semaphore half of the registry: the invariant \<open>sem_inv\<close> is kept by every
  operation of \<^verbatim>\<open>Ipc_Sem\<close>; a failed or blocked attempt is undone completely; a committed one has its
  net effect; a dead process's adjustments are applied inside the range of a semaphore.
\<close>

section \<open>Preserving the invariant\<close>

lemma rows_same:
  assumes "i < length xs" "xs ! i = Some s0" "f s = f s0" "z \<in> rows xs"
  shows "\<exists>z'\<in>rows (xs[i := Some s]). f z' = f z"
proof -
  obtain j where j: "j < length xs" "xs ! j = Some z" using rows_ex [OF assms(4)] by (elim exE conjE)
  show ?thesis
  proof (cases "j = i")
    case True
    have "s \<in> rows (xs[i := Some s])" using assms(1) by (simp add: rows_upd_iff)
    then show ?thesis using True j assms by (intro bexI [of _ s]) simp_all
  next
    case False
    have "z \<in> rows (xs[i := Some s])" using False j assms(1) by (auto simp: rows_upd_iff)
    then show ?thesis by blast
  qed
qed

lemma rows_upd_ball:
  assumes "\<forall>z\<in>rows xs. P z" "\<And>z. y = Some z \<Longrightarrow> P z"
  shows "\<forall>z\<in>rows (xs[i := y]). P z"
proof
  fix z assume "z \<in> rows (xs[i := y])"
  then have "z \<in> rows xs \<or> y = Some z" using rows_upd_sub [of xs i y] by (auto split: option.splits)
  then show "P z" using assms by blast
qed

definition set_shape :: "sem_set \<Rightarrow> int \<times> int \<times> nat" where
  "set_shape s = (s_semid s, s_key s, s_nsems s)"

lemma set_shape_eq:
  "set_shape s = set_shape t \<longleftrightarrow> s_semid s = s_semid t \<and> s_key s = s_key t \<and> s_nsems s = s_nsems t"
  by (simp add: set_shape_def)

lemma undo_ok_shape:
  assumes "undo_ok xs u" "\<And>z. z \<in> rows xs \<Longrightarrow> \<exists>z'\<in>rows ys. set_shape z' = set_shape z"
  shows "undo_ok ys u"
proof -
  obtain s where s: "s \<in> rows xs" "s_semid s = u_semid u" "length (u_adj u) = s_nsems s"
    using assms(1) by (auto simp: undo_ok_def)
  from assms(2) [OF s(1)] obtain z where "z \<in> rows ys" "set_shape z = set_shape s" by blast
  then show ?thesis using s assms(1) unfolding undo_ok_def set_shape_eq by metis
qed

lemma sem_inv_tabs: "sem_inv st \<Longrightarrow> s \<in> rows (i_sem st) \<Longrightarrow> i_tabs st"
  by (auto simp: sem_inv_def)

lemma sem_inv_row:
  assumes "sem_inv st" "i < length (i_sem st)" "i_sem st ! i = Some s"
  shows "sem_ok s"
  using assms(1) rows_nth [OF assms(2,3)] by (simp add: sem_inv_def)

lemma sem_inv_undo:
  assumes "sem_inv st" "k < length (i_undo st)" "i_undo st ! k = Some u"
  shows "undo_ok (i_sem st) u"
  using assms(1) rows_nth [OF assms(2,3)] by (simp add: sem_inv_def)

lemma sem_inv_set_sem:
  assumes "sem_inv st" "i < length (i_sem st)" "i_sem st ! i = Some s0" "sem_ok s"
    "set_shape s = set_shape s0"
  shows "sem_inv (set_sem i s st)"
proof -
  let ?t = "(i_sem st)[i := Some s]"
  note I = assms(1) [unfolded sem_inv_def]
  have sh: "s_semid s = s_semid s0" "sem_name s = sem_name s0"
    using assms(5) by (simp_all add: set_shape_eq sem_name_def)
  have "i_tabs st" by (rule sem_inv_tabs [OF assms(1) rows_nth [OF assms(2,3)]])
  moreover have "\<forall>s\<in>rows ?t. sem_ok s" by (rule rows_upd_ball) (use I assms(4) in auto)
  moreover have "uniq_by s_semid ?t" by (rule uniq_by_same [OF _ assms(2,3)]) (use I sh in simp_all)
  moreover have "uniq_by sem_name ?t" by (rule uniq_by_same [OF _ assms(2,3)]) (use I sh in simp_all)
  moreover have "\<forall>u\<in>rows (i_undo st). undo_ok ?t u"
  proof
    fix u assume "u \<in> rows (i_undo st)"
    then have "undo_ok (i_sem st) u" using I by blast
    then show "undo_ok ?t u"
      by (rule undo_ok_shape) (rule rows_same [of i "i_sem st" s0 set_shape s, OF assms(2,3,5)])
  qed
  ultimately show ?thesis using I by (simp add: sem_inv_def set_sem_def table_ok_def)
qed

lemma sem_inv_set_undo:
  assumes "sem_inv st" "k < length (i_undo st)" "i_undo st ! k = Some u0" "adj_ok (u_adj u)"
    "u_semid u = u_semid u0" "u_pid u = u_pid u0" "length (u_adj u) = length (u_adj u0)"
  shows "sem_inv (set_undo k (Some u) st)"
proof -
  note I = assms(1) [unfolded sem_inv_def]
  have "undo_ok (i_sem st) u"
    using sem_inv_undo [OF assms(1-3)] assms(4-7) by (simp add: undo_ok_def)
  then have "\<forall>u\<in>rows ((i_undo st)[k := Some u]). undo_ok (i_sem st) u"
    by (intro rows_upd_ball) (use I in auto)
  moreover have "uniq_by undo_key ((i_undo st)[k := Some u])"
    by (rule uniq_by_same [OF _ assms(2,3)]) (use I assms(5,6) in \<open>simp_all add: undo_key_def\<close>)
  moreover have "n_used ((i_undo st)[k := Some u]) = n_used (i_undo st)"
    using n_used_upd [OF assms(2), of "Some u"] assms(3) by simp
  ultimately show ?thesis using I by (simp add: sem_inv_def set_undo_def)
qed

lemma sem_inv_undo_free:
  assumes "sem_inv st" "k < length (i_undo st)" "i_undo st ! k = Some u0"
  shows "sem_inv (sem_undo_free k st)"
proof -
  note I = assms(1) [unfolded sem_inv_def]
  have "\<forall>u\<in>rows ((i_undo st)[k := None]). undo_ok (i_sem st) u"
    by (rule rows_upd_ball) (use I in auto)
  moreover have "int (n_used ((i_undo st)[k := None])) = i_nundo st - 1"
    using n_used_upd [OF assms(2), of None] assms(3) I by simp
  ultimately show ?thesis
    using I uniq_by_clear [of undo_key "i_undo st" k]
    by (simp add: sem_inv_def set_undo_def sem_undo_free_def)
qed

lemma adj_ok_zero [simp]: "adj_ok (replicate n 0)"
  by (simp add: adj_ok_def ipc_limits)

lemma sem_undo_find_cases:
  assumes "sem_undo_find env pid s create st = (r, st')"
  obtains
    (none) "r = None" "st' = st"
  | (found) k where "r = Some k" "st' = st" "k < length (i_undo st)"
      "\<exists>u. i_undo st ! k = Some u \<and> undo_key u = (pid, s_semid s)"
  | (made) k u where "r = Some k" "create" "k < length (i_undo st)" "i_undo st ! k = None"
      "undo_key u = (pid, s_semid s)" "u_adj u = replicate (s_nsems s) 0"
      "st' = st\<lparr>i_undo := (i_undo st)[k := Some u], i_nundo := i_nundo st + 1\<rparr>"
      "find_row (\<lambda>u. undo_key u = (pid, s_semid s)) (i_undo st) = None" "u_start u = e_start env pid"
proof (cases "find_row (\<lambda>u. undo_key u = (pid, s_semid s)) (i_undo st)")
  case (Some k)
  then show ?thesis
    by (intro found [of k]) (use Some find_row_Some [OF Some] assms in \<open>simp_all add: sem_undo_find_def\<close>)
next
  case None
  show ?thesis
  proof (cases "create \<and> free_slot (i_undo st) \<noteq> None \<and> e_alloc env (s_nsems s * 2)")
    case True
    then obtain k where k: "free_slot (i_undo st) = Some k" by blast
    show ?thesis
      by (rule made [of k "\<lparr>u_pid = pid, u_start = e_start env pid, u_semid = s_semid s,
            u_adj = replicate (s_nsems s) 0\<rparr>"])
        (use True None k free_slot_Some [OF k] assms in
          \<open>auto simp: sem_undo_find_def set_undo_def undo_key_def\<close>)
  next
    case False
    then show ?thesis using none None assms
      by (cases "free_slot (i_undo st)") (auto simp: sem_undo_find_def split: if_splits)
  qed
qed

lemma sem_inv_undo_find:
  assumes "sem_inv st" "s \<in> rows (i_sem st)" "sem_undo_find env pid s create st = (r, st')"
  shows "sem_inv st'"
  using assms(3)
proof (cases rule: sem_undo_find_cases)
  case (made k u)
  note I = assms(1) [unfolded sem_inv_def]
  have "undo_ok (i_sem st) u" using made assms(2) by (auto simp: undo_ok_def undo_key_def)
  then have "\<forall>u\<in>rows ((i_undo st)[k := Some u]). undo_ok (i_sem st) u"
    by (intro rows_upd_ball) (use I in auto)
  moreover have "uniq_by undo_key ((i_undo st)[k := Some u])"
  proof (rule uniq_by_put)
    show "uniq_by undo_key (i_undo st)" using I by blast
    fix j y assume "j < length (i_undo st)" "i_undo st ! j = Some y"
    then have "y \<in> rows (i_undo st)" by (rule rows_nth)
    then show "undo_key y \<noteq> undo_key u" using made(5,8) by (simp add: find_row_None)
  qed
  moreover have "int (n_used ((i_undo st)[k := Some u])) = i_nundo st + 1"
    using n_used_upd [OF made(3), of "Some u"] made(4) I by simp
  ultimately show ?thesis using I made(7) by (simp add: sem_inv_def)
qed (use assms(1) in simp_all)

lemma n_used_map [simp]: "n_used (map (map_option f) xs) = n_used xs"
  by (induction xs) (auto simp: n_used_def)

lemma rows_map: "rows (map (map_option f) xs) = f ` rows xs"
proof (induction xs)
  case (Cons x xs)
  then show ?case by (cases x) (auto simp: rows_def)
qed (simp add: rows_def)

lemma uniq_by_map: "uniq_by k xs \<Longrightarrow> (\<And>x. k (f x) = k x) \<Longrightarrow> uniq_by k (map (map_option f) xs)"
  unfolding uniq_by_def by (simp add: map_option_case split: option.splits)

lemma sem_find_Some:
  assumes "sem_find st semid = Some i"
  shows "i < length (i_sem st)" "\<exists>s. i_sem st ! i = Some s \<and> s_semid s = semid \<and> sem_at st i = s"
    "i_tabs st"
  using assms find_row_Some [of "\<lambda>s. s_semid s = semid" "i_sem st" i]
  by (auto simp: sem_find_def sem_at_def split: if_splits)

lemma sem_find_uniq:
  assumes "sem_inv st" "i < length (i_sem st)" "i_sem st ! i = Some s"
  shows "sem_find st (s_semid s) = Some i"
proof -
  have "uniq_by s_semid (i_sem st)" using assms(1) by (simp add: sem_inv_def)
  from find_row_uniq [OF this assms(2,3)] show ?thesis
    using sem_inv_tabs assms rows_nth [OF assms(2,3)] sem_inv_row [OF assms]
    by (auto simp: sem_find_def sem_ok_def id_range_def)
qed

lemma clear_adj_length: "length as = n \<Longrightarrow> length (clear_adj n j as) = n"
  by (simp add: clear_adj_def)

lemma clear_adj_ok: "adj_ok as \<Longrightarrow> adj_ok (clear_adj n j as)"
  by (auto simp: clear_adj_def adj_ok_def ipc_limits dest!: set_update_subset_insert [THEN subsetD])

lemma sem_inv_undo_clear:
  assumes "sem_inv st"
  shows "sem_inv (sem_undo_clear semid n st)"
proof (cases "sem_find st semid")
  case (Some i)
  then obtain s where s: "i < length (i_sem st)" "i_sem st ! i = Some s" "s_semid s = semid" "sem_at st i = s"
    using sem_find_Some by blast
  note I = assms [unfolded sem_inv_def]
  let ?f = "\<lambda>u. if u_semid u \<noteq> semid then u else u\<lparr>u_adj := clear_adj (s_nsems s) n (u_adj u)\<rparr>"
  have f: "undo_ok (i_sem st) (?f u)" if u: "u \<in> rows (i_undo st)" for u
  proof (cases "u_semid u = semid")
    case True
    have k: "undo_ok (i_sem st) u" using I u by blast
    then obtain t where t: "t \<in> rows (i_sem st)" "s_semid t = semid" "length (u_adj u) = s_nsems t"
      using True by (auto simp: undo_ok_def)
    obtain j where "j < length (i_sem st)" "i_sem st ! j = Some t"
      using rows_ex [OF t(1)] by (elim exE conjE)
    then have "t = s" using sem_find_uniq [OF assms] Some s t by fastforce
    then show ?thesis using k t True clear_adj_length clear_adj_ok by (auto simp: undo_ok_def)
  qed (use I u in simp)
  have u: "\<forall>u\<in>rows (map (map_option ?f) (i_undo st)). undo_ok (i_sem st) u"
    unfolding rows_map using f by blast
  moreover have "uniq_by undo_key (map (map_option ?f) (i_undo st))"
    by (rule uniq_by_map) (use I in \<open>auto simp: undo_key_def\<close>)
  ultimately show ?thesis
    using I unfolding sem_undo_clear_def Some s(4) option.case sem_inv_def by (simp add: u)
qed (use assms in \<open>simp add: sem_undo_clear_def\<close>)

section \<open>Applying the adjustments of a dead process\<close>

lemma clamp_range: "0 \<le> clamp_semval v \<and> clamp_semval v \<le> CNG_SEMVMX"
  by (simp add: clamp_semval_def ipc_limits Let_def)

lemma u16_clamp [simp]: "u16_of (clamp_semval v) = clamp_semval v"
  using clamp_range [of v] by (simp add: ipc_limits)

lemma undo_loop_spec:
  assumes "length as = length vs" "length ls = length vs" "undo_loop pid as vs ls = (vs', ls', t)"
  shows "length vs' = length vs \<and> length ls' = length vs \<and> (t \<longleftrightarrow> (\<exists>a\<in>set as. a \<noteq> 0)) \<and>
    (\<forall>i<length vs. vs' ! i = (if as ! i = 0 then vs ! i else clamp_semval (vs ! i + as ! i)) \<and>
       ls' ! i = (if as ! i = 0 then ls ! i else pid))"
  using assms
proof (induction pid as vs ls arbitrary: vs' ls' t rule: undo_loop.induct)
  case (1 pid a as v vs l ls)
  obtain vs1 ls1 t1 where r: "undo_loop pid as vs ls = (vs1, ls1, t1)" by (cases "undo_loop pid as vs ls")
  note ih = "1.IH" [OF _ _ r]
  then show ?case using "1.prems" r by (cases "a = 0") (auto simp: less_Suc_eq_0_disj)
qed auto

lemma sem_inv_undo_apply:
  assumes "sem_inv st" "k < length (i_undo st)" "i_undo st ! k = Some u"
  shows "sem_inv (sem_undo_apply env k st)"
proof (cases "sem_find st (u_semid u)")
  case None
  then show ?thesis
    using sem_inv_undo_free [OF assms] assms(3) by (simp add: sem_undo_apply_def undo_at_def)
next
  case (Some i)
  obtain s where s: "i < length (i_sem st)" "i_sem st ! i = Some s" "s_semid s = u_semid u" "sem_at st i = s"
    using sem_find_Some [OF Some] by blast
  obtain vs ls t where r: "undo_loop (u_pid u) (u_adj u) (s_val s) (s_lpid s) = (vs, ls, t)"
    by (cases "undo_loop (u_pid u) (u_adj u) (s_val s) (s_lpid s)")
  have sk: "sem_ok s" using sem_inv_row assms(1) s by blast
  have "undo_ok (i_sem st) u" using sem_inv_undo assms by blast
  then obtain z where z: "z \<in> rows (i_sem st)" "s_semid z = s_semid s" "length (u_adj u) = s_nsems z"
    using s by (auto simp: undo_ok_def)
  obtain j where "j < length (i_sem st)" "i_sem st ! j = Some z"
    using rows_ex [OF z(1)] by (elim exE conjE)
  then have "z = s" using sem_find_uniq [OF assms(1)] Some s z by fastforce
  then have L: "length (u_adj u) = length (s_val s)" "length (s_lpid s) = length (s_val s)"
    using z sk by (simp_all add: sem_ok_def)
  have ok: "sem_ok (s\<lparr>s_val := vs, s_lpid := ls, s_otime := x\<rparr>)" for x
    using undo_loop_spec [OF L r] sk clamp_range by (auto simp: sem_ok_def all_set_conv_all_nth)
  let ?s = "s\<lparr>s_val := vs, s_lpid := ls, s_otime := if t then e_now env else s_otime s\<rparr>"
  have "sem_inv (set_sem i ?s st)"
    by (rule sem_inv_set_sem [OF assms(1) s(1,2) ok]) (simp add: set_shape_eq)
  then have "sem_inv (sem_undo_free k (set_sem i ?s st))"
    by (rule sem_inv_undo_free) (use assms in \<open>simp_all add: set_sem_def\<close>)
  then show ?thesis using Some s r assms(3) by (simp add: sem_undo_apply_def undo_at_def Let_def)
qed

lemma sem_undo_apply_len [simp]:
  "length (i_undo (sem_undo_apply env k st)) = length (i_undo st)"
  by (simp add: sem_undo_apply_def sem_undo_free_def set_undo_def set_sem_def Let_def
      split: option.splits prod.splits)

lemma sem_inv_reclaim_row:
  "sem_inv st \<Longrightarrow> k < length (i_undo st) \<Longrightarrow>
   sem_inv (reclaim_row env P k st) \<and> length (i_undo (reclaim_row env P k st)) = length (i_undo st)"
  using sem_inv_undo_apply by (auto simp: reclaim_row_def split: option.splits)

lemma sem_inv_reclaim_rows:
  "sem_inv st \<Longrightarrow> \<forall>k\<in>set ks. k < length (i_undo st) \<Longrightarrow> sem_inv (fold (reclaim_row env P) ks st)"
proof (induction ks arbitrary: st)
  case (Cons k ks)
  then show ?case using sem_inv_reclaim_row [of st k env P] by simp
qed simp

lemma sem_inv_reclaim_set: "sem_inv st \<Longrightarrow> sem_inv (sem_reclaim_set env i st)"
  by (simp add: sem_reclaim_set_def sem_inv_reclaim_rows)

section \<open>Removing a set\<close>

definition no_rows :: "int \<Rightarrow> nat \<Rightarrow> ipc \<Rightarrow> bool" where
  "no_rows semid n st \<longleftrightarrow> (\<forall>k<n. \<forall>u. i_undo st ! k = Some u \<longrightarrow> u_semid u \<noteq> semid)"

lemma drop_row_frame:
  "i_sem (drop_row semid k st) = i_sem st \<and> i_tabs (drop_row semid k st) = i_tabs st \<and>
   i_next_semid (drop_row semid k st) = i_next_semid st \<and>
   length (i_undo (drop_row semid k st)) = length (i_undo st)"
  by (simp add: drop_row_def sem_undo_free_def set_undo_def split: option.splits)

lemma drop_rows:
  assumes "sem_inv st" "n \<le> length (i_undo st)"
  shows "sem_inv (fold (drop_row semid) [0..<n] st) \<and> no_rows semid n (fold (drop_row semid) [0..<n] st) \<and>
    i_sem (fold (drop_row semid) [0..<n] st) = i_sem st \<and>
    length (i_undo (fold (drop_row semid) [0..<n] st)) = length (i_undo st)"
  using assms(2)
proof (induction n)
  case 0
  then show ?case using assms(1) by (simp add: no_rows_def)
next
  case (Suc n)
  let ?t = "fold (drop_row semid) [0..<n] st"
  have ih: "sem_inv ?t" "no_rows semid n ?t" "i_sem ?t = i_sem st" "length (i_undo ?t) = length (i_undo st)"
    using Suc by simp_all
  have n: "n < length (i_undo ?t)" using Suc.prems ih(4) by simp
  have "sem_inv (drop_row semid n ?t)"
    using sem_inv_undo_free ih(1) n by (auto simp: drop_row_def split: option.splits)
  moreover have "no_rows semid (Suc n) (drop_row semid n ?t)"
    using ih(2) n by (auto simp: no_rows_def drop_row_def sem_undo_free_def set_undo_def less_Suc_eq
        nth_list_update split: option.splits)
  ultimately show ?case using ih drop_row_frame [of semid n ?t] by simp
qed

lemma sem_inv_free_set:
  assumes "sem_inv st" "i < length (i_sem st)" "i_sem st ! i = Some s"
  shows "sem_inv (sem_free_set i st)"
    "no_rows (s_semid s) (length (i_undo st)) (sem_free_set i st)"
    "i_sem (sem_free_set i st) = (i_sem st)[i := None]"
proof -
  let ?t = "fold (drop_row (s_semid s)) [0..<length (i_undo st)] st"
  have ih: "sem_inv ?t" "no_rows (s_semid s) (length (i_undo st)) ?t" "i_sem ?t = i_sem st"
    "length (i_undo ?t) = length (i_undo st)"
    using drop_rows [OF assms(1), of "length (i_undo st)" "s_semid s"] by simp_all
  have e: "sem_free_set i st = ?t\<lparr>i_sem := (i_sem ?t)[i := None]\<rparr>"
    using assms(3) by (simp add: sem_free_set_def sem_at_def Let_def)
  then show "i_sem (sem_free_set i st) = (i_sem st)[i := None]"
    "no_rows (s_semid s) (length (i_undo st)) (sem_free_set i st)"
    using ih by (simp_all add: no_rows_def)
  note I = ih(1) [unfolded sem_inv_def]
  have "rows ((i_sem ?t)[i := None]) \<subseteq> rows (i_sem ?t)" using rows_upd_sub [of "i_sem ?t" i None] by simp
  moreover have "\<forall>u\<in>rows (i_undo ?t). undo_ok ((i_sem ?t)[i := None]) u"
  proof
    fix u assume u: "u \<in> rows (i_undo ?t)"
    then have k: "undo_ok (i_sem ?t) u" using I by blast
    obtain j where j: "j < length (i_undo ?t)" "i_undo ?t ! j = Some u"
      using rows_ex [OF u] by (elim exE conjE)
    have ne: "u_semid u \<noteq> s_semid s" using ih(2,4) j by (simp add: no_rows_def)
    obtain z where z: "z \<in> rows (i_sem ?t)" "s_semid z = u_semid u" "length (u_adj u) = s_nsems z"
      using k by (auto simp: undo_ok_def)
    obtain m where m: "m < length (i_sem ?t)" "i_sem ?t ! m = Some z"
      using rows_ex [OF z(1)] by (elim exE conjE)
    have "m \<noteq> i" using m z(2) ne assms(3) ih(3) by auto
    then have "z \<in> rows ((i_sem ?t)[i := None])"
      using m by (intro rows_nth [of m]) simp_all
    then show "undo_ok ((i_sem ?t)[i := None]) u" using z k by (auto simp: undo_ok_def)
  qed
  ultimately show "sem_inv (sem_free_set i st)"
    using I uniq_by_clear [of s_semid "i_sem ?t" i] uniq_by_clear [of sem_name "i_sem ?t" i]
    unfolding e sem_inv_def by (auto simp: table_ok_def)
qed

section \<open>The attempt is atomic\<close>

definition vals_ok :: "nat \<Rightarrow> int list \<Rightarrow> bool" where
  "vals_ok n vs \<longleftrightarrow> length vs = n \<and> (\<forall>v\<in>set vs. 0 \<le> v \<and> v \<le> CNG_SEMVMX)"

lemma vals_ok_nth: "vals_ok n vs \<Longrightarrow> i < n \<Longrightarrow> 0 \<le> vs ! i \<and> vs ! i \<le> CNG_SEMVMX"
  by (simp add: vals_ok_def)

lemma vals_ok_upd: "vals_ok n vs \<Longrightarrow> 0 \<le> v \<Longrightarrow> v \<le> CNG_SEMVMX \<Longrightarrow> vals_ok n (vs[i := v])"
  by (auto simp: vals_ok_def dest!: set_update_subset_insert [THEN subsetD])

lemma u16_semval: "0 \<le> v \<Longrightarrow> v \<le> CNG_SEMVMX \<Longrightarrow> u16_of v = v"
  by (simp add: ipc_limits)

lemma s16_semadj: "- CNG_SEMAEM - 1 \<le> a \<Longrightarrow> a \<le> CNG_SEMAEM \<Longrightarrow> s16_of a = a"
  by (simp add: ipc_limits)

definition row_for :: "ipc \<Rightarrow> int \<Rightarrow> sem_set \<Rightarrow> nat \<Rightarrow> bool" where
  "row_for st pid s k \<longleftrightarrow> k < length (i_undo st) \<and>
     (\<exists>w. i_undo st ! k = Some w \<and> undo_key w = (pid, s_semid s))"

lemma row_for_adj:
  assumes "sem_inv st" "s \<in> rows (i_sem st)" "row_for st pid s k"
  shows "length (adj_of st k) = s_nsems s" "adj_ok (adj_of st k)"
proof -
  obtain w where w: "k < length (i_undo st)" "i_undo st ! k = Some w" "u_semid w = s_semid s"
    using assms(3) by (auto simp: row_for_def undo_key_def)
  have k: "undo_ok (i_sem st) w" by (rule sem_inv_undo [OF assms(1) w(1,2)])
  then obtain z where z: "z \<in> rows (i_sem st)" "s_semid z = s_semid s" "length (u_adj w) = s_nsems z"
    using w(3) by (auto simp: undo_ok_def)
  obtain a where a: "a < length (i_sem st)" "i_sem st ! a = Some z" using rows_ex [OF z(1)] by (elim exE conjE)
  obtain b where b: "b < length (i_sem st)" "i_sem st ! b = Some s" using rows_ex [OF assms(2)] by (elim exE conjE)
  have "a = b" using sem_find_uniq [OF assms(1) a] sem_find_uniq [OF assms(1) b] z(2) by simp
  then have "z = s" using a(2) b(2) by simp
  moreover have "adj_of st k = u_adj w" using w(2) by (simp add: adj_of_def undo_at_def)
  ultimately show "length (adj_of st k) = s_nsems s" "adj_ok (adj_of st k)"
    using z(3) k [unfolded undo_ok_def] by simp_all
qed

lemma set_adj_frame [simp]:
  "i_sem (set_adj k n a st) = i_sem st" "i_tabs (set_adj k n a st) = i_tabs st"
  "length (i_undo (set_adj k n a st)) = length (i_undo st)"
  by (simp_all add: set_adj_def set_undo_def)

lemma adj_of_set_adj:
  "k < length (i_undo st) \<Longrightarrow> adj_of (set_adj k n a st) k = (adj_of st k)[n := a]"
  by (simp add: adj_of_def set_adj_def set_undo_def undo_at_def)

lemma row_for_set_adj: "row_for st pid s k \<Longrightarrow> row_for (set_adj k n a st) pid s k"
  by (auto simp: row_for_def set_adj_def set_undo_def undo_at_def undo_key_def)

lemma set_adj_twice:
  "k < length (i_undo st) \<Longrightarrow> set_adj k n b (set_adj k n a st) = set_adj k n b st"
  by (simp add: set_adj_def set_undo_def undo_at_def adj_of_def)

lemma set_adj_same:
  assumes "row_for st pid s k"
  shows "set_adj k n (adj_of st k ! n) st = st"
proof -
  obtain w where "k < length (i_undo st)" "i_undo st ! k = Some w" using assms by (auto simp: row_for_def)
  then show ?thesis by (simp add: set_adj_def set_undo_def undo_at_def adj_of_def list_update_same_conv)
qed

lemma sem_inv_set_adj:
  assumes "sem_inv st" "s \<in> rows (i_sem st)" "row_for st pid s k" "- CNG_SEMAEM - 1 \<le> a" "a \<le> CNG_SEMAEM"
  shows "sem_inv (set_adj k n a st)"
proof -
  obtain w where w: "k < length (i_undo st)" "i_undo st ! k = Some w" using assms(3) by (auto simp: row_for_def)
  have "adj_ok ((adj_of st k)[n := a])"
    using row_for_adj(2) [OF assms(1-3)] assms(4,5)
    by (auto simp: adj_ok_def dest!: set_update_subset_insert [THEN subsetD])
  then show ?thesis unfolding set_adj_def
    using w by (intro sem_inv_set_undo [OF assms(1) w]) (simp_all add: undo_at_def adj_of_def)
qed

definition op_sum :: "sembuf list \<Rightarrow> nat \<Rightarrow> int" where
  "op_sum ops n = sum_list (map sem_op (filter (\<lambda>p. sem_num p = n) ops))"

definition undo_sum :: "sembuf list \<Rightarrow> nat \<Rightarrow> int" where
  "undo_sum ops n =
     sum_list (map sem_op (filter (\<lambda>p. sem_num p = n \<and> flag_set (sem_flg p) CNG_SEM_UNDO) ops))"

lemma op_sum_simps [simp]:
  "op_sum [] n = 0" "op_sum (p # ps) n = (if sem_num p = n then sem_op p else 0) + op_sum ps n"
  by (simp_all add: op_sum_def)

lemma undo_sum_simps [simp]:
  "undo_sum [] n = 0"
  "undo_sum (p # ps) n = (if sem_num p = n \<and> flag_set (sem_flg p) CNG_SEM_UNDO then sem_op p else 0)
     + undo_sum ps n"
  by (simp_all add: undo_sum_def)

lemma roll_back_append:
  "roll_back (xs @ ys) u vals st = (case roll_back xs u vals st of (v, t) \<Rightarrow> roll_back ys u v t)"
  by (induction xs arbitrary: vals st) (simp_all add: Let_def)

text \<open>
  What one run of the loop leaves: the values moved by the operations executed, the row of the
  process moved by those of them that carry \<open>SEM_UNDO\<close>, nothing else, and the rollback of exactly
  these operations restores what was there before.
\<close>

definition ran :: "int \<Rightarrow> sem_set \<Rightarrow> sembuf list \<Rightarrow> int list \<Rightarrow> ipc \<Rightarrow> int list \<Rightarrow> nat option \<Rightarrow> ipc \<Rightarrow> bool" where
  "ran pid s ex vals st vals' u st' \<longleftrightarrow>
     sem_inv st' \<and> vals_ok (s_nsems s) vals' \<and> i_sem st' = i_sem st \<and>
     (\<forall>n < s_nsems s. vals' ! n = vals ! n + op_sum ex n) \<and>
     (case u of
        None \<Rightarrow> st' = st \<and> (\<forall>n. undo_sum ex n = 0)
      | Some k \<Rightarrow> row_for st pid s k \<and>
          (\<exists>A. length A = s_nsems s \<and> st' = set_undo k (Some ((undo_at st k)\<lparr>u_adj := A\<rparr>)) st \<and>
             (\<forall>n < s_nsems s. A ! n = adj_of st k ! n - undo_sum ex n))) \<and>
     roll_back (rev ex) u vals' st' = (vals, st)"

lemma ran_refl:
  assumes "sem_inv st" "s \<in> rows (i_sem st)" "vals_ok (s_nsems s) vals" "\<And>k. u = Some k \<Longrightarrow> row_for st pid s k"
  shows "ran pid s [] vals st vals u st"
proof (cases u)
  case (Some k)
  then have r: "row_for st pid s k" using assms(4) by blast
  then obtain w where "k < length (i_undo st)" "i_undo st ! k = Some w" by (auto simp: row_for_def)
  then have "set_undo k (Some ((undo_at st k)\<lparr>u_adj := adj_of st k\<rparr>)) st = st"
    by (simp add: set_undo_def undo_at_def adj_of_def list_update_same_conv)
  then show ?thesis using assms(1,3) Some r row_for_adj(1) [OF assms(1,2) r]
    by (auto simp: ran_def intro!: exI [of _ "adj_of st k"])
qed (use assms in \<open>simp add: ran_def\<close>)

lemma undo_step_vals:
  assumes "vals_ok n vals" "i < n" "0 \<le> vals ! i + d" "vals ! i + d \<le> CNG_SEMVMX"
  shows "(vals[i := vals ! i + d])[i := u16_of ((vals[i := vals ! i + d]) ! i - d)] = vals"
  using assms vals_ok_nth [OF assms(1,2)] u16_semval by (simp add: vals_ok_def)

lemma ran_plain:
  assumes "ran pid s ex (vals[sem_num p := vals ! sem_num p + sem_op p]) st vals' u st'"
    "vals_ok (s_nsems s) vals" "sem_num p < s_nsems s" "\<not> flag_set (sem_flg p) CNG_SEM_UNDO"
    "0 \<le> vals ! sem_num p + sem_op p" "vals ! sem_num p + sem_op p \<le> CNG_SEMVMX"
  shows "ran pid s (p # ex) vals st vals' u st'"
proof -
  have "roll_back (rev ex) u vals' st' = (vals[sem_num p := vals ! sem_num p + sem_op p], st)"
    using assms(1) by (simp add: ran_def)
  then have "roll_back (rev (p # ex)) u vals' st' = (vals, st)"
    using assms(4) undo_step_vals [OF assms(2,3,5,6)] by (cases u) (simp_all add: roll_back_append Let_def)
  moreover have "vals' ! n = vals ! n + op_sum (p # ex) n" if "n < s_nsems s" for n
    using assms(1,2) that by (cases "sem_num p = n") (simp_all add: ran_def vals_ok_def)
  moreover have us: "undo_sum (p # ex) = undo_sum ex" using assms(4) by (intro ext) simp
  ultimately show ?thesis using assms(1) unfolding ran_def us by simp
qed

lemma ran_undo:
  assumes "ran pid s ex (vals[sem_num p := vals ! sem_num p + sem_op p])
      (set_adj k (sem_num p) (adj_of st k ! sem_num p - sem_op p) st) vals' (Some k) st'"
    "sem_inv st" "s \<in> rows (i_sem st)" "row_for st pid s k"
    "vals_ok (s_nsems s) vals" "sem_num p < s_nsems s" "flag_set (sem_flg p) CNG_SEM_UNDO"
    "0 \<le> vals ! sem_num p + sem_op p" "vals ! sem_num p + sem_op p \<le> CNG_SEMVMX"
  shows "ran pid s (p # ex) vals st vals' (Some k) st'"
proof -
  let ?n = "sem_num p" and ?a = "adj_of st k ! sem_num p - sem_op p"
  let ?t = "set_adj k ?n ?a st"
  have k: "k < length (i_undo st)" using assms(4) by (simp add: row_for_def)
  have len: "length (adj_of st k) = s_nsems s" and ok: "adj_ok (adj_of st k)"
    using row_for_adj [OF assms(2-4)] by blast+
  have nth: "adj_of ?t k ! ?n = ?a" using k len assms(6) by (simp add: adj_of_set_adj)
  have s16: "s16_of (adj_of st k ! ?n) = adj_of st k ! ?n"
    using ok len assms(6) by (intro s16_semadj) (auto simp: adj_ok_def)
  have "set_adj k ?n (s16_of (adj_of ?t k ! ?n + sem_op p)) ?t = st"
    using k s16 set_adj_same [OF assms(4)] by (simp add: nth set_adj_twice)
  moreover have "roll_back (rev ex) (Some k) vals' st' = (vals[?n := vals ! ?n + sem_op p], ?t)"
    using assms(1) by (simp add: ran_def)
  ultimately have "roll_back (rev (p # ex)) (Some k) vals' st' = (vals, st)"
    using assms(7) undo_step_vals [OF assms(5,6,8,9)] by (simp add: roll_back_append Let_def)
  moreover have "vals' ! n = vals ! n + op_sum (p # ex) n" if "n < s_nsems s" for n
    using assms(1,5) that by (cases "sem_num p = n") (simp_all add: ran_def vals_ok_def)
  moreover obtain A where A: "length A = s_nsems s" "st' = set_undo k (Some ((undo_at ?t k)\<lparr>u_adj := A\<rparr>)) ?t"
    "\<forall>n < s_nsems s. A ! n = adj_of ?t k ! n - undo_sum ex n"
    using assms(1) by (auto simp: ran_def)
  have "st' = set_undo k (Some ((undo_at st k)\<lparr>u_adj := A\<rparr>)) st"
    unfolding A(2) using k by (simp add: set_adj_def set_undo_def undo_at_def)
  moreover have "A ! n = adj_of st k ! n - undo_sum (p # ex) n" if "n < s_nsems s" for n
    using A(3) that k len assms(7) by (cases "sem_num p = n") (simp_all add: adj_of_set_adj)
  ultimately show ?thesis using assms(1,4) A(1) by (auto simp: ran_def)
qed

lemma find_row_for:
  assumes "sem_undo_find env pid s create st = (Some k, st')"
  shows "row_for st' pid s k" "i_sem st' = i_sem st"
  using assms
  by (cases rule: sem_undo_find_cases; fastforce simp: row_for_def)+

lemma sem_undo_find_sem: "sem_undo_find env pid s create st = (r, st') \<Longrightarrow> i_sem st' = i_sem st"
  by (erule sem_undo_find_cases) simp_all

lemma try_loop_ran:
  assumes "try_loop env pid s ops i vals u st = (r, j, vals', u', st')"
    "sem_inv st" "s \<in> rows (i_sem st)" "vals_ok (s_nsems s) vals" "\<forall>p\<in>set ops. sem_num p < s_nsems s"
    "\<And>k. u = Some k \<Longrightarrow> row_for st pid s k"
  shows "\<exists>st0 m. j = i + m \<and> m \<le> length ops \<and> (r = 0 \<longrightarrow> m = length ops) \<and>
    ran pid s (take m ops) vals st0 vals' u' st' \<and>
    (st0 = st \<and> u' = u \<or> u = None \<and> sem_undo_find env pid s True st = (u', st0))"
  using assms
proof (induction ops arbitrary: i vals u st)
  case Nil
  then show ?case using ran_refl [of st s vals u pid] by auto
next
  case (Cons p ops)
  let ?n = "sem_num p" and ?v = "vals ! sem_num p + sem_op p"
  have stop: ?case if "j = i" "r \<noteq> 0" "vals' = vals" "u' = u" "st' = st"
    using that ran_refl [of st s vals u pid] Cons.prems(2-4,6) by (intro exI [of _ st] exI [of _ 0]) simp
  consider (blk) "blocks p vals" | (big) "\<not> blocks p vals" "?v > CNG_SEMVMX"
    | (undo) "\<not> blocks p vals" "?v \<le> CNG_SEMVMX" "flag_set (sem_flg p) CNG_SEM_UNDO"
    | (plain) "\<not> blocks p vals" "?v \<le> CNG_SEMVMX" "\<not> flag_set (sem_flg p) CNG_SEM_UNDO"
    by fastforce
  then show ?case
  proof cases
    case blk
    then show ?thesis using Cons.prems(1) by (intro stop) (auto simp: errno_simps split: if_splits)
  next
    case big
    then show ?thesis using Cons.prems(1) by (intro stop) (auto simp: errno_simps Let_def)
  next
    case plain
    have v: "0 \<le> ?v" "?v \<le> CNG_SEMVMX" using plain by (auto simp: blocks_def)
    have t: "try_loop env pid s ops (Suc i) (vals[?n := ?v]) u st = (r, j, vals', u', st')"
      using Cons.prems(1) plain u16_semval [OF v] by (simp add: Let_def)
    obtain st0 m where m: "j = Suc i + m" "m \<le> length ops" "r = 0 \<longrightarrow> m = length ops"
      "ran pid s (take m ops) (vals[?n := ?v]) st0 vals' u' st'"
      "st0 = st \<and> u' = u \<or> u = None \<and> sem_undo_find env pid s True st = (u', st0)"
      using Cons.IH [OF t Cons.prems(2,3) vals_ok_upd [OF Cons.prems(4) v] _ Cons.prems(6)] Cons.prems(5)
      by auto
    have "ran pid s (take (Suc m) (p # ops)) vals st0 vals' u' st'"
      using ran_plain [OF m(4) Cons.prems(4) _ plain(3) v] Cons.prems(5) by simp
    then show ?thesis using m by (intro exI [of _ st0] exI [of _ "Suc m"]) simp
  next
    case undo
    have v: "0 \<le> ?v" "?v \<le> CNG_SEMVMX" using undo by (auto simp: blocks_def)
    obtain u1 st1 where f: "(if u = None then sem_undo_find env pid s True st else (u, st)) = (u1, st1)"
      by force
    have inv1: "sem_inv st1" using f sem_inv_undo_find Cons.prems(2,3) by (auto split: if_splits)
    show ?thesis
    proof (cases u1)
      case None
      then have "sem_undo_find env pid s True st = (None, st1)" "u = None" using f by (auto split: if_splits)
      moreover have "st1 = st" using calculation(1) by (cases rule: sem_undo_find_cases) simp_all
      ultimately show ?thesis using Cons.prems(1) undo None f
        by (intro stop) (auto simp: errno_simps Let_def split: if_splits)
    next
      case (Some k)
      have rk: "row_for st1 pid s k" and sem1: "i_sem st1 = i_sem st"
        using f Some find_row_for [of env pid s True st k st1] Cons.prems(6) by (auto split: if_splits)
      have s1: "s \<in> rows (i_sem st1)" using sem1 Cons.prems(3) by simp
      have st1: "st1 = st \<and> Some k = u \<or> u = None \<and> sem_undo_find env pid s True st = (Some k, st1)"
        using f Some by (auto split: if_splits)
      let ?a = "adj_of st1 k ! ?n - sem_op p"
      show ?thesis
      proof (cases "?a < - CNG_SEMAEM - 1 \<or> ?a > CNG_SEMAEM")
        case True
        then have e: "r \<noteq> 0" "j = i" "vals' = vals" "u' = Some k" "st' = st1"
          using Cons.prems(1) undo f Some by (auto simp: Let_def errno_simps)
        have "ran pid s [] vals st1 vals (Some k) st1"
          using ran_refl [OF inv1 s1 Cons.prems(4), of "Some k" pid] rk by simp
        then show ?thesis using e st1 by (intro exI [of _ st1] exI [of _ 0]) auto
      next
        case False
        have t: "try_loop env pid s ops (Suc i) (vals[?n := ?v]) (Some k) (set_adj k ?n ?a st1) =
            (r, j, vals', u', st')"
          using Cons.prems(1) undo f Some False u16_semval [OF v] s16_semadj [of ?a] by (simp add: Let_def)
        have I: "sem_inv (set_adj k ?n ?a st1)" using sem_inv_set_adj [OF inv1 s1 rk] False by simp
        have S: "s \<in> rows (i_sem (set_adj k ?n ?a st1))" using s1 by simp
        obtain st0 m where m: "j = Suc i + m" "m \<le> length ops" "r = 0 \<longrightarrow> m = length ops" "u' = Some k"
          "ran pid s (take m ops) (vals[?n := ?v]) (set_adj k ?n ?a st1) vals' (Some k) st'"
          using Cons.IH [OF t I S vals_ok_upd [OF Cons.prems(4) v]] Cons.prems(5) row_for_set_adj [OF rk] by auto
        have "ran pid s (take (Suc m) (p # ops)) vals st1 vals' (Some k) st'"
          using ran_undo [OF m(5) inv1 s1 rk Cons.prems(4) _ undo(3) v] Cons.prems(5) by simp
        then show ?thesis using m st1 by (intro exI [of _ st1] exI [of _ "Suc m"]) auto
      qed
    qed
  qed
qed

lemma try_loop_blocked:
  "try_loop env pid s ops i vals u st = (1, j, vals', u', st') \<Longrightarrow>
   i \<le> j \<and> j - i < length ops \<and> blocks (ops ! (j - i)) vals' \<and>
   \<not> flag_set (sem_flg (ops ! (j - i))) OP_NOWAIT"
proof (induction ops arbitrary: i vals u st)
  case (Cons p ops)
  have step: ?case if "try_loop env pid s ops (Suc i) v w t = (1, j, vals', u', st')" for v w t
  proof -
    note h = Cons.IH [OF that]
    then have "j - i = Suc (j - Suc i)" by arith
    then show ?thesis using h by simp
  qed
  show ?case
  proof (cases "blocks p vals")
    case True
    then show ?thesis using Cons.prems by (auto simp: errno_simps Let_def split: if_splits)
  next
    case False
    obtain u1 t1 where f: "(if u = None then sem_undo_find env pid s True st else (u, st)) = (u1, t1)"
      by force
    have "\<exists>v w t. try_loop env pid s ops (Suc i) v w t = (1, j, vals', u', st')"
      using Cons.prems False unfolding try_loop.simps f
      by (cases u1) (auto simp: errno_simps Let_def split: if_splits)
    then show ?thesis using step by (elim exE)
  qed
qed simp

text \<open>The adjustment a process holds for a semaphore: zero as long as it has no row for the set.\<close>

definition semadj :: "ipc \<Rightarrow> int \<Rightarrow> int \<Rightarrow> nat \<Rightarrow> int" where
  "semadj st pid semid n =
     (case find_row (\<lambda>u. undo_key u = (pid, semid)) (i_undo st) of
        None \<Rightarrow> 0 | Some k \<Rightarrow> adj_of st k ! n)"

lemma semadj_row:
  assumes "sem_inv st" "row_for st pid s k"
  shows "semadj st pid (s_semid s) n = adj_of st k ! n"
proof -
  obtain w where w: "k < length (i_undo st)" "i_undo st ! k = Some w" "undo_key w = (pid, s_semid s)"
    using assms(2) by (auto simp: row_for_def)
  have "uniq_by undo_key (i_undo st)" using assms(1) by (simp add: sem_inv_def)
  from find_row_uniq [OF this w] show ?thesis by (simp add: semadj_def)
qed

lemma find_row_cong:
  "length xs = length ys \<Longrightarrow>
   (\<And>i. i < length xs \<Longrightarrow> (case xs ! i of None \<Rightarrow> False | Some x \<Rightarrow> P x) =
                        (case ys ! i of None \<Rightarrow> False | Some x \<Rightarrow> P x)) \<Longrightarrow>
   find_row P xs = find_row P ys"
proof (induction xs ys rule: list_induct2)
  case (Cons x xs y ys)
  have "find_row P xs = find_row P ys" using Cons.IH Cons.prems [of "Suc i" for i] by simp
  then show ?case using Cons.prems [of 0] by (cases x; cases y) auto
qed simp

lemma semadj_other:
  assumes "k < length (i_undo st)" "i_undo st' = (i_undo st)[k := Some u]"
    "i_undo st ! k = None \<or> undo_key (undo_at st k) = undo_key u" "undo_key u \<noteq> (pid, semid)"
  shows "semadj st' pid semid n = semadj st pid semid n"
proof -
  let ?P = "\<lambda>u. undo_key u = (pid, semid)"
  have f: "find_row ?P (i_undo st') = find_row ?P (i_undo st)"
  proof (rule find_row_cong)
    fix j assume "j < length (i_undo st')"
    then show "(case i_undo st' ! j of None \<Rightarrow> False | Some x \<Rightarrow> ?P x) =
        (case i_undo st ! j of None \<Rightarrow> False | Some x \<Rightarrow> ?P x)"
      using assms by (cases "j = k") (auto simp: undo_at_def split: option.splits)
  qed (simp add: assms(2))
  show ?thesis
  proof (cases "find_row ?P (i_undo st)")
    case (Some j)
    then obtain x where x: "i_undo st ! j = Some x" "?P x" using find_row_Some [OF Some] by blast
    have "j \<noteq> k" using x assms(3,4) by (auto simp: undo_at_def)
    then show ?thesis using Some f assms(2) by (simp add: semadj_def adj_of_def undo_at_def)
  qed (use f in \<open>simp add: semadj_def\<close>)
qed

lemma semadj_found:
  assumes "sem_inv st" "s \<in> rows (i_sem st)" "sem_undo_find env pid s True st = (r, st')" "m < s_nsems s \<or> p \<noteq> pid"
  shows "semadj st' p (s_semid s) m = semadj st p (s_semid s) m"
  using assms(3)
proof (cases rule: sem_undo_find_cases)
  case (made k u)
  show ?thesis
  proof (cases "p = pid")
    case True
    have "row_for st' pid s k" using made by (simp add: row_for_def)
    from semadj_row [OF sem_inv_undo_find [OF assms(1-3)] this]
    have "semadj st' pid (s_semid s) m = 0"
      using made assms(4) True by (simp add: adj_of_def undo_at_def)
    then show ?thesis using True made by (simp add: semadj_def)
  next
    case False
    then show ?thesis using made by (intro semadj_other [of k]) (auto simp: undo_at_def)
  qed
qed simp_all

section \<open>The attempt as a whole\<close>

lemma sem_ok_vals: "sem_ok s \<Longrightarrow> vals_ok (s_nsems s) (s_val s)"
  by (simp add: sem_ok_def vals_ok_def)

lemma set_sem_same:
  assumes "i_sem st ! i = Some s"
  shows "set_sem i s st = st"
proof -
  have "(i_sem st)[i := Some s] = i_sem st" using list_update_id [of "i_sem st" i] assms by simp
  then show ?thesis by (simp add: set_sem_def)
qed

lemma sem_try_op_cases:
  assumes "sem_try_op env si sops pid st = (r, i, st')" "sem_inv st" "si < length (i_sem st)"
    "i_sem st ! si = Some s"
  obtains
    (fbig) "r = - EFBIG" "st' = st"
  | (fail) "r \<noteq> 0" "\<exists>u. st' = st \<or> sem_undo_find env pid s True st = (u, st')"
      "r = 1 \<longrightarrow> i < length sops \<and> \<not> flag_set (sem_flg (sops ! i)) OP_NOWAIT \<and>
         (\<exists>vs. blocks (sops ! i) vs \<and> (\<forall>n < s_nsems s. vs ! n = s_val s ! n + op_sum (take i sops) n))"
  | (commit) u st0 st1 vals where "r = 0" "ran pid s sops (s_val s) st0 vals u st1"
      "st0 = st \<and> u = None \<or> sem_undo_find env pid s True st = (u, st0)"
      "st' = set_sem si (s\<lparr>s_val := vals, s_lpid := fold (\<lambda>p ls. ls[sem_num p := pid]) sops (s_lpid s),
               s_otime := e_now env, s_tpid := pid\<rparr>) st1" "\<forall>p\<in>set sops. sem_num p < s_nsems s"
proof (cases "\<exists>p\<in>set sops. sem_num p \<ge> s_nsems s")
  case True
  then show ?thesis using fbig assms(1,4) by (simp add: sem_try_op_def sem_at_def)
next
  case False
  have at: "sem_at st si = s" using assms(4) by (simp add: sem_at_def)
  have nums: "\<forall>p\<in>set sops. sem_num p < s_nsems s" using False by (auto simp: not_le)
  obtain r1 j vals u st1 where t: "try_loop env pid s sops 0 (s_val s) None st = (r1, j, vals, u, st1)"
    by (cases "try_loop env pid s sops 0 (s_val s) None st")
  have row: "s \<in> rows (i_sem st)" using rows_nth assms(3,4) by metis
  have ok: "vals_ok (s_nsems s) (s_val s)" using sem_inv_row [OF assms(2-4)] sem_ok_vals by blast
  obtain st0 m where m: "j = m" "m \<le> length sops" "r1 = 0 \<longrightarrow> m = length sops"
    "ran pid s (take m sops) (s_val s) st0 vals u st1"
    "st0 = st \<and> u = None \<or> sem_undo_find env pid s True st = (u, st0)"
    using try_loop_ran [OF t assms(2) row ok nums] by auto
  have e: "sem_try_op env si sops pid st = (if r1 \<noteq> 0 then
            (case roll_back (rev (take j sops)) u vals st1 of
               (vals, st) \<Rightarrow> (r1, j, set_sem si (s\<lparr>s_val := vals\<rparr>) st))
          else (0, j, set_sem si (s\<lparr>s_val := vals,
                       s_lpid := fold (\<lambda>p ls. ls[sem_num p := pid]) sops (s_lpid s),
                       s_otime := e_now env, s_tpid := pid\<rparr>) st1))"
    unfolding sem_try_op_def Let_def at t if_not_P [OF False] by simp
  show ?thesis
  proof (cases "r1 = 0")
    case True
    then show ?thesis
      by (intro commit [of st0 vals u st1]) (use True e m assms(1) nums in simp_all)
  next
    case F: False
    have rb: "roll_back (rev (take j sops)) u vals st1 = (s_val s, st0)" using m(1,4) by (simp add: ran_def)
    have s0: "i_sem st0 = i_sem st" using m(5) sem_undo_find_sem [of env pid s True st u st0] by auto
    have "r = r1" "i = j" "st' = st0"
      using e assms(1) F rb set_sem_same [of st0 si s] s0 assms(4) by simp_all
    moreover have "r1 = 1 \<Longrightarrow> j < length sops \<and> blocks (sops ! j) vals \<and> \<not> flag_set (sem_flg (sops ! j)) OP_NOWAIT"
      using try_loop_blocked [of env pid s sops 0 "s_val s" None st j vals u st1] t by simp
    moreover have "\<forall>n < s_nsems s. vals ! n = s_val s ! n + op_sum (take j sops) n"
      using m(1,4) by (simp add: ran_def)
    ultimately show ?thesis using F m(5) by (intro fail) auto
  qed
qed

lemma fold_upd_length [simp]: "length (fold (\<lambda>p ls. ls[f p := g]) ps ls) = length ls"
  by (induction ps arbitrary: ls) simp_all

lemma sem_inv_try_op:
  assumes "sem_try_op env si sops pid st = (r, i, st')" "sem_inv st" "si < length (i_sem st)"
    "i_sem st ! si = Some s"
  shows "sem_inv st'"
  using assms
proof (cases rule: sem_try_op_cases)
  case fbig
  then show ?thesis using assms(2) by simp
next
  case fail
  then show ?thesis using sem_inv_undo_find [OF assms(2) rows_nth [OF assms(3,4)]] assms(2) by auto
next
  case (commit u st0 st1 vals)
  have s1: "i_sem st1 = i_sem st"
    using commit(2,3) sem_undo_find_sem [of env pid s True st u st0] unfolding ran_def by auto
  have ok: "sem_ok (s\<lparr>s_val := vals, s_lpid := fold (\<lambda>p ls. ls[sem_num p := pid]) sops (s_lpid s),
      s_otime := e_now env, s_tpid := pid\<rparr>)"
    using commit(2) sem_inv_row [OF assms(2-4)] by (simp add: ran_def sem_ok_def vals_ok_def)
  show ?thesis unfolding commit(4)
    by (rule sem_inv_set_sem [of st1 si s, OF _ _ _ ok])
      (use commit(2) s1 assms(3,4) in \<open>simp_all add: ran_def set_shape_eq\<close>)
qed

text \<open>The rows of \<open>st\<close> are still there in \<open>st'\<close>, and a row that is new carries no adjustment.\<close>

definition undo_kept :: "ipc \<Rightarrow> ipc \<Rightarrow> bool" where
  "undo_kept st st' \<longleftrightarrow> length (i_undo st') = length (i_undo st) \<and>
     (\<forall>k<length (i_undo st). i_undo st' ! k = i_undo st ! k \<or>
        i_undo st ! k = None \<and> (\<forall>a\<in>set (adj_of st' k). a = 0))"

lemma undo_kept_refl [simp]: "undo_kept st st"
  by (simp add: undo_kept_def)

lemma undo_kept_find: "sem_undo_find env pid s create st = (r, st') \<Longrightarrow> undo_kept st st'"
  by (erule sem_undo_find_cases)
    (auto simp: undo_kept_def nth_list_update adj_of_def undo_at_def)

lemma sem_try_op_rolls_back:
  assumes "sem_try_op env si sops pid st = (r, i, st')" "sem_inv st" "si < length (i_sem st)"
    "i_sem st ! si = Some s" "r \<noteq> 0"
  shows "i_sem st' = i_sem st \<and> undo_kept st st'"
  using assms(1-4)
proof (cases rule: sem_try_op_cases)
  case fail
  then obtain u where u: "st' = st \<or> sem_undo_find env pid s True st = (u, st')" by blast
  then show ?thesis
    using sem_undo_find_sem [of env pid s True st u st'] undo_kept_find [of env pid s True st u st'] by auto
qed (use assms(5) in simp_all)

lemma fold_upd_nth:
  "n < length ls \<Longrightarrow>
   fold (\<lambda>p ls. ls[sem_num p := pid]) ps ls ! n = (if \<exists>p\<in>set ps. sem_num p = n then pid else ls ! n)"
  by (induction ps arbitrary: ls) (auto simp: nth_list_update)

lemma sem_try_op_done:
  assumes "sem_try_op env si sops pid st = (0, i, st')" "sem_inv st" "si < length (i_sem st)"
    "i_sem st ! si = Some s"
  obtains s' where "i_sem st' = (i_sem st)[si := Some s']" "set_shape s' = set_shape s"
    "\<And>n. n < s_nsems s \<Longrightarrow> s_val s' ! n = s_val s ! n + op_sum sops n"
    "\<And>n. n < s_nsems s \<Longrightarrow>
       s_lpid s' ! n = (if \<exists>p\<in>set sops. sem_num p = n then pid else s_lpid s ! n)"
    "\<And>n. n < s_nsems s \<Longrightarrow> semadj st' pid (s_semid s) n = semadj st pid (s_semid s) n - undo_sum sops n"
    "\<And>p n. p \<noteq> pid \<Longrightarrow> semadj st' p (s_semid s) n = semadj st p (s_semid s) n"
  using assms
proof (cases rule: sem_try_op_cases)
  case (commit u st0 st1 vals)
  let ?s = "s\<lparr>s_val := vals, s_lpid := fold (\<lambda>p ls. ls[sem_num p := pid]) sops (s_lpid s),
      s_otime := e_now env, s_tpid := pid\<rparr>"
  have row: "s \<in> rows (i_sem st)" by (rule rows_nth [OF assms(3,4)])
  have s0: "i_sem st0 = i_sem st"
    using commit(3) sem_undo_find_sem [of env pid s True st u st0] by auto
  have s1: "i_sem st1 = i_sem st" using commit(2) s0 by (simp add: ran_def)
  have I0: "sem_inv st0" using commit(3) assms(2) sem_inv_undo_find [OF assms(2) row] by auto
  have lp: "length (s_lpid s) = s_nsems s" using sem_inv_row [OF assms(2-4)] by (simp add: sem_ok_def)
  have und: "semadj st' p d n = semadj st1 p d n" for p d n
    unfolding commit(4) by (simp add: semadj_def set_sem_def adj_of_def undo_at_def split: option.splits)
  have found: "semadj st0 p (s_semid s) n = semadj st p (s_semid s) n" if "n < s_nsems s \<or> p \<noteq> pid" for p n
    using commit(3) semadj_found [OF assms(2) row _ that] by auto
  have adj: "semadj st1 pid (s_semid s) n = semadj st0 pid (s_semid s) n - undo_sum sops n"
    if "n < s_nsems s" for n
  proof (cases u)
    case (Some k)
    then obtain A where A: "row_for st0 pid s k" "length A = s_nsems s"
      "st1 = set_undo k (Some ((undo_at st0 k)\<lparr>u_adj := A\<rparr>)) st0"
      "\<forall>n < s_nsems s. A ! n = adj_of st0 k ! n - undo_sum sops n"
      using commit(2) by (auto simp: ran_def)
    have "row_for st1 pid s k"
      using A(1) unfolding A(3) by (auto simp: row_for_def set_undo_def undo_at_def undo_key_def)
    moreover have "adj_of st1 k = A"
      using A(1) unfolding A(3) by (auto simp: row_for_def set_undo_def undo_at_def adj_of_def)
    moreover have "sem_inv st1" using commit(2) by (simp add: ran_def)
    ultimately show ?thesis
      using semadj_row [OF I0 A(1), of n] semadj_row [of st1 pid s k n] A(4) that by simp
  qed (use commit(2) in \<open>simp add: ran_def\<close>)
  have other: "semadj st1 p (s_semid s) n = semadj st0 p (s_semid s) n" if "p \<noteq> pid" for p n
  proof (cases u)
    case (Some k)
    then obtain A where A: "row_for st0 pid s k" "st1 = set_undo k (Some ((undo_at st0 k)\<lparr>u_adj := A\<rparr>)) st0"
      using commit(2) by (auto simp: ran_def)
    then show ?thesis using that
      by (intro semadj_other [of k st0 st1 "(undo_at st0 k)\<lparr>u_adj := A\<rparr>"])
        (auto simp: row_for_def set_undo_def undo_at_def undo_key_def)
  qed (use commit(2) in \<open>simp add: ran_def\<close>)
  show ?thesis
  proof (rule that [of ?s])
    show "i_sem st' = (i_sem st)[si := Some ?s]" unfolding commit(4) using s1 by (simp add: set_sem_def)
    show "s_val ?s ! n = s_val s ! n + op_sum sops n" if "n < s_nsems s" for n
      using commit(2) that by (simp add: ran_def)
    show "s_lpid ?s ! n = (if \<exists>p\<in>set sops. sem_num p = n then pid else s_lpid s ! n)" if "n < s_nsems s" for n
      using fold_upd_nth [of n "s_lpid s" pid sops] lp that by simp
    show "semadj st' pid (s_semid s) n = semadj st pid (s_semid s) n - undo_sum sops n" if "n < s_nsems s" for n
      using und adj found that by simp
    show "semadj st' p (s_semid s) n = semadj st p (s_semid s) n" if "p \<noteq> pid" for p n
      using und other found that by simp
  qed (simp_all add: set_shape_eq)
qed (simp_all add: errno_simps)

section \<open>\<open>semget\<close>\<close>

lemma sem_inv_create:
  assumes "sem_inv st" "i_tabs st" "sem_create env q st = (r, st')"
    "r_key q = 0 \<or> (\<forall>s\<in>rows (i_sem st). s_key s \<noteq> r_key q)"
  shows "sem_inv st'"
proof (cases "r_size q = 0 \<or> r_size q > CNG_SEMMSL \<or> free_slot (i_sem st) = None")
  case True
  then show ?thesis using assms(1,3) by (auto simp: sem_create_def split: if_splits)
next
  case False
  then obtain slot where slot: "free_slot (i_sem st) = Some slot" by blast
  then have sl: "slot < length (i_sem st)" "i_sem st ! slot = None" using free_slot_Some by blast+
  note I = assms(1) [unfolded sem_inv_def]
  obtain i n where a: "sem_alloc_id st = (Some i, n)" "id_range i" "i \<notin> sem_ids st" "id_range n"
    using semtab.alloc_total [of st] assms(2) I by blast
  let ?t = "st\<lparr>i_next_semid := n\<rparr>" and ?s = "new_set env i q"
  have It: "sem_inv ?t" using I a(4) by (simp add: sem_inv_def table_ok_def)
  show ?thesis
  proof (cases "e_alloc env (r_size q * 2) \<and> e_alloc env (r_size q * 4)")
    case True
    then have st': "st' = set_sem slot ?s ?t"
      using False slot a(1) assms(3) by (auto simp: sem_create_def Let_def)
    have fresh: "s_semid y \<noteq> i" "sem_name y \<noteq> sem_name ?s"
      if "j < length (i_sem st)" "i_sem st ! j = Some y" for j y
    proof -
      have y: "y \<in> rows (i_sem st)" by (rule rows_nth [OF that])
      show "s_semid y \<noteq> i" using y a(3) by (auto simp: sem_ids_def)
      then show "sem_name y \<noteq> sem_name ?s" using y assms(4) by (auto simp: sem_name_def new_set_def)
    qed
    have "sem_ok ?s" using False a(2) by (simp add: sem_ok_def new_set_def ipc_limits)
    then have "\<forall>s\<in>rows ((i_sem st)[slot := Some ?s]). sem_ok s"
      by (intro rows_upd_ball) (use I in auto)
    moreover have "uniq_by s_semid ((i_sem st)[slot := Some ?s])"
      by (rule uniq_by_put) (use I fresh(1) in \<open>auto simp: new_set_def\<close>)
    moreover have "uniq_by sem_name ((i_sem st)[slot := Some ?s])"
      by (rule uniq_by_put) (use I fresh(2) in auto)
    moreover have "\<forall>u\<in>rows (i_undo st). undo_ok ((i_sem st)[slot := Some ?s]) u"
    proof
      fix u assume "u \<in> rows (i_undo st)"
      then have "undo_ok (i_sem st) u" using I by blast
      then show "undo_ok ((i_sem st)[slot := Some ?s]) u"
      proof (rule undo_ok_shape)
        fix z assume z: "z \<in> rows (i_sem st)"
        obtain j where j: "j < length (i_sem st)" "i_sem st ! j = Some z"
          using rows_ex [OF z] by (elim exE conjE)
        then have "j \<noteq> slot" using sl by auto
        then have "z \<in> rows ((i_sem st)[slot := Some ?s])" using j by (intro rows_nth [of j]) simp_all
        then show "\<exists>z'\<in>rows ((i_sem st)[slot := Some ?s]). set_shape z' = set_shape z" by blast
      qed
    qed
    ultimately show ?thesis using I a(4) assms(2) unfolding st' by (simp add: sem_inv_def set_sem_def table_ok_def)
  next
    case F: False
    then have "st' = ?t" using False slot a(1) assms(3) by (auto simp: sem_create_def Let_def)
    then show ?thesis using It by simp
  qed
qed

lemma sem_inv_do_get:
  assumes "sem_inv st" "i_tabs st" "sem_do_get env q st = (r, st')"
  shows "sem_inv st'"
proof (cases "r_key q \<noteq> 0 \<and> find_row (\<lambda>s. s_key s = r_key q) (i_sem st) \<noteq> None")
  case True
  then obtain i where i: "find_row (\<lambda>s. s_key s = r_key q) (i_sem st) = Some i" by blast
  then obtain s where s: "i < length (i_sem st)" "i_sem st ! i = Some s" using find_row_Some by blast
  have "sem_inv (set_sem i (s\<lparr>s_tpid := r_pid q\<rparr>) st)"
    by (rule sem_inv_set_sem [OF assms(1) s])
      (use sem_inv_row [OF assms(1) s] in \<open>simp_all add: sem_ok_def set_shape_eq\<close>)
  then show ?thesis
    using True i s assms(1,3) by (auto simp: sem_do_get_def Let_def sem_at_def split: if_splits)
next
  case False
  then have "st' = st \<or> sem_create env q st = (r, st')"
    using assms(3) by (auto simp: sem_do_get_def split: if_splits)
  moreover have "r_key q = 0 \<or> (\<forall>s\<in>rows (i_sem st). s_key s \<noteq> r_key q)"
    using False by (auto simp: find_row_None)
  ultimately show ?thesis using assms(1) sem_inv_create [OF assms(1,2)] by blast
qed

section \<open>A process that exits after a \<open>SEM_UNDO\<close> operation\<close>

lemma sem_try_op_row:
  assumes "sem_try_op env si sops pid st = (0, i, st')" "sem_inv st" "si < length (i_sem st)"
    "i_sem st ! si = Some s" "\<forall>u\<in>rows (i_undo st). undo_key u \<noteq> (pid, s_semid s)"
  shows "i_undo st' = i_undo st \<or> (\<exists>k w. k < length (i_undo st) \<and> i_undo st ! k = None \<and>
    i_undo st' = (i_undo st)[k := Some w] \<and> undo_key w = (pid, s_semid s) \<and> u_start w = e_start env pid)"
  using assms(1-4)
proof (cases rule: sem_try_op_cases)
  case (commit u st0 st1 vals)
  show ?thesis
  proof (cases u)
    case None
    then have "st1 = st0" using commit(2) by (simp add: ran_def)
    moreover have "st0 = st"
      using commit(3) None by (elim disjE sem_undo_find_cases conjE) simp_all
    ultimately show ?thesis using commit(4) by (simp add: set_sem_def)
  next
    case (Some k)
    then have f: "sem_undo_find env pid s True st = (Some k, st0)" using commit(3) by simp
    obtain A where A: "st1 = set_undo k (Some ((undo_at st0 k)\<lparr>u_adj := A\<rparr>)) st0"
      using commit(2) Some by (auto simp: ran_def)
    from f show ?thesis
    proof (cases rule: sem_undo_find_cases)
      case (found j)
      then obtain w where w: "j < length (i_undo st)" "i_undo st ! j = Some w" "undo_key w = (pid, s_semid s)"
        by blast
      then show ?thesis using rows_nth [OF w(1,2)] assms(5) by blast
    next
      case (made j w)
      let ?w = "w\<lparr>u_adj := A\<rparr>"
      have "i_undo st' = (i_undo st)[j := Some ?w]"
        using made A commit(4) by (simp add: set_sem_def set_undo_def undo_at_def)
      then show ?thesis using made by (intro disjI2 exI [of _ j] exI [of _ ?w]) (simp add: undo_key_def)
    qed simp
  qed
qed (simp_all add: errno_simps)

definition due :: "ipc_env \<Rightarrow> (sem_undo \<Rightarrow> bool) \<Rightarrow> ipc \<Rightarrow> nat \<Rightarrow> bool" where
  "due env P st k \<longleftrightarrow> (case i_undo st ! k of None \<Rightarrow> False | Some u \<Rightarrow> P u \<and> holder_gone env u)"

lemma reclaim_row_eq: "reclaim_row env P k st = (if due env P st k then sem_undo_apply env k st else st)"
  by (simp add: reclaim_row_def due_def split: option.splits)

lemma reclaim_none: "\<forall>k\<in>set ks. \<not> due env P st k \<Longrightarrow> fold (reclaim_row env P) ks st = st"
  by (induction ks) (auto simp: reclaim_row_eq)

lemma sem_undo_apply_undo: "i_undo (sem_undo_apply env k st) = (i_undo st)[k := None]"
  by (simp add: sem_undo_apply_def sem_undo_free_def set_undo_def set_sem_def Let_def
      split: option.splits prod.splits)

lemma reclaim_one:
  assumes "k < n" "due env P st k" "\<And>j. j < n \<Longrightarrow> j \<noteq> k \<Longrightarrow> \<not> due env P st j"
  shows "fold (reclaim_row env P) [0..<n] st = sem_undo_apply env k st"
proof -
  have "[0..<n] = [0..<k] @ k # [Suc k..<n]" 
    using upt_add_eq_append [of 0 k "n - k"] upt_conv_Cons [OF assms(1)] assms(1) by simp
  moreover have "fold (reclaim_row env P) [0..<k] st = st"
    using assms(1,3) by (intro reclaim_none) auto
  moreover have "fold (reclaim_row env P) [Suc k..<n] (sem_undo_apply env k st) = sem_undo_apply env k st"
    using assms(3) by (intro reclaim_none) (auto simp: due_def sem_undo_apply_undo)
  ultimately show ?thesis using assms(2) by (simp add: reclaim_row_eq)
qed

lemma sem_undo_apply_vals:
  assumes "sem_inv st" "row_for st pid s k" "si < length (i_sem st)" "i_sem st ! si = Some s" "n < s_nsems s"
  shows "s_val (sem_at (sem_undo_apply env k st) si) ! n =
    (if adj_of st k ! n = 0 then s_val s ! n else clamp_semval (s_val s ! n + adj_of st k ! n)) \<and>
    length (s_val (sem_at (sem_undo_apply env k st) si)) = s_nsems s"
proof -
  obtain u where u: "k < length (i_undo st)" "i_undo st ! k = Some u" "u_semid u = s_semid s"
    using assms(2) by (auto simp: row_for_def undo_key_def)
  have a: "adj_of st k = u_adj u" "undo_at st k = u" using u(2) by (simp_all add: adj_of_def undo_at_def)
  have f: "sem_find st (u_semid u) = Some si" using sem_find_uniq [OF assms(1,3,4)] u(3) by simp
  obtain vs ls t where r: "undo_loop (u_pid u) (u_adj u) (s_val s) (s_lpid s) = (vs, ls, t)"
    by (cases "undo_loop (u_pid u) (u_adj u) (s_val s) (s_lpid s)")
  have sk: "length (s_val s) = s_nsems s" "length (s_lpid s) = s_nsems s"
    using sem_inv_row [OF assms(1,3,4)] by (simp_all add: sem_ok_def)
  have "length (u_adj u) = s_nsems s"
    using row_for_adj(1) [OF assms(1) rows_nth [OF assms(3,4)] assms(2)] a by simp
  then have v: "length vs = s_nsems s"
    "vs ! n = (if u_adj u ! n = 0 then s_val s ! n else clamp_semval (s_val s ! n + u_adj u ! n))"
    using undo_loop_spec [OF _ _ r] sk assms(5) by simp_all
  have "sem_at st si = s" using assms(4) by (simp add: sem_at_def)
  then have "s_val (sem_at (sem_undo_apply env k st) si) = vs"
    using assms(3) unfolding sem_undo_apply_def Let_def a(2) f option.case
    by (simp add: r sem_at_def sem_undo_free_def set_undo_def set_sem_def)
  then show ?thesis using v a by simp
qed

section \<open>Properties\<close>

definition demo_set :: sem_set where
  "demo_set = \<lparr>s_semid = 1, s_key = 5, s_nsems = 2, s_mode = 0x1B0, s_uid = 10, s_gid = 10, s_cuid = 10,
     s_cgid = 10, s_otime = 0, s_ctime = 7, s_val = [3, 0], s_lpid = [0, 0], s_cpid = 9, s_tpid = 9\<rparr>"

definition demo_ipc :: ipc where
  "demo_ipc = \<lparr>i_tabs = True, i_sem = [Some demo_set, None], i_undo = [None, None], i_msq = [None, None],
     i_wait = [None, None], i_next_semid = 2, i_next_msqid = 1, i_seq = 1, i_nwait = 0, i_nundo = 0,
     i_out = []\<rparr>"

definition demo_ienv :: ipc_env where
  "demo_ienv = \<lparr>e_now = 100, e_mono = 5000, e_start = (\<lambda>_. 1), e_zombie = (\<lambda>_. False),
     e_alloc = (\<lambda>_. True)\<rparr>"

lemma rows_simps [simp]:
  "rows [] = {}" "rows (None # xs) = rows xs" "rows (Some x # xs) = insert x (rows xs)"
  by (auto simp: rows_def)

lemma uniq_by_two: "uniq_by f [x, None]"
  by (auto simp: uniq_by_def less_Suc_eq)

lemma demo_sem_inv: "sem_inv demo_ipc"
  by (auto simp: sem_inv_def demo_ipc_def table_ok_def id_range_def sem_ok_def demo_set_def
      uniq_by_two ipc_limits)

definition op_p :: sembuf where
  "op_p = \<lparr>sem_num = 0, sem_op = - 2, sem_flg = CNG_SEM_UNDO\<rparr>"

definition op_v :: sembuf where
  "op_v = \<lparr>sem_num = 1, sem_op = 4, sem_flg = CNG_SEM_UNDO\<rparr>"

lemmas demo_sem_simps = demo_ipc_def demo_set_def demo_ienv_def op_p_def op_v_def

text \<open>
  C2. A \<open>semop\<close> is all or nothing. When the attempt does not commit - it blocks, or it ends in
  \<open>EAGAIN\<close>, \<open>ERANGE\<close>, \<open>ENOMEM\<close> or \<open>EFBIG\<close> - every semaphore set is exactly what it was, every undo row
  that existed is exactly what it was, and a row created on the way carries zero adjustments only. When
  it blocks, the index reported is that of an operation without \<open>IPC_NOWAIT\<close> which cannot proceed on
  the values its predecessors in the vector would leave.
\<close>

theorem semop_all_or_nothing:
  assumes "sem_inv st" "si < length (i_sem st)" "i_sem st ! si = Some s"
    "sem_try_op env si sops pid st = (r, i, st')" "r \<noteq> 0"
  shows "i_sem st' = i_sem st \<and> undo_kept st st' \<and>
    (r = 1 \<longrightarrow> i < length sops \<and> \<not> flag_set (sem_flg (sops ! i)) OP_NOWAIT \<and>
       (\<exists>vs. blocks (sops ! i) vs \<and> (\<forall>n < s_nsems s. vs ! n = s_val s ! n + op_sum (take i sops) n)))"
proof -
  have "r = 1 \<longrightarrow> i < length sops \<and> \<not> flag_set (sem_flg (sops ! i)) OP_NOWAIT \<and>
       (\<exists>vs. blocks (sops ! i) vs \<and> (\<forall>n < s_nsems s. vs ! n = s_val s ! n + op_sum (take i sops) n))"
    using assms(4,1-3) by (cases rule: sem_try_op_cases) (use assms(5) in \<open>auto simp: errno_simps\<close>)
  then show ?thesis using sem_try_op_rolls_back [OF assms(4,1-3,5)] by blast
qed

theorem semop_all_or_nothing_witness:
  "fst (sem_try_op demo_ienv 0 [op_p, op_v, op_p] 42 demo_ipc) = 1 \<and>
   i_sem (snd (snd (sem_try_op demo_ienv 0 [op_p, op_v, op_p] 42 demo_ipc))) = i_sem demo_ipc"
proof -
  have e: "fst (sem_try_op demo_ienv 0 [op_p, op_v, op_p] 42 demo_ipc) = 1" by code_simp
  show ?thesis
    using semop_all_or_nothing [OF demo_sem_inv, of 0 demo_set demo_ienv "[op_p, op_v, op_p]" 42] e
    by (cases "sem_try_op demo_ienv 0 [op_p, op_v, op_p] 42 demo_ipc") (simp add: demo_ipc_def)
qed

text \<open>
  C32. A \<open>semop\<close> that commits has the net effect of its vector. Every value of the set has moved by
  the sum of the operations on it and is still between 0 and \<open>SEMVMX\<close>; the last-operation pid is that of
  the caller exactly where the vector names the semaphore; the adjustment the caller owes has moved by
  the negated sum of its \<open>SEM_UNDO\<close> operations, no other process's has, and no other set is touched.
\<close>

theorem semop_commits_net_effect:
  assumes "sem_inv st" "si < length (i_sem st)" "i_sem st ! si = Some s"
    "sem_try_op env si sops pid st = (0, i, st')"
  shows "\<exists>s'. i_sem st' = (i_sem st)[si := Some s'] \<and> set_shape s' = set_shape s \<and>
    (\<forall>n < s_nsems s. s_val s' ! n = s_val s ! n + op_sum sops n \<and>
       0 \<le> s_val s' ! n \<and> s_val s' ! n \<le> CNG_SEMVMX \<and>
       s_lpid s' ! n = (if \<exists>p\<in>set sops. sem_num p = n then pid else s_lpid s ! n) \<and>
       semadj st' pid (s_semid s) n = semadj st pid (s_semid s) n - undo_sum sops n) \<and>
    (\<forall>p n. p \<noteq> pid \<longrightarrow> semadj st' p (s_semid s) n = semadj st p (s_semid s) n)"
proof (rule sem_try_op_done [OF assms(4,1-3)])
  fix s' assume s': "i_sem st' = (i_sem st)[si := Some s']" "set_shape s' = set_shape s"
    "\<And>n. n < s_nsems s \<Longrightarrow> s_val s' ! n = s_val s ! n + op_sum sops n"
    "\<And>n. n < s_nsems s \<Longrightarrow> s_lpid s' ! n = (if \<exists>p\<in>set sops. sem_num p = n then pid else s_lpid s ! n)"
    "\<And>n. n < s_nsems s \<Longrightarrow> semadj st' pid (s_semid s) n = semadj st pid (s_semid s) n - undo_sum sops n"
    "\<And>p n. p \<noteq> pid \<Longrightarrow> semadj st' p (s_semid s) n = semadj st p (s_semid s) n"
  have "sem_inv st'" by (rule sem_inv_try_op [OF assms(4,1-3)])
  then have "sem_ok s'" by (rule sem_inv_row [of _ si]) (use s'(1) assms(2) in simp_all)
  then have "0 \<le> s_val s' ! n \<and> s_val s' ! n \<le> CNG_SEMVMX" if "n < s_nsems s" for n
    using vals_ok_nth [OF sem_ok_vals] that s'(2) by (simp add: set_shape_eq)
  then show ?thesis using s' by (intro exI [of _ s']) simp
qed

theorem semop_commits_net_effect_witness:
  "s_val (sem_at (snd (snd (sem_try_op demo_ienv 0 [op_p, op_v] 42 demo_ipc))) 0) ! 1 = 4 \<and>
   semadj (snd (snd (sem_try_op demo_ienv 0 [op_p, op_v] 42 demo_ipc))) 42 1 0 = 2"
proof -
  obtain r i t where t: "sem_try_op demo_ienv 0 [op_p, op_v] 42 demo_ipc = (r, i, t)"
    by (cases "sem_try_op demo_ienv 0 [op_p, op_v] 42 demo_ipc")
  have "fst (sem_try_op demo_ienv 0 [op_p, op_v] 42 demo_ipc) = 0" by code_simp
  then have t0: "sem_try_op demo_ienv 0 [op_p, op_v] 42 demo_ipc = (0, i, t)" using t by simp
  have d: "0 < length (i_sem demo_ipc)" "i_sem demo_ipc ! 0 = Some demo_set" by (simp_all add: demo_ipc_def)
  have n: "s_nsems demo_set = 2" "s_semid demo_set = 1" "s_val demo_set ! 1 = 0" by (simp_all add: demo_set_def)
  from semop_commits_net_effect [OF demo_sem_inv d t0] obtain s' where s': "i_sem t = (i_sem demo_ipc)[0 := Some s']"
    "\<forall>n < s_nsems demo_set. s_val s' ! n = s_val demo_set ! n + op_sum [op_p, op_v] n \<and>
       semadj t 42 (s_semid demo_set) n = semadj demo_ipc 42 (s_semid demo_set) n - undo_sum [op_p, op_v] n"
    by blast
  have v: "s_val s' ! 1 = op_sum [op_p, op_v] 1" "semadj t 42 1 0 = semadj demo_ipc 42 1 0 - undo_sum [op_p, op_v] 0"
    using s'(2) [rule_format, of 1] s'(2) [rule_format, of 0] n by simp_all
  have "sem_at t 0 = s'" using s'(1) d(1) by (simp add: sem_at_def)
  moreover have "op_sum [op_p, op_v] 1 = 4" "undo_sum [op_p, op_v] 0 = - 2" "semadj demo_ipc 42 1 0 = 0"
    by code_simp+
  ultimately show ?thesis using v t by simp
qed

lemma undo_sum_all: "\<forall>p\<in>set ops. flag_set (sem_flg p) CNG_SEM_UNDO \<Longrightarrow> undo_sum ops n = op_sum ops n"
  by (induction ops) auto

text \<open>
  C33. \<open>SEM_UNDO\<close> gives back what an exiting process took. A process without a row for the set commits a
  vector whose operations all carry \<open>SEM_UNDO\<close> and then exits, so that its start time is another one or
  it is a zombie; the other holders of adjustments for the set are alive. The next time the set is
  looked at, its values are those it had before the vector.
\<close>

theorem semop_undo_restores:
  assumes "sem_inv st" "si < length (i_sem st)" "i_sem st ! si = Some s"
    "sem_try_op env si sops pid st = (0, i, st')" "\<forall>p\<in>set sops. flag_set (sem_flg p) CNG_SEM_UNDO"
    "\<forall>u\<in>rows (i_undo st). undo_key u \<noteq> (pid, s_semid s) \<and>
       (u_semid u = s_semid s \<longrightarrow> \<not> holder_gone env' u)"
    "e_start env' pid \<noteq> e_start env pid \<or> e_zombie env' pid"
  shows "s_val (sem_at (sem_reclaim_set env' si st') si) = s_val s"
proof (rule sem_try_op_done [OF assms(4,1-3)])
  fix s' assume s': "i_sem st' = (i_sem st)[si := Some s']" "set_shape s' = set_shape s"
    "\<And>n. n < s_nsems s \<Longrightarrow> s_val s' ! n = s_val s ! n + op_sum sops n"
    "\<And>n. n < s_nsems s \<Longrightarrow> semadj st' pid (s_semid s) n = semadj st pid (s_semid s) n - undo_sum sops n"
  have I': "sem_inv st'" by (rule sem_inv_try_op [OF assms(4,1-3)])
  have si': "si < length (i_sem st')" "i_sem st' ! si = Some s'" using s'(1) assms(2) by simp_all
  have len: "length (s_val s) = s_nsems s" "length (s_val s') = s_nsems s" "s_nsems s' = s_nsems s"
    "s_semid s' = s_semid s"
    using sem_inv_row [OF assms(1-3)] sem_inv_row [OF I' si'] s'(2) by (simp_all add: sem_ok_def set_shape_eq)
  have bound: "0 \<le> s_val s ! n" "s_val s ! n \<le> CNG_SEMVMX" if "n < s_nsems s" for n
    using vals_ok_nth [OF sem_ok_vals [OF sem_inv_row [OF assms(1-3)]] that] by simp_all
  have nf: "find_row (\<lambda>u. undo_key u = (pid, s_semid s)) (i_undo st) = None"
    using assms(6) by (simp add: find_row_None)
  then have adj: "semadj st' pid (s_semid s) n = - op_sum sops n" if "n < s_nsems s" for n
    using s'(4) [OF that] undo_sum_all [OF assms(5)] by (simp add: semadj_def)
  let ?P = "\<lambda>u. u_semid u = s_semid (sem_at st' si)"
  have at: "sem_at st' si = s'" using si'(2) by (simp add: sem_at_def)
  have live: "\<not> due env' ?P st k" if "k < length (i_undo st)" for k
  proof (cases "i_undo st ! k")
    case (Some u)
    then show ?thesis using rows_nth [OF that Some] assms(6) at len(4) by (simp add: due_def)
  qed (simp add: due_def)
  have row: "i_undo st' = i_undo st \<or> (\<exists>k w. k < length (i_undo st) \<and> i_undo st ! k = None \<and>
    i_undo st' = (i_undo st)[k := Some w] \<and> undo_key w = (pid, s_semid s) \<and> u_start w = e_start env pid)"
    by (rule sem_try_op_row [OF assms(4,1-3)]) (use assms(6) in blast)
  then show ?thesis
  proof (elim disjE exE conjE)
    assume e: "i_undo st' = i_undo st"
    have "sem_reclaim_set env' si st' = st'"
      unfolding sem_reclaim_set_def using live e by (simp add: due_def reclaim_none)
    moreover have "semadj st' pid (s_semid s) n = 0" for n
      using e nf by (simp add: semadj_def)
    ultimately show ?thesis using adj s'(3) at len by (simp add: list_eq_iff_nth_eq)
  next
    fix k w assume k: "k < length (i_undo st)" "i_undo st ! k = None" "i_undo st' = (i_undo st)[k := Some w]"
      "undo_key w = (pid, s_semid s)" "u_start w = e_start env pid"
    have rk: "row_for st' pid s' k" using k len(4) by (simp add: row_for_def)
    have d: "due env' ?P st' k"
      using k assms(7) at len(4) by (auto simp: due_def holder_gone_def undo_key_def)
    have nd: "\<not> due env' ?P st' j" if "j < length (i_undo st')" "j \<noteq> k" for j
      using live [of j] that k(3) by (simp add: due_def)
    have "n_used (i_undo st') \<noteq> 0" using n_used_upd [OF k(1), of "Some w"] k(2,3) by simp
    then have "i_nundo st' \<noteq> 0" using I' by (simp add: sem_inv_def)
    then have e: "sem_reclaim_set env' si st' = sem_undo_apply env' k st'"
      unfolding sem_reclaim_set_def using reclaim_one [OF _ d nd] k(1,3) by simp
    have "adj_of st' k ! n = - op_sum sops n" if "n < s_nsems s" for n
      using semadj_row [OF I' rk, of n] adj [OF that] len(4) by simp
    then have "s_val (sem_at (sem_undo_apply env' k st') si) ! n = s_val s ! n \<and>
        length (s_val (sem_at (sem_undo_apply env' k st') si)) = s_nsems s" if "n < s_nsems s" for n
      using sem_undo_apply_vals [OF I' rk si', of n env'] that len(3) s'(3) [OF that] bound [OF that]
      by (simp add: clamp_semval_def Let_def)
    moreover have "0 < s_nsems s" using sem_inv_row [OF assms(1-3)] by (simp add: sem_ok_def)
    ultimately show ?thesis unfolding e using len by (metis nth_equalityI)
  qed
qed

theorem semop_undo_restores_witness:
  "s_val (sem_at (snd (snd (sem_try_op demo_ienv 0 [op_p, op_v] 42 demo_ipc))) 0) = [1, 4] \<and>
   s_val (sem_at (sem_reclaim_set (demo_ienv\<lparr>e_zombie := (\<lambda>p. p = 42)\<rparr>) 0
     (snd (snd (sem_try_op demo_ienv 0 [op_p, op_v] 42 demo_ipc)))) 0) = [3, 0]"
proof -
  obtain r i t where t: "sem_try_op demo_ienv 0 [op_p, op_v] 42 demo_ipc = (r, i, t)"
    by (cases "sem_try_op demo_ienv 0 [op_p, op_v] 42 demo_ipc")
  have "fst (sem_try_op demo_ienv 0 [op_p, op_v] 42 demo_ipc) = 0" by code_simp
  then have t0: "sem_try_op demo_ienv 0 [op_p, op_v] 42 demo_ipc = (0, i, t)" using t by simp
  have d: "0 < length (i_sem demo_ipc)" "i_sem demo_ipc ! 0 = Some demo_set" by (simp_all add: demo_ipc_def)
  have f: "\<forall>p\<in>set [op_p, op_v]. flag_set (sem_flg p) CNG_SEM_UNDO" by code_simp
  have "s_val (sem_at (sem_reclaim_set (demo_ienv\<lparr>e_zombie := (\<lambda>p. p = 42)\<rparr>) 0 t) 0) = s_val demo_set"
    by (rule semop_undo_restores [OF demo_sem_inv d t0 f]) (simp_all add: demo_ipc_def)
  moreover have "s_val (sem_at (snd (snd (sem_try_op demo_ienv 0 [op_p, op_v] 42 demo_ipc))) 0) = [1, 4]"
    by code_simp
  ultimately show ?thesis using t by (simp add: demo_set_def)
qed

end
