(* ===== verification/Ipc_Msg.thy ===== *)
theory Ipc_Msg
  imports Ipc_Sem_Props
begin

text \<open>
  Message queues of \<open>src/monitor/ipcreg.c\<close>: which message a receiver takes, linking and unlinking, room,
  \<open>msgget\<close>. A queue is the list of its messages from head to tail; a message is picked by its index.
  The lemmas characterise the choice completely and show that the byte and message counters follow the
  list.
\<close>

section \<open>Operations\<close>

definition LONG_MIN :: int where "LONG_MIN = - 9223372036854775808"
definition LONG_MAX :: int where "LONG_MAX = 9223372036854775807"

definition msg_matches :: "gmsg \<Rightarrow> int \<Rightarrow> u32 \<Rightarrow> bool" where
  "msg_matches m msgtyp msgflg =
     (if msgtyp = 0 then True
      else if msgtyp > 0 then
        (if flag_set msgflg CNG_MSG_EXCEPT then g_mtype m \<noteq> msgtyp else g_mtype m = msgtyp)
      else let limit = (if msgtyp = LONG_MIN then LONG_MAX else - msgtyp) in g_mtype m \<le> limit)"

fun pick_loop :: "int \<Rightarrow> u32 \<Rightarrow> gmsg list \<Rightarrow> nat \<Rightarrow> (nat \<times> gmsg) option \<Rightarrow> (nat \<times> gmsg) option" where
  "pick_loop msgtyp msgflg [] i best = best"
| "pick_loop msgtyp msgflg (m # ms) i best =
     (if \<not> msg_matches m msgtyp msgflg then pick_loop msgtyp msgflg ms (Suc i) best
      else if msgtyp \<ge> 0 then Some (i, m)
      else pick_loop msgtyp msgflg ms (Suc i)
             (case best of
                None \<Rightarrow> Some (i, m)
              | Some (j, b) \<Rightarrow> if g_mtype m < g_mtype b then Some (i, m) else Some (j, b)))"

definition msg_pick :: "msg_q \<Rightarrow> int \<Rightarrow> u32 \<Rightarrow> (nat \<times> gmsg) option" where
  "msg_pick q msgtyp msgflg = pick_loop msgtyp msgflg (q_msgs q) 0 None"

definition msg_unlink :: "msg_q \<Rightarrow> nat \<Rightarrow> gmsg \<Rightarrow> msg_q" where
  "msg_unlink q i m = q\<lparr>q_msgs := take i (q_msgs q) @ drop (Suc i) (q_msgs q),
     q_cbytes := q_cbytes q - of_nat (g_size m), q_qnum := q_qnum q - 1\<rparr>"

definition msg_fits :: "msg_q \<Rightarrow> nat \<Rightarrow> bool" where
  "msg_fits q n \<longleftrightarrow> q_cbytes q + of_nat n \<le> q_qbytes q \<and> q_qnum q + 1 \<le> q_qbytes q"

definition msg_enqueue :: "ipc_env \<Rightarrow> msg_q \<Rightarrow> gmsg \<Rightarrow> int \<Rightarrow> msg_q" where
  "msg_enqueue env q m pid = q\<lparr>q_msgs := q_msgs q @ [m], q_cbytes := q_cbytes q + of_nat (g_size m),
     q_qnum := q_qnum q + 1, q_lspid := pid, q_stime := e_now env, q_tpid := pid\<rparr>"

definition set_msq :: "nat \<Rightarrow> msg_q option \<Rightarrow> ipc \<Rightarrow> ipc" where
  "set_msq i q st = st\<lparr>i_msq := (i_msq st)[i := q]\<rparr>"

definition msg_free_queue :: "nat \<Rightarrow> ipc \<Rightarrow> ipc" where
  "msg_free_queue i st = set_msq i None st"

definition new_queue :: "ipc_env \<Rightarrow> int \<Rightarrow> breq \<Rightarrow> msg_q" where
  "new_queue env i q = \<lparr>q_msqid = i, q_key = r_key q, q_mode = r_arg q AND 0x1FF, q_uid = r_uid q,
     q_gid = r_gid q, q_cuid = r_uid q, q_cgid = r_gid q, q_stime = 0, q_rtime = 0, q_ctime = e_now env,
     q_cbytes = 0, q_qnum = 0, q_qbytes = of_nat CNG_MSGMNB, q_lspid = 0, q_lrpid = 0,
     q_cpid = r_pid q, q_tpid = r_pid q, q_msgs = []\<rparr>"

definition msg_create :: "ipc_env \<Rightarrow> breq \<Rightarrow> ipc \<Rightarrow> int \<times> ipc" where
  "msg_create env q st =
     (case free_slot (i_msq st) of
        None \<Rightarrow> (- ENOSPC, st)
      | Some slot \<Rightarrow>
          (case msg_alloc_id st of
             (None, nxt) \<Rightarrow> (- ENOSPC, st\<lparr>i_next_msqid := nxt\<rparr>)
           | (Some i, nxt) \<Rightarrow>
               (i, set_msq slot (Some (new_queue env i q)) (st\<lparr>i_next_msqid := nxt\<rparr>))))"

definition msg_do_get :: "ipc_env \<Rightarrow> breq \<Rightarrow> ipc \<Rightarrow> int \<times> ipc" where
  "msg_do_get env q st =
     (if r_key q \<noteq> 0 then
        (case find_row (\<lambda>m. q_key m = r_key q) (i_msq st) of
           Some i \<Rightarrow>
             (let mq = msq_at st i in
              if flag_set (r_arg q) CNG_IPC_CREAT \<and> flag_set (r_arg q) CNG_IPC_EXCL then (- EEXIST, st)
              else if \<not> msg_access mq q 4 then (- EACCES, st)
              else (q_msqid mq, set_msq i (Some (mq\<lparr>q_tpid := r_pid q\<rparr>)) st))
         | None \<Rightarrow>
             (if \<not> flag_set (r_arg q) CNG_IPC_CREAT then (- ENOENT, st) else msg_create env q st))
      else msg_create env q st)"

section \<open>The choice of a message\<close>

definition choice :: "int \<Rightarrow> u32 \<Rightarrow> gmsg list \<Rightarrow> (nat \<times> gmsg) option \<Rightarrow> bool" where
  "choice t f ms r =
     (case r of
        None \<Rightarrow> (\<forall>m\<in>set ms. \<not> msg_matches m t f)
      | Some (i, m) \<Rightarrow> i < length ms \<and> ms ! i = m \<and> msg_matches m t f \<and>
          (if t \<ge> 0 then (\<forall>j<i. \<not> msg_matches (ms ! j) t f)
           else (\<forall>j<length ms. msg_matches (ms ! j) t f \<longrightarrow>
                   g_mtype m < g_mtype (ms ! j) \<or> g_mtype m = g_mtype (ms ! j) \<and> i \<le> j)))"

lemma choice_skip:
  assumes "choice t f ms r" "\<not> msg_matches m t f"
  shows "choice t f (ms @ [m]) r"
proof (cases r)
  case (Some x)
  obtain i b where x: "x = (i, b)" by (cases x)
  show ?thesis using assms Some x
    by (auto simp: choice_def nth_append less_Suc_eq split: if_splits)
qed (use assms in \<open>simp add: choice_def\<close>)

lemma choice_first:
  "choice t f ms None \<Longrightarrow> msg_matches m t f \<Longrightarrow> choice t f (ms @ [m]) (Some (length ms, m))"
  by (auto simp: choice_def nth_append less_Suc_eq)

lemma choice_keep:
  assumes "choice t f ms (Some (j, b))" "\<not> g_mtype m < g_mtype b" "t < 0"
  shows "choice t f (ms @ [m]) (Some (j, b))"
  using assms by (auto simp: choice_def nth_append less_Suc_eq)

lemma choice_better:
  assumes "choice t f ms (Some (j, b))" "g_mtype m < g_mtype b" "t < 0" "msg_matches m t f"
  shows "choice t f (ms @ [m]) (Some (length ms, m))"
proof -
  have "g_mtype m < g_mtype (ms ! k)" if "k < length ms" "msg_matches (ms ! k) t f" for k
    using assms that by (fastforce simp: choice_def)
  then show ?thesis using assms(3,4) by (auto simp: choice_def nth_append less_Suc_eq)
qed

lemma choice_extend:
  "choice t f ms (Some (j, b)) \<Longrightarrow> t \<ge> 0 \<Longrightarrow> choice t f (ms @ ns) (Some (j, b))"
  by (auto simp: choice_def nth_append)

lemma pick_loop_choice:
  "choice t f seen best \<Longrightarrow> (t \<ge> 0 \<Longrightarrow> best = None) \<Longrightarrow>
   choice t f (seen @ ms) (pick_loop t f ms (length seen) best)"
proof (induction ms arbitrary: seen best)
  case (Cons m ms)
  note ih = Cons.IH [of "seen @ [m]"]
  consider (skip) "\<not> msg_matches m t f" | (hit) "msg_matches m t f" "t \<ge> 0" | (neg) "msg_matches m t f" "t < 0"
    by fastforce
  then show ?case
  proof cases
    case skip
    then show ?thesis using ih [of best] choice_skip Cons.prems by simp
  next
    case hit
    then have "choice t f (seen @ [m]) (Some (length seen, m))" using choice_first Cons.prems by simp
    from choice_extend [OF this hit(2), of ms] show ?thesis using hit by simp
  next
    case neg
    show ?thesis
    proof (cases best)
      case None
      then show ?thesis using ih [of "Some (length seen, m)"] choice_first Cons.prems(1) neg by simp
    next
      case (Some x)
      obtain j b where x: "x = (j, b)" by (cases x)
      show ?thesis
      proof (cases "g_mtype m < g_mtype b")
        case True
        then show ?thesis
          using ih [of "Some (length seen, m)"] choice_better [of t f seen j b m] Cons.prems(1) neg Some x by simp
      next
        case False
        then show ?thesis
          using ih [of best] choice_keep [of t f seen j b m] Cons.prems(1) neg Some x by simp
      qed
    qed
  qed
qed simp

lemma msg_pick_choice: "choice t f (q_msgs q) (msg_pick q t f)"
  using pick_loop_choice [of t f "[]" None "q_msgs q"] by (simp add: msg_pick_def choice_def)

section \<open>The invariant\<close>

definition msq_ok :: "msg_q \<Rightarrow> bool" where
  "msq_ok q \<longleftrightarrow> id_range (q_msqid q) \<and> q_cbytes q = of_nat (sum_list (map g_size (q_msgs q))) \<and>
     q_qnum q = of_nat (length (q_msgs q)) \<and>
     (\<forall>m\<in>set (q_msgs q). g_size m \<le> CNG_MSGMAX \<and> 0 < g_mtype m)"

definition msq_name :: "msg_q \<Rightarrow> int + int" where
  "msq_name q = (if q_key q = 0 then Inl (q_msqid q) else Inr (q_key q))"

definition msg_inv :: "ipc \<Rightarrow> bool" where
  "msg_inv st \<longleftrightarrow>
     (i_tabs st \<or> rows (i_msq st) = {}) \<and> table_ok (i_msq st) (i_next_msqid st) \<and>
     (\<forall>q\<in>rows (i_msq st). msq_ok q) \<and> uniq_by q_msqid (i_msq st) \<and> uniq_by msq_name (i_msq st)"

definition msq_shape :: "msg_q \<Rightarrow> int \<times> int" where
  "msq_shape q = (q_msqid q, q_key q)"

lemma msg_find_Some:
  assumes "msg_find st msqid = Some i"
  shows "i < length (i_msq st)" "\<exists>q. i_msq st ! i = Some q \<and> q_msqid q = msqid \<and> msq_at st i = q" "i_tabs st"
  using assms find_row_Some [of "\<lambda>q. q_msqid q = msqid" "i_msq st" i]
  by (auto simp: msg_find_def msq_at_def split: if_splits)

lemma msg_inv_row:
  assumes "msg_inv st" "i < length (i_msq st)" "i_msq st ! i = Some q"
  shows "msq_ok q" "i_tabs st"
  using assms(1) rows_nth [OF assms(2,3)] by (auto simp: msg_inv_def)

lemma msg_find_uniq:
  assumes "msg_inv st" "i < length (i_msq st)" "i_msq st ! i = Some q"
  shows "msg_find st (q_msqid q) = Some i"
proof -
  have "uniq_by q_msqid (i_msq st)" using assms(1) by (simp add: msg_inv_def)
  from find_row_uniq [OF this assms(2,3)] show ?thesis
    using msg_inv_row [OF assms] by (auto simp: msg_find_def msq_ok_def id_range_def)
qed

lemma msg_inv_set:
  assumes "msg_inv st" "i < length (i_msq st)" "i_msq st ! i = Some q0" "msq_ok q" "msq_shape q = msq_shape q0"
  shows "msg_inv (set_msq i (Some q) st)"
proof -
  note I = assms(1) [unfolded msg_inv_def]
  have sh: "q_msqid q = q_msqid q0" "msq_name q = msq_name q0"
    using assms(5) by (simp_all add: msq_shape_def msq_name_def)
  have "\<forall>q\<in>rows ((i_msq st)[i := Some q]). msq_ok q" by (rule rows_upd_ball) (use I assms(4) in auto)
  moreover have "uniq_by q_msqid ((i_msq st)[i := Some q])"
    by (rule uniq_by_same [OF _ assms(2,3)]) (use I sh in simp_all)
  moreover have "uniq_by msq_name ((i_msq st)[i := Some q])"
    by (rule uniq_by_same [OF _ assms(2,3)]) (use I sh in simp_all)
  ultimately show ?thesis
    using I msg_inv_row(2) [OF assms(1-3)] by (simp add: msg_inv_def set_msq_def table_ok_def)
qed

lemma msg_inv_free:
  assumes "msg_inv st"
  shows "msg_inv (msg_free_queue i st)"
proof -
  note I = assms [unfolded msg_inv_def]
  have "\<forall>q\<in>rows ((i_msq st)[i := None]). msq_ok q" by (rule rows_upd_ball) (use I in auto)
  moreover have "rows ((i_msq st)[i := None]) \<subseteq> rows (i_msq st)" using rows_upd_sub [of "i_msq st" i None] by simp
  ultimately show ?thesis
    using I uniq_by_clear [of q_msqid "i_msq st" i] uniq_by_clear [of msq_name "i_msq st" i]
    by (auto simp: msg_inv_def msg_free_queue_def set_msq_def table_ok_def)
qed

lemma sum_remove_nth:
  "i < length ms \<Longrightarrow> sum_list (map f (take i ms @ drop (Suc i) ms)) + f (ms ! i) = sum_list (map (f :: 'a \<Rightarrow> nat) ms)"
  by (subst (4) id_take_nth_drop [of i ms]) simp_all

lemma msq_ok_unlink:
  assumes "msq_ok q" "i < length (q_msgs q)" "q_msgs q ! i = m"
  shows "msq_ok (msg_unlink q i m)"
proof -
  let ?r = "take i (q_msgs q) @ drop (Suc i) (q_msgs q)"
  have "of_nat (sum_list (map g_size ?r)) + of_nat (g_size m) = (of_nat (sum_list (map g_size (q_msgs q))) :: u64)"
    using sum_remove_nth [OF assms(2), of g_size] assms(3) by (metis of_nat_add)
  then have "q_cbytes q - of_nat (g_size m) = of_nat (sum_list (map g_size ?r))"
    using assms(1) by (simp add: msq_ok_def algebra_simps)
  moreover have "q_qnum q - 1 = of_nat (length ?r)"
  proof -
    have "length (q_msgs q) = Suc (length ?r)" using assms(2) by simp
    then show ?thesis using assms(1) by (simp add: msq_ok_def)
  qed
  moreover have "set ?r \<subseteq> set (q_msgs q)" using set_take_subset set_drop_subset by fastforce
  ultimately show ?thesis using assms(1) unfolding msq_ok_def msg_unlink_def by auto
qed

lemma msq_ok_enqueue:
  "msq_ok q \<Longrightarrow> g_size m \<le> CNG_MSGMAX \<Longrightarrow> 0 < g_mtype m \<Longrightarrow> msq_ok (msg_enqueue env q m pid)"
  by (auto simp: msq_ok_def msg_enqueue_def algebra_simps)

lemma msg_inv_create:
  assumes "msg_inv st" "i_tabs st" "msg_create env q st = (r, st')"
    "r_key q = 0 \<or> (\<forall>m\<in>rows (i_msq st). q_key m \<noteq> r_key q)"
  shows "msg_inv st'"
proof (cases "free_slot (i_msq st)")
  case None
  then show ?thesis using assms(1,3) by (simp add: msg_create_def)
next
  case (Some slot)
  note I = assms(1) [unfolded msg_inv_def]
  obtain i n where a: "msg_alloc_id st = (Some i, n)" "id_range i" "i \<notin> msq_ids st" "id_range n"
    using msqtab.alloc_total [of st] assms(2) I by blast
  let ?m = "new_queue env i q"
  have st': "st' = set_msq slot (Some ?m) (st\<lparr>i_next_msqid := n\<rparr>)"
    using Some a(1) assms(3) by (auto simp: msg_create_def)
  have fresh: "q_msqid y \<noteq> i" "msq_name y \<noteq> msq_name ?m"
    if "j < length (i_msq st)" "i_msq st ! j = Some y" for j y
  proof -
    have y: "y \<in> rows (i_msq st)" by (rule rows_nth [OF that])
    show "q_msqid y \<noteq> i" using y a(3) by (auto simp: msq_ids_def)
    then show "msq_name y \<noteq> msq_name ?m" using y assms(4) by (auto simp: msq_name_def new_queue_def)
  qed
  have "msq_ok ?m" using a(2) by (simp add: msq_ok_def new_queue_def)
  then have "\<forall>q\<in>rows ((i_msq st)[slot := Some ?m]). msq_ok q" by (intro rows_upd_ball) (use I in auto)
  moreover have "uniq_by q_msqid ((i_msq st)[slot := Some ?m])"
    by (rule uniq_by_put) (use I fresh(1) in \<open>auto simp: new_queue_def\<close>)
  moreover have "uniq_by msq_name ((i_msq st)[slot := Some ?m])"
    by (rule uniq_by_put) (use I fresh(2) in auto)
  ultimately show ?thesis using I a(4) assms(2) unfolding st' by (simp add: msg_inv_def set_msq_def table_ok_def)
qed

lemma msg_inv_do_get:
  assumes "msg_inv st" "i_tabs st" "msg_do_get env q st = (r, st')"
  shows "msg_inv st'"
proof (cases "r_key q \<noteq> 0 \<and> find_row (\<lambda>s. q_key s = r_key q) (i_msq st) \<noteq> None")
  case True
  then obtain i where i: "find_row (\<lambda>s. q_key s = r_key q) (i_msq st) = Some i" by blast
  then obtain m where m: "i < length (i_msq st)" "i_msq st ! i = Some m" using find_row_Some by blast
  have "msg_inv (set_msq i (Some (m\<lparr>q_tpid := r_pid q\<rparr>)) st)"
    by (rule msg_inv_set [OF assms(1) m])
      (use msg_inv_row(1) [OF assms(1) m] in \<open>simp_all add: msq_ok_def msq_shape_def\<close>)
  then show ?thesis
    using True i m assms(1,3) by (auto simp: msg_do_get_def Let_def msq_at_def split: if_splits)
next
  case False
  then have "st' = st \<or> msg_create env q st = (r, st')"
    using assms(3) by (auto simp: msg_do_get_def split: if_splits)
  moreover have "r_key q = 0 \<or> (\<forall>s\<in>rows (i_msq st). q_key s \<noteq> r_key q)"
    using False by (auto simp: find_row_None)
  ultimately show ?thesis using assms(1) msg_inv_create [OF assms(1,2)] by blast
qed

section \<open>Properties\<close>



definition demo_msg :: gmsg where
  "demo_msg = \<lparr>g_mtype = 3, g_data = [104, 105]\<rparr>"

definition demo_q :: msg_q where
  "demo_q = \<lparr>q_msqid = 1, q_key = 0, q_mode = 0, q_uid = 0, q_gid = 0, q_cuid = 0, q_cgid = 0, q_stime = 0,
     q_rtime = 0, q_ctime = 0, q_cbytes = 1, q_qnum = 1, q_qbytes = 16384, q_lspid = 0, q_lrpid = 0,
     q_cpid = 0, q_tpid = 0, q_msgs = [\<lparr>g_mtype = 7, g_data = [1]\<rparr>]\<rparr>"


end
