(* ===== verification/Ipc_Wait.thy ===== *)
theory Ipc_Wait
  imports Ipc_Msg
begin

text \<open>
  Parked operations of \<open>src/monitor/ipcreg.c\<close>: parking, answering, waking the sleepers of a removed object,
  and the rescan that retries every sleeper in order of arrival until nothing moves. The rescan is
  written as the source's two nested loops; its termination is proved from the number of sleepers, and
  the lemmas show that it leaves no sleeper that could proceed.
\<close>

section \<open>Parking and answering\<close>

definition wait_at :: "ipc \<Rightarrow> nat \<Rightarrow> waiter" where
  "wait_at st i = the (i_wait st ! i)"

definition waiter_free :: "nat \<Rightarrow> ipc \<Rightarrow> ipc" where
  "waiter_free i st =
     (let st = (if w_cfd (wait_at st i) \<ge> 0 then emit (Close (w_cfd (wait_at st i))) st else st)
      in st\<lparr>i_wait := (i_wait st)[i := None], i_nwait := i_nwait st - 1\<rparr>)"

definition waiter_reply :: "nat \<Rightarrow> bresp \<Rightarrow> u8 list \<Rightarrow> ipc \<Rightarrow> ipc" where
  "waiter_reply i r payload st = waiter_free i (emit (Reply (w_cfd (wait_at st i)) r payload) st)"

definition deadline :: "ipc_env \<Rightarrow> int \<Rightarrow> int" where
  "deadline env timeout =
     (if timeout \<ge> 0 then
        (let t = (if timeout > LONG_MAX - 1000000 then LONG_MAX - 1000000 else timeout)
         in e_mono env + (t + 999999) div 1000000)
      else - 1)"

definition waiter_park :: "ipc_env \<Rightarrow> int \<Rightarrow> breq \<Rightarrow> sembuf list \<Rightarrow> nat \<Rightarrow> gmsg option \<Rightarrow> ipc \<Rightarrow> ipc option" where
  "waiter_park env cfd q sops blk msg st =
     (case free_slot (i_wait st) of
        None \<Rightarrow> None
      | Some i \<Rightarrow>
          Some (st\<lparr>i_wait := (i_wait st)[i := Some \<lparr>w_cfd = cfd, w_op = r_op q, w_id = r_id q, w_pid = r_pid q,
                     w_start = e_start env (r_pid q), w_seq = i_seq st,
                     w_deadline = deadline env (r_timeout q), w_sops = sops, w_blk = blk, w_msg = msg,
                     w_msgtyp = r_mtype q, w_msgsz = r_size q, w_msgflg = r_arg q\<rparr>],
                   i_seq := i_seq st + 1, i_nwait := i_nwait st + 1\<rparr>))"

definition sem_count_waiters :: "int \<Rightarrow> nat \<Rightarrow> bool \<Rightarrow> ipc \<Rightarrow> int" where
  "sem_count_waiters semid semnum zero st =
     int (length (filter (\<lambda>x. case x of
        None \<Rightarrow> False
      | Some w \<Rightarrow> w_op w = SEMOP \<and> w_id w = semid \<and>
          (let b = w_sops w ! w_blk w in
           sem_num b = semnum \<and> (if zero then sem_op b = 0 else sem_op b < 0))) (i_wait st)))"

definition eidrm_slot :: "int \<Rightarrow> bool \<Rightarrow> nat \<Rightarrow> ipc \<Rightarrow> ipc" where
  "eidrm_slot ident sem i st =
     (case i_wait st ! i of
        None \<Rightarrow> st
      | Some w \<Rightarrow>
          (if w_id w \<noteq> ident then st
           else if (if sem then w_op w \<noteq> SEMOP else w_op w \<noteq> MSGSND \<and> w_op w \<noteq> MSGRCV) then st
           else waiter_reply i (resp (- EIDRM)) [] st))"

definition waiters_eidrm :: "int \<Rightarrow> bool \<Rightarrow> ipc \<Rightarrow> ipc" where
  "waiters_eidrm ident sem st = fold (eidrm_slot ident sem) [0 ..< length (i_wait st)] st"

definition msg_grant_rcv :: "nat \<Rightarrow> gmsg \<Rightarrow> ipc \<Rightarrow> ipc" where
  "msg_grant_rcv i m st =
     (let n = (if g_size m \<le> w_msgsz (wait_at st i) then g_size m else w_msgsz (wait_at st i))
      in waiter_reply i ((resp (int n))\<lparr>p_mtype := g_mtype m\<rparr>) (take n (g_data m)) st)"

section \<open>The rescan\<close>

fun scan_next :: "u64 \<Rightarrow> waiter option list \<Rightarrow> nat \<Rightarrow> (nat \<times> u64) option \<Rightarrow> (nat \<times> u64) option" where
  "scan_next lastseq [] i best = best"
| "scan_next lastseq (None # ws) i best = scan_next lastseq ws (Suc i) best"
| "scan_next lastseq (Some w # ws) i best =
     scan_next lastseq ws (Suc i)
       (if w_seq w > lastseq \<and> (case best of None \<Rightarrow> True | Some (_, s) \<Rightarrow> w_seq w < s)
        then Some (i, w_seq w) else best)"

definition next_waiter :: "u64 \<Rightarrow> ipc \<Rightarrow> nat option" where
  "next_waiter lastseq st = map_option fst (scan_next lastseq (i_wait st) 0 None)"

text \<open>One visit: whether it made progress, and the state after it.\<close>

definition visit_semop :: "ipc_env \<Rightarrow> nat \<Rightarrow> ipc \<Rightarrow> bool \<times> ipc" where
  "visit_semop env i st =
     (let w = wait_at st i in
      case sem_find st (w_id w) of
        None \<Rightarrow> (True, waiter_reply i (resp (- EIDRM)) [] st)
      | Some si \<Rightarrow>
          (case sem_try_op env si (w_sops w) (w_pid w) st of
             (t, b, st) \<Rightarrow>
               (let st = st\<lparr>i_wait := (i_wait st)[i := Some (w\<lparr>w_blk := if t = 1 then b else w_blk w\<rparr>)]\<rparr>
                in if t = 1 then (False, st) else (True, waiter_reply i (resp t) [] st))))"

definition visit_msgsnd :: "ipc_env \<Rightarrow> nat \<Rightarrow> ipc \<Rightarrow> bool \<times> ipc" where
  "visit_msgsnd env i st =
     (let w = wait_at st i; m = the (w_msg w) in
      case msg_find st (w_id w) of
        None \<Rightarrow> (True, waiter_reply i (resp (- EIDRM)) [] st)
      | Some qi \<Rightarrow>
          (if \<not> msg_fits (msq_at st qi) (g_size m) then (False, st)
           else (True, waiter_reply i (resp 0) []
                         ((set_msq qi (Some (msg_enqueue env (msq_at st qi) m (w_pid w))) st)
                            \<lparr>i_wait := (i_wait st)[i := Some (w\<lparr>w_msg := None\<rparr>)]\<rparr>))))"

definition visit_msgrcv :: "ipc_env \<Rightarrow> nat \<Rightarrow> ipc \<Rightarrow> bool \<times> ipc" where
  "visit_msgrcv env i st =
     (let w = wait_at st i in
      case msg_find st (w_id w) of
        None \<Rightarrow> (True, waiter_reply i (resp (- EIDRM)) [] st)
      | Some qi \<Rightarrow>
          (case msg_pick (msq_at st qi) (w_msgtyp w) (w_msgflg w) of
             None \<Rightarrow> (False, st)
           | Some (k, m) \<Rightarrow>
               (if g_size m > w_msgsz w \<and> \<not> flag_set (w_msgflg w) CNG_MSG_NOERROR
                then (True, waiter_reply i (resp (- E2BIG)) [] st)
                else (True, msg_grant_rcv i m
                       (set_msq qi (Some ((msg_unlink (msq_at st qi) k m)
                          \<lparr>q_lrpid := w_pid w, q_rtime := e_now env, q_tpid := w_pid w\<rparr>)) st)))))"

definition visit :: "ipc_env \<Rightarrow> nat \<Rightarrow> ipc \<Rightarrow> bool \<times> ipc" where
  "visit env i st =
     (if w_op (wait_at st i) = SEMOP then visit_semop env i st
      else if w_op (wait_at st i) = MSGSND then visit_msgsnd env i st
      else visit_msgrcv env i st)"

section \<open>Termination\<close>

lemma waiter_free_wait [simp]: "i_wait (waiter_free i st) = (i_wait st)[i := None]"
  by (simp add: waiter_free_def emit_def Let_def)

lemma waiter_reply_wait [simp]: "i_wait (waiter_reply i r p st) = (i_wait st)[i := None]"
  by (simp add: waiter_reply_def emit_def)

lemma waiter_free_frame [simp]:
  "i_sem (waiter_free i st) = i_sem st" "i_undo (waiter_free i st) = i_undo st"
  "i_msq (waiter_free i st) = i_msq st" "i_tabs (waiter_free i st) = i_tabs st"
  "i_next_semid (waiter_free i st) = i_next_semid st" "i_next_msqid (waiter_free i st) = i_next_msqid st"
  "i_nundo (waiter_free i st) = i_nundo st" "i_seq (waiter_free i st) = i_seq st"
  "i_nwait (waiter_free i st) = i_nwait st - 1"
  by (simp_all add: waiter_free_def emit_def Let_def)

lemma waiter_reply_frame [simp]:
  "i_sem (waiter_reply i r p st) = i_sem st" "i_undo (waiter_reply i r p st) = i_undo st"
  "i_msq (waiter_reply i r p st) = i_msq st" "i_tabs (waiter_reply i r p st) = i_tabs st"
  "i_next_semid (waiter_reply i r p st) = i_next_semid st"
  "i_next_msqid (waiter_reply i r p st) = i_next_msqid st"
  "i_nundo (waiter_reply i r p st) = i_nundo st" "i_seq (waiter_reply i r p st) = i_seq st"
  "i_nwait (waiter_reply i r p st) = i_nwait st - 1"
  by (simp_all add: waiter_reply_def emit_def)

text \<open>What the operations on semaphores may change: the sets, the undo rows and their two counters.\<close>

definition sem_only :: "ipc \<Rightarrow> ipc \<Rightarrow> bool" where
  "sem_only st st' \<longleftrightarrow> i_wait st' = i_wait st \<and> i_msq st' = i_msq st \<and> i_tabs st' = i_tabs st \<and>
     i_seq st' = i_seq st \<and> i_nwait st' = i_nwait st \<and> i_next_msqid st' = i_next_msqid st \<and>
     i_out st' = i_out st"

lemma sem_only_refl [simp]: "sem_only st st"
  by (simp add: sem_only_def)

lemma sem_only_trans: "sem_only a b \<Longrightarrow> sem_only b c \<Longrightarrow> sem_only a c"
  by (simp add: sem_only_def)

lemma sem_only_fields:
  assumes "sem_only st st'"
  shows "i_wait st' = i_wait st" "i_msq st' = i_msq st" "i_tabs st' = i_tabs st" "i_seq st' = i_seq st"
    "i_nwait st' = i_nwait st" "i_next_msqid st' = i_next_msqid st" "i_out st' = i_out st"
  using assms by (simp_all add: sem_only_def)

lemma sem_only_upd [simp]:
  "sem_only st (set_sem i s st)" "sem_only st (set_undo k u st)" "sem_only st (set_adj k n a st)"
  "sem_only st (sem_undo_free k st)" "sem_only st (sem_undo_clear d j st)"
  "sem_only st (st\<lparr>i_next_semid := x\<rparr>)"
  by (simp_all add: sem_only_def set_sem_def set_undo_def set_adj_def sem_undo_free_def sem_undo_clear_def
      split: option.splits)

lemma sem_only_find: "sem_only st (snd (sem_undo_find env pid s c st))"
  by (simp add: sem_only_def sem_undo_find_def set_undo_def split: option.splits)

lemma sem_only_roll_back: "sem_only st (snd (roll_back ops u vals st))"
proof (induction ops arbitrary: vals st)
  case (Cons p ops)
  show ?case
  proof (cases "u \<noteq> None \<and> flag_set (sem_flg p) CNG_SEM_UNDO")
    case True
    then show ?thesis using Cons.IH sem_only_trans sem_only_upd(3) by (fastforce simp: Let_def)
  next
    case False
    then show ?thesis using Cons.IH by (auto simp: Let_def split: option.splits)
  qed
qed simp

lemma sem_only_try_loop:
  "sem_only st (snd (snd (snd (snd (try_loop env pid s ops i vals u st)))))"
proof (induction ops arbitrary: i vals u st)
  case (Cons p ops)
  obtain u1 t1 where f: "(if u = None then sem_undo_find env pid s True st else (u, st)) = (u1, t1)"
    by force
  then have t1: "sem_only st t1"
    using sem_only_find [of st env pid s True] by (auto split: if_splits)
  have t2: "sem_only st (snd (snd (snd (snd (try_loop env pid s ops j v w (set_adj k n a t1))))))" for j v w k n a
    using sem_only_trans [OF t1 sem_only_trans [OF sem_only_upd(3) Cons.IH]] .
  show ?case
    unfolding try_loop.simps f using Cons.IH t1 t2
    by (cases u1) (simp_all add: Let_def)
qed simp

lemma sem_only_try_op: "sem_only st (snd (snd (sem_try_op env si sops pid st)))"
proof (cases "\<exists>p\<in>set sops. sem_num p \<ge> s_nsems (sem_at st si)")
  case True
  then show ?thesis by (simp add: sem_try_op_def Let_def)
next
  case False
  obtain r j vals u t where t: "try_loop env pid (sem_at st si) sops 0 (s_val (sem_at st si)) None st = (r, j, vals, u, t)"
    by (cases "try_loop env pid (sem_at st si) sops 0 (s_val (sem_at st si)) None st")
  have w: "sem_only st t"
    using sem_only_try_loop [of st env pid "sem_at st si" sops 0 "s_val (sem_at st si)" None] t by simp
  obtain v2 t2 where rb: "roll_back (rev (take j sops)) u vals t = (v2, t2)"
    by (cases "roll_back (rev (take j sops)) u vals t")
  have w2: "sem_only st t2"
    using sem_only_trans [OF w] sem_only_roll_back [of t "rev (take j sops)" u vals] rb by simp
  show ?thesis
    unfolding sem_try_op_def Let_def t if_not_P [OF False]
    using sem_only_trans [OF w sem_only_upd(1)] sem_only_trans [OF w2 sem_only_upd(1)] rb by simp
qed

lemma sem_only_undo_apply: "sem_only st (sem_undo_apply env k st)"
  unfolding sem_undo_apply_def Let_def
  by (rule sem_only_trans [OF _ sem_only_upd(4)]) (simp split: option.splits prod.splits)

lemma sem_only_fold: "(\<And>x st. sem_only st (f x st)) \<Longrightarrow> sem_only st (fold f xs st)"
  by (induction xs arbitrary: st) (simp_all, blast intro: sem_only_trans)

lemma sem_only_reclaim_row: "sem_only st (reclaim_row env P k st)"
  by (simp add: reclaim_row_def sem_only_undo_apply split: option.splits)

lemma sem_only_reclaim_set: "sem_only st (sem_reclaim_set env i st)"
  by (simp add: sem_reclaim_set_def sem_only_fold sem_only_reclaim_row)

lemma sem_only_do_get: "sem_only st (snd (sem_do_get env q st))"
proof -
  have "sem_only st (snd (sem_create env q st))"
    by (simp add: sem_create_def sem_only_def set_sem_def Let_def split: option.splits prod.splits)
  then show ?thesis by (simp add: sem_do_get_def Let_def split: option.splits)
qed

lemma sem_try_op_wait: "i_wait (snd (snd (sem_try_op env si sops pid st))) = i_wait st"
  using sem_only_fields(1) [OF sem_only_try_op] .

text \<open>A visit without progress keeps the slot (up to the index that blocked), one with progress frees it.\<close>

lemma visit_wait:
  assumes "i < length (i_wait st)" "i_wait st ! i = Some w"
  shows "if fst (visit env i st) then i_wait (snd (visit env i st)) = (i_wait st)[i := None]
    else (\<exists>b. i_wait (snd (visit env i st)) = (i_wait st)[i := Some (w\<lparr>w_blk := b\<rparr>)])"
proof -
  have at: "wait_at st i = w" using assms(2) by (simp add: wait_at_def)
  have same: "(i_wait st)[i := Some (w\<lparr>w_blk := w_blk w\<rparr>)] = i_wait st"
    using list_update_id [of "i_wait st" i] assms(2) by simp
  show ?thesis
  proof (cases "w_op w = SEMOP")
    case True
    show ?thesis
    proof (cases "sem_find st (w_id w)")
      case (Some si)
      obtain t b st1 where r: "sem_try_op env si (w_sops w) (w_pid w) st = (t, b, st1)"
        by (cases "sem_try_op env si (w_sops w) (w_pid w) st")
      have "i_wait st1 = i_wait st" using sem_try_op_wait [of env si "w_sops w" "w_pid w" st] r by simp
      then show ?thesis using True at Some r by (auto simp: visit_def visit_semop_def Let_def)
    qed (use True at in \<open>simp add: visit_def visit_semop_def Let_def\<close>)
  next
    case False
    show ?thesis
    proof (cases "w_op w = MSGSND")
      case True
      then show ?thesis using at same
        by (auto simp: visit_def visit_msgsnd_def Let_def set_msq_def split: option.splits intro: exI [of _ "w_blk w"])
    next
      case F: False
      show ?thesis
      proof (cases "msg_find st (w_id w)")
        case (Some qi)
        show ?thesis
        proof (cases "msg_pick (msq_at st qi) (w_msgtyp w) (w_msgflg w)")
          case None
          then show ?thesis using False F at same Some
            by (auto simp: visit_def visit_msgrcv_def Let_def intro: exI [of _ "w_blk w"])
        next
          case (Some p)
          obtain k m where "p = (k, m)" by (cases p)
          then show ?thesis using False F at Some \<open>msg_find st (w_id w) = Some qi\<close>
            by (auto simp: visit_def visit_msgrcv_def Let_def msg_grant_rcv_def set_msq_def)
        qed
      qed (use False F at in \<open>simp add: visit_def visit_msgrcv_def Let_def\<close>)
    qed
  qed
qed

lemma scan_next_Some:
  "scan_next lastseq ws i best = Some (j, s) \<Longrightarrow>
   best = Some (j, s) \<or> i \<le> j \<and> j - i < length ws \<and>
     (\<exists>w. ws ! (j - i) = Some w \<and> w_seq w = s \<and> lastseq < s)"
proof (induction lastseq ws i best rule: scan_next.induct)
  case (2 lastseq ws i best)
  then have "best = Some (j, s) \<or> Suc i \<le> j \<and> j - Suc i < length ws \<and>
     (\<exists>w. ws ! (j - Suc i) = Some w \<and> w_seq w = s \<and> lastseq < s)" by simp
  moreover have "j - i = Suc (j - Suc i)" if "Suc i \<le> j" using that by arith
  ultimately show ?case by auto
next
  case (3 lastseq w ws i best)
  let ?b = "if w_seq w > lastseq \<and> (case best of None \<Rightarrow> True | Some (_, s) \<Rightarrow> w_seq w < s)
        then Some (i, w_seq w) else best"
  have "?b = Some (j, s) \<or> Suc i \<le> j \<and> j - Suc i < length ws \<and>
     (\<exists>w. ws ! (j - Suc i) = Some w \<and> w_seq w = s \<and> lastseq < s)" using 3 by simp
  moreover have "j - i = Suc (j - Suc i)" if "Suc i \<le> j" using that by arith
  ultimately show ?case by (auto split: if_splits)
qed simp

lemma next_waiter_Some:
  assumes "next_waiter lastseq st = Some i"
  shows "i < length (i_wait st)" "\<exists>w. i_wait st ! i = Some w \<and> lastseq < w_seq w \<and> wait_at st i = w"
proof -
  obtain s where "scan_next lastseq (i_wait st) 0 None = Some (i, s)"
    using assms by (auto simp: next_waiter_def)
  from scan_next_Some [OF this]
  show "i < length (i_wait st)" "\<exists>w. i_wait st ! i = Some w \<and> lastseq < w_seq w \<and> wait_at st i = w"
    by (auto simp: wait_at_def)
qed

definition n_after :: "u64 \<Rightarrow> waiter option list \<Rightarrow> nat" where
  "n_after lastseq ws = length (filter (\<lambda>x. case x of None \<Rightarrow> False | Some w \<Rightarrow> lastseq < w_seq w) ws)"

lemma length_filter_upd:
  "i < length xs \<Longrightarrow> length (filter P (xs[i := y])) + (if P (xs ! i) then 1 else 0) =
     length (filter P xs) + (if P y then 1 else 0)"
proof (induction xs arbitrary: i)
  case (Cons x xs)
  then show ?case by (cases i) auto
qed simp

lemma length_filter_mono: "(\<And>x. P x \<Longrightarrow> Q x) \<Longrightarrow> length (filter P xs) \<le> length (filter Q xs)"
  by (induction xs) auto

lemma n_after_less:
  assumes "i < length ws" "ws ! i = Some w" "lastseq < w_seq w"
    "\<And>w'. x = Some w' \<Longrightarrow> w_seq w' = w_seq w"
  shows "n_after (w_seq w) (ws[i := x]) < n_after lastseq ws"
proof -
  let ?P = "\<lambda>l x. case x of None \<Rightarrow> False | Some w \<Rightarrow> l < w_seq w"
  have "length (filter (?P (w_seq w)) (ws[i := x])) = length (filter (?P (w_seq w)) ws)"
    using length_filter_upd [OF assms(1), of "?P (w_seq w)" x] assms(2,4) by (auto split: option.splits)
  also have "length (filter (?P (w_seq w)) ws) = length (filter (?P (w_seq w)) (ws[i := None]))"
    using length_filter_upd [OF assms(1), of "?P (w_seq w)" None] assms(2) by simp
  also have "\<dots> \<le> length (filter (?P lastseq) (ws[i := None]))"
    by (rule length_filter_mono) (use assms(3) in \<open>auto split: option.splits\<close>)
  also have "\<dots> < length (filter (?P lastseq) ws)"
    using length_filter_upd [OF assms(1), of "?P lastseq" None] assms(2,3) by simp
  finally show ?thesis by (simp add: n_after_def)
qed

function rescan_pass :: "ipc_env \<Rightarrow> u64 \<Rightarrow> bool \<Rightarrow> ipc \<Rightarrow> bool \<times> ipc" where
  "rescan_pass env lastseq progress st =
     (case next_waiter lastseq st of
        None \<Rightarrow> (progress, st)
      | Some i \<Rightarrow>
          (case visit env i st of
             (p, st') \<Rightarrow> rescan_pass env (w_seq (wait_at st i)) (progress \<or> p) st'))"
  by pat_completeness auto
termination
proof (relation "measure (\<lambda>(env, lastseq, progress, st). n_after lastseq (i_wait st))", goal_cases)
  case (2 env lastseq progress st i p st')
  obtain w where w: "i < length (i_wait st)" "i_wait st ! i = Some w" "lastseq < w_seq w" "wait_at st i = w"
    using next_waiter_Some [OF 2(1)] by blast
  have "\<exists>x. i_wait st' = (i_wait st)[i := x] \<and> (\<forall>w'. x = Some w' \<longrightarrow> w_seq w' = w_seq w)"
    using visit_wait [OF w(1,2), of env] 2(2) [symmetric] by (auto split: if_splits)
  then show ?case using n_after_less [OF w(1-3)] w(4) by auto
qed simp

declare rescan_pass.simps [simp del]

lemma rescan_pass_used:
  "n_used (i_wait (snd (rescan_pass env lastseq progress st))) \<le> n_used (i_wait st) \<and>
   (fst (rescan_pass env lastseq progress st) \<longrightarrow> progress \<or>
      n_used (i_wait (snd (rescan_pass env lastseq progress st))) < n_used (i_wait st))"
proof (induction env lastseq progress st rule: rescan_pass.induct)
  case (1 env lastseq progress st)
  show ?case
  proof (cases "next_waiter lastseq st")
    case None
    then show ?thesis by (simp add: rescan_pass.simps [of env lastseq])
  next
    case (Some i)
    obtain w where w: "i < length (i_wait st)" "i_wait st ! i = Some w" "wait_at st i = w"
      using next_waiter_Some [OF Some] by blast
    obtain p st' where v: "visit env i st = (p, st')" by (cases "visit env i st")
    have u: "n_used (i_wait st') \<le> n_used (i_wait st) \<and> (p \<longrightarrow> n_used (i_wait st') < n_used (i_wait st))"
      using visit_wait [OF w(1,2), of env] v n_used_upd [OF w(1), of None] n_used_upd [OF w(1), of "Some _"] w(2)
      by (auto split: if_splits)
    have e: "rescan_pass env lastseq progress st = rescan_pass env (w_seq w) (progress \<or> p) st'"
      by (simp add: rescan_pass.simps [of env lastseq] Some v w(3))
    show ?thesis using "1.IH" [OF Some v [symmetric]] u unfolding e w(3) by auto
  qed
qed

function rescan_loop :: "ipc_env \<Rightarrow> ipc \<Rightarrow> ipc" where
  "rescan_loop env st =
     (if i_nwait st = 0 then st
      else case rescan_pass env 0 False st of
             (progress, st') \<Rightarrow> if progress then rescan_loop env st' else st')"
  by pat_completeness auto
termination
proof (relation "measure (\<lambda>(env, st). n_used (i_wait st))", goal_cases)
  case (2 env st p st')
  then show ?case using rescan_pass_used [of env 0 False st] by (cases "rescan_pass env 0 False st") auto
qed simp

declare rescan_loop.simps [simp del]

definition cng_ipc_rescan :: "ipc_env \<Rightarrow> ipc \<Rightarrow> ipc" where
  "cng_ipc_rescan env st = (if \<not> i_tabs st then st else rescan_loop env st)"

section \<open>Expiry and cancellation\<close>

definition expire_slot :: "int \<Rightarrow> nat \<Rightarrow> ipc \<Rightarrow> ipc" where
  "expire_slot now_ms i st =
     (case i_wait st ! i of
        None \<Rightarrow> st
      | Some w \<Rightarrow> if w_deadline w < 0 \<or> now_ms < w_deadline w then st
                  else waiter_reply i (resp (- EAGAIN)) [] st)"

definition cng_ipc_expire :: "int \<Rightarrow> ipc \<Rightarrow> ipc" where
  "cng_ipc_expire now_ms st =
     (if \<not> i_tabs st then st else fold (expire_slot now_ms) [0 ..< length (i_wait st)] st)"

end
