(* ===== verification/Ipc_Serve.thy ===== *)
theory Ipc_Serve
  imports Ipc_Wait
begin

text \<open>
  The request handlers of \<open>src/monitor/ipcreg.c\<close>: \<open>semctl\<close> and \<open>msgctl\<close>, the four handlers that read a payload
  or may park, the dispatcher \<open>cng_ipc_serve\<close>, and the liveness and poll entry points the daemon's
  loop calls. The bytes a client sends behind its request are a list; a read of \<open>n\<close> bytes succeeds when
  that many arrive before the stream ends. Vectors on the wire are decoded from their bytes.
\<close>

section \<open>The wire\<close>

definition le16 :: "u8 \<Rightarrow> u8 \<Rightarrow> int" where
  "le16 a b = uint a + 256 * uint b"

definition le16_bytes :: "int \<Rightarrow> u8 list" where
  "le16_bytes v = [word_of_int (v mod 256), word_of_int (v div 256)]"

fun decode_sops :: "nat \<Rightarrow> u8 list \<Rightarrow> sembuf list option" where
  "decode_sops 0 bs = Some []"
| "decode_sops (Suc n) (a # b # c # d # e # f # bs) =
     map_option (\<lambda>ops. \<lparr>sem_num = nat (le16 a b), sem_op = s16_of (le16 c d),
                        sem_flg = word_of_int (le16 e f)\<rparr> # ops) (decode_sops n bs)"
| "decode_sops (Suc n) bs = None"

fun decode_u16s :: "nat \<Rightarrow> u8 list \<Rightarrow> int list option" where
  "decode_u16s 0 bs = Some []"
| "decode_u16s (Suc n) (a # b # bs) = map_option (\<lambda>vs. le16 a b # vs) (decode_u16s n bs)"
| "decode_u16s (Suc n) bs = None"

definition encode_u16s :: "int list \<Rightarrow> u8 list" where
  "encode_u16s vs = concat (map le16_bytes vs)"

definition read_full :: "nat \<Rightarrow> u8 list \<Rightarrow> u8 list option" where
  "read_full n bs = (if length bs < n then None else Some (take n bs))"

section \<open>\<open>semctl\<close> and \<open>msgctl\<close>\<close>

definition max_used :: "'a option list \<Rightarrow> int" where
  "max_used xs = fold (\<lambda>i m. if xs ! i \<noteq> None then int i else m) [0 ..< length xs] (- 1)"

definition total :: "('a \<Rightarrow> u64) \<Rightarrow> 'a option list \<Rightarrow> u64" where
  "total f xs = sum_list (map (\<lambda>x. case x of None \<Rightarrow> 0 | Some y \<Rightarrow> f y) xs)"

definition sem_fill_stat :: "bresp \<Rightarrow> sem_set \<Rightarrow> bresp" where
  "sem_fill_stat r s = r\<lparr>p_key := s_key s, p_size := of_nat (s_nsems s), p_mode := s_mode s, p_uid := s_uid s,
     p_gid := s_gid s, p_cuid := s_cuid s, p_cgid := s_cgid s, p_atime := s_otime s, p_ctime := s_ctime s\<rparr>"

definition set_mode :: "u32 \<Rightarrow> u32 \<Rightarrow> u32" where
  "set_mode old new = (old AND NOT 0x1FF) OR (new AND 0x1FF)"

definition sem_set_perm :: "ipc_env \<Rightarrow> breq \<Rightarrow> sem_set \<Rightarrow> sem_set" where
  "sem_set_perm env q s = s\<lparr>s_mode := set_mode (s_mode s) (r_set_mode q), s_uid := r_set_uid q,
     s_gid := r_set_gid q, s_ctime := e_now env\<rparr>"

definition semnum_ok :: "breq \<Rightarrow> sem_set \<Rightarrow> bool" where
  "semnum_ok q s \<longleftrightarrow> \<not> (r_semnum q < 0 \<or> nat (r_semnum q) \<ge> s_nsems s)"

text \<open>The per-semaphore commands, after the set has been found and reclaimed.\<close>

definition sem_ctl_one :: "ipc_env \<Rightarrow> breq \<Rightarrow> nat \<Rightarrow> ipc \<Rightarrow> int \<times> ipc" where
  "sem_ctl_one env q i st =
     (let s = sem_at st i; n = nat (r_semnum q) in
      if r_arg q = CNG_SETVAL \<and> \<not> semnum_ok q s then (- EINVAL, st)
      else if r_arg q = CNG_SETVAL \<and> \<not> sem_access s q 2 then (- EACCES, st)
      else if r_arg q \<noteq> CNG_SETVAL \<and> \<not> sem_access s q 4 then (- EACCES, st)
      else if r_arg q \<noteq> CNG_SETVAL \<and> \<not> semnum_ok q s then (- EINVAL, st)
      else if r_arg q = CNG_GETVAL then (s_val s ! n, st)
      else if r_arg q = CNG_GETPID then (s_lpid s ! n, st)
      else if r_arg q = CNG_GETNCNT then (sem_count_waiters (s_semid s) n False st, st)
      else if r_arg q = CNG_GETZCNT then (sem_count_waiters (s_semid s) n True st, st)
      else if r_arg q = CNG_SETVAL then
        (0, sem_undo_clear (s_semid s) (int n)
              (set_sem i (s\<lparr>s_val := (s_val s)[n := u16_of (r_val q)], s_lpid := (s_lpid s)[n := r_pid q],
                            s_ctime := e_now env, s_tpid := r_pid q\<rparr>) st))
      else (- EINVAL, st))"

definition sem_do_ctl :: "ipc_env \<Rightarrow> breq \<Rightarrow> bresp \<Rightarrow> ipc \<Rightarrow> int \<times> bresp \<times> ipc" where
  "sem_do_ctl env q r st =
     (if r_arg q = CNG_SETVAL \<and> (r_val q < 0 \<or> r_val q > CNG_SEMVMX) then (- ERANGE, r, st)
      else if r_arg q = CNG_IPC_INFO \<or> r_arg q = CNG_SEM_INFO then
        (max_used (i_sem st), r\<lparr>p_used := int (n_used (i_sem st)),
                                p_tot := total (\<lambda>s. of_nat (s_nsems s)) (i_sem st)\<rparr>, st)
      else if r_arg q = CNG_SEM_STAT \<or> r_arg q = CNG_SEM_STAT_ANY then
        (if r_id q < 0 \<or> nat (r_id q) \<ge> length (i_sem st) \<or> i_sem st ! nat (r_id q) = None then (- EINVAL, r, st)
         else if r_arg q = CNG_SEM_STAT \<and> \<not> sem_access (sem_at st (nat (r_id q))) q 4 then (- EACCES, r, st)
         else let st = sem_reclaim_set env (nat (r_id q)) st; s = sem_at st (nat (r_id q))
              in (s_semid s, sem_fill_stat r s, st))
      else case sem_find st (r_id q) of
        None \<Rightarrow> (- EINVAL, r, st)
      | Some i \<Rightarrow>
          (let st = sem_reclaim_set env i st; s = sem_at st i in
           if r_arg q = BROKER_SEMNSEMS then (int (s_nsems s), r, st)
           else if r_arg q = CNG_IPC_STAT then
             (if \<not> sem_access s q 4 then (- EACCES, r, st) else (0, sem_fill_stat r s, st))
           else if r_arg q = CNG_IPC_SET then
             (if \<not> ipc_owner (s_uid s) (s_cuid s) (r_uid q) then (- EPERM, r, st)
              else (0, r, set_sem i (sem_set_perm env q s) st))
           else if r_arg q = CNG_IPC_RMID then
             (if \<not> ipc_owner (s_uid s) (s_cuid s) (r_uid q) then (- EPERM, r, st)
              else (0, r, sem_free_set i (waiters_eidrm (s_semid s) True st)))
           else case sem_ctl_one env q i st of (t, st) \<Rightarrow> (t, r, st)))"

definition msg_fill_stat :: "bresp \<Rightarrow> msg_q \<Rightarrow> bresp" where
  "msg_fill_stat r q = r\<lparr>p_key := q_key q, p_mode := q_mode q, p_uid := q_uid q, p_gid := q_gid q,
     p_cuid := q_cuid q, p_cgid := q_cgid q, p_atime := q_stime q, p_dtime := q_rtime q,
     p_ctime := q_ctime q, p_cbytes := q_cbytes q, p_nattch := q_qnum q, p_size := q_qbytes q,
     p_cpid := q_lspid q, p_lpid := q_lrpid q\<rparr>"

definition msg_set_perm :: "ipc_env \<Rightarrow> breq \<Rightarrow> msg_q \<Rightarrow> msg_q" where
  "msg_set_perm env q m = m\<lparr>q_mode := set_mode (q_mode m) (r_set_mode q), q_uid := r_set_uid q,
     q_gid := r_set_gid q, q_qbytes := of_nat (r_size q), q_ctime := e_now env, q_tpid := r_pid q\<rparr>"

definition msg_do_ctl :: "ipc_env \<Rightarrow> breq \<Rightarrow> bresp \<Rightarrow> ipc \<Rightarrow> int \<times> bresp \<times> ipc" where
  "msg_do_ctl env q r st =
     (if r_arg q = CNG_IPC_INFO \<or> r_arg q = CNG_MSG_INFO then
        (max_used (i_msq st), r\<lparr>p_used := int (n_used (i_msq st)), p_tot := total q_qnum (i_msq st),
                                p_cbytes := total q_cbytes (i_msq st)\<rparr>, st)
      else if r_arg q = CNG_MSG_STAT \<or> r_arg q = CNG_MSG_STAT_ANY then
        (if r_id q < 0 \<or> nat (r_id q) \<ge> length (i_msq st) \<or> i_msq st ! nat (r_id q) = None then (- EINVAL, r, st)
         else if r_arg q = CNG_MSG_STAT \<and> \<not> msg_access (msq_at st (nat (r_id q))) q 4 then (- EACCES, r, st)
         else let m = msq_at st (nat (r_id q)) in (q_msqid m, msg_fill_stat r m, st))
      else case msg_find st (r_id q) of
        None \<Rightarrow> (- EINVAL, r, st)
      | Some i \<Rightarrow>
          (let m = msq_at st i in
           if r_arg q = CNG_IPC_STAT then
             (if \<not> msg_access m q 4 then (- EACCES, r, st) else (0, msg_fill_stat r m, st))
           else if r_arg q = CNG_IPC_SET then
             (if \<not> ipc_owner (q_uid m) (q_cuid m) (r_uid q) then (- EPERM, r, st)
              else if r_size q > CNG_MSGMNB \<and> r_uid q \<noteq> 0 then (- EPERM, r, st)
              else (0, r, set_msq i (Some (msg_set_perm env q m)) st))
           else if r_arg q = CNG_IPC_RMID then
             (if \<not> ipc_owner (q_uid m) (q_cuid m) (r_uid q) then (- EPERM, r, st)
              else (0, r, msg_free_queue i (waiters_eidrm (q_msqid m) False st)))
           else (- EINVAL, r, st)))"

section \<open>Serving\<close>

text \<open>How a handler leaves the connection: a reply to send, parked, already answered, or dropped.\<close>

datatype served = Answer bresp | Parked | Replied | Dropped

definition serve_semop :: "ipc_env \<Rightarrow> int \<Rightarrow> breq \<Rightarrow> u8 list \<Rightarrow> bresp \<Rightarrow> ipc \<Rightarrow> served \<times> ipc" where
  "serve_semop env cfd q bs r st =
     (let nsops = unat (r_arg q) in
      if nsops = 0 \<or> nsops > CNG_SEMOPM then
        (Answer (r\<lparr>p_ret := if nsops \<noteq> 0 then - E2BIG else - EINVAL\<rparr>), st)
      else if \<not> e_alloc env (nsops * 6) then (Answer (r\<lparr>p_ret := - ENOMEM\<rparr>), st)
      else case decode_sops nsops bs of
        None \<Rightarrow> (Dropped, st)
      | Some sops \<Rightarrow>
          (case sem_find st (r_id q) of
             None \<Rightarrow> (Answer (r\<lparr>p_ret := - EINVAL\<rparr>), st)
           | Some i \<Rightarrow>
               (let st = sem_reclaim_set env i st; s = sem_at st i;
                    alter = (\<exists>p\<in>set sops. sem_op p \<noteq> 0);
                    efbig = (\<exists>p\<in>set sops. sem_num p \<ge> s_nsems s) in
                if efbig then (Answer (r\<lparr>p_ret := - EFBIG\<rparr>), st)
                else if \<not> sem_access s q (if alter then 2 else 4) then (Answer (r\<lparr>p_ret := - EACCES\<rparr>), st)
                else case sem_try_op env i sops (r_pid q) st of
                  (t, blk, st) \<Rightarrow>
                    (if t = 1 then
                       (case waiter_park env cfd q sops blk None st of
                          Some st \<Rightarrow> (Parked, st)
                        | None \<Rightarrow> (Answer (r\<lparr>p_ret := - EAGAIN\<rparr>), st))
                     else (Answer (r\<lparr>p_ret := t\<rparr>), st)))))"

definition sem_setall :: "ipc_env \<Rightarrow> breq \<Rightarrow> int list \<Rightarrow> bresp \<Rightarrow> ipc \<Rightarrow> served \<times> ipc" where
  "sem_setall env q vals r st =
     (case sem_find st (r_id q) of
        None \<Rightarrow> (Answer (r\<lparr>p_ret := - EINVAL\<rparr>), st)
      | Some i \<Rightarrow>
          (let s = sem_at st i in
           if r_size q \<noteq> s_nsems s then (Answer (r\<lparr>p_ret := - EINVAL\<rparr>), st)
           else if \<not> sem_access s q 2 then (Answer (r\<lparr>p_ret := - EACCES\<rparr>), st)
           else if \<exists>v\<in>set vals. v > CNG_SEMVMX then (Answer (r\<lparr>p_ret := - ERANGE\<rparr>), st)
           else (Answer r, sem_undo_clear (s_semid s) (- 1)
                   (set_sem i (s\<lparr>s_val := vals, s_lpid := replicate (s_nsems s) (r_pid q),
                                 s_ctime := e_now env, s_tpid := r_pid q\<rparr>) st))))"

definition serve_semctl :: "ipc_env \<Rightarrow> int \<Rightarrow> breq \<Rightarrow> u8 list \<Rightarrow> bresp \<Rightarrow> ipc \<Rightarrow> served \<times> ipc" where
  "serve_semctl env cfd q bs r st =
     (if r_arg q = CNG_SETALL then
        (if r_size q = 0 \<or> r_size q > CNG_SEMMSL then (Dropped, st)
         else if \<not> e_alloc env (r_size q * 2) then (Dropped, st)
         else case decode_u16s (r_size q) bs of
           None \<Rightarrow> (Dropped, st)
         | Some vals \<Rightarrow> sem_setall env q vals r st)
      else if r_arg q = CNG_GETALL then
        (case sem_find st (r_id q) of
           None \<Rightarrow> (Answer (r\<lparr>p_ret := - EINVAL\<rparr>), st)
         | Some i \<Rightarrow>
             (let st = sem_reclaim_set env i st; s = sem_at st i in
              if \<not> sem_access s q 4 then (Answer (r\<lparr>p_ret := - EACCES\<rparr>), st)
              else (Replied, emit (Reply cfd (r\<lparr>p_ret := int (s_nsems s)\<rparr>) (encode_u16s (s_val s))) st)))
      else case sem_do_ctl env q r st of (t, r, st) \<Rightarrow> (Answer (r\<lparr>p_ret := t\<rparr>), st))"

definition serve_msgsnd :: "ipc_env \<Rightarrow> int \<Rightarrow> breq \<Rightarrow> u8 list \<Rightarrow> bresp \<Rightarrow> ipc \<Rightarrow> served \<times> ipc" where
  "serve_msgsnd env cfd q bs r st =
     (if r_size q > CNG_MSGMAX \<or> r_mtype q \<le> 0 then (Dropped, st)
      else if \<not> e_alloc env (24 + r_size q) then (Dropped, st)
      else case read_full (r_size q) bs of
        None \<Rightarrow> (Dropped, st)
      | Some d \<Rightarrow>
          (let m = \<lparr>g_mtype = r_mtype q, g_data = d\<rparr> in
           case msg_find st (r_id q) of
             None \<Rightarrow> (Answer (r\<lparr>p_ret := - EINVAL\<rparr>), st)
           | Some i \<Rightarrow>
               (let mq = msq_at st i in
                if \<not> msg_access mq q 2 then (Answer (r\<lparr>p_ret := - EACCES\<rparr>), st)
                else if msg_fits mq (r_size q) then
                  (Answer (r\<lparr>p_ret := 0\<rparr>), set_msq i (Some (msg_enqueue env mq m (r_pid q))) st)
                else if flag_set (r_arg q) CNG_IPC_NOWAIT then (Answer (r\<lparr>p_ret := - EAGAIN\<rparr>), st)
                else case waiter_park env cfd q [] 0 (Some m) st of
                  Some st \<Rightarrow> (Parked, st)
                | None \<Rightarrow> (Answer (r\<lparr>p_ret := - EAGAIN\<rparr>), st))))"

definition serve_msgrcv :: "ipc_env \<Rightarrow> int \<Rightarrow> breq \<Rightarrow> bresp \<Rightarrow> ipc \<Rightarrow> served \<times> ipc" where
  "serve_msgrcv env cfd q r st =
     (case msg_find st (r_id q) of
        None \<Rightarrow> (Answer (r\<lparr>p_ret := - EINVAL\<rparr>), st)
      | Some i \<Rightarrow>
          (let mq = msq_at st i in
           if \<not> msg_access mq q 4 then (Answer (r\<lparr>p_ret := - EACCES\<rparr>), st)
           else case msg_pick mq (r_mtype q) (r_arg q) of
             Some (k, m) \<Rightarrow>
               (if g_size m > r_size q \<and> \<not> flag_set (r_arg q) CNG_MSG_NOERROR then
                  (Answer (r\<lparr>p_ret := - E2BIG\<rparr>), st)
                else
                  (let n = (if g_size m \<le> r_size q then g_size m else r_size q) in
                   (Replied, emit (Reply cfd (r\<lparr>p_ret := int n, p_mtype := g_mtype m\<rparr>) (take n (g_data m)))
                      (set_msq i (Some ((msg_unlink mq k m)
                         \<lparr>q_lrpid := r_pid q, q_rtime := e_now env, q_tpid := r_pid q\<rparr>)) st))))
           | None \<Rightarrow>
               (if flag_set (r_arg q) CNG_IPC_NOWAIT then (Answer (r\<lparr>p_ret := - ENOMSG\<rparr>), st)
                else case waiter_park env cfd q [] 0 None st of
                  Some st \<Rightarrow> (Parked, st)
                | None \<Rightarrow> (Answer (r\<lparr>p_ret := - ENOMSG\<rparr>), st))))"

definition serve_op :: "ipc_env \<Rightarrow> int \<Rightarrow> breq \<Rightarrow> u8 list \<Rightarrow> ipc \<Rightarrow> served \<times> ipc" where
  "serve_op env cfd q bs st =
     (case r_op q of
        SEMGET \<Rightarrow> (case sem_do_get env q st of (t, st) \<Rightarrow> (Answer (resp t), st))
      | SEMOP \<Rightarrow> serve_semop env cfd q bs resp0 st
      | SEMCTL \<Rightarrow> serve_semctl env cfd q bs resp0 st
      | MSGGET \<Rightarrow> (case msg_do_get env q st of (t, st) \<Rightarrow> (Answer (resp t), st))
      | MSGSND \<Rightarrow> serve_msgsnd env cfd q bs resp0 st
      | MSGRCV \<Rightarrow> serve_msgrcv env cfd q resp0 st
      | MSGCTL \<Rightarrow> (case msg_do_ctl env q resp0 st of (t, r, st) \<Rightarrow> (Answer (r\<lparr>p_ret := t\<rparr>), st))
      | _ \<Rightarrow> (Answer (resp (- EINVAL)), st))"

text \<open>The result is whether the connection lives on in a waiter slot.\<close>

definition cng_ipc_serve :: "ipc_env \<Rightarrow> int \<Rightarrow> breq \<Rightarrow> u8 list \<Rightarrow> ipc \<Rightarrow> bool \<times> ipc" where
  "cng_ipc_serve env cfd q bs st =
     (case tables env st of
        None \<Rightarrow> (False, emit (Reply cfd (resp (- ENOSPC)) []) st)
      | Some st \<Rightarrow>
          (case serve_op env cfd q bs st of
             (Parked, st) \<Rightarrow> (True, st)
           | (Answer r, st) \<Rightarrow> (False, emit (Reply cfd r []) st)
           | (_, st) \<Rightarrow> (False, st)))"

section \<open>Liveness and the poll loop\<close>

definition reclaim_waiter :: "ipc_env \<Rightarrow> nat \<Rightarrow> ipc \<Rightarrow> ipc" where
  "reclaim_waiter env i st =
     (case i_wait st ! i of
        None \<Rightarrow> st
      | Some w \<Rightarrow> if e_start env (w_pid w) \<noteq> w_start w \<or> e_zombie env (w_pid w) then waiter_free i st else st)"

definition reclaim_undo :: "ipc_env \<Rightarrow> nat \<Rightarrow> bool \<times> ipc \<Rightarrow> bool \<times> ipc" where
  "reclaim_undo env k = (\<lambda>(applied, st).
     (case i_undo st ! k of
        None \<Rightarrow> (applied, st)
      | Some u \<Rightarrow> if holder_gone env u then (True, sem_undo_apply env k st) else (applied, st)))"

definition cng_ipc_reclaim :: "ipc_env \<Rightarrow> ipc \<Rightarrow> ipc" where
  "cng_ipc_reclaim env st =
     (if \<not> i_tabs st then st
      else let st = fold (reclaim_waiter env) [0 ..< length (i_wait st)] st in
        case fold (reclaim_undo env) [0 ..< length (i_undo st)] (False, st) of
          (applied, st) \<Rightarrow> if applied then cng_ipc_rescan env st else st)"

definition live_tpid :: "ipc_env \<Rightarrow> int \<Rightarrow> bool" where
  "live_tpid env p \<longleftrightarrow> p > 0 \<and> e_start env p \<noteq> 0"

definition any_row :: "('a \<Rightarrow> bool) \<Rightarrow> 'a option list \<Rightarrow> bool" where
  "any_row P xs \<longleftrightarrow> (\<exists>x\<in>set xs. case x of None \<Rightarrow> False | Some y \<Rightarrow> P y)"

definition cng_ipc_any_live :: "ipc_env \<Rightarrow> ipc \<Rightarrow> bool" where
  "cng_ipc_any_live env st =
     (if \<not> i_tabs st then False
      else if i_nwait st \<noteq> 0 \<or> i_nundo st \<noteq> 0 then True
      else any_row (\<lambda>s. live_tpid env (s_tpid s)) (i_sem st) \<or>
           any_row (\<lambda>q. live_tpid env (q_tpid q)) (i_msq st))"

definition cng_ipc_pending :: "ipc \<Rightarrow> bool" where
  "cng_ipc_pending st \<longleftrightarrow> i_nwait st \<noteq> 0 \<or> i_nundo st \<noteq> 0"

fun poll_slots :: "waiter option list \<Rightarrow> nat \<Rightarrow> int \<Rightarrow> int list \<Rightarrow> int \<Rightarrow> int list \<times> int" where
  "poll_slots [] cap now_ms pf next_ms = (pf, next_ms)"
| "poll_slots (x # ws) cap now_ms pf next_ms =
     (if length pf \<ge> cap then (pf, next_ms)
      else case x of
        None \<Rightarrow> poll_slots ws cap now_ms pf next_ms
      | Some w \<Rightarrow> poll_slots ws cap now_ms (pf @ [w_cfd w])
          (if w_deadline w \<ge> 0 \<and> w_deadline w - now_ms < next_ms then w_deadline w - now_ms else next_ms))"

definition cng_ipc_poll_add :: "int list \<Rightarrow> nat \<Rightarrow> int \<Rightarrow> int \<Rightarrow> ipc \<Rightarrow> int list \<times> int" where
  "cng_ipc_poll_add pf cap now_ms next_ms st =
     (if \<not> i_tabs st \<or> i_nwait st = 0 then (pf, next_ms)
      else poll_slots (i_wait st) cap now_ms pf next_ms)"

definition sizeof_breq :: int where
  "sizeof_breq = 72"

text \<open>
  A ready connection, and what \<open>recvfrom\<close> gave on it: the byte count or error, and the operation the
  bytes name.
\<close>

definition poll_one :: "(int \<Rightarrow> int \<times> ipc_req) \<Rightarrow> int \<times> bool \<Rightarrow> ipc \<Rightarrow> ipc" where
  "poll_one recv pf st =
     (if \<not> snd pf then st
      else case find_row (\<lambda>w. w_cfd w = fst pf) (i_wait st) of
        None \<Rightarrow> st
      | Some i \<Rightarrow>
          (case recv (fst pf) of
             (got, op) \<Rightarrow>
               (if got = sizeof_breq \<and> op = CANCEL then waiter_reply i (resp (- EINTR)) [] st
                else if got \<ge> 0 \<or> got \<noteq> - EAGAIN then waiter_free i st else st)))"

definition cng_ipc_poll_ready :: "(int \<Rightarrow> int \<times> ipc_req) \<Rightarrow> (int \<times> bool) list \<Rightarrow> ipc \<Rightarrow> ipc" where
  "cng_ipc_poll_ready recv pfs st = (if \<not> i_tabs st then st else fold (poll_one recv) pfs st)"

definition free_waiter :: "nat \<Rightarrow> ipc \<Rightarrow> ipc" where
  "free_waiter i st = (if i_wait st ! i \<noteq> None then waiter_free i st else st)"

definition free_sem :: "nat \<Rightarrow> ipc \<Rightarrow> ipc" where
  "free_sem i st = (if i_sem st ! i \<noteq> None then sem_free_set i st else st)"

definition free_msq :: "nat \<Rightarrow> ipc \<Rightarrow> ipc" where
  "free_msq i st = (if i_msq st ! i \<noteq> None then msg_free_queue i st else st)"

definition cng_ipc_free_all :: "ipc \<Rightarrow> ipc" where
  "cng_ipc_free_all st =
     (if \<not> i_tabs st then st
      else let st = fold free_waiter [0 ..< length (i_wait st)] st;
               st = fold free_sem [0 ..< length (i_sem st)] st
           in fold free_msq [0 ..< length (i_msq st)] st)"

end
