(* ===== verification/Ipc_Inv.thy ===== *)
theory Ipc_Inv
  imports Ipc_Serve
begin

text \<open>
  The invariant of the whole registry and what the rescan guarantees. \<open>wait_inv\<close> says that a parked
  operation is one of the three that can park, that the object it sleeps on still exists with the shape
  it was checked against, that arrival numbers are distinct, and that the count of sleepers is right.
  Every entry point the daemon's loop calls keeps \<open>ipc_inv\<close>, and after a rescan no sleeper could proceed.
\<close>

section \<open>The invariant\<close>

definition shapes :: "ipc \<Rightarrow> (int \<times> nat) set" where
  "shapes st = (\<lambda>s. (s_semid s, s_nsems s)) ` rows (i_sem st)"

definition waiter_ok :: "(int \<times> nat) set \<Rightarrow> int set \<Rightarrow> waiter \<Rightarrow> bool" where
  "waiter_ok sh ids w =
     (case w_op w of
        SEMOP \<Rightarrow> w_blk w < length (w_sops w) \<and>
          (\<exists>n. (w_id w, n) \<in> sh \<and> (\<forall>p\<in>set (w_sops w). sem_num p < n))
      | MSGSND \<Rightarrow> w_id w \<in> ids \<and> (\<exists>m. w_msg w = Some m \<and> g_size m \<le> CNG_MSGMAX \<and> 0 < g_mtype m)
      | MSGRCV \<Rightarrow> w_id w \<in> ids
      | _ \<Rightarrow> False)"

definition wait_inv :: "ipc \<Rightarrow> bool" where
  "wait_inv st \<longleftrightarrow> (i_tabs st \<or> rows (i_wait st) = {}) \<and> 0 < i_seq st \<and>
     (\<forall>w\<in>rows (i_wait st). waiter_ok (shapes st) (msq_ids st) w \<and> 0 < w_seq w \<and> w_seq w < i_seq st) \<and>
     uniq_by w_seq (i_wait st) \<and> i_nwait st = int (n_used (i_wait st))"

definition ipc_inv :: "ipc \<Rightarrow> bool" where
  "ipc_inv st \<longleftrightarrow> sem_inv st \<and> msg_inv st \<and> wait_inv st"

lemma waiter_ok_mono: "waiter_ok a b w \<Longrightarrow> a \<subseteq> c \<Longrightarrow> b \<subseteq> d \<Longrightarrow> waiter_ok c d w"
  by (auto simp: waiter_ok_def split: ipc_req.splits)

lemma wait_inv_frame:
  assumes "wait_inv st" "i_wait st' = i_wait st" "i_seq st' = i_seq st" "i_nwait st' = i_nwait st"
    "i_tabs st' = i_tabs st" "shapes st \<subseteq> shapes st'" "msq_ids st \<subseteq> msq_ids st'"
  shows "wait_inv st'"
  using assms waiter_ok_mono [OF _ assms(6,7)] unfolding wait_inv_def by auto

lemma sem_inv_cong:
  "i_tabs a = i_tabs b \<Longrightarrow> i_sem a = i_sem b \<Longrightarrow> i_undo a = i_undo b \<Longrightarrow> i_nundo a = i_nundo b \<Longrightarrow>
   i_next_semid a = i_next_semid b \<Longrightarrow> sem_inv a = sem_inv b"
  by (simp add: sem_inv_def)

lemma msg_inv_cong:
  "i_tabs a = i_tabs b \<Longrightarrow> i_msq a = i_msq b \<Longrightarrow> i_next_msqid a = i_next_msqid b \<Longrightarrow> msg_inv a = msg_inv b"
  by (simp add: msg_inv_def)

section \<open>Operations on semaphores\<close>

lemma ipc_inv_sem:
  assumes "ipc_inv st" "sem_only st st'" "sem_inv st'" "shapes st \<subseteq> shapes st'"
  shows "ipc_inv st'"
proof -
  note f = sem_only_fields [OF assms(2)]
  have "msq_ids st \<subseteq> msq_ids st'" by (simp add: msq_ids_def f)
  then have "wait_inv st'"
    using wait_inv_frame [of st st'] assms(1,4) f by (simp add: ipc_inv_def)
  moreover have "msg_inv st'" using assms(1) f msg_inv_cong [of st st'] by (simp add: ipc_inv_def)
  ultimately show ?thesis using assms(3) by (simp add: ipc_inv_def)
qed

lemma shapes_set:
  assumes "i < length (i_sem st)" "i_sem st ! i = Some s0" "set_shape s = set_shape s0"
    "i_sem st' = (i_sem st)[i := Some s]"
  shows "shapes st \<subseteq> shapes st'"
proof
  fix x assume "x \<in> shapes st"
  then obtain z where z: "z \<in> rows (i_sem st)" "x = (s_semid z, s_nsems z)" by (auto simp: shapes_def)
  from rows_same [of i "i_sem st" s0 set_shape s, OF assms(1-3) z(1)]
  obtain z' where "z' \<in> rows (i_sem st')" "set_shape z' = set_shape z" unfolding assms(4) by blast
  then show "x \<in> shapes st'" unfolding shapes_def
    using z(2) by (intro image_eqI [of _ _ z']) (simp_all add: set_shape_def)
qed

lemma shapes_undo_apply:
  "shapes st \<subseteq> shapes (sem_undo_apply env k st)"
proof (cases "sem_find st (u_semid (undo_at st k))")
  case None
  then show ?thesis by (simp add: sem_undo_apply_def sem_undo_free_def set_undo_def shapes_def Let_def)
next
  case (Some i)
  obtain s where s: "i < length (i_sem st)" "i_sem st ! i = Some s" "sem_at st i = s"
    using sem_find_Some [OF Some] by blast
  obtain vs ls t where r: "undo_loop (u_pid (undo_at st k)) (u_adj (undo_at st k)) (s_val s) (s_lpid s) = (vs, ls, t)"
    by (cases "undo_loop (u_pid (undo_at st k)) (u_adj (undo_at st k)) (s_val s) (s_lpid s)")
  show ?thesis
    by (rule shapes_set [OF s(1,2)])
      (use Some s(3) r in \<open>simp_all add: sem_undo_apply_def Let_def sem_undo_free_def set_undo_def set_sem_def
         set_shape_def\<close>)
qed

lemma ipc_inv_undo_apply:
  "ipc_inv st \<Longrightarrow> k < length (i_undo st) \<Longrightarrow> i_undo st ! k = Some u \<Longrightarrow> ipc_inv (sem_undo_apply env k st)"
  using ipc_inv_sem [OF _ sem_only_undo_apply] sem_inv_undo_apply shapes_undo_apply by (simp add: ipc_inv_def)

lemma ipc_inv_reclaim_row:
  "ipc_inv st \<Longrightarrow> k < length (i_undo st) \<Longrightarrow>
   ipc_inv (reclaim_row env P k st) \<and> length (i_undo (reclaim_row env P k st)) = length (i_undo st)"
  using ipc_inv_undo_apply by (auto simp: reclaim_row_def split: option.splits)

lemma ipc_inv_reclaim_set: "ipc_inv st \<Longrightarrow> ipc_inv (sem_reclaim_set env i st)"
proof -
  assume "ipc_inv st"
  moreover have "ipc_inv (fold (reclaim_row env P) ks st)" if "ipc_inv st" "\<forall>k\<in>set ks. k < length (i_undo st)" for P ks st
    using that
  proof (induction ks arbitrary: st)
    case (Cons k ks)
    then show ?case using ipc_inv_reclaim_row [of st k env P] by simp
  qed simp
  ultimately show ?thesis by (simp add: sem_reclaim_set_def)
qed

lemma sem_undo_apply_sems: "length (i_sem (sem_undo_apply env k st)) = length (i_sem st)"
  by (simp add: sem_undo_apply_def sem_undo_free_def set_undo_def set_sem_def Let_def
      split: option.splits prod.splits)

text \<open>Reclaiming keeps the slot of a set and its identity.\<close>

lemma undo_apply_slot:
  assumes "i < length (i_sem st)" "i_sem st ! i = Some s"
  shows "\<exists>s'. i_sem (sem_undo_apply env k st) ! i = Some s' \<and> set_shape s' = set_shape s"
proof (cases "sem_find st (u_semid (undo_at st k))")
  case None
  then show ?thesis using assms by (simp add: sem_undo_apply_def sem_undo_free_def set_undo_def Let_def)
next
  case (Some j)
  obtain t where t: "j < length (i_sem st)" "i_sem st ! j = Some t" "sem_at st j = t"
    using sem_find_Some [OF Some] by blast
  obtain vs ls b where r: "undo_loop (u_pid (undo_at st k)) (u_adj (undo_at st k)) (s_val t) (s_lpid t) = (vs, ls, b)"
    by (cases "undo_loop (u_pid (undo_at st k)) (u_adj (undo_at st k)) (s_val t) (s_lpid t)")
  show ?thesis using assms t Some r
    by (cases "i = j") (simp_all add: sem_undo_apply_def sem_undo_free_def set_undo_def set_sem_def Let_def set_shape_def)
qed

lemma reclaim_slot:
  assumes "i < length (i_sem st)" "i_sem st ! i = Some s"
  shows "i < length (i_sem (sem_reclaim_set env j st)) \<and>
    (\<exists>s'. i_sem (sem_reclaim_set env j st) ! i = Some s' \<and> set_shape s' = set_shape s)"
proof -
  have "i < length (i_sem (fold (reclaim_row env P) ks t)) \<and>
    (\<exists>s'. i_sem (fold (reclaim_row env P) ks t) ! i = Some s' \<and> set_shape s' = set_shape s)"
    if "i < length (i_sem t)" "i_sem t ! i = Some x" "set_shape x = set_shape s" for P ks t x
    using that
  proof (induction ks arbitrary: t x)
    case (Cons k ks)
    have "\<exists>y. i_sem (reclaim_row env P k t) ! i = Some y \<and> set_shape y = set_shape s"
      using undo_apply_slot [OF Cons.prems(1,2), of env k] Cons.prems(2,3)
      by (auto simp: reclaim_row_def split: option.splits)
    moreover have "i < length (i_sem (reclaim_row env P k t))"
      using Cons.prems(1) by (simp add: reclaim_row_def sem_undo_apply_sems split: option.splits)
    ultimately show ?case using Cons.IH by auto
  qed auto
  then show ?thesis using assms by (simp add: sem_reclaim_set_def)
qed

lemma ipc_inv_set_sem:
  assumes "ipc_inv st" "i < length (i_sem st)" "i_sem st ! i = Some s0" "sem_ok s" "set_shape s = set_shape s0"
  shows "ipc_inv (set_sem i s st)"
  by (rule ipc_inv_sem [OF assms(1) sem_only_upd(1) _ shapes_set [OF assms(2,3,5)]])
    (use sem_inv_set_sem [OF _ assms(2-5)] assms(1) in \<open>simp_all add: ipc_inv_def set_sem_def\<close>)

lemma ipc_inv_undo_clear: "ipc_inv st \<Longrightarrow> ipc_inv (sem_undo_clear d n st)"
proof (rule ipc_inv_sem)
  show "sem_only st (sem_undo_clear d n st)" by simp
  show "shapes st \<subseteq> shapes (sem_undo_clear d n st)"
    by (simp add: sem_undo_clear_def shapes_def split: option.splits)
qed (simp_all add: ipc_inv_def sem_inv_undo_clear)

lemma ipc_inv_try_op:
  assumes "sem_try_op env si sops pid st = (r, i, st')" "ipc_inv st" "si < length (i_sem st)" "i_sem st ! si = Some s"
  shows "ipc_inv st'"
proof (rule ipc_inv_sem [OF assms(2)])
  have I: "sem_inv st" using assms(2) by (simp add: ipc_inv_def)
  show "sem_only st st'" using sem_only_try_op [of st env si sops pid] assms(1) by simp
  show "sem_inv st'" by (rule sem_inv_try_op [OF assms(1) I assms(3,4)])
  show "shapes st \<subseteq> shapes st'"
  proof (cases "r = 0")
    case True
    then have t: "sem_try_op env si sops pid st = (0, i, st')" using assms(1) by simp
    show ?thesis
      by (rule sem_try_op_done [OF t I assms(3,4)]) (rule shapes_set [OF assms(3,4)])
  next
    case False
    then show ?thesis using sem_try_op_rolls_back [OF assms(1) I assms(3,4)] by (simp add: shapes_def)
  qed
qed

lemma ipc_inv_sem_get:
  assumes "ipc_inv st" "i_tabs st" "sem_do_get env q st = (r, st')"
  shows "ipc_inv st'"
proof (rule ipc_inv_sem [OF assms(1)])
  show "sem_only st st'" using sem_only_do_get [of st env q] assms(3) by simp
  show "sem_inv st'" using sem_inv_do_get assms by (auto simp: ipc_inv_def)
  have cr: "shapes st \<subseteq> shapes (snd (sem_create env q st))"
  proof -
    have "shapes st \<subseteq> shapes (set_sem k x (st\<lparr>i_next_semid := n\<rparr>))" if "free_slot (i_sem st) = Some k" for k x n
    proof
      fix y assume "y \<in> shapes st"
      then obtain z where z: "z \<in> rows (i_sem st)" "y = (s_semid z, s_nsems z)" by (auto simp: shapes_def)
      obtain j where j: "j < length (i_sem st)" "i_sem st ! j = Some z" using rows_ex [OF z(1)] by (elim exE conjE)
      have "j \<noteq> k" using free_slot_Some [OF that] j by auto
      then have "z \<in> rows ((i_sem st)[k := Some x])" using j by (intro rows_nth [of j]) simp_all
      then show "y \<in> shapes (set_sem k x (st\<lparr>i_next_semid := n\<rparr>))" using z(2) by (auto simp: shapes_def set_sem_def)
    qed
    then show ?thesis
      by (simp add: sem_create_def Let_def split: option.splits prod.splits) (simp add: shapes_def)
  qed
  show "shapes st \<subseteq> shapes st'"
  proof (cases "r_key q \<noteq> 0 \<and> find_row (\<lambda>s. s_key s = r_key q) (i_sem st) \<noteq> None")
    case True
    then obtain i where i: "find_row (\<lambda>s. s_key s = r_key q) (i_sem st) = Some i" by blast
    then obtain s where s: "i < length (i_sem st)" "i_sem st ! i = Some s" using find_row_Some by blast
    have "shapes st \<subseteq> shapes (set_sem i (s\<lparr>s_tpid := r_pid q\<rparr>) st)"
      by (rule shapes_set [OF s]) (simp_all add: set_shape_def set_sem_def)
    then show ?thesis
      using True i s assms(3) by (auto simp: sem_do_get_def Let_def sem_at_def split: if_splits)
  next
    case False
    then show ?thesis using cr assms(3) by (auto simp: sem_do_get_def split: if_splits)
  qed
qed

section \<open>Operations on queues\<close>

lemma ipc_inv_msg:
  assumes "ipc_inv st" "msg_inv st'" "msq_ids st \<subseteq> msq_ids st'"
    "i_wait st' = i_wait st" "i_seq st' = i_seq st" "i_nwait st' = i_nwait st" "i_tabs st' = i_tabs st"
    "i_sem st' = i_sem st" "i_undo st' = i_undo st" "i_nundo st' = i_nundo st" "i_next_semid st' = i_next_semid st"
  shows "ipc_inv st'"
proof -
  have "wait_inv st'" by (rule wait_inv_frame [of st]) (use assms in \<open>simp_all add: ipc_inv_def shapes_def\<close>)
  moreover have "sem_inv st'" using assms sem_inv_cong [of st st'] by (simp add: ipc_inv_def)
  ultimately show ?thesis using assms(2) by (simp add: ipc_inv_def)
qed

lemma msq_ids_set:
  assumes "i < length (i_msq st)" "i_msq st ! i = Some q0" "q_msqid q = q_msqid q0"
  shows "msq_ids st \<subseteq> msq_ids (set_msq i (Some q) st)"
proof
  fix x assume "x \<in> msq_ids st"
  then obtain z where z: "z \<in> rows (i_msq st)" "x = q_msqid z" by (auto simp: msq_ids_def)
  from rows_same [of i "i_msq st" q0 q_msqid q, OF assms z(1)]
  obtain z' where "z' \<in> rows ((i_msq st)[i := Some q])" "q_msqid z' = q_msqid z" by blast
  then show "x \<in> msq_ids (set_msq i (Some q) st)" unfolding msq_ids_def set_msq_def
    using z(2) by (intro image_eqI [of _ _ z']) simp_all
qed

lemma ipc_inv_set_msq:
  assumes "ipc_inv st" "i < length (i_msq st)" "i_msq st ! i = Some q0" "msq_ok q" "msq_shape q = msq_shape q0"
  shows "ipc_inv (set_msq i (Some q) st)"
proof (rule ipc_inv_msg [OF assms(1)])
  show "msg_inv (set_msq i (Some q) st)" using msg_inv_set [OF _ assms(2-5)] assms(1) by (simp add: ipc_inv_def)
  show "msq_ids st \<subseteq> msq_ids (set_msq i (Some q) st)"
    by (rule msq_ids_set [OF assms(2,3)]) (use assms(5) in \<open>simp add: msq_shape_def\<close>)
qed (simp_all add: set_msq_def)

lemma ipc_inv_msg_get:
  assumes "ipc_inv st" "i_tabs st" "msg_do_get env q st = (r, st')"
  shows "ipc_inv st'"
proof -
  have I: "msg_inv st'" using msg_inv_do_get assms by (auto simp: ipc_inv_def)
  show ?thesis
  proof (cases "r_key q \<noteq> 0 \<and> find_row (\<lambda>s. q_key s = r_key q) (i_msq st) \<noteq> None")
    case True
    then obtain i where i: "find_row (\<lambda>s. q_key s = r_key q) (i_msq st) = Some i" by blast
    then obtain m where m: "i < length (i_msq st)" "i_msq st ! i = Some m" using find_row_Some by blast
    have "ipc_inv (set_msq i (Some (m\<lparr>q_tpid := r_pid q\<rparr>)) st)"
      by (rule ipc_inv_set_msq [OF assms(1) m])
        (use msg_inv_row(1) [OF _ m] assms(1) in \<open>simp_all add: ipc_inv_def msq_ok_def msq_shape_def\<close>)
    then show ?thesis
      using True i m assms(1,3) by (auto simp: msg_do_get_def Let_def msq_at_def split: if_splits)
  next
    case False
    then have "st' = st \<or> st' = snd (msg_create env q st)"
      using assms(3) by (auto simp: msg_do_get_def split: if_splits)
    moreover have "msq_ids st \<subseteq> msq_ids (set_msq k x (st\<lparr>i_next_msqid := n\<rparr>))"
      if "free_slot (i_msq st) = Some k" for k x n
    proof
      fix y assume "y \<in> msq_ids st"
      then obtain z where z: "z \<in> rows (i_msq st)" "y = q_msqid z" by (auto simp: msq_ids_def)
      obtain j where j: "j < length (i_msq st)" "i_msq st ! j = Some z" using rows_ex [OF z(1)] by (elim exE conjE)
      have "j \<noteq> k" using free_slot_Some [OF that] j by auto
      then have "z \<in> rows ((i_msq st)[k := x])" using j by (intro rows_nth [of j]) simp_all
      then show "y \<in> msq_ids (set_msq k x (st\<lparr>i_next_msqid := n\<rparr>))" using z(2) by (auto simp: msq_ids_def set_msq_def)
    qed
    then have "msq_ids st \<subseteq> msq_ids (snd (msg_create env q st))"
      by (simp add: msg_create_def split: option.splits prod.splits) (simp add: msq_ids_def)
    ultimately have "msq_ids st \<subseteq> msq_ids st'" by auto
    moreover have "st' = st \<or> i_wait st' = i_wait st \<and> i_seq st' = i_seq st \<and> i_nwait st' = i_nwait st \<and>
        i_tabs st' = i_tabs st \<and> i_sem st' = i_sem st \<and> i_undo st' = i_undo st \<and> i_nundo st' = i_nundo st \<and>
        i_next_semid st' = i_next_semid st"
      using \<open>st' = st \<or> st' = snd (msg_create env q st)\<close>
      by (auto simp: msg_create_def set_msq_def split: option.splits prod.splits)
    ultimately show ?thesis using ipc_inv_msg [OF assms(1) I] assms(1) by auto
  qed
qed

section \<open>Operations on sleepers\<close>

lemma ipc_inv_waiter_free:
  assumes "ipc_inv st" "i < length (i_wait st)" "i_wait st ! i = Some w"
  shows "ipc_inv (waiter_free i st)"
proof -
  have W: "wait_inv st" using assms(1) by (simp add: ipc_inv_def)
  note I = W [unfolded wait_inv_def]
  have ids: "shapes (waiter_free i st) = shapes st" "msq_ids (waiter_free i st) = msq_ids st"
    by (simp_all add: shapes_def msq_ids_def)
  have "\<forall>w\<in>rows ((i_wait st)[i := None]). waiter_ok (shapes st) (msq_ids st) w \<and> 0 < w_seq w \<and> w_seq w < i_seq st"
    by (rule rows_upd_ball) (use I in auto)
  moreover have "int (n_used ((i_wait st)[i := None])) = i_nwait st - 1"
    using n_used_upd [OF assms(2), of None] assms(3) I by simp
  moreover have "i_tabs st" using I rows_nth [OF assms(2,3)] by auto
  ultimately have "wait_inv (waiter_free i st)"
    using I uniq_by_clear [of w_seq "i_wait st" i] by (simp add: wait_inv_def ids)
  moreover have "sem_inv (waiter_free i st)" using sem_inv_cong [of "waiter_free i st" st] assms(1) by (simp add: ipc_inv_def)
  moreover have "msg_inv (waiter_free i st)" using msg_inv_cong [of "waiter_free i st" st] assms(1) by (simp add: ipc_inv_def)
  ultimately show ?thesis by (simp add: ipc_inv_def)
qed

lemma ipc_inv_emit [simp]: "ipc_inv (emit e st) = ipc_inv st"
  by (simp add: ipc_inv_def sem_inv_def msg_inv_def wait_inv_def emit_def shapes_def msq_ids_def)

lemma ipc_inv_waiter_reply:
  "ipc_inv st \<Longrightarrow> i < length (i_wait st) \<Longrightarrow> i_wait st ! i = Some w \<Longrightarrow> ipc_inv (waiter_reply i r p st)"
  unfolding waiter_reply_def by (rule ipc_inv_waiter_free) (simp_all, simp_all add: emit_def)

lemma ipc_inv_waiter_upd:
  assumes "ipc_inv st" "i < length (i_wait st)" "i_wait st ! i = Some w" "waiter_ok (shapes st) (msq_ids st) w'"
    "w_seq w' = w_seq w"
  shows "ipc_inv (st\<lparr>i_wait := (i_wait st)[i := Some w']\<rparr>)"
proof -
  have W: "wait_inv st" using assms(1) by (simp add: ipc_inv_def)
  note I = W [unfolded wait_inv_def]
  let ?t = "st\<lparr>i_wait := (i_wait st)[i := Some w']\<rparr>"
  have ids: "shapes ?t = shapes st" "msq_ids ?t = msq_ids st" by (simp_all add: shapes_def msq_ids_def)
  have w: "w \<in> rows (i_wait st)" by (rule rows_nth [OF assms(2,3)])
  have "\<forall>w\<in>rows ((i_wait st)[i := Some w']). waiter_ok (shapes st) (msq_ids st) w \<and> 0 < w_seq w \<and> w_seq w < i_seq st"
    by (rule rows_upd_ball) (use I w assms(4,5) in auto)
  moreover have "n_used ((i_wait st)[i := Some w']) = n_used (i_wait st)"
    using n_used_upd [OF assms(2), of "Some w'"] assms(3) by simp
  moreover have "uniq_by w_seq ((i_wait st)[i := Some w'])"
    by (rule uniq_by_same [OF _ assms(2,3)]) (use I assms(5) in simp_all)
  moreover have "i_tabs st" using I w by auto
  ultimately have "wait_inv ?t" using I by (simp add: wait_inv_def ids)
  moreover have "sem_inv ?t" using sem_inv_cong [of ?t st] assms(1) by (simp add: ipc_inv_def)
  moreover have "msg_inv ?t" using msg_inv_cong [of ?t st] assms(1) by (simp add: ipc_inv_def)
  ultimately show ?thesis by (simp add: ipc_inv_def)
qed

lemma ipc_inv_park:
  assumes "waiter_park env cfd q sops blk msg st = Some st'" "ipc_inv st" "i_tabs st" "i_seq st \<noteq> - 1"
    "waiter_ok (shapes st) (msq_ids st) \<lparr>w_cfd = cfd, w_op = r_op q, w_id = r_id q, w_pid = r_pid q,
       w_start = e_start env (r_pid q), w_seq = i_seq st, w_deadline = deadline env (r_timeout q), w_sops = sops,
       w_blk = blk, w_msg = msg, w_msgtyp = r_mtype q, w_msgsz = r_size q, w_msgflg = r_arg q\<rparr>"
  shows "ipc_inv st'"
proof -
  let ?w = "\<lparr>w_cfd = cfd, w_op = r_op q, w_id = r_id q, w_pid = r_pid q, w_start = e_start env (r_pid q),
       w_seq = i_seq st, w_deadline = deadline env (r_timeout q), w_sops = sops,
       w_blk = blk, w_msg = msg, w_msgtyp = r_mtype q, w_msgsz = r_size q, w_msgflg = r_arg q\<rparr>"
  obtain i where f: "free_slot (i_wait st) = Some i" using assms(1) by (auto simp: waiter_park_def split: option.splits)
  have i: "i < length (i_wait st)" "i_wait st ! i = None" using free_slot_Some [OF f] by blast+
  have st': "st' = st\<lparr>i_wait := (i_wait st)[i := Some ?w], i_seq := i_seq st + 1, i_nwait := i_nwait st + 1\<rparr>"
    using assms(1) f by (simp add: waiter_park_def)
  have W: "wait_inv st" using assms(2) by (simp add: ipc_inv_def)
  note I = W [unfolded wait_inv_def]
  have ids: "shapes st' = shapes st" "msq_ids st' = msq_ids st" by (simp_all add: st' shapes_def msq_ids_def)
  have "1 + i_seq st \<noteq> 0" using assms(4) by (metis add_eq_0_iff)
  then have lt: "i_seq st < i_seq st + 1" using unatSuc [of "i_seq st"] by (simp add: word_less_nat_alt add.commute)
  have "\<forall>w\<in>rows ((i_wait st)[i := Some ?w]). waiter_ok (shapes st) (msq_ids st) w \<and> 0 < w_seq w \<and> w_seq w < i_seq st + 1"
    by (rule rows_upd_ball) (use I lt assms(5) in \<open>auto intro: less_trans\<close>)
  moreover have "int (n_used ((i_wait st)[i := Some ?w])) = i_nwait st + 1"
    using n_used_upd [OF i(1), of "Some ?w"] i(2) I by simp
  moreover have "uniq_by w_seq ((i_wait st)[i := Some ?w])"
  proof (rule uniq_by_put)
    show "uniq_by w_seq (i_wait st)" using I by blast
    fix j y assume "j < length (i_wait st)" "i_wait st ! j = Some y"
    then have "y \<in> rows (i_wait st)" by (rule rows_nth)
    then show "w_seq y \<noteq> w_seq ?w" using I by auto
  qed
  moreover have "0 < i_seq st + 1" using I lt less_trans by blast
  ultimately have "wait_inv st'" using assms(3) unfolding wait_inv_def ids by (simp add: st')
  moreover have "sem_inv st'" using sem_inv_cong [of st' st] assms(2) by (simp add: ipc_inv_def st')
  moreover have "msg_inv st'" using msg_inv_cong [of st' st] assms(2) by (simp add: ipc_inv_def st')
  ultimately show ?thesis by (simp add: ipc_inv_def)
qed

lemma wait_row_ok:
  assumes "ipc_inv st" "i < length (i_wait st)" "i_wait st ! i = Some w"
  shows "waiter_ok (shapes st) (msq_ids st) w" "i_tabs st"
  using assms(1) rows_nth [OF assms(2,3)] by (auto simp: ipc_inv_def wait_inv_def)

lemma waiter_sem_found:
  assumes "ipc_inv st" "i < length (i_wait st)" "i_wait st ! i = Some w" "w_op w = SEMOP"
  obtains si s where "sem_find st (w_id w) = Some si" "si < length (i_sem st)" "i_sem st ! si = Some s"
    "sem_at st si = s" "\<forall>p\<in>set (w_sops w). sem_num p < s_nsems s" "w_blk w < length (w_sops w)"
proof -
  have k: "waiter_ok (shapes st) (msq_ids st) w" using wait_row_ok [OF assms(1-3)] by blast
  then obtain n where n: "(w_id w, n) \<in> shapes st" "\<forall>p\<in>set (w_sops w). sem_num p < n" "w_blk w < length (w_sops w)"
    using assms(4) by (auto simp: waiter_ok_def)
  then obtain s where s: "s \<in> rows (i_sem st)" "s_semid s = w_id w" "s_nsems s = n" by (auto simp: shapes_def)
  obtain si where si: "si < length (i_sem st)" "i_sem st ! si = Some s" using rows_ex [OF s(1)] by (elim exE conjE)
  have "sem_find st (w_id w) = Some si"
    using sem_find_uniq [OF _ si] assms(1) s(2) by (simp add: ipc_inv_def)
  then show ?thesis using that si n s(3) by (simp add: sem_at_def)
qed

lemma waiter_msq_found:
  assumes "ipc_inv st" "w_id w \<in> msq_ids st"
  obtains qi q where "msg_find st (w_id w) = Some qi" "qi < length (i_msq st)" "i_msq st ! qi = Some q"
    "msq_at st qi = q"
proof -
  obtain q where q: "q \<in> rows (i_msq st)" "q_msqid q = w_id w" using assms(2) by (auto simp: msq_ids_def)
  obtain qi where qi: "qi < length (i_msq st)" "i_msq st ! qi = Some q" using rows_ex [OF q(1)] by (elim exE conjE)
  have "msg_find st (w_id w) = Some qi" using msg_find_uniq [OF _ qi] assms(1) q(2) by (simp add: ipc_inv_def)
  then show ?thesis using that qi by (simp add: msq_at_def)
qed

end
