(* ===== verification/Ipc_Live.thy ===== *)
theory Ipc_Live
  imports Ipc_Inv
begin

text \<open>
  The rescan and the daemon's entry points. A visit keeps the invariant, and one that makes no progress
  shows that the sleeper cannot proceed; so when the outer loop stops, every sleeper left is blocked.
  The entry points, in any order and with any requests, keep the invariant from the empty registry on.
\<close>

section \<open>A sleeper that cannot proceed\<close>

definition sleeps :: "ipc \<Rightarrow> waiter \<Rightarrow> bool" where
  "sleeps st w =
     (case w_op w of
        SEMOP \<Rightarrow> (\<exists>si i vs. sem_find st (w_id w) = Some si \<and> i < length (w_sops w) \<and>
          \<not> flag_set (sem_flg (w_sops w ! i)) OP_NOWAIT \<and> blocks (w_sops w ! i) vs \<and>
          (\<forall>n < s_nsems (sem_at st si).
             vs ! n = s_val (sem_at st si) ! n + op_sum (take i (w_sops w)) n))
      | MSGSND \<Rightarrow> (\<exists>qi m. msg_find st (w_id w) = Some qi \<and> w_msg w = Some m \<and>
          \<not> msg_fits (msq_at st qi) (g_size m))
      | MSGRCV \<Rightarrow> (\<exists>qi. msg_find st (w_id w) = Some qi \<and>
          msg_pick (msq_at st qi) (w_msgtyp w) (w_msgflg w) = None)
      | _ \<Rightarrow> False)"

lemma sleeps_cong:
  assumes "i_sem a = i_sem b" "i_msq a = i_msq b" "i_tabs a = i_tabs b"
  shows "sleeps a w = sleeps b w"
proof -
  have "sem_find a = sem_find b" "msg_find a = msg_find b" "sem_at a = sem_at b" "msq_at a = msq_at b"
    by (intro ext, simp add: assms sem_find_def msg_find_def sem_at_def msq_at_def)+
  then show ?thesis by (simp only: sleeps_def)
qed

lemma sleeps_blk [simp]: "sleeps st (w\<lparr>w_blk := b\<rparr>) = sleeps st w"
  by (simp add: sleeps_def split: ipc_req.splits)

definition same_objects :: "ipc \<Rightarrow> ipc \<Rightarrow> bool" where
  "same_objects a b \<longleftrightarrow> i_sem a = i_sem b \<and> i_msq a = i_msq b \<and> i_tabs a = i_tabs b"

section \<open>One visit\<close>

lemma visit_semop_ok:
  assumes "ipc_inv st" "i < length (i_wait st)" "i_wait st ! i = Some w" "w_op w = SEMOP"
  shows "ipc_inv (snd (visit_semop env i st))"
    "\<not> fst (visit_semop env i st) \<Longrightarrow> sleeps st w \<and> same_objects (snd (visit_semop env i st)) st"
proof -
  obtain si s where s: "sem_find st (w_id w) = Some si" "si < length (i_sem st)" "i_sem st ! si = Some s"
    "sem_at st si = s" "\<forall>p\<in>set (w_sops w). sem_num p < s_nsems s" "w_blk w < length (w_sops w)"
    by (rule waiter_sem_found [OF assms])
  have at: "wait_at st i = w" using assms(3) by (simp add: wait_at_def)
  obtain t b st1 where r: "sem_try_op env si (w_sops w) (w_pid w) st = (t, b, st1)"
    by (cases "sem_try_op env si (w_sops w) (w_pid w) st")
  have I: "sem_inv st" using assms(1) by (simp add: ipc_inv_def)
  have so: "sem_only st st1" using sem_only_try_op [of st env si "w_sops w" "w_pid w"] r by simp
  have I1: "ipc_inv st1" by (rule ipc_inv_try_op [OF r assms(1) s(2,3)])
  have i1: "i < length (i_wait st1)" "i_wait st1 ! i = Some w" using assms(2,3) sem_only_fields(1) [OF so] by simp_all
  have blk: "b < length (w_sops w) \<and> \<not> flag_set (sem_flg (w_sops w ! b)) OP_NOWAIT \<and>
      (\<exists>vs. blocks (w_sops w ! b) vs \<and> (\<forall>n < s_nsems s. vs ! n = s_val s ! n + op_sum (take b (w_sops w)) n))"
    if "t = 1" using r I s(2,3) by (cases rule: sem_try_op_cases) (use that in \<open>simp_all add: errno_simps\<close>)
  let ?w = "w\<lparr>w_blk := if t = 1 then b else w_blk w\<rparr>"
  let ?t = "st1\<lparr>i_wait := (i_wait st1)[i := Some ?w]\<rparr>"
  have "waiter_ok (shapes st1) (msq_ids st1) ?w"
    using wait_row_ok(1) [OF I1 i1] blk assms(4) by (auto simp: waiter_ok_def)
  then have It: "ipc_inv ?t" by (rule ipc_inv_waiter_upd [OF I1 i1]) simp
  have e: "visit_semop env i st = (if t = 1 then (False, ?t) else (True, waiter_reply i (resp t) [] ?t))"
    unfolding visit_semop_def Let_def at s(1) option.case r by simp
  show "ipc_inv (snd (visit_semop env i st))"
    using It ipc_inv_waiter_reply [OF It, of i ?w] i1(1) by (cases "t = 1") (simp_all add: e)
  show "sleeps st w \<and> same_objects (snd (visit_semop env i st)) st" if "\<not> fst (visit_semop env i st)"
  proof -
    have t: "t = 1" using that by (simp add: e split: if_splits)
    have "i_sem st1 = i_sem st"
      using sem_try_op_rolls_back [OF r I s(2,3)] t by simp
    moreover have "i_msq st1 = i_msq st" "i_tabs st1 = i_tabs st" using sem_only_fields [OF so] by simp_all
    ultimately have "same_objects (snd (visit_semop env i st)) st" using t by (simp add: e same_objects_def)
    moreover have "sleeps st w" using blk [OF t] s(1,4) assms(4) by (auto simp: sleeps_def)
    ultimately show ?thesis by blast
  qed
qed

lemma visit_msgsnd_ok:
  assumes "ipc_inv st" "i < length (i_wait st)" "i_wait st ! i = Some w" "w_op w = MSGSND"
  shows "ipc_inv (snd (visit_msgsnd env i st))"
    "\<not> fst (visit_msgsnd env i st) \<Longrightarrow> sleeps st w \<and> same_objects (snd (visit_msgsnd env i st)) st"
proof -
  have k: "w_id w \<in> msq_ids st" "\<exists>m. w_msg w = Some m \<and> g_size m \<le> CNG_MSGMAX \<and> 0 < g_mtype m"
    using wait_row_ok(1) [OF assms(1-3)] assms(4) by (simp_all add: waiter_ok_def)
  obtain m where m: "w_msg w = Some m" "g_size m \<le> CNG_MSGMAX" "0 < g_mtype m" using k(2) by blast
  obtain qi q where q: "msg_find st (w_id w) = Some qi" "qi < length (i_msq st)" "i_msq st ! qi = Some q"
    "msq_at st qi = q" by (rule waiter_msq_found [OF assms(1) k(1)])
  have at: "wait_at st i = w" using assms(3) by (simp add: wait_at_def)
  let ?q = "msg_enqueue env q m (w_pid w)"
  let ?t = "(set_msq qi (Some ?q) st)\<lparr>i_wait := (i_wait st)[i := Some (w\<lparr>w_msg := None\<rparr>)]\<rparr>"
  have e: "visit_msgsnd env i st =
      (if \<not> msg_fits q (g_size m) then (False, st) else (True, waiter_reply i (resp 0) [] ?t))"
    unfolding visit_msgsnd_def Let_def at q(1) option.case q(4) by (simp add: m)
  have qo: "msq_ok q" using msg_inv_row(1) [OF _ q(2,3)] assms(1) by (simp add: ipc_inv_def)
  have I1: "ipc_inv (set_msq qi (Some ?q) st)"
    by (rule ipc_inv_set_msq [OF assms(1) q(2,3) msq_ok_enqueue [OF qo m(2,3)]]) (simp add: msq_shape_def msg_enqueue_def)
  have f: "waiter_reply i (resp 0) [] ?t = waiter_reply i (resp 0) [] (set_msq qi (Some ?q) st)"
    by (simp add: waiter_reply_def waiter_free_def wait_at_def emit_def Let_def set_msq_def assms(2,3))
  show "ipc_inv (snd (visit_msgsnd env i st))"
    using assms(1) ipc_inv_waiter_reply [OF I1, of i w "resp 0" "[]"] assms(2,3) f by (simp add: e set_msq_def)
  show "sleeps st w \<and> same_objects (snd (visit_msgsnd env i st)) st" if "\<not> fst (visit_msgsnd env i st)"
    using that q(1,4) m(1) assms(4) by (simp add: e sleeps_def same_objects_def split: if_splits)
qed

lemma visit_msgrcv_ok:
  assumes "ipc_inv st" "i < length (i_wait st)" "i_wait st ! i = Some w" "w_op w = MSGRCV"
  shows "ipc_inv (snd (visit_msgrcv env i st))"
    "\<not> fst (visit_msgrcv env i st) \<Longrightarrow> sleeps st w \<and> same_objects (snd (visit_msgrcv env i st)) st"
proof -
  have k: "w_id w \<in> msq_ids st" using wait_row_ok(1) [OF assms(1-3)] assms(4) by (simp add: waiter_ok_def)
  obtain qi q where q: "msg_find st (w_id w) = Some qi" "qi < length (i_msq st)" "i_msq st ! qi = Some q"
    "msq_at st qi = q" by (rule waiter_msq_found [OF assms(1) k])
  have at: "wait_at st i = w" using assms(3) by (simp add: wait_at_def)
  have qo: "msq_ok q" using msg_inv_row(1) [OF _ q(2,3)] assms(1) by (simp add: ipc_inv_def)
  show "ipc_inv (snd (visit_msgrcv env i st))"
  proof (cases "msg_pick q (w_msgtyp w) (w_msgflg w)")
    case None
    then show ?thesis using assms(1) by (simp add: visit_msgrcv_def Let_def at q)
  next
    case (Some p)
    obtain j m where p: "p = (j, m)" by (cases p)
    have jm: "j < length (q_msgs q)" "q_msgs q ! j = m"
      using msg_pick_choice [of "w_msgtyp w" "w_msgflg w" q] Some p by (simp_all add: choice_def)
    let ?q = "(msg_unlink q j m)\<lparr>q_lrpid := w_pid w, q_rtime := e_now env, q_tpid := w_pid w\<rparr>"
    have "msq_ok ?q" using msq_ok_unlink [OF qo jm] by (simp add: msq_ok_def)
    then have I1: "ipc_inv (set_msq qi (Some ?q) st)"
      by (rule ipc_inv_set_msq [OF assms(1) q(2,3)]) (simp add: msq_shape_def msg_unlink_def)
    have "ipc_inv (waiter_reply i r d (set_msq qi (Some ?q) st))" for r d
      by (rule ipc_inv_waiter_reply [OF I1, of i w]) (use assms(2,3) in \<open>simp_all add: set_msq_def\<close>)
    moreover have "ipc_inv (waiter_reply i r d st)" for r d by (rule ipc_inv_waiter_reply [OF assms(1-3)])
    ultimately show ?thesis using Some p by (simp add: visit_msgrcv_def Let_def at q msg_grant_rcv_def)
  qed
  show "sleeps st w \<and> same_objects (snd (visit_msgrcv env i st)) st" if "\<not> fst (visit_msgrcv env i st)"
    using that q(1,4) assms(4)
    by (auto simp: visit_msgrcv_def Let_def at q sleeps_def same_objects_def split: option.splits if_splits)
qed

lemma waiter_op_cases:
  assumes "ipc_inv st" "i < length (i_wait st)" "i_wait st ! i = Some w"
  obtains "w_op w = SEMOP" | "w_op w = MSGSND" | "w_op w = MSGRCV"
  using wait_row_ok(1) [OF assms] by (auto simp: waiter_ok_def split: ipc_req.splits)

lemma visit_ok:
  assumes "ipc_inv st" "i < length (i_wait st)" "i_wait st ! i = Some w"
  shows "ipc_inv (snd (visit env i st))"
    "\<not> fst (visit env i st) \<Longrightarrow> sleeps st w \<and> same_objects (snd (visit env i st)) st"
proof -
  have at: "wait_at st i = w" using assms(3) by (simp add: wait_at_def)
  show "ipc_inv (snd (visit env i st))"
    by (rule waiter_op_cases [OF assms])
      (use visit_semop_ok(1) [OF assms] visit_msgsnd_ok(1) [OF assms] visit_msgrcv_ok(1) [OF assms] in
        \<open>simp_all add: visit_def at\<close>)
  assume n: "\<not> fst (visit env i st)"
  show "sleeps st w \<and> same_objects (snd (visit env i st)) st"
    by (rule waiter_op_cases [OF assms])
      (use n visit_semop_ok(2) [OF assms] visit_msgsnd_ok(2) [OF assms] visit_msgrcv_ok(2) [OF assms] in
        \<open>simp_all add: visit_def at\<close>)
qed

section \<open>The rescan\<close>

lemma scan_next_min:
  "scan_next l ws i best = r \<Longrightarrow>
   (\<forall>w\<in>rows ws. l < w_seq w \<longrightarrow> (\<exists>j s. r = Some (j, s) \<and> s \<le> w_seq w)) \<and>
   (\<forall>j s. best = Some (j, s) \<longrightarrow> (\<exists>j' s'. r = Some (j', s') \<and> s' \<le> s))"
proof (induction l ws i best arbitrary: r rule: scan_next.induct)
  case (3 l w ws i best)
  let ?b = "if w_seq w > l \<and> (case best of None \<Rightarrow> True | Some (_, s) \<Rightarrow> w_seq w < s)
        then Some (i, w_seq w) else best"
  have ih: "(\<forall>w\<in>rows ws. l < w_seq w \<longrightarrow> (\<exists>j s. r = Some (j, s) \<and> s \<le> w_seq w)) \<and>
   (\<forall>j s. ?b = Some (j, s) \<longrightarrow> (\<exists>j' s'. r = Some (j', s') \<and> s' \<le> s))"
    by (rule "3.IH") (use "3.prems" in \<open>simp only: scan_next.simps\<close>)
  have w: "\<exists>j s. ?b = Some (j, s) \<and> s \<le> w_seq w" if "l < w_seq w"
    using that by (cases best) auto
  have b: "\<exists>j' s'. ?b = Some (j', s') \<and> s' \<le> s" if "best = Some (j, s)" for j s
    using that by auto
  show ?case using ih w b by (fastforce intro: order_trans)
qed auto

lemma next_waiter_None: "next_waiter l st = None \<Longrightarrow> w \<in> rows (i_wait st) \<Longrightarrow> \<not> l < w_seq w"
  using scan_next_min [of l "i_wait st" 0 None] by (auto simp: next_waiter_def)

lemma next_waiter_min:
  assumes "next_waiter l st = Some i" "x \<in> rows (i_wait st)" "l < w_seq x"
  shows "w_seq (wait_at st i) \<le> w_seq x"
proof -
  obtain s where s: "scan_next l (i_wait st) 0 None = Some (i, s)" using assms(1) by (auto simp: next_waiter_def)
  have "wait_at st i = w \<Longrightarrow> w_seq w = s" for w using scan_next_Some [OF s] by (auto simp: wait_at_def)
  then show ?thesis using scan_next_min [OF s] assms(2,3) by auto
qed

lemma rescan_pass_True: "fst (rescan_pass env l True st)"
proof (induction env l "True" st rule: rescan_pass.induct)
  case (1 env l st)
  show ?case
  proof (cases "next_waiter l st")
    case None
    then show ?thesis by (simp add: rescan_pass.simps [of env l])
  next
    case (Some i)
    obtain p st' where v: "visit env i st = (p, st')" by (cases "visit env i st")
    show ?thesis using "1.hyps" [OF Some v [symmetric]] by (simp add: rescan_pass.simps [of env l] Some v)
  qed
qed

lemma rescan_pass_inv: "ipc_inv st \<Longrightarrow> ipc_inv (snd (rescan_pass env l p st))"
proof (induction env l p st rule: rescan_pass.induct)
  case (1 env l p st)
  show ?case
  proof (cases "next_waiter l st")
    case None
    then show ?thesis using "1.prems" by (simp add: rescan_pass.simps [of env l])
  next
    case (Some i)
    obtain w where w: "i < length (i_wait st)" "i_wait st ! i = Some w" using next_waiter_Some [OF Some] by blast
    obtain p1 st' where v: "visit env i st = (p1, st')" by (cases "visit env i st")
    have "ipc_inv st'" using visit_ok(1) [OF "1.prems" w, of env] v by simp
    then show ?thesis using "1.IH" [OF Some v [symmetric]] by (simp add: rescan_pass.simps [of env l] Some v)
  qed
qed

definition unblk :: "waiter \<Rightarrow> waiter" where
  "unblk w = w\<lparr>w_blk := 0\<rparr>"

lemma unblk_simps [simp]:
  "unblk (w\<lparr>w_blk := b\<rparr>) = unblk w" "w_seq (unblk w) = w_seq w" "sleeps st (unblk w) = sleeps st w"
  by (simp_all add: unblk_def)

lemma rescan_pass_quiet:
  assumes "ipc_inv st" "\<not> fst (rescan_pass env l p st)"
  shows "same_objects (snd (rescan_pass env l p st)) st \<and>
    map (map_option unblk) (i_wait (snd (rescan_pass env l p st))) = map (map_option unblk) (i_wait st) \<and>
    (\<forall>w\<in>rows (i_wait st). l < w_seq w \<longrightarrow> sleeps st w)"
  using assms
proof (induction env l p st rule: rescan_pass.induct)
  case (1 env l p st)
  show ?case
  proof (cases "next_waiter l st")
    case None
    then show ?thesis using next_waiter_None [OF None]
      by (auto simp: rescan_pass.simps [of env l] same_objects_def)
  next
    case (Some i)
    obtain w where w: "i < length (i_wait st)" "i_wait st ! i = Some w" "l < w_seq w" "wait_at st i = w"
      using next_waiter_Some [OF Some] by blast
    obtain p1 st1 where v: "visit env i st = (p1, st1)" by (cases "visit env i st")
    have e: "rescan_pass env l p st = rescan_pass env (w_seq w) (p \<or> p1) st1"
      by (simp add: rescan_pass.simps [of env l] Some v w(4))
    have np: "\<not> p1" using "1.prems"(2) rescan_pass_True [of env "w_seq w" st1] unfolding e by (cases p1) auto
    have o1: "sleeps st w" "same_objects st1 st" and I1: "ipc_inv st1"
      using visit_ok [OF "1.prems"(1) w(1,2), of env] v np by auto
    obtain b where b: "i_wait st1 = (i_wait st)[i := Some (w\<lparr>w_blk := b\<rparr>)]"
      using visit_wait [OF w(1,2), of env] v np by auto
    have m1: "map (map_option unblk) (i_wait st1) = map (map_option unblk) (i_wait st)"
      using w(1,2) by (intro nth_equalityI) (auto simp: b nth_list_update)
    have ih: "same_objects (snd (rescan_pass env (w_seq w) (p \<or> p1) st1)) st1 \<and>
      map (map_option unblk) (i_wait (snd (rescan_pass env (w_seq w) (p \<or> p1) st1))) =
        map (map_option unblk) (i_wait st1) \<and> (\<forall>x\<in>rows (i_wait st1). w_seq w < w_seq x \<longrightarrow> sleeps st1 x)"
      using "1.IH" [OF Some v [symmetric] I1] "1.prems"(2) unfolding e w(4) by blast
    have "sleeps st x" if x: "x \<in> rows (i_wait st)" "l < w_seq x" for x
    proof -
      obtain j where j: "j < length (i_wait st)" "i_wait st ! j = Some x" using rows_ex [OF x(1)] by (elim exE conjE)
      show ?thesis
      proof (cases "j = i")
        case True
        then show ?thesis using j w(2) o1(1) by simp
      next
        case False
        have "uniq_by w_seq (i_wait st)" using "1.prems"(1) by (simp add: ipc_inv_def wait_inv_def)
        then have "w_seq x \<noteq> w_seq w" using uniq_byD [of w_seq "i_wait st" j i x w] j w(1,2) False by blast
        moreover have "w_seq w \<le> w_seq x" using next_waiter_min [OF Some x] w(4) by simp
        ultimately have lt: "w_seq w < w_seq x" by simp
        have "x \<in> rows (i_wait st1)" using j False b by (intro rows_nth [of j]) simp_all
        then have "sleeps st1 x" using ih lt by blast
        then show ?thesis using sleeps_cong [of st1 st x] o1(2) by (simp add: same_objects_def)
      qed
    qed
    then show ?thesis unfolding e using ih m1 o1(2) by (simp add: same_objects_def)
  qed
qed

lemma rescan_loop_ok:
  "ipc_inv st \<Longrightarrow> ipc_inv (rescan_loop env st) \<and> (\<forall>w\<in>rows (i_wait (rescan_loop env st)). sleeps (rescan_loop env st) w)"
proof (induction env st rule: rescan_loop.induct)
  case (1 env st)
  show ?case
  proof (cases "i_nwait st = 0")
    case True
    have "n_used (i_wait st) = 0" using True "1.prems" by (simp add: ipc_inv_def wait_inv_def)
    then have "rows (i_wait st) = {}" unfolding n_used_def rows_def by (simp add: filter_empty_conv) blast
    then show ?thesis using True "1.prems" by (simp add: rescan_loop.simps [of env st])
  next
    case False
    obtain p st1 where r: "rescan_pass env 0 False st = (p, st1)" by (cases "rescan_pass env 0 False st")
    have I1: "ipc_inv st1" using rescan_pass_inv [OF "1.prems", of env 0 False] r by simp
    show ?thesis
    proof (cases p)
      case True
      then show ?thesis using "1.IH" [OF False r [symmetric] _ I1] False r by (simp add: rescan_loop.simps [of env st])
    next
      case np: False
      have q: "same_objects st1 st" "map (map_option unblk) (i_wait st1) = map (map_option unblk) (i_wait st)"
        "\<forall>w\<in>rows (i_wait st). 0 < w_seq w \<longrightarrow> sleeps st w"
        using rescan_pass_quiet [OF "1.prems", of env 0 False] r np by auto
      have "sleeps st1 w" if "w \<in> rows (i_wait st1)" for w
      proof -
        have "unblk w \<in> rows (map (map_option unblk) (i_wait st))" using that unfolding q(2) [symmetric] rows_map by blast
        then obtain x where x: "x \<in> rows (i_wait st)" "unblk w = unblk x" unfolding rows_map by auto
        have "0 < w_seq x" using x(1) "1.prems" by (simp add: ipc_inv_def wait_inv_def)
        then have "sleeps st x" using q(3) x(1) by blast
        then have "sleeps st (unblk w)" using x(2) by (metis unblk_simps(3))
        then show ?thesis using sleeps_cong [of st1 st w] q(1) by (simp add: same_objects_def)
      qed
      then show ?thesis using False r np I1 by (simp add: rescan_loop.simps [of env st])
    qed
  qed
qed

lemma rescan_ok:
  assumes "ipc_inv st"
  shows "ipc_inv (cng_ipc_rescan env st)" "\<forall>w\<in>rows (i_wait (cng_ipc_rescan env st)). sleeps (cng_ipc_rescan env st) w"
proof -
  have "rows (i_wait st) = {}" if "\<not> i_tabs st" using assms that by (simp add: ipc_inv_def wait_inv_def)
  then show "ipc_inv (cng_ipc_rescan env st)"
    "\<forall>w\<in>rows (i_wait (cng_ipc_rescan env st)). sleeps (cng_ipc_rescan env st) w"
    using rescan_loop_ok [OF assms, of env] assms by (auto simp: cng_ipc_rescan_def)
qed

section \<open>Sweeps over the sleepers\<close>

text \<open>A sweep visits every slot once, and either leaves it or frees it.\<close>

definition frees :: "(waiter \<Rightarrow> bool) \<Rightarrow> (nat \<Rightarrow> ipc \<Rightarrow> ipc) \<Rightarrow> bool" where
  "frees P f \<longleftrightarrow> (\<forall>i st. case i_wait st ! i of
     None \<Rightarrow> f i st = st
   | Some w \<Rightarrow> if P w then (f i st = waiter_free i st \<or> (\<exists>r d. f i st = waiter_reply i r d st)) else f i st = st)"

lemma frees_slot_conj:
  assumes "frees P f" "ipc_inv st" "i < length (i_wait st)"
  shows "ipc_inv (f i st) \<and> i_wait (f i st) = (i_wait st)[i := (case i_wait st ! i of None \<Rightarrow> None
      | Some w \<Rightarrow> if P w then None else Some w)] \<and> same_objects (f i st) st \<and> i_seq (f i st) = i_seq st"
proof -
  note a = assms(1) [unfolded frees_def, rule_format, of i st]
  have id: "(i_wait st)[i := i_wait st ! i] = i_wait st" by simp
  consider (stay) "f i st = st" "(case i_wait st ! i of None \<Rightarrow> True | Some w \<Rightarrow> \<not> P w)"
    | (go) w where "i_wait st ! i = Some w" "P w" "f i st = waiter_free i st \<or> (\<exists>r d. f i st = waiter_reply i r d st)"
  proof (cases "i_wait st ! i")
    case None
    then show ?thesis using a stay by simp
  next
    case (Some w)
    then show ?thesis using a stay go [of w] by (cases "P w") simp_all
  qed
  then show ?thesis
  proof cases
    case stay
    then show ?thesis using assms(2) id by (cases "i_wait st ! i") (simp_all add: same_objects_def)
  next
    case go
    then show ?thesis
      using ipc_inv_waiter_free [OF assms(2,3) go(1)] ipc_inv_waiter_reply [OF assms(2,3) go(1)]
      by (elim disjE exE) (simp_all add: same_objects_def)
  qed
qed

lemmas frees_slot = frees_slot_conj [THEN conjunct1] frees_slot_conj [THEN conjunct2, THEN conjunct1]
  frees_slot_conj [THEN conjunct2, THEN conjunct2, THEN conjunct1]
  frees_slot_conj [THEN conjunct2, THEN conjunct2, THEN conjunct2]

lemma frees_all:
  assumes "frees P f" "ipc_inv st" "n \<le> length (i_wait st)"
  shows "ipc_inv (fold f [0..<n] st) \<and> length (i_wait (fold f [0..<n] st)) = length (i_wait st) \<and>
    same_objects (fold f [0..<n] st) st \<and> i_seq (fold f [0..<n] st) = i_seq st \<and>
    (\<forall>k<length (i_wait st). i_wait (fold f [0..<n] st) ! k =
       (if k < n then (case i_wait st ! k of None \<Rightarrow> None | Some w \<Rightarrow> if P w then None else Some w)
        else i_wait st ! k))"
  using assms(3)
proof (induction n)
  case 0
  then show ?case using assms(2) by (simp add: same_objects_def)
next
  case (Suc n)
  let ?t = "fold f [0..<n] st"
  have ih: "ipc_inv ?t" "length (i_wait ?t) = length (i_wait st)" "same_objects ?t st" "i_seq ?t = i_seq st"
    "\<forall>k<length (i_wait st). i_wait ?t ! k = (if k < n then (case i_wait st ! k of None \<Rightarrow> None
       | Some w \<Rightarrow> if P w then None else Some w) else i_wait st ! k)"
    using Suc by simp_all
  have n: "n < length (i_wait ?t)" using Suc.prems ih(2) by simp
  have nn: "i_wait ?t ! n = i_wait st ! n" using ih(5) Suc.prems by simp
  have step: "fold f [0..<Suc n] st = f n ?t" by simp
  have w: "i_wait (f n ?t) = (i_wait ?t)[n := (case i_wait st ! n of None \<Rightarrow> None
      | Some w \<Rightarrow> if P w then None else Some w)]" using frees_slot(2) [OF assms(1) ih(1) n] nn by simp
  have "i_wait (f n ?t) ! k = (if k < Suc n then (case i_wait st ! k of None \<Rightarrow> None
       | Some w \<Rightarrow> if P w then None else Some w) else i_wait st ! k)" if "k < length (i_wait st)" for k
    using ih(5) that n ih(2) unfolding w by (cases "k = n") (auto simp: less_Suc_eq)
  then show ?case unfolding step
    using frees_slot [OF assms(1) ih(1) n] ih w by (simp add: same_objects_def)
qed

lemma frees_gone:
  assumes "frees P f" "ipc_inv st" "w \<in> rows (i_wait (fold f [0..<length (i_wait st)] st))"
  shows "\<not> P w" "w \<in> rows (i_wait st)"
proof -
  note a = frees_all [OF assms(1,2) order_refl]
  obtain k where k: "k < length (i_wait st)" "i_wait (fold f [0..<length (i_wait st)] st) ! k = Some w"
    using rows_ex [OF assms(3)] a by (elim exE conjE) simp
  then have "i_wait st ! k = Some w \<and> \<not> P w" using a by (auto split: option.splits if_splits)
  then show "\<not> P w" "w \<in> rows (i_wait st)" using rows_nth [OF k(1)] by blast+
qed

definition waits_on :: "int \<Rightarrow> bool \<Rightarrow> waiter \<Rightarrow> bool" where
  "waits_on ident sem w \<longleftrightarrow> w_id w = ident \<and> (if sem then w_op w = SEMOP else w_op w = MSGSND \<or> w_op w = MSGRCV)"

lemma frees_eidrm: "frees (waits_on ident sem) (eidrm_slot ident sem)"
  unfolding frees_def eidrm_slot_def waits_on_def by (auto split: option.splits)

lemma frees_expire: "frees (\<lambda>w. \<not> (w_deadline w < 0 \<or> now < w_deadline w)) (expire_slot now)"
  unfolding frees_def expire_slot_def by (auto split: option.splits)

lemma frees_reclaim:
  "frees (\<lambda>w. e_start env (w_pid w) \<noteq> w_start w \<or> e_zombie env (w_pid w)) (reclaim_waiter env)"
  unfolding frees_def reclaim_waiter_def by (auto split: option.splits)

lemma frees_free: "frees (\<lambda>_. True) free_waiter"
  unfolding frees_def free_waiter_def by (auto split: option.splits)

lemmas sweep_eidrm = frees_all [OF frees_eidrm] frees_gone [OF frees_eidrm]
lemmas sweep_expire = frees_all [OF frees_expire] frees_gone [OF frees_expire]

section \<open>Removing an object\<close>

lemma drop_rows_only: "sem_only st (fold (drop_row d) ks st)"
  by (rule sem_only_fold) (simp add: drop_row_def split: option.splits)

lemma ipc_inv_free_set:
  assumes "ipc_inv st" "i < length (i_sem st)" "i_sem st ! i = Some s"
    "\<forall>w\<in>rows (i_wait st). \<not> waits_on (s_semid s) True w"
  shows "ipc_inv (sem_free_set i st)"
proof -
  have I: "sem_inv st" "msg_inv st" "wait_inv st" using assms(1) by (simp_all add: ipc_inv_def)
  let ?t = "sem_free_set i st"
  have f: "i_wait ?t = i_wait st" "i_msq ?t = i_msq st" "i_tabs ?t = i_tabs st" "i_seq ?t = i_seq st"
    "i_nwait ?t = i_nwait st" "i_next_msqid ?t = i_next_msqid st"
    using sem_only_fields [OF drop_rows_only [of st "s_semid (sem_at st i)" "[0..<length (i_undo st)]"]]
    by (simp_all add: sem_free_set_def Let_def)
  note F = sem_inv_free_set [OF I(1) assms(2,3)]
  have sh: "x \<in> shapes ?t" if h: "x \<in> shapes st" "fst x \<noteq> s_semid s" for x
  proof -
    obtain z where z: "z \<in> rows (i_sem st)" "x = (s_semid z, s_nsems z)" using h(1) by (auto simp: shapes_def)
    obtain j where j: "j < length (i_sem st)" "i_sem st ! j = Some z" using rows_ex [OF z(1)] by (elim exE conjE)
    have "j \<noteq> i" using j z(2) h(2) assms(3) by auto
    then have "z \<in> rows (i_sem ?t)" unfolding F(3) using j by (intro rows_nth [of j]) simp_all
    then show ?thesis using z(2) by (auto simp: shapes_def)
  qed
  have "waiter_ok (shapes ?t) (msq_ids ?t) w" if "w \<in> rows (i_wait st)" for w
  proof -
    have k: "waiter_ok (shapes st) (msq_ids st) w" using I(3) that by (simp add: wait_inv_def)
    have n: "\<not> waits_on (s_semid s) True w" using assms(4) that by blast
    have ids: "msq_ids ?t = msq_ids st" by (simp add: msq_ids_def f)
    show ?thesis
    proof (cases "w_op w = SEMOP")
      case True
      then have "w_id w \<noteq> s_semid s" using n by (simp add: waits_on_def)
      then show ?thesis using k True sh by (fastforce simp: waiter_ok_def)
    next
      case False
      then show ?thesis using k ids by (simp add: waiter_ok_def split: ipc_req.splits)
    qed
  qed
  then have "wait_inv ?t" using I(3) by (simp add: wait_inv_def f)
  moreover have "msg_inv ?t" using I(2) msg_inv_cong [of ?t st] f by simp
  ultimately show ?thesis using F(1) by (simp add: ipc_inv_def)
qed

lemma ipc_inv_free_queue:
  assumes "ipc_inv st" "i < length (i_msq st)" "i_msq st ! i = Some q"
    "\<forall>w\<in>rows (i_wait st). \<not> waits_on (q_msqid q) False w"
  shows "ipc_inv (msg_free_queue i st)"
proof -
  have I: "sem_inv st" "msg_inv st" "wait_inv st" using assms(1) by (simp_all add: ipc_inv_def)
  let ?t = "msg_free_queue i st"
  have f: "i_wait ?t = i_wait st" "i_sem ?t = i_sem st" "i_tabs ?t = i_tabs st" "i_seq ?t = i_seq st"
    "i_nwait ?t = i_nwait st" "i_next_semid ?t = i_next_semid st" "i_undo ?t = i_undo st" "i_nundo ?t = i_nundo st"
    "i_msq ?t = (i_msq st)[i := None]"
    by (simp_all add: msg_free_queue_def set_msq_def)
  have ids: "x \<in> msq_ids ?t" if h: "x \<in> msq_ids st" "x \<noteq> q_msqid q" for x
  proof -
    obtain z where z: "z \<in> rows (i_msq st)" "x = q_msqid z" using h(1) by (auto simp: msq_ids_def)
    obtain j where j: "j < length (i_msq st)" "i_msq st ! j = Some z" using rows_ex [OF z(1)] by (elim exE conjE)
    have "j \<noteq> i" using j z(2) h(2) assms(3) by auto
    then have "z \<in> rows (i_msq ?t)" unfolding f using j by (intro rows_nth [of j]) simp_all
    then show ?thesis using z(2) by (auto simp: msq_ids_def)
  qed
  have sh: "shapes ?t = shapes st" by (simp add: shapes_def f)
  have "waiter_ok (shapes ?t) (msq_ids ?t) w" if "w \<in> rows (i_wait st)" for w
  proof -
    have k: "waiter_ok (shapes st) (msq_ids st) w" using I(3) that by (simp add: wait_inv_def)
    have "\<not> waits_on (q_msqid q) False w" using assms(4) that by blast
    then show ?thesis using k ids sh by (auto simp: waiter_ok_def waits_on_def split: ipc_req.splits)
  qed
  then have "wait_inv ?t" using I(3) by (simp add: wait_inv_def f)
  moreover have "sem_inv ?t" using I(1) sem_inv_cong [of ?t st] f by simp
  ultimately show ?thesis using msg_inv_free [OF I(2), of i] by (simp add: ipc_inv_def)
qed

end
