(* ===== verification/Ipc_Daemon.thy ===== *)
theory Ipc_Daemon
  imports Ipc_Live
begin

text \<open>
  The registry as the daemon drives it: every handler keeps \<open>ipc_inv\<close>, so that any sequence of requests,
  rescans, expiries, reclaims and polls from the empty registry does; and the guarantees a client sees:
  nobody is left asleep who could proceed, a removal wakes exactly its sleepers, a deadline ends a
  sleep, permissions protect a queue, and vectors survive the wire.
\<close>

section \<open>The handlers keep the invariant\<close>

lemma sem_ok_upd:
  "sem_ok s \<Longrightarrow> 0 \<le> v \<Longrightarrow> v \<le> CNG_SEMVMX \<Longrightarrow>
   sem_ok (s\<lparr>s_val := (s_val s)[n := v], s_lpid := (s_lpid s)[n := p], s_ctime := c, s_tpid := t\<rparr>)"
  by (auto simp: sem_ok_def dest!: set_update_subset_insert [THEN subsetD])

lemma ipc_inv_ctl_one:
  assumes "ipc_inv st" "i < length (i_sem st)" "i_sem st ! i = Some s"
    "r_arg q = CNG_SETVAL \<Longrightarrow> 0 \<le> r_val q \<and> r_val q \<le> CNG_SEMVMX"
  shows "ipc_inv (snd (sem_ctl_one env q i st))"
proof -
  have at: "sem_at st i = s" using assms(3) by (simp add: sem_at_def)
  have ok: "sem_ok s" using sem_inv_row [OF _ assms(2,3)] assms(1) by (simp add: ipc_inv_def)
  have "ipc_inv (sem_undo_clear d m (set_sem i (s\<lparr>s_val := (s_val s)[n := u16_of (r_val q)],
      s_lpid := (s_lpid s)[n := r_pid q], s_ctime := e_now env, s_tpid := r_pid q\<rparr>) st))"
    if "r_arg q = CNG_SETVAL" for d m n
  proof (rule ipc_inv_undo_clear, rule ipc_inv_set_sem [OF assms(1-3)])
    have v: "0 \<le> r_val q" "r_val q \<le> CNG_SEMVMX" using assms(4) that by simp_all
    then show "sem_ok (s\<lparr>s_val := (s_val s)[n := u16_of (r_val q)], s_lpid := (s_lpid s)[n := r_pid q],
        s_ctime := e_now env, s_tpid := r_pid q\<rparr>)"
      using sem_ok_upd [OF ok v] u16_semval [OF v] by simp
  qed (simp add: set_shape_def)
  then show ?thesis using assms(1) unfolding sem_ctl_one_def Let_def at by simp
qed

lemma ipc_inv_rmid_sem:
  assumes "ipc_inv st" "i < length (i_sem st)" "i_sem st ! i = Some s"
  shows "ipc_inv (sem_free_set i (waiters_eidrm (s_semid s) True st))"
proof -
  let ?t = "waiters_eidrm (s_semid s) True st"
  have w: "ipc_inv ?t" "same_objects ?t st"
    using sweep_eidrm(1) [OF assms(1) order_refl, of "s_semid s" True] by (simp_all add: waiters_eidrm_def)
  have "\<forall>w\<in>rows (i_wait ?t). \<not> waits_on (s_semid s) True w"
    using sweep_eidrm(2) [OF assms(1)] by (auto simp: waiters_eidrm_def)
  then show ?thesis
    by (intro ipc_inv_free_set [OF w(1)]) (use w(2) assms(2,3) in \<open>simp_all add: same_objects_def\<close>)
qed

lemma ipc_inv_rmid_msg:
  assumes "ipc_inv st" "i < length (i_msq st)" "i_msq st ! i = Some q"
  shows "ipc_inv (msg_free_queue i (waiters_eidrm (q_msqid q) False st))"
proof -
  let ?t = "waiters_eidrm (q_msqid q) False st"
  have w: "ipc_inv ?t" "same_objects ?t st"
    using sweep_eidrm(1) [OF assms(1) order_refl, of "q_msqid q" False] by (simp_all add: waiters_eidrm_def)
  have "\<forall>w\<in>rows (i_wait ?t). \<not> waits_on (q_msqid q) False w"
    using sweep_eidrm(2) [OF assms(1)] by (auto simp: waiters_eidrm_def)
  then show ?thesis
    by (intro ipc_inv_free_queue [OF w(1)]) (use w(2) assms(2,3) in \<open>simp_all add: same_objects_def\<close>)
qed

lemma ipc_inv_sem_ctl:
  assumes "ipc_inv st"
  shows "ipc_inv (snd (snd (sem_do_ctl env q r st)))"
proof (cases "sem_find st (r_id q)")
  case None
  then show ?thesis using assms ipc_inv_reclaim_set by (simp add: sem_do_ctl_def Let_def)
next
  case (Some i)
  obtain s where s: "i < length (i_sem st)" "i_sem st ! i = Some s" using sem_find_Some [OF Some] by blast
  let ?t = "sem_reclaim_set env i st"
  have It: "ipc_inv ?t" by (rule ipc_inv_reclaim_set [OF assms])
  obtain s' where s': "i < length (i_sem ?t)" "i_sem ?t ! i = Some s'" using reclaim_slot [OF s, of env i] by blast
  have at: "sem_at ?t i = s'" using s'(2) by (simp add: sem_at_def)
  have "sem_ok s'" using sem_inv_row [OF _ s'] It by (simp add: ipc_inv_def)
  then have "ipc_inv (set_sem i (sem_set_perm env q s') ?t)"
    by (intro ipc_inv_set_sem [OF It s']) (simp_all add: sem_set_perm_def sem_ok_def set_shape_def)
  moreover note ipc_inv_rmid_sem [OF It s']
  moreover have "ipc_inv (snd (sem_ctl_one env q i ?t))"
    if "\<not> (r_arg q = CNG_SETVAL \<and> (r_val q < 0 \<or> r_val q > CNG_SEMVMX))"
    by (rule ipc_inv_ctl_one [OF It s']) (use that in auto)
  ultimately show ?thesis
    using It assms ipc_inv_reclaim_set unfolding sem_do_ctl_def Some option.case Let_def at
    by (auto split: prod.splits if_splits)
qed

lemma ipc_inv_msg_ctl:
  assumes "ipc_inv st"
  shows "ipc_inv (snd (snd (msg_do_ctl env q r st)))"
proof (cases "msg_find st (r_id q)")
  case None
  then show ?thesis using assms by (simp add: msg_do_ctl_def Let_def)
next
  case (Some i)
  obtain m where m: "i < length (i_msq st)" "i_msq st ! i = Some m" "msq_at st i = m"
    using msg_find_Some [OF Some] by blast
  have "msq_ok m" using msg_inv_row(1) [OF _ m(1,2)] assms by (simp add: ipc_inv_def)
  then have "ipc_inv (set_msq i (Some (msg_set_perm env q m)) st)"
    by (intro ipc_inv_set_msq [OF assms m(1,2)]) (simp_all add: msg_set_perm_def msq_ok_def msq_shape_def)
  then show ?thesis
    using assms ipc_inv_rmid_msg [OF assms m(1,2)] unfolding msg_do_ctl_def Some option.case Let_def m(3) by simp
qed

lemma decode_sops_length: "decode_sops n bs = Some ops \<Longrightarrow> length ops = n"
  by (induction n bs arbitrary: ops rule: decode_sops.induct) auto

lemma le16_range: "0 \<le> le16 a b" "le16 a b < 65536"
proof -
  have "uint a < 256" "uint b < 256" using uint_lt2p [of a] uint_lt2p [of b] by simp_all
  then show "0 \<le> le16 a b" "le16 a b < 65536" by (simp_all add: le16_def)
qed

lemma decode_u16s_ok: "decode_u16s n bs = Some vs \<Longrightarrow> length vs = n \<and> (\<forall>v\<in>set vs. 0 \<le> v)"
  by (induction n bs arbitrary: vs rule: decode_u16s.induct) (auto simp: le16_range)

lemma ipc_inv_serve_semop:
  assumes "ipc_inv st" "i_seq st \<noteq> - 1" "r_op q = SEMOP"
  shows "ipc_inv (snd (serve_semop env cfd q bs r st))"
proof (cases "unat (r_arg q) = 0 \<or> unat (r_arg q) > CNG_SEMOPM \<or> \<not> e_alloc env (unat (r_arg q) * 6) \<or>
    decode_sops (unat (r_arg q)) bs = None \<or> sem_find st (r_id q) = None")
  case True
  then show ?thesis using assms(1) by (auto simp: serve_semop_def Let_def split: option.splits)
next
  case False
  then obtain sops i where sops: "decode_sops (unat (r_arg q)) bs = Some sops" and f: "sem_find st (r_id q) = Some i"
    by auto
  have g: "unat (r_arg q) \<noteq> 0" "\<not> unat (r_arg q) > CNG_SEMOPM" "e_alloc env (unat (r_arg q) * 6)"
    using False by simp_all
  obtain s where s: "i < length (i_sem st)" "i_sem st ! i = Some s" "s_semid s = r_id q"
    using sem_find_Some [OF f] by blast
  let ?t = "sem_reclaim_set env i st"
  have It: "ipc_inv ?t" by (rule ipc_inv_reclaim_set [OF assms(1)])
  have so: "sem_only st ?t" by (rule sem_only_reclaim_set)
  obtain s' where s': "i < length (i_sem ?t)" "i_sem ?t ! i = Some s'" "set_shape s' = set_shape s"
    using reclaim_slot [OF s(1,2), of env i] by blast
  have at: "sem_at ?t i = s'" using s'(2) by (simp add: sem_at_def)
  obtain t b st2 where r: "sem_try_op env i sops (r_pid q) ?t = (t, b, st2)"
    by (cases "sem_try_op env i sops (r_pid q) ?t")
  have I2: "ipc_inv st2" by (rule ipc_inv_try_op [OF r It s'(1,2)])
  have so2: "sem_only ?t st2" using sem_only_try_op [of ?t env i sops "r_pid q"] r by simp
  have seq: "i_seq st2 \<noteq> - 1" "i_tabs st2"
    using assms(2) sem_only_fields [OF so] sem_only_fields [OF so2] sem_find_Some(3) [OF f] by simp_all
  have park: "ipc_inv st3"
    if p: "t = 1" "waiter_park env cfd q sops b None st2 = Some st3" "\<not> (\<exists>p\<in>set sops. sem_num p \<ge> s_nsems s')" for st3
  proof (rule ipc_inv_park [OF p(2) I2 seq(2,1)])
    have It': "sem_inv ?t" using It by (simp add: ipc_inv_def)
    have bl: "b < length sops"
      using r It' s'(1,2) by (cases rule: sem_try_op_cases) (use p(1) in \<open>simp_all add: errno_simps\<close>)
    have "i_sem st2 = i_sem ?t" using sem_try_op_rolls_back [OF r It' s'(1,2)] p(1) by simp
    then have "(s_semid s', s_nsems s') \<in> shapes st2" using rows_nth [OF s'(1,2)] by (auto simp: shapes_def)
    then show "waiter_ok (shapes st2) (msq_ids st2) \<lparr>w_cfd = cfd, w_op = r_op q, w_id = r_id q, w_pid = r_pid q,
       w_start = e_start env (r_pid q), w_seq = i_seq st2, w_deadline = deadline env (r_timeout q), w_sops = sops,
       w_blk = b, w_msg = None, w_msgtyp = r_mtype q, w_msgsz = r_size q, w_msgflg = r_arg q\<rparr>"
      using bl p(3) s(3) s'(3) assms(3) by (auto simp: waiter_ok_def set_shape_def not_le)
  qed
  show ?thesis
    unfolding serve_semop_def Let_def sops f option.case at r prod.case
    using g It I2 park by (auto split: option.splits)
qed

lemma ipc_inv_serve_semctl:
  assumes "ipc_inv st"
  shows "ipc_inv (snd (serve_semctl env cfd q bs r st))"
proof (cases "r_arg q = CNG_SETALL")
  case True
  show ?thesis
  proof (cases "decode_u16s (r_size q) bs = None \<or> sem_find st (r_id q) = None")
    case T: True
    then show ?thesis using assms True by (auto simp: serve_semctl_def sem_setall_def split: option.splits)
  next
    case False
    then obtain vals i where v: "decode_u16s (r_size q) bs = Some vals" and f: "sem_find st (r_id q) = Some i" by auto
    obtain s where s: "i < length (i_sem st)" "i_sem st ! i = Some s" "sem_at st i = s"
      using sem_find_Some [OF f] by blast
    have ok: "sem_ok s" using sem_inv_row [OF _ s(1,2)] assms by (simp add: ipc_inv_def)
    have "ipc_inv (sem_undo_clear (s_semid s) (- 1) (set_sem i (s\<lparr>s_val := vals,
        s_lpid := replicate (s_nsems s) (r_pid q), s_ctime := e_now env, s_tpid := r_pid q\<rparr>) st))"
      if "r_size q = s_nsems s" "\<not> (\<exists>v\<in>set vals. v > CNG_SEMVMX)"
      by (rule ipc_inv_undo_clear, rule ipc_inv_set_sem [OF assms s(1,2)])
        (use ok decode_u16s_ok [OF v] that in \<open>auto simp: sem_ok_def set_shape_def not_less\<close>)
    then show ?thesis
      using assms True unfolding serve_semctl_def v option.case sem_setall_def f Let_def s(3) by simp
  qed
next
  case False
  show ?thesis
  proof (cases "r_arg q = CNG_GETALL")
    case True
    then show ?thesis using assms False ipc_inv_reclaim_set [OF assms]
      by (simp add: serve_semctl_def Let_def split: option.splits)
  next
    case F: False
    then show ?thesis using False ipc_inv_sem_ctl [OF assms, of env q r]
      by (cases "sem_do_ctl env q r st") (simp add: serve_semctl_def)
  qed
qed

lemma ipc_inv_serve_msgsnd:
  assumes "ipc_inv st" "i_seq st \<noteq> - 1" "r_op q = MSGSND"
  shows "ipc_inv (snd (serve_msgsnd env cfd q bs r st))"
proof (cases "r_size q > CNG_MSGMAX \<or> r_mtype q \<le> 0 \<or> \<not> e_alloc env (24 + r_size q) \<or>
    read_full (r_size q) bs = None \<or> msg_find st (r_id q) = None")
  case True
  then show ?thesis using assms(1) by (auto simp: serve_msgsnd_def Let_def split: option.splits)
next
  case False
  then obtain d i where d: "read_full (r_size q) bs = Some d" and f: "msg_find st (r_id q) = Some i" by auto
  have g: "\<not> r_size q > CNG_MSGMAX" "\<not> r_mtype q \<le> 0" "e_alloc env (24 + r_size q)" using False by simp_all
  obtain mq where mq: "i < length (i_msq st)" "i_msq st ! i = Some mq" "msq_at st i = mq" "q_msqid mq = r_id q"
    using msg_find_Some [OF f] by blast
  let ?m = "\<lparr>g_mtype = r_mtype q, g_data = d\<rparr>"
  have m: "g_size ?m \<le> CNG_MSGMAX" "0 < g_mtype ?m"
    using d g by (auto simp: read_full_def g_size_def split: if_splits)
  have ok: "msq_ok mq" using msg_inv_row(1) [OF _ mq(1,2)] assms(1) by (simp add: ipc_inv_def)
  have e: "ipc_inv (set_msq i (Some (msg_enqueue env mq ?m (r_pid q))) st)"
    by (rule ipc_inv_set_msq [OF assms(1) mq(1,2) msq_ok_enqueue [OF ok m]]) (simp add: msq_shape_def msg_enqueue_def)
  have park: "ipc_inv st3" if p: "waiter_park env cfd q [] 0 (Some ?m) st = Some st3" for st3
  proof (rule ipc_inv_park [OF p assms(1) msg_find_Some(3) [OF f] assms(2)])
    have "r_id q \<in> msq_ids st"
      unfolding msq_ids_def mq(4) [symmetric] by (rule imageI, rule rows_nth [OF mq(1,2)])
    then show "waiter_ok (shapes st) (msq_ids st) \<lparr>w_cfd = cfd, w_op = r_op q, w_id = r_id q, w_pid = r_pid q,
       w_start = e_start env (r_pid q), w_seq = i_seq st, w_deadline = deadline env (r_timeout q), w_sops = [],
       w_blk = 0, w_msg = Some ?m, w_msgtyp = r_mtype q, w_msgsz = r_size q, w_msgflg = r_arg q\<rparr>"
      using m assms(3) by (simp add: waiter_ok_def)
  qed
  show ?thesis
    unfolding serve_msgsnd_def Let_def d f option.case mq(3)
    using g assms(1) e park by (auto split: option.splits)
qed

lemma ipc_inv_serve_msgrcv:
  assumes "ipc_inv st" "i_seq st \<noteq> - 1" "r_op q = MSGRCV"
  shows "ipc_inv (snd (serve_msgrcv env cfd q r st))"
proof (cases "msg_find st (r_id q)")
  case None
  then show ?thesis using assms(1) by (simp add: serve_msgrcv_def)
next
  case (Some i)
  obtain mq where mq: "i < length (i_msq st)" "i_msq st ! i = Some mq" "msq_at st i = mq" "q_msqid mq = r_id q"
    using msg_find_Some [OF Some] by blast
  have ok: "msq_ok mq" using msg_inv_row(1) [OF _ mq(1,2)] assms(1) by (simp add: ipc_inv_def)
  have park: "ipc_inv st3" if p: "waiter_park env cfd q [] 0 None st = Some st3" for st3
  proof (rule ipc_inv_park [OF p assms(1) msg_find_Some(3) [OF Some] assms(2)])
    have "r_id q \<in> msq_ids st"
      unfolding msq_ids_def mq(4) [symmetric] by (rule imageI, rule rows_nth [OF mq(1,2)])
    then show "waiter_ok (shapes st) (msq_ids st) \<lparr>w_cfd = cfd, w_op = r_op q, w_id = r_id q, w_pid = r_pid q,
       w_start = e_start env (r_pid q), w_seq = i_seq st, w_deadline = deadline env (r_timeout q), w_sops = [],
       w_blk = 0, w_msg = None, w_msgtyp = r_mtype q, w_msgsz = r_size q, w_msgflg = r_arg q\<rparr>"
      using assms(3) by (simp add: waiter_ok_def)
  qed
  show ?thesis
  proof (cases "msg_pick mq (r_mtype q) (r_arg q)")
    case None
    then show ?thesis unfolding serve_msgrcv_def Let_def Some option.case mq(3)
      using assms(1) park by (auto split: option.splits)
  next
    case P: (Some p)
    obtain k m where p: "p = (k, m)" by (cases p)
    have km: "k < length (q_msgs mq)" "q_msgs mq ! k = m"
      using msg_pick_choice [of "r_mtype q" "r_arg q" mq] P p by (simp_all add: choice_def)
    have "msq_ok ((msg_unlink mq k m)\<lparr>q_lrpid := r_pid q, q_rtime := e_now env, q_tpid := r_pid q\<rparr>)"
      using msq_ok_unlink [OF ok km] by (simp add: msq_ok_def)
    then have "ipc_inv (set_msq i (Some ((msg_unlink mq k m)
        \<lparr>q_lrpid := r_pid q, q_rtime := e_now env, q_tpid := r_pid q\<rparr>)) st)"
      by (rule ipc_inv_set_msq [OF assms(1) mq(1,2)]) (simp add: msq_shape_def msg_unlink_def)
    then show ?thesis unfolding serve_msgrcv_def Let_def Some option.case mq(3) P p prod.case
      using assms(1) by simp
  qed
qed

lemma ipc_inv_tables: "ipc_inv st \<Longrightarrow> tables env st = Some st' \<Longrightarrow> ipc_inv st' \<and> i_tabs st' \<and> i_seq st' = i_seq st"
  by (auto simp: tables_def ipc_inv_def sem_inv_def msg_inv_def wait_inv_def shapes_def msq_ids_def split: if_splits)

lemma ipc_inv_serve:
  assumes "ipc_inv st" "i_seq st \<noteq> - 1"
  shows "ipc_inv (snd (cng_ipc_serve env cfd q bs st))"
proof (cases "tables env st")
  case None
  then show ?thesis using assms(1) by (simp add: cng_ipc_serve_def)
next
  case (Some t)
  have t: "ipc_inv t" "i_tabs t" "i_seq t \<noteq> - 1" using ipc_inv_tables [OF assms(1) Some] assms(2) by simp_all
  have "ipc_inv (snd (serve_op env cfd q bs t))"
  proof (cases "r_op q")
    case SEMGET
    then show ?thesis using ipc_inv_sem_get [OF t(1,2)] by (simp add: serve_op_def split: prod.splits)
  next
    case MSGGET
    then show ?thesis using ipc_inv_msg_get [OF t(1,2)] by (simp add: serve_op_def split: prod.splits)
  next
    case MSGCTL
    then show ?thesis using ipc_inv_msg_ctl [OF t(1), of env q resp0]
      by (cases "msg_do_ctl env q resp0 t") (simp add: serve_op_def)
  qed (use t ipc_inv_serve_semop ipc_inv_serve_semctl ipc_inv_serve_msgsnd ipc_inv_serve_msgrcv in
        \<open>simp_all add: serve_op_def\<close>)
  moreover obtain v u where "serve_op env cfd q bs t = (v, u)" by (cases "serve_op env cfd q bs t")
  ultimately show ?thesis using Some by (cases v) (simp_all add: cng_ipc_serve_def)
qed

section \<open>The daemon\<close>

datatype ipc_event = Serve ipc_env int breq "u8 list" | Rescan ipc_env | Expire int | Reclaim ipc_env
  | Poll "int \<Rightarrow> int \<times> ipc_req" "(int \<times> bool) list" | Free_All

fun ipc_do :: "ipc_event \<Rightarrow> ipc \<Rightarrow> ipc" where
  "ipc_do (Serve env cfd q bs) st = snd (cng_ipc_serve env cfd q bs st)"
| "ipc_do (Rescan env) st = cng_ipc_rescan env st"
| "ipc_do (Expire now) st = cng_ipc_expire now st"
| "ipc_do (Reclaim env) st = cng_ipc_reclaim env st"
| "ipc_do (Poll recv pfs) st = cng_ipc_poll_ready recv pfs st"
| "ipc_do Free_All st = cng_ipc_free_all st"

text \<open>
  The states the daemon can be in, as long as its 64-bit arrival counter has not reached its last
  value: the empty registry, with tables of the source's capacity or less, and whatever any entry point
  makes of such a state.
\<close>

inductive ipc_reach :: "ipc \<Rightarrow> bool" where
  start: "0 < nsem \<Longrightarrow> nsem \<le> SEM_SET_MAX \<Longrightarrow> 0 < nmsq \<Longrightarrow> nmsq \<le> MSG_QUEUE_MAX \<Longrightarrow>
    ipc_reach (ipc_empty nsem nundo nmsq nwait)"
| step: "ipc_reach st \<Longrightarrow> i_seq st \<noteq> - 1 \<Longrightarrow> ipc_reach (ipc_do e st)"

inductive_cases ipc_reach_cases: "ipc_reach st"

lemma rows_replicate [simp]: "rows (replicate n None) = {}"
  by (auto simp: rows_def)

lemma n_used_replicate [simp]: "n_used (replicate n None) = 0"
  by (simp add: n_used_def)

lemma uniq_by_replicate [simp]: "uniq_by f (replicate n None)"
  by (simp add: uniq_by_def)

lemma ipc_inv_empty:
  "0 < nsem \<Longrightarrow> nsem \<le> SEM_SET_MAX \<Longrightarrow> 0 < nmsq \<Longrightarrow> nmsq \<le> MSG_QUEUE_MAX \<Longrightarrow>
   ipc_inv (ipc_empty nsem nundo nmsq nwait)"
  by (simp add: ipc_inv_def sem_inv_def msg_inv_def wait_inv_def ipc_empty_def table_ok_def id_range_def ipc_limits)

lemma ipc_inv_expire: "ipc_inv st \<Longrightarrow> ipc_inv (cng_ipc_expire now st)"
  using sweep_expire(1) [of st "length (i_wait st)" now] by (simp add: cng_ipc_expire_def)

lemma reclaim_undo_inv:
  "ipc_inv (snd x) \<Longrightarrow> k < length (i_undo (snd x)) \<Longrightarrow>
   ipc_inv (snd (reclaim_undo env k x)) \<and> length (i_undo (snd (reclaim_undo env k x))) = length (i_undo (snd x))"
  using ipc_inv_undo_apply by (auto simp: reclaim_undo_def split: option.splits prod.splits)

lemma reclaim_undos_inv:
  "ipc_inv (snd x) \<Longrightarrow> \<forall>k\<in>set ks. k < length (i_undo (snd x)) \<Longrightarrow> ipc_inv (snd (fold (reclaim_undo env) ks x))"
proof (induction ks arbitrary: x)
  case (Cons k ks)
  then show ?case using reclaim_undo_inv [of x k env] by simp
qed simp

lemma ipc_inv_reclaim: "ipc_inv st \<Longrightarrow> ipc_inv (cng_ipc_reclaim env st)"
proof -
  assume I: "ipc_inv st"
  let ?t = "fold (reclaim_waiter env) [0..<length (i_wait st)] st"
  have t: "ipc_inv ?t" using frees_all [OF frees_reclaim I order_refl] by simp
  obtain a u where u: "fold (reclaim_undo env) [0..<length (i_undo ?t)] (False, ?t) = (a, u)"
    by (cases "fold (reclaim_undo env) [0..<length (i_undo ?t)] (False, ?t)")
  have "ipc_inv u" using reclaim_undos_inv [of "(False, ?t)" "[0..<length (i_undo ?t)]" env] t u by simp
  then show ?thesis using I rescan_ok(1) by (simp add: cng_ipc_reclaim_def Let_def u)
qed

lemma ipc_inv_poll_one: "ipc_inv st \<Longrightarrow> ipc_inv (poll_one recv pf st)"
proof (cases "find_row (\<lambda>w. w_cfd w = fst pf) (i_wait st)")
  case (Some i)
  assume I: "ipc_inv st"
  obtain w where w: "i < length (i_wait st)" "i_wait st ! i = Some w" using find_row_Some [OF Some] by blast
  show ?thesis using I Some ipc_inv_waiter_reply [OF I w] ipc_inv_waiter_free [OF I w]
    by (simp add: poll_one_def split: prod.splits)
qed (simp add: poll_one_def)

lemma ipc_inv_poll: "ipc_inv st \<Longrightarrow> ipc_inv (cng_ipc_poll_ready recv pfs st)"
proof -
  have "ipc_inv st \<Longrightarrow> ipc_inv (fold (poll_one recv) pfs st)" for st
    by (induction pfs arbitrary: st) (simp_all add: ipc_inv_poll_one)
  then show "ipc_inv st \<Longrightarrow> ipc_inv (cng_ipc_poll_ready recv pfs st)" by (simp add: cng_ipc_poll_ready_def)
qed

lemma free_sems_inv:
  assumes "ipc_inv st" "rows (i_wait st) = {}" "\<forall>k\<in>set ks. k < length (i_sem st)"
  shows "ipc_inv (fold free_sem ks st) \<and> rows (i_wait (fold free_sem ks st)) = {}"
  using assms
proof (induction ks arbitrary: st)
  case (Cons k ks)
  have f: "i_wait (sem_free_set k st) = i_wait st"
    using sem_only_fields [OF drop_rows_only [of st "s_semid (sem_at st k)" "[0..<length (i_undo st)]"]]
    by (simp add: sem_free_set_def Let_def)
  show ?case
  proof (cases "i_sem st ! k")
    case (Some s)
    have "ipc_inv (sem_free_set k st)"
      by (rule ipc_inv_free_set [OF Cons.prems(1) _ Some]) (use Cons.prems in simp_all)
    moreover have "i_sem (sem_free_set k st) = (i_sem st)[k := None]"
      by (rule sem_inv_free_set(3) [OF _ _ Some]) (use Cons.prems in \<open>simp_all add: ipc_inv_def\<close>)
    ultimately show ?thesis using Cons.IH [of "sem_free_set k st"] Cons.prems f Some by (simp add: free_sem_def)
  qed (use Cons in \<open>simp add: free_sem_def\<close>)
qed simp

lemma free_msqs_inv:
  assumes "ipc_inv st" "rows (i_wait st) = {}" "\<forall>k\<in>set ks. k < length (i_msq st)"
  shows "ipc_inv (fold free_msq ks st)"
  using assms
proof (induction ks arbitrary: st)
  case (Cons k ks)
  show ?case
  proof (cases "i_msq st ! k")
    case (Some q)
    have "ipc_inv (msg_free_queue k st)"
      by (rule ipc_inv_free_queue [OF Cons.prems(1) _ Some]) (use Cons.prems in simp_all)
    then show ?thesis using Cons.IH [of "msg_free_queue k st"] Cons.prems Some
      by (simp add: free_msq_def) (simp add: msg_free_queue_def set_msq_def)
  qed (use Cons in \<open>simp add: free_msq_def\<close>)
qed simp

lemma ipc_inv_free_all: "ipc_inv st \<Longrightarrow> ipc_inv (cng_ipc_free_all st)"
proof -
  assume I: "ipc_inv st"
  let ?a = "fold free_waiter [0..<length (i_wait st)] st"
  let ?b = "fold free_sem [0..<length (i_sem ?a)] ?a"
  have a: "ipc_inv ?a" using frees_all [OF frees_free I order_refl] by simp
  have r: "rows (i_wait ?a) = {}" using frees_gone(1) [OF frees_free I] by blast
  have b: "ipc_inv ?b" "rows (i_wait ?b) = {}" using free_sems_inv [OF a r, of "[0..<length (i_sem ?a)]"] by simp_all
  have "ipc_inv (fold free_msq [0..<length (i_msq ?b)] ?b)" by (rule free_msqs_inv [OF b]) simp
  then show ?thesis using I by (simp add: cng_ipc_free_all_def Let_def)
qed

lemma ipc_do_inv: "ipc_inv st \<Longrightarrow> i_seq st \<noteq> - 1 \<Longrightarrow> ipc_inv (ipc_do e st)"
  by (cases e) (simp_all add: ipc_inv_serve rescan_ok(1) ipc_inv_expire ipc_inv_reclaim ipc_inv_poll ipc_inv_free_all)

lemma ipc_reach_inv: "ipc_reach st \<Longrightarrow> ipc_inv st"
  by (induction rule: ipc_reach.induct) (simp_all add: ipc_inv_empty ipc_do_inv)

section \<open>Answers\<close>

text \<open>A sweep that answers the sleepers it frees, all with the same reply.\<close>

definition answers :: "(waiter \<Rightarrow> bool) \<Rightarrow> bresp \<Rightarrow> (nat \<Rightarrow> ipc \<Rightarrow> ipc) \<Rightarrow> bool" where
  "answers P r f \<longleftrightarrow> (\<forall>i st. f i st = (case i_wait st ! i of
     None \<Rightarrow> st | Some w \<Rightarrow> if P w then waiter_reply i r [] st else st))"

lemma answers_frees: "answers P r f \<Longrightarrow> frees P f"
  unfolding answers_def frees_def by (auto split: option.splits)

lemma waiter_reply_out:
  "set (i_out (waiter_reply i r d st)) \<supseteq> insert (Reply (w_cfd (wait_at st i)) r d) (set (i_out st))"
  by (auto simp: waiter_reply_def waiter_free_def emit_def Let_def)

lemma answers_all:
  assumes "answers P r f" "ipc_inv st" "n \<le> length (i_wait st)"
  shows "set (i_out st) \<subseteq> set (i_out (fold f [0..<n] st)) \<and>
    (\<forall>k<n. \<forall>w. i_wait st ! k = Some w \<longrightarrow> P w \<longrightarrow> Reply (w_cfd w) r [] \<in> set (i_out (fold f [0..<n] st)))"
  using assms(3)
proof (induction n)
  case (Suc n)
  let ?t = "fold f [0..<n] st"
  note a = frees_all [OF answers_frees [OF assms(1)] assms(2), of n]
  have nn: "i_wait ?t ! n = i_wait st ! n" using a Suc.prems by simp
  have step: "fold f [0..<Suc n] st = f n ?t" by simp
  have e: "f n ?t = (case i_wait st ! n of None \<Rightarrow> ?t | Some w \<Rightarrow> if P w then waiter_reply n r [] ?t else ?t)"
    using assms(1) nn by (simp add: answers_def)
  have sub: "set (i_out ?t) \<subseteq> set (i_out (f n ?t))"
    unfolding e using waiter_reply_out [of ?t n r "[]"] by (auto split: option.splits)
  moreover have "Reply (w_cfd w) r [] \<in> set (i_out (f n ?t))" if "i_wait st ! n = Some w" "P w" for w
    unfolding e using waiter_reply_out [of ?t n r "[]"] that nn by (simp add: wait_at_def)
  ultimately show ?case unfolding step using Suc by (auto simp: less_Suc_eq)
qed simp

lemma answers_eidrm: "answers (waits_on d sem) (resp (- EIDRM)) (eidrm_slot d sem)"
  unfolding answers_def eidrm_slot_def waits_on_def by (auto split: option.splits)

lemma answers_expire:
  "answers (\<lambda>w. \<not> (w_deadline w < 0 \<or> now < w_deadline w)) (resp (- EAGAIN)) (expire_slot now)"
  unfolding answers_def expire_slot_def by (auto split: option.splits)

lemma answers_gone:
  assumes "answers P r f" "ipc_inv st" "w \<in> rows (i_wait st)" "P w"
  shows "Reply (w_cfd w) r [] \<in> set (i_out (fold f [0..<length (i_wait st)] st))"
proof -
  obtain k where "k < length (i_wait st)" "i_wait st ! k = Some w" using rows_ex [OF assms(3)] by (elim exE conjE)
  then show ?thesis using answers_all [OF assms(1,2) order_refl] assms(4) by blast
qed

lemma answers_stay:
  assumes "answers P r f" "ipc_inv st" "w \<in> rows (i_wait st)" "\<not> P w"
  shows "w \<in> rows (i_wait (fold f [0..<length (i_wait st)] st))"
proof -
  obtain k where k: "k < length (i_wait st)" "i_wait st ! k = Some w" using rows_ex [OF assms(3)] by (elim exE conjE)
  note a = frees_all [OF answers_frees [OF assms(1)] assms(2) order_refl]
  show ?thesis by (rule rows_nth [of k]) (use a k assms(4) in auto)
qed

section \<open>Properties\<close>

text \<open>A small registry: a client makes a queue, and another parks on it for five milliseconds.\<close>

definition demo_get :: breq where
  "demo_get = \<lparr>r_op = MSGGET, r_key = 7, r_size = 0, r_id = 0, r_arg = 0x3A4, r_pid = 42, r_uid = 10, r_gid = 10,
     r_set_mode = 0, r_set_uid = 0, r_set_gid = 0, r_semnum = 0, r_val = 0, r_mtype = 0, r_timeout = - 1\<rparr>"

definition demo_rcv :: breq where
  "demo_rcv = demo_get\<lparr>r_op := MSGRCV, r_id := 1, r_arg := 0, r_size := 64, r_timeout := 5000000\<rparr>"

definition demo_one :: ipc where
  "demo_one = ipc_do (Serve demo_ienv 5 demo_get []) (ipc_empty 2 2 2 2)"

definition demo_parked :: ipc where
  "demo_parked = ipc_do (Serve demo_ienv 6 demo_rcv []) demo_one"

definition demo_waiter :: waiter where
  "demo_waiter = \<lparr>w_cfd = 6, w_op = MSGRCV, w_id = 1, w_pid = 42, w_start = 1, w_seq = 1, w_deadline = 5005,
     w_sops = [], w_blk = 0, w_msg = None, w_msgtyp = 0, w_msgsz = 64, w_msgflg = 0\<rparr>"

lemma alloc_first: "n > 0 \<Longrightarrow> \<not> used n \<Longrightarrow> 0 < t \<Longrightarrow> alloc_id used n t = (Some n, next_id n)"
  by (cases t) simp_all

lemma demo_one_eq:
  "demo_one = \<lparr>i_tabs = True, i_sem = [None, None], i_undo = [None, None],
     i_msq = [Some (new_queue demo_ienv 1 demo_get), None], i_wait = [None, None], i_next_semid = 1, i_next_msqid = 2,
     i_seq = 1, i_nwait = 0, i_nundo = 0, i_out = [Reply 5 (resp 1) []]\<rparr>"
  by (simp add: demo_one_def ipc_empty_def replicate_two cng_ipc_serve_def tables_def serve_op_def demo_get_def
      demo_ienv_def msg_do_get_def flag_set_def ipc_flags msg_create_def msg_alloc_id_def msg_find_def alloc_first
      next_id_def s32_of_def set_msq_def emit_def)

lemma demo_parked_eq:
  "demo_parked = demo_one\<lparr>i_wait := [Some demo_waiter, None], i_seq := 2, i_nwait := 1\<rparr>"
  by (simp add: demo_parked_def demo_one_eq cng_ipc_serve_def tables_def serve_op_def demo_rcv_def demo_get_def
      demo_ienv_def serve_msgrcv_def msg_find_def msq_at_def new_queue_def msg_access_def ipc_access_def msg_pick_def
      flag_set_def ipc_flags waiter_park_def demo_waiter_def deadline_def LONG_MAX_def)

lemma demo_reach: "ipc_reach demo_parked"
proof -
  have "ipc_reach (ipc_empty 2 2 2 2)" by (rule ipc_reach.start) (simp_all add: ipc_limits)
  moreover have "i_seq (ipc_empty 2 2 2 2) \<noteq> - 1" by (simp add: ipc_empty_def)
  ultimately have "ipc_reach demo_one" unfolding demo_one_def by (rule ipc_reach.step)
  moreover have "i_seq demo_one \<noteq> - 1" by (simp add: demo_one_eq)
  ultimately show ?thesis unfolding demo_parked_def by (rule ipc_reach.step)
qed

lemma demo_waiter_in: "demo_waiter \<in> rows (i_wait demo_parked)"
  by (simp add: demo_parked_eq)

text \<open>
  C10. The registry is always well-formed. From the empty registry, whatever requests are served, in
  whatever order, with rescans, expiries, reclaims of dead processes and polls between them, identifiers
  are positive and distinct, no two objects share a key, semaphore values and adjustments are in range,
  every undo row and every sleeper belongs to an object that exists, the queues' counters match their
  messages and the counts of sleepers and rows match the tables.
\<close>

theorem registry_always_well_formed:
  assumes "ipc_reach st"
  shows "sem_inv st \<and> msg_inv st \<and> wait_inv st"
  using ipc_reach_inv [OF assms] by (simp add: ipc_inv_def)

theorem registry_always_well_formed_witness:
  "msg_inv demo_parked \<and> map_option q_msqid (i_msq demo_parked ! 0) = Some 1 \<and> i_nwait demo_parked = 1"
proof -
  have "map_option q_msqid (i_msq demo_parked ! 0) = Some 1" "i_nwait demo_parked = 1"
    by (simp_all add: demo_parked_eq demo_one_eq new_queue_def)
  then show ?thesis using registry_always_well_formed [OF demo_reach] by simp
qed

text \<open>
  C6. No wake-up is lost. The rescan the daemon runs after serving a request terminates, and every
  operation still parked afterwards cannot proceed: the set or queue it waits for exists, and its vector
  blocks at an operation without \<open>IPC_NOWAIT\<close>, its message does not fit, or no message matches.
\<close>

theorem rescan_leaves_only_blocked:
  assumes "ipc_reach st"
  shows "\<forall>w\<in>rows (i_wait (cng_ipc_rescan env st)). sleeps (cng_ipc_rescan env st) w"
  by (rule rescan_ok(2) [OF ipc_reach_inv [OF assms]])

theorem rescan_leaves_only_blocked_witness:
  "demo_waiter \<in> rows (i_wait (cng_ipc_rescan demo_ienv demo_parked)) \<and>
   sleeps (cng_ipc_rescan demo_ienv demo_parked) demo_waiter"
proof -
  have v: "next_waiter 0 demo_parked = Some 0" "visit demo_ienv 0 demo_parked = (False, demo_parked)"
    "next_waiter 1 demo_parked = None" "w_seq (wait_at demo_parked 0) = 1"
    by (simp_all add: next_waiter_def demo_parked_eq demo_waiter_def visit_def wait_at_def visit_msgrcv_def
        demo_one_eq msg_find_def msq_at_def new_queue_def msg_pick_def)
  have "rescan_pass demo_ienv 0 False demo_parked = (False, demo_parked)"
    using v by (simp add: rescan_pass.simps [of demo_ienv 0] rescan_pass.simps [of demo_ienv 1])
  then have "cng_ipc_rescan demo_ienv demo_parked = demo_parked"
    by (simp add: cng_ipc_rescan_def rescan_loop.simps)
  then show ?thesis using rescan_leaves_only_blocked [OF demo_reach, of demo_ienv] demo_waiter_in by simp
qed

text \<open>
  Removing a set or a queue wakes exactly its sleepers. Each operation parked on the object is
  answered \<open>EIDRM\<close> and leaves the table; every other one stays as it is.
\<close>

theorem removal_wakes_its_sleepers:
  assumes "ipc_reach st" "w \<in> rows (i_wait st)"
  shows "if waits_on d sem w
    then Reply (w_cfd w) (resp (- EIDRM)) [] \<in> set (i_out (waiters_eidrm d sem st)) \<and>
      w \<notin> rows (i_wait (waiters_eidrm d sem st))
    else w \<in> rows (i_wait (waiters_eidrm d sem st))"
  using answers_gone [OF answers_eidrm [of d sem] ipc_reach_inv [OF assms(1)] assms(2)]
    answers_stay [OF answers_eidrm [of d sem] ipc_reach_inv [OF assms(1)] assms(2)]
    frees_gone(1) [OF frees_eidrm [of d sem] ipc_reach_inv [OF assms(1)], of w]
  by (auto simp: waiters_eidrm_def)

theorem removal_wakes_its_sleepers_witness:
  "waits_on 1 False demo_waiter \<and>
   Reply 6 (resp (- EIDRM)) [] \<in> set (i_out (waiters_eidrm 1 False demo_parked))"
  using removal_wakes_its_sleepers [OF demo_reach demo_waiter_in, of 1 False]
  by (simp add: waits_on_def demo_waiter_def)

text \<open>
  A deadline ends a sleep, and only a deadline that has passed. At a given time, an operation parked
  with a timeout whose deadline is reached is answered \<open>EAGAIN\<close> and leaves the table; one without a
  timeout or with a later deadline stays as it is.
\<close>

theorem deadline_ends_the_sleep:
  assumes "ipc_reach st" "w \<in> rows (i_wait st)"
  shows "if 0 \<le> w_deadline w \<and> w_deadline w \<le> now
    then Reply (w_cfd w) (resp (- EAGAIN)) [] \<in> set (i_out (cng_ipc_expire now st)) \<and>
      w \<notin> rows (i_wait (cng_ipc_expire now st))
    else w \<in> rows (i_wait (cng_ipc_expire now st))"
proof -
  have I: "ipc_inv st" by (rule ipc_reach_inv [OF assms(1)])
  have "i_tabs st" using I assms(2) by (auto simp: ipc_inv_def wait_inv_def)
  then have e: "cng_ipc_expire now st = fold (expire_slot now) [0..<length (i_wait st)] st"
    by (simp add: cng_ipc_expire_def)
  show ?thesis unfolding e
    using answers_gone [OF answers_expire [of now] I assms(2)] answers_stay [OF answers_expire [of now] I assms(2)]
      frees_gone(1) [OF frees_expire [of now] I, of w]
    by (auto simp: not_less not_le)
qed

theorem deadline_ends_the_sleep_witness:
  "Reply 6 (resp (- EAGAIN)) [] \<in> set (i_out (cng_ipc_expire 5005 demo_parked)) \<and>
   demo_waiter \<in> rows (i_wait (cng_ipc_expire 5004 demo_parked))"
  using deadline_ends_the_sleep [OF demo_reach demo_waiter_in, of 5005]
    deadline_ends_the_sleep [OF demo_reach demo_waiter_in, of 5004]
  by (simp add: demo_waiter_def)

text \<open>
  A queue is protected by its permissions. A request by a caller who is not root leaves every queue
  and every sleeper as it was when it is a send without write permission, a receive without read
  permission, or any \<open>msgctl\<close> command by somebody who neither owns nor made the queue.
\<close>

theorem queue_needs_permission:
  assumes "msg_find st (r_id q) = Some i" "r_uid q \<noteq> 0"
    "r_op q = MSGSND \<and> \<not> msg_access (msq_at st i) q 2 \<or> r_op q = MSGRCV \<and> \<not> msg_access (msq_at st i) q 4 \<or>
     r_op q = MSGCTL \<and> \<not> ipc_owner (q_uid (msq_at st i)) (q_cuid (msq_at st i)) (r_uid q)"
  shows "i_msq (snd (cng_ipc_serve env cfd q bs st)) = i_msq st \<and>
    i_wait (snd (cng_ipc_serve env cfd q bs st)) = i_wait st \<and> \<not> fst (cng_ipc_serve env cfd q bs st)"
proof -
  have t: "tables env st = Some st" using msg_find_Some(3) [OF assms(1)] by (simp add: tables_def)
  consider (snd) "r_op q = MSGSND" "\<not> msg_access (msq_at st i) q 2" | (rcv) "r_op q = MSGRCV" "\<not> msg_access (msq_at st i) q 4"
    | (ctl) "r_op q = MSGCTL" "\<not> ipc_owner (q_uid (msq_at st i)) (q_cuid (msq_at st i)) (r_uid q)"
    using assms(3) by blast
  then show ?thesis
  proof cases
    case snd
    then show ?thesis using assms(1)
      by (simp add: cng_ipc_serve_def t serve_op_def serve_msgsnd_def Let_def emit_def split: option.splits)
  next
    case rcv
    then show ?thesis using assms(1)
      by (simp add: cng_ipc_serve_def t serve_op_def serve_msgrcv_def Let_def emit_def)
  next
    case ctl
    then have "snd (snd (msg_do_ctl env q resp0 st)) = st"
      using assms(1) by (simp add: msg_do_ctl_def Let_def)
    then show ?thesis using ctl(1)
      by (cases "msg_do_ctl env q resp0 st") (simp add: cng_ipc_serve_def t serve_op_def emit_def)
  qed
qed

definition demo_rm :: breq where
  "demo_rm = demo_get\<lparr>r_op := MSGCTL, r_id := 1, r_arg := CNG_IPC_RMID, r_uid := 11, r_gid := 11\<rparr>"

theorem queue_needs_permission_witness:
  "i_msq (snd (cng_ipc_serve demo_ienv 8 demo_rm [] demo_parked)) = i_msq demo_parked"
proof -
  have f: "msg_find demo_parked (r_id demo_rm) = Some 0"
    by (simp add: msg_find_def demo_parked_eq demo_one_eq demo_rm_def new_queue_def)
  have o: "\<not> ipc_owner (q_uid (msq_at demo_parked 0)) (q_cuid (msq_at demo_parked 0)) (r_uid demo_rm)"
    by (simp add: ipc_owner_def msq_at_def demo_parked_eq demo_one_eq new_queue_def demo_rm_def demo_get_def)
  show ?thesis using queue_needs_permission [OF f, of demo_ienv 8 "[]"] o by (simp add: demo_rm_def)
qed

lemma decode_encode: "\<forall>v\<in>set vs. 0 \<le> v \<and> v < 65536 \<Longrightarrow> decode_u16s (length vs) (encode_u16s vs) = Some vs"
proof (induction vs)
  case (Cons v vs)
  then have "0 \<le> v div 256" "v div 256 < 256" by auto
  then have "le16 (word_of_int (v mod 256)) (word_of_int (v div 256)) = v"
    by (simp add: le16_def uint_word_of_int take_bit_eq_mod)
  then show ?case using Cons by (simp add: encode_u16s_def le16_bytes_def)
qed (simp add: encode_u16s_def)

text \<open>
  \<open>GETALL\<close> reports the set. A permitted \<open>GETALL\<close> answers the number of semaphores and a payload
  which, read back the way \<open>SETALL\<close> reads its own, is exactly the vector of current values, those in
  which the adjustments of processes that have died are already applied.
\<close>

theorem getall_reports_the_values:
  assumes "ipc_reach st" "r_op q = SEMCTL" "r_arg q = CNG_GETALL" "sem_find st (r_id q) = Some i"
    "sem_access (sem_at (sem_reclaim_set env i st) i) q 4"
  shows "\<exists>payload. i_out (snd (cng_ipc_serve env cfd q bs st)) =
      i_out st @ [Reply cfd (resp (int (s_nsems (sem_at (sem_reclaim_set env i st) i)))) payload] \<and>
    decode_u16s (s_nsems (sem_at (sem_reclaim_set env i st) i)) payload =
      Some (s_val (sem_at (sem_reclaim_set env i st) i))"
proof -
  let ?t = "sem_reclaim_set env i st"
  have t: "tables env st = Some st" using sem_find_Some(3) [OF assms(4)] by (simp add: tables_def)
  obtain s where s: "i < length (i_sem st)" "i_sem st ! i = Some s" using sem_find_Some [OF assms(4)] by blast
  obtain s' where s': "i < length (i_sem ?t)" "i_sem ?t ! i = Some s'" using reclaim_slot [OF s, of env i] by blast
  have at: "sem_at ?t i = s'" using s'(2) by (simp add: sem_at_def)
  have I: "ipc_inv ?t" by (rule ipc_inv_reclaim_set [OF ipc_reach_inv [OF assms(1)]])
  have ok: "sem_ok s'" using sem_inv_row [OF _ s'] I by (simp add: ipc_inv_def)
  have "\<forall>v\<in>set (s_val s'). 0 \<le> v \<and> v < 65536" using ok by (auto simp: sem_ok_def ipc_limits)
  then have "decode_u16s (s_nsems s') (encode_u16s (s_val s')) = Some (s_val s')"
    using decode_encode [of "s_val s'"] ok by (simp add: sem_ok_def)
  moreover have "i_out ?t = i_out st" using sem_only_fields(7) [OF sem_only_reclaim_set] .
  moreover have "i_out (snd (cng_ipc_serve env cfd q bs st)) =
      i_out ?t @ [Reply cfd (resp (int (s_nsems s'))) (encode_u16s (s_val s'))]"
    using assms(2,3,4,5) by (simp add: cng_ipc_serve_def t serve_op_def serve_semctl_def ipc_cmds at emit_def resp_def Let_def)
  ultimately show ?thesis unfolding at by (intro exI [of _ "encode_u16s (s_val s')"]) simp
qed

definition demo_sget :: breq where
  "demo_sget = demo_get\<lparr>r_op := SEMGET, r_size := 2\<rparr>"

definition demo_getall :: breq where
  "demo_getall = demo_get\<lparr>r_op := SEMCTL, r_id := 1, r_arg := CNG_GETALL\<rparr>"

definition demo_sems :: ipc where
  "demo_sems = ipc_do (Serve demo_ienv 5 demo_sget []) (ipc_empty 2 2 2 2)"

lemma demo_sems_eq:
  "demo_sems = (ipc_empty 2 2 2 2)\<lparr>i_tabs := True, i_sem := [Some (new_set demo_ienv 1 demo_sget), None],
     i_next_semid := 2, i_out := [Reply 5 (resp 1) []]\<rparr>"
  by (simp add: demo_sems_def ipc_empty_def replicate_two cng_ipc_serve_def tables_def serve_op_def demo_sget_def
      demo_get_def demo_ienv_def sem_do_get_def flag_set_def ipc_flags sem_create_def ipc_limits sem_alloc_id_def
      sem_find_def alloc_first next_id_def s32_of_def set_sem_def emit_def)

theorem getall_reports_the_values_witness:
  "\<exists>payload. i_out (snd (cng_ipc_serve demo_ienv 9 demo_getall [] demo_sems)) =
     [Reply 5 (resp 1) [], Reply 9 (resp 2) payload] \<and> decode_u16s 2 payload = Some [0, 0]"
proof -
  have "ipc_reach (ipc_empty 2 2 2 2)" by (rule ipc_reach.start) (simp_all add: ipc_limits)
  then have r: "ipc_reach demo_sems" unfolding demo_sems_def by (rule ipc_reach.step) (simp add: ipc_empty_def)
  have f: "sem_find demo_sems (r_id demo_getall) = Some 0"
    by (simp add: sem_find_def demo_sems_eq demo_getall_def new_set_def)
  have e: "sem_reclaim_set demo_ienv 0 demo_sems = demo_sems"
    by (simp add: sem_reclaim_set_def demo_sems_eq ipc_empty_def)
  have a: "sem_access (sem_at demo_sems 0) demo_getall 4"
    by (simp add: sem_access_def ipc_access_def sem_at_def demo_sems_eq new_set_def demo_getall_def demo_get_def
        demo_sget_def)
  show ?thesis
    using getall_reports_the_values [OF r _ _ f, of demo_ienv 9 "[]"] e a
    by (simp add: demo_getall_def demo_sems_eq ipc_empty_def sem_at_def new_set_def demo_sget_def numeral_2_eq_2)
qed

end
