(* ===== verification/Cred.thy ===== *)
theory Cred
  imports Cng_Prelude "HOL-Library.Multiset"
begin

text \<open>
  The fake identity of \<open>src/monitor/cred.c\<close>: the synthetic credential set, the setters with POSIX's
  privilege rules, the getters, capabilities, the effect of an exec, and the answers for the host's own
  set when the host refuses a setter. The set is a record of 32-bit ids and the list of supplementary
  groups. Guest memory is reached through the record \<open>umem\<close>: what a copy in of so many words from an
  address gives, and which stores an address takes; the stores made are returned as a list.
\<close>

section \<open>The set\<close>

definition ID_KEEP :: u32 where "ID_KEEP = - 1"
definition CNG_NGROUPS_MAX :: int where "CNG_NGROUPS_MAX = 1024"

record cng_cred =
  ruid :: u32
  euid :: u32
  suid :: u32
  fsuid :: u32
  rgid :: u32
  egid :: u32
  sgid :: u32
  fsgid :: u32
  groups :: "u32 list"
  ngroups :: int

record cred_cfg =
  fake_id :: bool
  fake_id_explicit :: bool
  fake_uid :: u32
  fake_gid :: u32
  host_uid :: u32
  host_gid :: u32
  setuid_root :: bool
  setgid_root :: bool

record umem =
  copyin :: "u64 \<Rightarrow> nat \<Rightarrow> u32 list option"
  copyout_ok :: "u64 \<Rightarrow> nat \<Rightarrow> bool"

type_synonym stores = "(u64 \<times> u32 list) list"

definition cng_fake_root :: "cred_cfg \<Rightarrow> cng_cred \<Rightarrow> bool" where
  "cng_fake_root cfg c = (if \<not> fake_id cfg then False else euid c = 0)"

definition cng_cred_seed :: "cred_cfg \<Rightarrow> cng_cred \<Rightarrow> cng_cred" where
  "cng_cred_seed cfg c = c\<lparr>ruid := fake_uid cfg, euid := fake_uid cfg, suid := fake_uid cfg,
     fsuid := fake_uid cfg, rgid := fake_gid cfg, egid := fake_gid cfg, sgid := fake_gid cfg,
     fsgid := fake_gid cfg, groups := [], ngroups := 0\<rparr>"

definition cng_cred_setup :: "cred_cfg \<Rightarrow> u32 \<Rightarrow> u32 \<Rightarrow> cng_cred \<Rightarrow> cred_cfg \<times> cng_cred" where
  "cng_cred_setup cfg hu hg c =
     (let cfg = cfg\<lparr>host_uid := hu, host_gid := hg\<rparr>;
          cfg = (if \<not> fake_id_explicit cfg then cfg\<lparr>fake_uid := hu, fake_gid := hg\<rparr> else cfg)
      in (cfg, cng_cred_seed cfg c))"

section \<open>Owners as the guest sees them, and exec\<close>

definition CNG_S_IFMT :: u32 where "CNG_S_IFMT = 0xF000"
definition CNG_S_IFREG :: u32 where "CNG_S_IFREG = 0x8000"
definition CNG_S_ISUID :: u32 where "CNG_S_ISUID = 0x800"
definition CNG_S_ISGID :: u32 where "CNG_S_ISGID = 0x400"

definition set_uid_file :: "u32 \<Rightarrow> bool" where
  "set_uid_file mode \<longleftrightarrow> mode AND CNG_S_ISUID \<noteq> 0 \<and> mode AND CNG_S_IFMT = CNG_S_IFREG"

definition set_gid_file :: "u32 \<Rightarrow> bool" where
  "set_gid_file mode \<longleftrightarrow> mode AND CNG_S_ISGID \<noteq> 0 \<and> mode AND CNG_S_IFMT = CNG_S_IFREG"

definition cng_remap_uid :: "cred_cfg \<Rightarrow> u32 \<Rightarrow> u32" where
  "cng_remap_uid cfg u = (if fake_id cfg \<and> u = host_uid cfg then fake_uid cfg else u)"

definition cng_remap_gid :: "cred_cfg \<Rightarrow> u32 \<Rightarrow> u32" where
  "cng_remap_gid cfg g = (if fake_id cfg \<and> g = host_gid cfg then fake_gid cfg else g)"

definition cng_exec_vis_uid :: "cred_cfg \<Rightarrow> u32 \<Rightarrow> u32 \<Rightarrow> u32" where
  "cng_exec_vis_uid cfg u mode = (if setuid_root cfg \<and> set_uid_file mode then 0 else cng_remap_uid cfg u)"

definition cng_exec_vis_gid :: "cred_cfg \<Rightarrow> u32 \<Rightarrow> u32 \<Rightarrow> u32" where
  "cng_exec_vis_gid cfg g mode = (if setgid_root cfg \<and> set_gid_file mode then 0 else cng_remap_gid cfg g)"

text \<open>
  \<open>host\<close> is the file being run, when there is one, as the host's \<open>newfstatat\<close> reports it: mode, owner and
  group, or nothing when the call fails.
\<close>

definition cng_cred_exec :: "cred_cfg \<Rightarrow> (u32 \<times> u32 \<times> u32) option option \<Rightarrow> cng_cred \<Rightarrow> cng_cred" where
  "cng_cred_exec cfg host c =
     (if \<not> fake_id cfg then c
      else let c = (case host of
             Some (Some (mode, u, g)) \<Rightarrow>
               (if setuid_root cfg \<or> setgid_root cfg then
                  (let c = (if setuid_root cfg \<and> set_uid_file mode
                            then c\<lparr>euid := cng_exec_vis_uid cfg u mode\<rparr> else c)
                   in if setgid_root cfg \<and> set_gid_file mode
                      then c\<lparr>egid := cng_exec_vis_gid cfg g mode\<rparr> else c)
                else c)
           | _ \<Rightarrow> c)
      in c\<lparr>suid := euid c, fsuid := euid c, sgid := egid c, fsgid := egid c\<rparr>)"

section \<open>The setters\<close>

definition cred_priv :: "cng_cred \<Rightarrow> bool" where
  "cred_priv c \<longleftrightarrow> euid c = 0"

definition in_uset :: "cng_cred \<Rightarrow> u32 \<Rightarrow> bool" where
  "in_uset c v \<longleftrightarrow> v = ruid c \<or> v = euid c \<or> v = suid c"

definition in_gset :: "cng_cred \<Rightarrow> u32 \<Rightarrow> bool" where
  "in_gset c v \<longleftrightarrow> v = rgid c \<or> v = egid c \<or> v = sgid c"

definition do_setuid :: "cng_cred \<Rightarrow> bool \<Rightarrow> u32 \<Rightarrow> int \<times> cng_cred" where
  "do_setuid c priv u =
     (if u = ID_KEEP then (- EINVAL, c)
      else if priv then (0, c\<lparr>ruid := u, euid := u, suid := u, fsuid := u\<rparr>)
      else if u = ruid c \<or> u = suid c then (0, c\<lparr>euid := u, fsuid := u\<rparr>)
      else (- EPERM, c))"

definition do_setgid :: "cng_cred \<Rightarrow> bool \<Rightarrow> u32 \<Rightarrow> int \<times> cng_cred" where
  "do_setgid c priv g =
     (if g = ID_KEEP then (- EINVAL, c)
      else if priv then (0, c\<lparr>rgid := g, egid := g, sgid := g, fsgid := g\<rparr>)
      else if g = rgid c \<or> g = sgid c then (0, c\<lparr>egid := g, fsgid := g\<rparr>)
      else (- EPERM, c))"

definition do_setreuid :: "cng_cred \<Rightarrow> bool \<Rightarrow> u32 \<Rightarrow> u32 \<Rightarrow> int \<times> cng_cred" where
  "do_setreuid c priv r e =
     (if r \<noteq> ID_KEEP \<and> \<not> priv \<and> r \<noteq> ruid c \<and> r \<noteq> euid c then (- EPERM, c)
      else let nc = (if r \<noteq> ID_KEEP then c\<lparr>ruid := r\<rparr> else c) in
        if e \<noteq> ID_KEEP \<and> \<not> priv \<and> e \<noteq> ruid c \<and> e \<noteq> euid c \<and> e \<noteq> suid c then (- EPERM, c)
        else let nc = (if e \<noteq> ID_KEEP then nc\<lparr>euid := e\<rparr> else nc);
                 nc = (if r \<noteq> ID_KEEP \<or> e \<noteq> ID_KEEP \<and> e \<noteq> ruid c then nc\<lparr>suid := euid nc\<rparr> else nc)
             in (0, nc\<lparr>fsuid := euid nc\<rparr>))"

definition do_setregid :: "cng_cred \<Rightarrow> bool \<Rightarrow> u32 \<Rightarrow> u32 \<Rightarrow> int \<times> cng_cred" where
  "do_setregid c priv r e =
     (if r \<noteq> ID_KEEP \<and> \<not> priv \<and> r \<noteq> rgid c \<and> r \<noteq> egid c then (- EPERM, c)
      else let nc = (if r \<noteq> ID_KEEP then c\<lparr>rgid := r\<rparr> else c) in
        if e \<noteq> ID_KEEP \<and> \<not> priv \<and> e \<noteq> rgid c \<and> e \<noteq> egid c \<and> e \<noteq> sgid c then (- EPERM, c)
        else let nc = (if e \<noteq> ID_KEEP then nc\<lparr>egid := e\<rparr> else nc);
                 nc = (if r \<noteq> ID_KEEP \<or> e \<noteq> ID_KEEP \<and> e \<noteq> rgid c then nc\<lparr>sgid := egid nc\<rparr> else nc)
             in (0, nc\<lparr>fsgid := egid nc\<rparr>))"

definition do_setresuid :: "cng_cred \<Rightarrow> bool \<Rightarrow> u32 \<Rightarrow> u32 \<Rightarrow> u32 \<Rightarrow> int \<times> cng_cred" where
  "do_setresuid c priv r e s =
     (if \<not> priv \<and> r \<noteq> ID_KEEP \<and> \<not> in_uset c r then (- EPERM, c)
      else if \<not> priv \<and> e \<noteq> ID_KEEP \<and> \<not> in_uset c e then (- EPERM, c)
      else if \<not> priv \<and> s \<noteq> ID_KEEP \<and> \<not> in_uset c s then (- EPERM, c)
      else let c = (if r \<noteq> ID_KEEP then c\<lparr>ruid := r\<rparr> else c);
               c = (if e \<noteq> ID_KEEP then c\<lparr>euid := e\<rparr> else c);
               c = (if s \<noteq> ID_KEEP then c\<lparr>suid := s\<rparr> else c)
           in (0, c\<lparr>fsuid := euid c\<rparr>))"

definition do_setresgid :: "cng_cred \<Rightarrow> bool \<Rightarrow> u32 \<Rightarrow> u32 \<Rightarrow> u32 \<Rightarrow> int \<times> cng_cred" where
  "do_setresgid c priv r e s =
     (if \<not> priv \<and> r \<noteq> ID_KEEP \<and> \<not> in_gset c r then (- EPERM, c)
      else if \<not> priv \<and> e \<noteq> ID_KEEP \<and> \<not> in_gset c e then (- EPERM, c)
      else if \<not> priv \<and> s \<noteq> ID_KEEP \<and> \<not> in_gset c s then (- EPERM, c)
      else let c = (if r \<noteq> ID_KEEP then c\<lparr>rgid := r\<rparr> else c);
               c = (if e \<noteq> ID_KEEP then c\<lparr>egid := e\<rparr> else c);
               c = (if s \<noteq> ID_KEEP then c\<lparr>sgid := s\<rparr> else c)
           in (0, c\<lparr>fsgid := egid c\<rparr>))"

definition do_setfsuid :: "cng_cred \<Rightarrow> bool \<Rightarrow> u32 \<Rightarrow> int \<times> cng_cred" where
  "do_setfsuid c priv u =
     (uint (fsuid c),
      if u \<noteq> ID_KEEP \<and> (priv \<or> u = ruid c \<or> u = euid c \<or> u = suid c \<or> u = fsuid c)
      then c\<lparr>fsuid := u\<rparr> else c)"

definition do_setfsgid :: "cng_cred \<Rightarrow> bool \<Rightarrow> u32 \<Rightarrow> int \<times> cng_cred" where
  "do_setfsgid c priv g =
     (uint (fsgid c),
      if g \<noteq> ID_KEEP \<and> (priv \<or> g = rgid c \<or> g = egid c \<or> g = sgid c \<or> g = fsgid c)
      then c\<lparr>fsgid := g\<rparr> else c)"

definition do_setgroups :: "umem \<Rightarrow> cng_cred \<Rightarrow> bool \<Rightarrow> int \<Rightarrow> u64 \<Rightarrow> int \<times> cng_cred" where
  "do_setgroups um c priv n g =
     (if \<not> priv then (- EPERM, c)
      else if n < 0 \<or> n > CNG_NGROUPS_MAX then (- EINVAL, c)
      else case (if n = 0 then Some [] else copyin um g (nat n)) of
        None \<Rightarrow> (- EFAULT, c)
      | Some got \<Rightarrow>
          (if ID_KEEP \<in> set got then (- EINVAL, c) else (0, c\<lparr>groups := got, ngroups := n\<rparr>)))"

definition do_getgroups :: "umem \<Rightarrow> cng_cred \<Rightarrow> int \<Rightarrow> u64 \<Rightarrow> int \<times> stores" where
  "do_getgroups um c sz g =
     (let n = ngroups c in
      if sz = 0 then (n, [])
      else if sz < n then (- EINVAL, [])
      else if n \<noteq> 0 \<and> \<not> copyout_ok um g (nat n) then (- EFAULT, [])
      else (n, if n \<noteq> 0 then [(g, groups c)] else []))"

section \<open>Capabilities\<close>

definition CAP_VER_1 :: u32 where "CAP_VER_1 = 0x19980330"
definition CAP_VER_2 :: u32 where "CAP_VER_2 = 0x20071026"
definition CAP_VER_3 :: u32 where "CAP_VER_3 = 0x20080522"

text \<open>Who a pid is, as the host and the process registry answer it.\<close>

record cap_env =
  own_thread :: "int \<Rightarrow> bool"
  own_tid :: int
  has_task :: "int \<Rightarrow> bool"
  has_proc :: "int \<Rightarrow> bool"
  tgid_of :: "int \<Rightarrow> int"
  proc_ids :: "int \<Rightarrow> (bool \<times> u32) option"
  capbset_read :: "nat \<Rightarrow> bool"
  reissue_capget :: "u64 \<Rightarrow> u64 \<Rightarrow> int"

text \<open>Version and pid of the header, the number of blocks, and the stores; or an error and the stores.\<close>

definition cap_magic :: "umem \<Rightarrow> u64 \<Rightarrow> (int \<times> stores) + (int \<times> nat)" where
  "cap_magic um hdr =
     (case copyin um hdr 2 of
        Some [version, pid] \<Rightarrow>
          (if version = CAP_VER_1 then Inr (sint pid, 1)
           else if version = CAP_VER_2 \<or> version = CAP_VER_3 then Inr (sint pid, 2)
           else if \<not> copyout_ok um hdr 1 then Inl (- EFAULT, [])
           else Inl (- EINVAL, [(hdr, [CAP_VER_3])]))
      | _ \<Rightarrow> Inl (- EFAULT, []))"

definition cap_all :: "bool \<Rightarrow> u32" where
  "cap_all root = (if root then - 1 else 0)"

definition do_capget :: "cred_cfg \<Rightarrow> umem \<Rightarrow> cap_env \<Rightarrow> cng_cred \<Rightarrow> u64 \<Rightarrow> u64 \<Rightarrow> int \<times> stores" where
  "do_capget cfg um ce c hdr data =
     (case cap_magic um hdr of
        Inl (r, w) \<Rightarrow> (if data = 0 \<and> r = - EINVAL then 0 else r, w)
      | Inr (pid, n) \<Rightarrow>
          (if data = 0 then (0, [])
           else if pid < 0 then (- EINVAL, [])
           else if pid \<noteq> 0 \<and> \<not> own_thread ce pid \<and> \<not> has_task ce pid
           then (reissue_capget ce hdr data, [])
           else let root =
                  (if pid = 0 \<or> own_thread ce pid then cng_fake_root cfg c
                   else let tg = (if has_proc ce pid then pid else tgid_of ce pid)
                        in (case proc_ids ce tg of
                              Some (True, eu) \<Rightarrow> eu = 0
                            | _ \<Rightarrow> fake_uid cfg = 0));
                    blocks = concat (replicate n [cap_all root, cap_all root, 0])
                in if \<not> copyout_ok um data (3 * n) then (- EFAULT, []) else (0, [(data, blocks)])))"

fun cap_last :: "(nat \<Rightarrow> bool) \<Rightarrow> nat \<Rightarrow> nat" where
  "cap_last ok l = (if l \<ge> 32 \<and> \<not> ok l then cap_last ok (l - 1) else l)"

declare cap_last.simps [simp del]

definition cap_high_mask :: "(nat \<Rightarrow> bool) \<Rightarrow> u32" where
  "cap_high_mask ok =
     (let l = cap_last ok 63; l = (if l < 32 then 40 else l)
      in ucast (push_bit (l - 32) (2 :: u64) - 1))"

fun cap_blocks :: "nat \<Rightarrow> u32 list \<Rightarrow> (u32 \<times> u32 \<times> u32) list" where
  "cap_blocks (Suc n) (e # p # i # ws) = (e, p, i) # cap_blocks n ws"
| "cap_blocks n ws = []"

definition mask_high :: "u32 \<Rightarrow> (u32 \<times> u32 \<times> u32) list \<Rightarrow> (u32 \<times> u32 \<times> u32) list" where
  "mask_high hi bs = (case bs of [a, (e, p, i)] \<Rightarrow> [a, (e AND hi, p AND hi, i AND hi)] | _ \<Rightarrow> bs)"

definition do_capset :: "cred_cfg \<Rightarrow> umem \<Rightarrow> cap_env \<Rightarrow> cng_cred \<Rightarrow> u64 \<Rightarrow> u64 \<Rightarrow> int \<times> stores" where
  "do_capset cfg um ce c hdr data =
     (case cap_magic um hdr of
        Inl (r, w) \<Rightarrow> (r, w)
      | Inr (pid, n) \<Rightarrow>
          (if pid \<noteq> 0 \<and> pid \<noteq> own_tid ce then (- EPERM, [])
           else case copyin um data (3 * n) of
             None \<Rightarrow> (- EFAULT, [])
           | Some ws \<Rightarrow>
               (let bs = mask_high (cap_high_mask (capbset_read ce)) (cap_blocks n ws) in
                if \<exists>(e, p, i)\<in>set bs. (if cng_fake_root cfg c then e AND NOT p \<noteq> 0 else e OR p OR i \<noteq> 0)
                then (- EPERM, []) else (0, []))))"

section \<open>The dispatcher with a fake identity\<close>

datatype cred_nr = Getuid | Geteuid | Getgid | Getegid | Getresuid | Getresgid | Setuid | Setgid | Setreuid
  | Setregid | Setresuid | Setresgid | Setfsuid | Setfsgid | Setgroups | Getgroups | Capget | Capset | OtherNr

definition arg32 :: "u64 \<Rightarrow> u32" where
  "arg32 a = ucast a"

definition argint :: "u64 \<Rightarrow> int" where
  "argint a = sint (ucast a :: u32)"

text \<open>A setter runs on a copy of the set, which is published when it succeeded.\<close>

definition CRED_SET :: "cng_cred \<Rightarrow> int \<times> cng_cred \<Rightarrow> int \<times> cng_cred \<times> stores" where
  "CRED_SET c rc = (fst rc, if fst rc \<ge> 0 then snd rc else c, [])"

definition getres :: "umem \<Rightarrow> u32 \<Rightarrow> u32 \<Rightarrow> u32 \<Rightarrow> u64 \<Rightarrow> u64 \<Rightarrow> u64 \<Rightarrow> int \<times> stores" where
  "getres um r e s a0 a1 a2 =
     (if \<not> copyout_ok um a0 1 then (- EFAULT, [])
      else if \<not> copyout_ok um a1 1 then (- EFAULT, [(a0, [r])])
      else if \<not> copyout_ok um a2 1 then (- EFAULT, [(a0, [r]), (a1, [e])])
      else (0, [(a0, [r]), (a1, [e]), (a2, [s])]))"

definition cng_cred_handle ::
  "cred_cfg \<Rightarrow> umem \<Rightarrow> cap_env \<Rightarrow> cred_nr \<Rightarrow> u64 \<Rightarrow> u64 \<Rightarrow> u64 \<Rightarrow> cng_cred \<Rightarrow> int \<times> cng_cred \<times> stores" where
  "cng_cred_handle cfg um ce nr a0 a1 a2 c =
     (let ret = (\<lambda>(r, w). (r, c, w)); priv = cred_priv c in
      case nr of
        Getuid \<Rightarrow> (uint (ruid c), c, [])
      | Geteuid \<Rightarrow> (uint (euid c), c, [])
      | Getgid \<Rightarrow> (uint (rgid c), c, [])
      | Getegid \<Rightarrow> (uint (egid c), c, [])
      | Getresuid \<Rightarrow> ret (getres um (ruid c) (euid c) (suid c) a0 a1 a2)
      | Getresgid \<Rightarrow> ret (getres um (rgid c) (egid c) (sgid c) a0 a1 a2)
      | Setuid \<Rightarrow> CRED_SET c (do_setuid c priv (arg32 a0))
      | Setgid \<Rightarrow> CRED_SET c (do_setgid c priv (arg32 a0))
      | Setreuid \<Rightarrow> CRED_SET c (do_setreuid c priv (arg32 a0) (arg32 a1))
      | Setregid \<Rightarrow> CRED_SET c (do_setregid c priv (arg32 a0) (arg32 a1))
      | Setresuid \<Rightarrow> CRED_SET c (do_setresuid c priv (arg32 a0) (arg32 a1) (arg32 a2))
      | Setresgid \<Rightarrow> CRED_SET c (do_setresgid c priv (arg32 a0) (arg32 a1) (arg32 a2))
      | Setfsuid \<Rightarrow> CRED_SET c (do_setfsuid c priv (arg32 a0))
      | Setfsgid \<Rightarrow> CRED_SET c (do_setfsgid c priv (arg32 a0))
      | Setgroups \<Rightarrow> CRED_SET c (do_setgroups um c priv (argint a0) a1)
      | Getgroups \<Rightarrow> ret (do_getgroups um c (argint a0) a1)
      | Capget \<Rightarrow> ret (do_capget cfg um ce c a0 a1)
      | Capset \<Rightarrow> ret (do_capset cfg um ce c a0 a1)
      | OtherNr \<Rightarrow> (- ENOSYS, c, []))"

section \<open>The host's own set\<close>

text \<open>
  What the host answers while no identity is faked: its six ids, its fs ids, whether it lets the family
  through, its effective capabilities, its group list. A setter the host lets through is the host's to
  answer (\<open>h_set\<close>).
\<close>

record host_cred =
  h_uids :: "(u32 \<times> u32 \<times> u32) option"
  h_gids :: "(u32 \<times> u32 \<times> u32) option"
  h_fsuid :: "u32 option"
  h_fsgid :: "u32 option"
  h_caps :: "u32 option"
  h_groups :: "u32 list option"
  h_blocked :: "cred_nr \<Rightarrow> bool"
  h_set :: "cred_nr \<Rightarrow> int"

definition real_ids :: "host_cred \<Rightarrow> (cng_cred \<times> bool \<times> bool) option" where
  "real_ids h =
     (case (h_uids h, h_gids h) of
        (Some (r, e, s), Some (rg, eg, sg)) \<Rightarrow>
          (let eff = (case h_caps h of Some w \<Rightarrow> w | None \<Rightarrow> 0) in
           Some (\<lparr>ruid = r, euid = e, suid = s, fsuid = (case h_fsuid h of None \<Rightarrow> e | Some u \<Rightarrow> u),
                  rgid = rg, egid = eg, sgid = sg, fsgid = (case h_fsgid h of None \<Rightarrow> eg | Some u \<Rightarrow> u),
                  groups = [], ngroups = 0\<rparr>, bit eff 7, bit eff 6))
      | _ \<Rightarrow> None)"

text \<open>The insertion sort of the source, one element bubbled down at a time.\<close>

fun bubble :: "u32 list \<Rightarrow> nat \<Rightarrow> u32 list" where
  "bubble g j = (if j > 0 \<and> g ! (j - 1) > g ! j then bubble (g[j := g ! (j - 1), j - 1 := g ! j]) (j - 1) else g)"

declare bubble.simps [simp del]

definition sort_groups :: "u32 list \<Rightarrow> u32 list" where
  "sort_groups g = fold (\<lambda>i g. bubble g i) [1 ..< length g] g"

definition same_set :: "cng_cred \<Rightarrow> cng_cred \<Rightarrow> bool" where
  "same_set a b =
     (if ruid a \<noteq> ruid b \<or> euid a \<noteq> euid b \<or> suid a \<noteq> suid b \<or> fsuid a \<noteq> fsuid b \<or> rgid a \<noteq> rgid b \<or>
         egid a \<noteq> egid b \<or> sgid a \<noteq> sgid b \<or> fsgid a \<noteq> fsgid b \<or> ngroups a \<noteq> ngroups b then False
      else sort_groups (groups a) = sort_groups (groups b))"

text \<open>
  The rule for one setter, run on a copy of the real set: its result, and the real set it is to be
  compared with, which has the host's groups only where the rule got far enough to need them.
\<close>

definition real_try :: "umem \<Rightarrow> host_cred \<Rightarrow> cred_nr \<Rightarrow> u64 \<Rightarrow> u64 \<Rightarrow> u64 \<Rightarrow> cng_cred \<Rightarrow> bool \<Rightarrow> bool \<Rightarrow>
  ((int \<times> cng_cred) \<times> cng_cred) option" where
  "real_try um h nr a0 a1 a2 was up gp =
     (let c = was; u0 = arg32 a0; u1 = arg32 a1; u2 = arg32 a2 in
      case nr of
        Setuid \<Rightarrow> Some (do_setuid c up u0, was)
      | Setgid \<Rightarrow> Some (do_setgid c gp u0, was)
      | Setreuid \<Rightarrow> Some (do_setreuid c up u0 u1, was)
      | Setregid \<Rightarrow> Some (do_setregid c gp u0 u1, was)
      | Setresuid \<Rightarrow> Some (do_setresuid c up u0 u1 u2, was)
      | Setresgid \<Rightarrow> Some (do_setresgid c gp u0 u1 u2, was)
      | Setfsuid \<Rightarrow> Some (do_setfsuid c up u0, was)
      | Setfsgid \<Rightarrow> Some (do_setfsgid c gp u0, was)
      | Setgroups \<Rightarrow>
          (let rc = do_setgroups um c gp (argint a0) a1 in
           Some (rc, if fst rc = 0 then (case h_groups h of
                       None \<Rightarrow> was\<lparr>ngroups := - 1\<rparr>
                     | Some g \<Rightarrow> was\<lparr>groups := g, ngroups := int (length g)\<rparr>) else was))
      | _ \<Rightarrow> None)"

definition real_set :: "umem \<Rightarrow> host_cred \<Rightarrow> cred_nr \<Rightarrow> u64 \<Rightarrow> u64 \<Rightarrow> u64 \<Rightarrow> int" where
  "real_set um h nr a0 a1 a2 =
     (case real_ids h of
        None \<Rightarrow> - ENOSYS
      | Some (was, up, gp) \<Rightarrow>
          (case real_try um h nr a0 a1 a2 was up gp of
             None \<Rightarrow> - ENOSYS
           | Some ((r, c), was) \<Rightarrow>
               (if r < 0 \<or> same_set was c then r
                else if nr = Setfsuid \<or> nr = Setfsgid then r else - EPERM)))"

definition is_setter :: "cred_nr \<Rightarrow> bool" where
  "is_setter nr \<longleftrightarrow> nr \<in> {Setuid, Setgid, Setreuid, Setregid, Setresuid, Setresgid, Setfsuid, Setfsgid, Setgroups}"

definition host_cred_handle :: "umem \<Rightarrow> host_cred \<Rightarrow> cred_nr \<Rightarrow> u64 \<Rightarrow> u64 \<Rightarrow> u64 \<Rightarrow> int" where
  "host_cred_handle um h nr a0 a1 a2 =
     (if is_setter nr then (if h_blocked h nr then real_set um h nr a0 a1 a2 else h_set h nr)
      else if h_blocked h nr then - ENOSYS else h_set h nr)"

end
