(* ===== verification/Cred_Props.thy ===== *)
theory Cred_Props
  imports Cred
begin

text \<open>
  What the fake identity guarantees: a privilege that has been dropped cannot come back through any
  sequence of credential calls and execs of plain files, an exec makes a drop of the effective id
  permanent, the comparison of sets is exact, a setter the host refuses is never claimed to have changed
  anything, and a program may always set the capabilities it was told it has.
\<close>

section \<open>Dropping privilege\<close>

definition uids :: "cng_cred \<Rightarrow> u32 set" where
  "uids c = {ruid c, euid c, suid c}"

definition gids :: "cng_cred \<Rightarrow> u32 set" where
  "gids c = {rgid c, egid c, sgid c}"

datatype cred_event = Call umem cap_env cred_nr u64 u64 u64 | Exec "(u32 \<times> u32 \<times> u32) option option"

text \<open>A file that gives its runner no identity: not set-id, or the flags that honour the bits are off.\<close>

definition plain_file :: "cred_cfg \<Rightarrow> (u32 \<times> u32 \<times> u32) option option \<Rightarrow> bool" where
  "plain_file cfg host =
     (case host of
        Some (Some (mode, u, g)) \<Rightarrow> \<not> (setuid_root cfg \<and> set_uid_file mode) \<and> \<not> (setgid_root cfg \<and> set_gid_file mode)
      | _ \<Rightarrow> True)"

definition plain_event :: "cred_cfg \<Rightarrow> cred_event \<Rightarrow> bool" where
  "plain_event cfg e = (case e of Call _ _ _ _ _ _ \<Rightarrow> True | Exec host \<Rightarrow> plain_file cfg host)"

fun cred_do :: "cred_cfg \<Rightarrow> cred_event \<Rightarrow> cng_cred \<Rightarrow> cng_cred" where
  "cred_do cfg (Call um ce nr a0 a1 a2) c = fst (snd (cng_cred_handle cfg um ce nr a0 a1 a2 c))"
| "cred_do cfg (Exec host) c = cng_cred_exec cfg host c"

definition within :: "cng_cred \<Rightarrow> cng_cred \<Rightarrow> bool" where
  "within c c' \<longleftrightarrow> uids c' \<subseteq> uids c \<and> fsuid c' \<in> insert (fsuid c) (uids c) \<and> gids c' \<subseteq> gids c \<and>
     fsgid c' \<in> insert (fsgid c) (gids c) \<and> groups c' = groups c \<and> ngroups c' = ngroups c"

lemma within_refl [simp]: "within c c"
  by (simp add: within_def)

lemma within_trans: "within a b \<Longrightarrow> within b c \<Longrightarrow> within a c"
  by (auto simp: within_def)

lemmas within_simps = within_def uids_def gids_def

lemma within_setuid: "within c (snd (do_setuid c False u))"
  by (simp add: do_setuid_def within_simps Let_def)

lemma within_setreuid: "within c (snd (do_setreuid c False r e))"
  by (simp add: do_setreuid_def within_simps Let_def)

lemma within_setresuid: "within c (snd (do_setresuid c False r e s))"
proof (cases "(r = ID_KEEP \<or> in_uset c r) \<and> (e = ID_KEEP \<or> in_uset c e) \<and> (s = ID_KEEP \<or> in_uset c s)")
  case True
  have ok: "v \<in> uids c" if "in_uset c v" for v using that by (auto simp: in_uset_def uids_def)
  have own: "ruid c \<in> uids c" "euid c \<in> uids c" "suid c \<in> uids c" by (simp_all add: uids_def)
  let ?r = "if r = ID_KEEP then ruid c else r" and ?e = "if e = ID_KEEP then euid c else e"
    and ?s = "if s = ID_KEEP then suid c else s"
  have "snd (do_setresuid c False r e s) = c\<lparr>ruid := ?r, euid := ?e, suid := ?s, fsuid := ?e\<rparr>"
    using True by (auto simp: do_setresuid_def Let_def)
  moreover have "?r \<in> uids c" "?e \<in> uids c" "?s \<in> uids c" using True ok own by auto
  ultimately show ?thesis by (simp add: within_def uids_def [of "_\<lparr>ruid := _, euid := _, suid := _, fsuid := _\<rparr>"])
    (simp add: uids_def gids_def)
qed (auto simp: do_setresuid_def)

lemma within_setfsuid: "within c (snd (do_setfsuid c False u))"
  by (auto simp: do_setfsuid_def within_simps)

lemma within_setgid: "within c (snd (do_setgid c False u))"
  by (simp add: do_setgid_def within_simps Let_def)

lemma within_setregid: "within c (snd (do_setregid c False r e))"
  by (simp add: do_setregid_def within_simps Let_def)

lemma within_setresgid: "within c (snd (do_setresgid c False r e s))"
proof (cases "(r = ID_KEEP \<or> in_gset c r) \<and> (e = ID_KEEP \<or> in_gset c e) \<and> (s = ID_KEEP \<or> in_gset c s)")
  case True
  have ok: "v \<in> gids c" if "in_gset c v" for v using that by (auto simp: in_gset_def gids_def)
  have own: "rgid c \<in> gids c" "egid c \<in> gids c" "sgid c \<in> gids c" by (simp_all add: gids_def)
  let ?r = "if r = ID_KEEP then rgid c else r" and ?e = "if e = ID_KEEP then egid c else e"
    and ?s = "if s = ID_KEEP then sgid c else s"
  have "snd (do_setresgid c False r e s) = c\<lparr>rgid := ?r, egid := ?e, sgid := ?s, fsgid := ?e\<rparr>"
    using True by (auto simp: do_setresgid_def Let_def)
  moreover have "?r \<in> gids c" "?e \<in> gids c" "?s \<in> gids c" using True ok own by auto
  ultimately show ?thesis by (simp add: within_def gids_def [of "_\<lparr>rgid := _, egid := _, sgid := _, fsgid := _\<rparr>"])
    (simp add: uids_def gids_def)
qed (auto simp: do_setresgid_def)

lemma within_setfsgid: "within c (snd (do_setfsgid c False u))"
  by (auto simp: do_setfsgid_def within_simps)

lemmas within_setters = within_setuid within_setreuid within_setresuid within_setfsuid within_setgid
  within_setregid within_setresgid within_setfsgid

lemma within_set: "within c (snd rc) \<Longrightarrow> within c (fst (snd (CRED_SET c rc)))"
  by (simp add: CRED_SET_def)

lemma handle_within:
  assumes "euid c \<noteq> 0"
  shows "within c (fst (snd (cng_cred_handle cfg um ce nr a0 a1 a2 c)))"
proof -
  have p: "cred_priv c = False" using assms by (simp add: cred_priv_def)
  have "within c (snd (do_setgroups um c False n g))" for n g by (simp add: do_setgroups_def)
  then show ?thesis
    using within_setters [THEN within_set]
    unfolding cng_cred_handle_def Let_def p
    by (cases nr) (simp_all add: within_set split_def)
qed

lemma exec_within: "plain_file cfg host \<Longrightarrow> within c (cng_cred_exec cfg host c)"
  by (auto simp: cng_cred_exec_def plain_file_def Let_def within_simps split: option.splits)

lemma cred_do_within:
  "euid c \<noteq> 0 \<Longrightarrow> plain_event cfg e \<Longrightarrow> within c (cred_do cfg e c)"
  by (cases e) (simp_all add: handle_within exec_within plain_event_def)

interpretation dropped: inv_system "cred_do cfg" "\<lambda>c. within c0 c \<and> 0 \<notin> uids c" "plain_event cfg"
proof
  fix s e assume a: "within c0 s \<and> 0 \<notin> uids s" "plain_event cfg e"
  then have w: "within s (cred_do cfg e s)" using cred_do_within [of s cfg e] by (simp add: uids_def)
  then have "0 \<notin> uids (cred_do cfg e s)" using a(1) by (auto simp: within_def)
  then show "within c0 (cred_do cfg e s) \<and> 0 \<notin> uids (cred_do cfg e s)" using a(1) w within_trans by blast
qed

section \<open>The group lists\<close>

lemma bubble_go:
  "j > 0 \<and> g ! (j - 1) > g ! j \<Longrightarrow> bubble g j = bubble (g[j := g ! (j - 1), j - 1 := g ! j]) (j - 1)"
  unfolding bubble.simps [of g j] by (rule if_P)

lemma bubble_stop: "\<not> (j > 0 \<and> g ! (j - 1) > g ! j) \<Longrightarrow> bubble g j = g"
  unfolding bubble.simps [of g j] by (rule if_not_P)

lemma bubble_mset: "j < length g \<Longrightarrow> mset (bubble g j) = mset g \<and> length (bubble g j) = length g"
proof (induction g j rule: bubble.induct)
  case (1 g j)
  show ?case
  proof (cases "j > 0 \<and> g ! (j - 1) > g ! j")
    case True
    have "mset (g[j := g ! (j - 1), j - 1 := g ! j]) = mset g"
      using "1.prems" by (intro mset_swap) simp_all
    then show ?thesis using "1.IH" [OF True] "1.prems" by (simp add: bubble_go [OF True])
  next
    case False
    then show ?thesis by (simp add: bubble_stop)
  qed
qed

text \<open>Bubbling position \<open>j\<close> down sorts a prefix whose only disorder is at \<open>j\<close>.\<close>

lemma bubble_sorts:
  assumes "j < n" "n \<le> length g"
    "\<And>a b. a < b \<Longrightarrow> b < n \<Longrightarrow> b \<noteq> j \<Longrightarrow> g ! a \<le> g ! b"
  shows "sorted (take n (bubble g j))"
  using assms
proof (induction g j rule: bubble.induct)
  case (1 g j)
  show ?case
  proof (cases "j > 0 \<and> g ! (j - 1) > g ! j")
    case True
    let ?g = "g[j := g ! (j - 1), j - 1 := g ! j]"
    have j: "j < length g" "j - 1 < length g" "j - 1 \<noteq> j" using "1.prems"(1,2) True by auto
    have "?g ! a \<le> ?g ! b" if ab: "a < b" "b < n" "b \<noteq> j - 1" for a b
    proof -
      have old: "g ! x \<le> g ! y" if "x < y" "y < n" "y \<noteq> j" for x y using "1.prems"(3) that by blast
      have nb: "?g ! b = (if b = j then g ! (j - 1) else g ! b)" using j ab(3) by (simp add: nth_list_update)
      have na: "?g ! a = (if a = j - 1 then g ! j else if a = j then g ! (j - 1) else g ! a)"
        using j by (simp add: nth_list_update)
      show ?thesis
      proof (cases "b = j")
        case bj: True
        show ?thesis
        proof (cases "a = j - 1")
          case aj: True
          then show ?thesis using True bj na nb by (simp add: less_imp_le)
        next
          case False
          then have "a < j - 1" using ab(1) bj by simp
          then have "g ! a \<le> g ! (j - 1)" using old [of a "j - 1"] j ab(2) bj by simp
          then show ?thesis using False bj na nb ab(1) by simp
        qed
      next
        case bj: False
        then have nb': "?g ! b = g ! b" using nb by simp
        consider "a = j - 1" | "a = j" | "a \<noteq> j - 1" "a \<noteq> j" by blast
        then show ?thesis
        proof cases
          case 1
          then have "j < b" using ab bj by auto
          then show ?thesis using old [of j b] ab(2) 1 na nb' by simp
        next
          case 2
          then have "j - 1 < b" using ab(1) by auto
          then show ?thesis using old [of "j - 1" b] ab(2) bj 2 na nb' j(3) by simp
        next
          case 3
          then show ?thesis using old [of a b] ab bj na nb' by simp
        qed
      qed
    qed
    then have "sorted (take n (bubble ?g (j - 1)))"
      using "1.IH" [OF True] "1.prems"(1,2) by simp
    then show ?thesis by (simp add: bubble_go [OF True])
  next
    case False
    have "g ! a \<le> g ! b" if "a < b" "b < n" for a b
    proof (cases "b = j")
      case True
      have "g ! (j - 1) \<le> g ! j" using False True that(1) by auto
      moreover have "g ! a \<le> g ! (j - 1)"
        using "1.prems"(1) "1.prems"(3) [of a "j - 1"] True that(1) by (cases "a = j - 1") auto
      ultimately show ?thesis using True by simp
    next
      case b: False
      then show ?thesis using "1.prems"(3) that by blast
    qed
    then have "sorted (take n g)" using "1.prems"(2) by (auto simp: sorted_iff_nth_mono_less)
    then show ?thesis by (simp add: bubble_stop [OF False])
  qed
qed

lemma sort_prefix:
  "n \<le> length g \<Longrightarrow> sorted (take n (fold (\<lambda>i g. bubble g i) [1..<n] g)) \<and>
   mset (fold (\<lambda>i g. bubble g i) [1..<n] g) = mset g \<and>
   length (fold (\<lambda>i g. bubble g i) [1..<n] g) = length g"
proof (induction n)
  case (Suc n)
  let ?h = "fold (\<lambda>i g. bubble g i) [1..<n] g"
  have ih: "sorted (take n ?h)" "mset ?h = mset g" "length ?h = length g" using Suc by simp_all
  show ?case
  proof (cases "n = 0")
    case False
    have step: "fold (\<lambda>i g. bubble g i) [1..<Suc n] g = bubble ?h n" using False by simp
    have n: "n < length ?h" using Suc.prems ih(3) by simp
    have "sorted (take (Suc n) (bubble ?h n))"
    proof (rule bubble_sorts)
      fix a b assume ab: "a < b" "b < Suc n" "b \<noteq> n"
      then have "take n ?h ! a \<le> take n ?h ! b" using ih(1,3) Suc.prems
        by (intro sorted_nth_mono) simp_all
      then show "?h ! a \<le> ?h ! b" using ab by simp
    qed (use n in simp_all)
    then show ?thesis unfolding step using bubble_mset [OF n] ih by simp
  qed (use Suc.prems in \<open>cases g; simp\<close>)
qed simp

lemma sort_groups_sort: "sort_groups g = sort g"
proof (rule properties_for_sort [symmetric])
  have "sorted (take (length g) (sort_groups g)) \<and> mset (sort_groups g) = mset g \<and> length (sort_groups g) = length g"
    unfolding sort_groups_def by (rule sort_prefix) simp
  then show "mset (sort_groups g) = mset g" "sorted (sort_groups g)" by (metis take_all order_refl)+
qed

lemma sort_eq_iff: "sort a = sort b \<longleftrightarrow> mset a = mset b" for a b :: "'a::linorder list"
  by (metis mset_sort properties_for_sort sorted_sort)

definition ids_of :: "cng_cred \<Rightarrow> u32 list" where
  "ids_of c = [ruid c, euid c, suid c, fsuid c, rgid c, egid c, sgid c, fsgid c]"

lemma same_set_iff:
  "same_set a b \<longleftrightarrow> ids_of a = ids_of b \<and> ngroups a = ngroups b \<and> mset (groups a) = mset (groups b)"
  by (auto simp: same_set_def ids_of_def sort_groups_sort sort_eq_iff)

section \<open>Properties\<close>

definition demo_cfg :: cred_cfg where
  "demo_cfg = \<lparr>fake_id = True, fake_id_explicit = True, fake_uid = 0, fake_gid = 0, host_uid = 1000, host_gid = 1000,
     setuid_root = True, setgid_root = False\<rparr>"

definition demo_cred :: cng_cred where
  "demo_cred = \<lparr>ruid = 1000, euid = 1000, suid = 0, fsuid = 1000, rgid = 100, egid = 100, sgid = 100, fsgid = 100,
     groups = [4, 27], ngroups = 2\<rparr>"

definition demo_um :: umem where
  "demo_um = \<lparr>copyin = (\<lambda>a n. if n = 2 then Some [CAP_VER_3, 0] else Some (concat (replicate (n div 3) [0, 0, 0]))),
     copyout_ok = (\<lambda>a n. True)\<rparr>"

definition demo_ce :: cap_env where
  "demo_ce = \<lparr>own_thread = (\<lambda>_. False), own_tid = 7, has_task = (\<lambda>_. False), has_proc = (\<lambda>_. False),
     tgid_of = (\<lambda>p. p), proc_ids = (\<lambda>_. None), capbset_read = (\<lambda>n. n \<le> 40), reissue_capget = (\<lambda>_ _. 0)\<rparr>"

text \<open>
  C7. A dropped privilege stays dropped. Once none of the real, effective and saved uids is 0, no
  sequence of credential system calls and of execs of files that are not honoured as set-id makes the
  process a fake root again: its uids and gids only move among those it had, and its groups are those it
  had.
\<close>

theorem dropped_privilege_stays_dropped:
  assumes "0 \<notin> uids c" "list_all (plain_event cfg) es"
  shows "within c (fold (cred_do cfg) es c) \<and> \<not> cng_fake_root cfg (fold (cred_do cfg) es c)"
proof -
  have "within c c \<and> 0 \<notin> uids c" using assms(1) by simp
  from dropped.run_inv [OF this assms(2)] show ?thesis by (auto simp: cng_fake_root_def uids_def)
qed

theorem dropped_privilege_stays_dropped_witness:
  "\<not> cng_fake_root demo_cfg (fold (cred_do demo_cfg)
     [Call demo_um demo_ce Setuid 0 0 0, Exec (Some (Some (0x81ED, 0, 0))), Call demo_um demo_ce Setresuid 0 0 0]
     (demo_cred\<lparr>suid := 1000\<rparr>))"
  using dropped_privilege_stays_dropped [of "demo_cred\<lparr>suid := 1000\<rparr>" demo_cfg
      "[Call demo_um demo_ce Setuid 0 0 0, Exec (Some (Some (0x81ED, 0, 0))), Call demo_um demo_ce Setresuid 0 0 0]"]
  by (simp add: uids_def demo_cred_def plain_event_def plain_file_def set_uid_file_def CNG_S_ISUID_def demo_cfg_def)



text \<open>
  A setter the host refuses is never claimed to have worked. Without a fake identity, when the host
  blocks a setter other than \<open>setfsuid\<close> and \<open>setfsgid\<close> and the answer is success, then what the kernel's
  rules would have installed is the set the process already has: the same eight ids, as many groups, and
  the same groups up to their order.
\<close>

theorem refused_setter_changes_nothing:
  assumes "h_blocked h nr" "is_setter nr" "nr \<noteq> Setfsuid" "nr \<noteq> Setfsgid"
    "host_cred_handle um h nr a0 a1 a2 = 0" "real_ids h = Some (was, up, gp)"
  shows "\<exists>c was'. real_try um h nr a0 a1 a2 was up gp = Some ((0, c), was') \<and> ids_of c = ids_of was' \<and>
    ngroups c = ngroups was' \<and> mset (groups c) = mset (groups was')"
proof -
  have r: "real_set um h nr a0 a1 a2 = 0" using assms(1,2,5) by (simp add: host_cred_handle_def)
  obtain rc c was' where t: "real_try um h nr a0 a1 a2 was up gp = Some ((rc, c), was')"
    using r assms(6) by (auto simp: real_set_def errno_simps split: option.splits prod.splits)
  have "rc = 0 \<and> same_set was' c"
    using r assms(3,4,6) t by (auto simp: real_set_def errno_simps split: if_splits)
  then show ?thesis using t by (auto simp: same_set_iff)
qed

definition demo_host :: host_cred where
  "demo_host = \<lparr>h_uids = Some (5, 5, 5), h_gids = Some (6, 6, 6), h_fsuid = None, h_fsgid = None, h_caps = None,
     h_groups = None, h_blocked = (\<lambda>_. True), h_set = (\<lambda>_. 0)\<rparr>"

theorem refused_setter_changes_nothing_witness:
  "host_cred_handle demo_um demo_host Setgid 6 0 0 = 0 \<and> host_cred_handle demo_um demo_host Setgid 0 0 0 = - EPERM \<and>
   (\<exists>c was'. ids_of c = ids_of was' \<and> real_try demo_um demo_host Setgid 6 0 0
      \<lparr>ruid = 5, euid = 5, suid = 5, fsuid = 5, rgid = 6, egid = 6, sgid = 6, fsgid = 6, groups = [], ngroups = 0\<rparr>
      False False = Some ((0, c), was'))"
proof -
  have i: "real_ids demo_host = Some (\<lparr>ruid = 5, euid = 5, suid = 5, fsuid = 5, rgid = 6, egid = 6, sgid = 6,
      fsgid = 6, groups = [], ngroups = 0\<rparr>, False, False)"
    by (simp add: real_ids_def demo_host_def)
  have z: "host_cred_handle demo_um demo_host Setgid 6 0 0 = 0"
    "host_cred_handle demo_um demo_host Setgid 0 0 0 = - EPERM"
    by (simp_all add: host_cred_handle_def is_setter_def demo_host_def real_set_def i [unfolded demo_host_def]
        real_try_def do_setgid_def arg32_def ID_KEEP_def same_set_iff ids_of_def errno_simps)
  have b: "h_blocked demo_host Setgid" "is_setter Setgid" by (simp_all add: demo_host_def is_setter_def)
  show ?thesis using refused_setter_changes_nothing [OF b _ _ z(1) i] z by auto
qed

lemma cap_blocks_replicate: "cap_blocks n (concat (replicate n [a, b, c])) = replicate n (a, b, c)"
  by (induction n) simp_all

lemma mask_high_replicate:
  "set (mask_high hi (replicate n (a, b, c))) \<subseteq> {(a, b, c), (a AND hi, b AND hi, c AND hi)}"
proof (cases "n = 2")
  case True
  then show ?thesis by (simp add: replicate_two mask_high_def)
next
  case False
  have "mask_high hi xs = xs" if "length xs \<noteq> 2" for xs
    using that by (auto simp: mask_high_def split: list.splits)
  then show ?thesis using False by auto
qed

text \<open>
  A program may set the capabilities it was told it has. When \<open>capget\<close> for the caller itself
  succeeds and \<open>capset\<close> is given the same header and the blocks \<open>capget\<close> stored, it succeeds too; and a
  \<open>capset\<close> that asks for no capability at all succeeds for everybody.
\<close>

theorem capset_accepts_capget:
  assumes "cap_magic um hdr = Inr (0, n)" "data \<noteq> 0" "do_capget cfg um ce c hdr data = (0, [(data, ws)])"
    "copyin um' hdr 2 = copyin um hdr 2" "copyin um' data (3 * n) = Some ws \<or>
       copyin um' data (3 * n) = Some (concat (replicate n [0, 0, 0]))"
  shows "do_capset cfg um' ce c hdr data = (0, [])"
proof -
  let ?a = "cap_all (cng_fake_root cfg c)"
  have ws: "ws = concat (replicate n [?a, ?a, 0])"
    using assms(1-3) by (auto simp: do_capget_def Let_def split: if_splits)
  have m: "cap_magic um' hdr = Inr (0, n)"
    using assms(1,4) by (auto simp: cap_magic_def split: option.splits list.splits if_splits)
  obtain x where x: "copyin um' data (3 * n) = Some (concat (replicate n [x, x, 0]))" "x = ?a \<or> x = 0"
    using assms(5) ws by auto
  let ?bs = "mask_high (cap_high_mask (capbset_read ce)) (cap_blocks n (concat (replicate n [x, x, 0])))"
  have "\<not> (if cng_fake_root cfg c then e AND NOT p \<noteq> 0 else e OR p OR i \<noteq> 0)" if t: "(e, p, i) \<in> set ?bs" for e p i
  proof -
    have "(e, p, i) = (x, x, 0) \<or> (e, p, i) = (x AND cap_high_mask (capbset_read ce), x AND cap_high_mask (capbset_read ce), 0)"
      using mask_high_replicate [of "cap_high_mask (capbset_read ce)" n x x 0] t by (auto simp: cap_blocks_replicate)
    then have e: "e = p" "i = 0" "x = 0 \<Longrightarrow> p = 0" by auto
    have "x = 0" if "\<not> cng_fake_root cfg c" using x(2) that by (auto simp: cap_all_def)
    then show ?thesis using e by auto
  qed
  then have "\<not> (\<exists>(e, p, i)\<in>set ?bs. (if cng_fake_root cfg c then e AND NOT p \<noteq> 0 else e OR p OR i \<noteq> 0))" by blast
  then show ?thesis using m x(1) by (simp add: do_capset_def Let_def)
qed

theorem capset_accepts_capget_witness:
  "do_capset demo_cfg demo_um demo_ce demo_cred 64 128 = (0, [])"
proof -
  have m: "cap_magic demo_um 64 = Inr (0, 2)"
    by (simp add: cap_magic_def demo_um_def CAP_VER_1_def CAP_VER_2_def CAP_VER_3_def)
  have g: "do_capget demo_cfg demo_um demo_ce demo_cred 64 128 = (0, [(128, [0, 0, 0, 0, 0, 0])])"
    by (simp add: do_capget_def m Let_def cng_fake_root_def demo_cfg_def demo_cred_def cap_all_def)
      (simp add: demo_um_def replicate_two)
  show ?thesis
    by (rule capset_accepts_capget [OF m _ g]) (simp_all add: demo_um_def replicate_two)
qed

end
