(* ===== verification/Publish.thy ===== *)
theory Publish
  imports Cng_Prelude
begin

text \<open>
  The published object of \<open>src/monitor/cred.c\<close> and \<open>src/path/path.c\<close>: two buffers, a pointer to the active
  one, a 32-bit sequence number and a lock word naming the writer's thread. A writer copies the active
  buffer cell by cell into the other one and edits it there, swaps the pointer, bumps the sequence
  number and releases the lock; a reader takes the sequence number and the pointer, loads cells in any
  order, and takes the sequence number again. Threads interleave at the granularity of one load or
  store (sequential consistency). A fork's child has one thread: whatever the others had in flight is
  gone, and a lock whose holder is not a thread of the process is taken over. The ghost fields record
  the objects published, newest first, and the number of bumps. A thread id is not given out again
  while the lock word still names it.
\<close>

section \<open>The state\<close>

datatype wphase = WIdle | WEdit | WSwapped | WBumped

text \<open>A reader remembers the sequence number it took; the two numbers after it are ghosts.\<close>

datatype ('i, 'v) rphase =
    RIdle
  | RSeq u32 nat nat
  | RRead u32 nat nat bool "'i \<rightharpoonup> 'v"
  | RDone nat "'i \<rightharpoonup> 'v"

record ('r, 'i, 'v) pub =
  p_buf :: "bool \<Rightarrow> 'i \<Rightarrow> 'v"
  p_cur :: bool
  p_seq :: u32
  p_owner :: nat
  p_live :: "nat set"
  p_wr :: wphase
  p_rd :: "'r \<Rightarrow> ('i, 'v) rphase"
  p_hist :: "('i \<Rightarrow> 'v) list"
  p_npub :: nat

definition pub_init :: "(bool \<Rightarrow> 'i \<Rightarrow> 'v) \<Rightarrow> ('r, 'i, 'v) pub" where
  "pub_init b = \<lparr>p_buf = b, p_cur = False, p_seq = 0, p_owner = 0, p_live = {1}, p_wr = WIdle, p_rd = (\<lambda>_. RIdle), p_hist = [b False], p_npub = 0\<rparr>"

section \<open>The reader\<close>

definition read_seq :: "'r \<Rightarrow> ('r, 'i, 'v) pub \<Rightarrow> ('r, 'i, 'v) pub option" where
  "read_seq r st = (case p_rd st r of
     RIdle \<Rightarrow> Some (st\<lparr>p_rd := (p_rd st)(r := RSeq (p_seq st) (p_npub st) (length (p_hist st)))\<rparr>) | _ \<Rightarrow> None)"

definition read_ptr :: "'r \<Rightarrow> ('r, 'i, 'v) pub \<Rightarrow> ('r, 'i, 'v) pub option" where
  "read_ptr r st = (case p_rd st r of
     RSeq s n k \<Rightarrow> Some (st\<lparr>p_rd := (p_rd st)(r := RRead s n k (p_cur st) (\<lambda>_. None))\<rparr>) | _ \<Rightarrow> None)"

definition read_cell :: "'r \<Rightarrow> 'i \<Rightarrow> ('r, 'i, 'v) pub \<Rightarrow> ('r, 'i, 'v) pub option" where
  "read_cell r i st = (case p_rd st r of
     RRead s n k b m \<Rightarrow> Some (st\<lparr>p_rd := (p_rd st)(r := RRead s n k b (m(i \<mapsto> p_buf st b i)))\<rparr>) | _ \<Rightarrow> None)"

definition read_retry :: "'r \<Rightarrow> ('r, 'i, 'v) pub \<Rightarrow> ('r, 'i, 'v) pub option" where
  "read_retry r st = (case p_rd st r of
     RRead s n k b m \<Rightarrow>
       Some (st\<lparr>p_rd := (p_rd st)(r := if p_seq st \<noteq> s then RIdle else RDone k m)\<rparr>) | _ \<Rightarrow> None)"

definition read_end :: "'r \<Rightarrow> ('r, 'i, 'v) pub \<Rightarrow> ('r, 'i, 'v) pub option" where
  "read_end r st = (case p_rd st r of RDone k m \<Rightarrow> Some (st\<lparr>p_rd := (p_rd st)(r := RIdle)\<rparr>) | _ \<Rightarrow> None)"

section \<open>The writer\<close>

definition writing :: "wphase \<Rightarrow> ('r, 'i, 'v) pub \<Rightarrow> bool" where
  "writing ph st \<longleftrightarrow> p_wr st = ph \<and> p_owner st \<in> p_live st"

definition write_lock :: "nat \<Rightarrow> ('r, 'i, 'v) pub \<Rightarrow> ('r, 'i, 'v) pub option" where
  "write_lock me st = (if p_owner st = 0 \<and> me \<in> p_live st then Some (st\<lparr>p_owner := me, p_wr := WEdit\<rparr>) else None)"

definition write_takeover :: "('r, 'i, 'v) pub \<Rightarrow> ('r, 'i, 'v) pub option" where
  "write_takeover st = (if p_owner st \<noteq> 0 \<and> p_owner st \<notin> p_live st
     then Some (st\<lparr>p_owner := 0, p_wr := WIdle\<rparr>) else None)"

definition write_cell :: "'i \<Rightarrow> 'v \<Rightarrow> ('r, 'i, 'v) pub \<Rightarrow> ('r, 'i, 'v) pub option" where
  "write_cell i v st = (if writing WEdit st
     then Some (st\<lparr>p_buf := (p_buf st)(\<not> p_cur st := (p_buf st (\<not> p_cur st))(i := v))\<rparr>) else None)"

definition write_abort :: "('r, 'i, 'v) pub \<Rightarrow> ('r, 'i, 'v) pub option" where
  "write_abort st = (if writing WEdit st then Some (st\<lparr>p_owner := 0, p_wr := WIdle\<rparr>) else None)"

definition write_swap :: "('r, 'i, 'v) pub \<Rightarrow> ('r, 'i, 'v) pub option" where
  "write_swap st = (if writing WEdit st
     then Some (st\<lparr>p_cur := \<not> p_cur st, p_wr := WSwapped, p_hist := p_buf st (\<not> p_cur st) # p_hist st\<rparr>) else None)"

definition write_bump :: "('r, 'i, 'v) pub \<Rightarrow> ('r, 'i, 'v) pub option" where
  "write_bump st = (if writing WSwapped st
     then Some (st\<lparr>p_seq := p_seq st + 1, p_npub := Suc (p_npub st), p_wr := WBumped\<rparr>) else None)"

definition write_release :: "('r, 'i, 'v) pub \<Rightarrow> ('r, 'i, 'v) pub option" where
  "write_release st = (if writing WBumped st then Some (st\<lparr>p_owner := 0, p_wr := WIdle\<rparr>) else None)"

section \<open>Threads\<close>

text \<open>
  A thread comes and goes; one that holds the lock does not end, since the writer runs with every signal
  blocked. The child of a fork has the forking thread alone, under an id of its own, and the lock word
  as the parent had it.
\<close>

definition thread_new :: "nat \<Rightarrow> ('r, 'i, 'v) pub \<Rightarrow> ('r, 'i, 'v) pub option" where
  "thread_new t st = (if t \<noteq> 0 \<and> t \<noteq> p_owner st then Some (st\<lparr>p_live := insert t (p_live st)\<rparr>) else None)"

definition thread_exit :: "nat \<Rightarrow> ('r, 'i, 'v) pub \<Rightarrow> ('r, 'i, 'v) pub option" where
  "thread_exit t st = (if t \<noteq> p_owner st then Some (st\<lparr>p_live := p_live st - {t}\<rparr>) else None)"

definition fork_child :: "nat \<Rightarrow> ('r, 'i, 'v) pub \<Rightarrow> ('r, 'i, 'v) pub option" where
  "fork_child t st = (if t \<noteq> 0 \<and> t \<noteq> p_owner st
     then Some (st\<lparr>p_live := {t}, p_rd := (\<lambda>_. RIdle)\<rparr>) else None)"

inductive pub_step :: "('r, 'i, 'v) pub \<Rightarrow> ('r, 'i, 'v) pub \<Rightarrow> bool" where
  seqno: "read_seq r st = Some st' \<Longrightarrow> pub_step st st'"
| pointer: "read_ptr r st = Some st' \<Longrightarrow> pub_step st st'"
| load: "read_cell r i st = Some st' \<Longrightarrow> pub_step st st'"
| recheck: "read_retry r st = Some st' \<Longrightarrow> pub_step st st'"
| leave: "read_end r st = Some st' \<Longrightarrow> pub_step st st'"
| lock: "write_lock me st = Some st' \<Longrightarrow> pub_step st st'"
| store: "write_cell i v st = Some st' \<Longrightarrow> pub_step st st'"
| abort: "write_abort st = Some st' \<Longrightarrow> pub_step st st'"
| swap: "write_swap st = Some st' \<Longrightarrow> pub_step st st'"
| bump: "write_bump st = Some st' \<Longrightarrow> pub_step st st'"
| release: "write_release st = Some st' \<Longrightarrow> pub_step st st'"
| takeover: "write_takeover st = Some st' \<Longrightarrow> pub_step st st'"
| born: "thread_new t st = Some st' \<Longrightarrow> pub_step st st'"
| exit: "thread_exit t st = Some st' \<Longrightarrow> pub_step st st'"
| fork: "fork_child t st = Some st' \<Longrightarrow> pub_step st st'"

inductive pub_reach :: "('r, 'i, 'v) pub \<Rightarrow> bool" where
  start: "pub_reach (pub_init b)"
| step: "pub_reach st \<Longrightarrow> pub_step st st' \<Longrightarrow> pub_reach st'"

section \<open>The invariant\<close>

definition agrees :: "('i \<rightharpoonup> 'v) \<Rightarrow> ('i \<Rightarrow> 'v) \<Rightarrow> bool" where
  "agrees m h \<longleftrightarrow> (\<forall>i v. m i = Some v \<longrightarrow> v = h i)"

definition fresh :: "('r, 'i, 'v) pub \<Rightarrow> nat \<Rightarrow> nat \<Rightarrow> bool" where
  "fresh st n k \<longleftrightarrow> n \<le> p_npub st \<and> 0 < k \<and> k \<le> length (p_hist st) \<and>
     (p_npub st = n \<longrightarrow> length (p_hist st) = k \<or> length (p_hist st) = Suc k \<and> writing WSwapped st)"

definition reader_ok :: "('r, 'i, 'v) pub \<Rightarrow> ('i, 'v) rphase \<Rightarrow> bool" where
  "reader_ok st ph =
     (case ph of
        RIdle \<Rightarrow> True
      | RSeq s n k \<Rightarrow> s = of_nat n \<and> fresh st n k
      | RRead s n k b m \<Rightarrow> s = of_nat n \<and> fresh st n k \<and>
          (p_npub st = n \<longrightarrow> agrees m (p_buf st b) \<and>
             (b = p_cur st \<or> writing WSwapped st \<and> length (p_hist st) = Suc k \<and> p_buf st b = p_hist st ! 1))
      | RDone k m \<Rightarrow> k \<le> length (p_hist st) \<and> 0 < k \<and> (p_npub st < 2 ^ 32 \<longrightarrow>
          (\<exists>j. j + k \<le> length (p_hist st) \<and> agrees m (p_hist st ! j))))"

definition pub_inv :: "('r, 'i, 'v) pub \<Rightarrow> bool" where
  "pub_inv st \<longleftrightarrow> p_seq st = of_nat (p_npub st) \<and> 0 \<notin> p_live st \<and> (p_owner st = 0 \<longleftrightarrow> p_wr st = WIdle) \<and>
     p_hist st \<noteq> [] \<and> hd (p_hist st) = p_buf st (p_cur st) \<and>
     (\<forall>r. reader_ok st (p_rd st r))"

lemma pub_inv_init: "pub_inv (pub_init b)"
  by (simp add: pub_inv_def pub_init_def reader_ok_def)

lemma pub_inv_reader:
  assumes "pub_inv st" "reader_ok st ph"
  shows "pub_inv (st\<lparr>p_rd := (p_rd st)(r := ph)\<rparr>)"
proof -
  have "reader_ok (st\<lparr>p_rd := f\<rparr>) x = reader_ok st x" for f x
    by (simp add: reader_ok_def fresh_def writing_def split: rphase.splits)
  then show ?thesis using assms by (simp add: pub_inv_def)
qed

lemma of_nat_u32_inj:
  assumes "a < 2 ^ 32" "b < 2 ^ 32" "(of_nat a :: u32) = of_nat b"
  shows "a = b"
proof -
  have "unat (of_nat a :: u32) = unat (of_nat b :: u32)" using assms(3) by simp
  then show ?thesis using assms(1,2) by (simp add: unat_of_nat)
qed

lemma hist_head: "pub_inv st \<Longrightarrow> p_hist st ! 0 = p_buf st (p_cur st)"
  by (auto simp: pub_inv_def hd_conv_nth [symmetric])

lemma fresh_now: "pub_inv st \<Longrightarrow> fresh st (p_npub st) (length (p_hist st))"
  by (simp add: pub_inv_def fresh_def)

lemma agrees_upd: "agrees m h \<Longrightarrow> agrees (m(i \<mapsto> h i)) h"
  by (simp add: agrees_def)

section \<open>Every step keeps it\<close>

lemma inv_read_seq: "pub_inv st \<Longrightarrow> read_seq r st = Some st' \<Longrightarrow> pub_inv st'"
  by (auto simp: read_seq_def reader_ok_def fresh_now pub_inv_def [THEN iffD1] split: rphase.splits
           intro!: pub_inv_reader)

lemma reader_okD: "pub_inv st \<Longrightarrow> p_rd st r = ph \<Longrightarrow> reader_ok st ph"
  by (auto simp: pub_inv_def)

lemma inv_read_ptr: "pub_inv st \<Longrightarrow> read_ptr r st = Some st' \<Longrightarrow> pub_inv st'"
  by (auto simp: read_ptr_def reader_ok_def agrees_def split: rphase.splits dest: reader_okD intro!: pub_inv_reader)

lemma inv_read_cell: "pub_inv st \<Longrightarrow> read_cell r i st = Some st' \<Longrightarrow> pub_inv st'"
  by (auto simp: read_cell_def reader_ok_def agrees_upd split: rphase.splits dest!: reader_okD intro!: pub_inv_reader)

lemma recheck_ok:
  assumes inv: "pub_inv st" and rd: "p_rd st r = RRead s n k b m" and same: "p_seq st = s"
  shows "reader_ok st (RDone k m)"
proof -
  have ok: "reader_ok st (RRead s n k b m)" using reader_okD [OF inv rd] .
  have "\<exists>j. j + k \<le> length (p_hist st) \<and> agrees m (p_hist st ! j)" if small: "p_npub st < 2 ^ 32"
  proof -
    have n: "p_npub st = n"
      using ok inv same small by (intro of_nat_u32_inj) (auto simp: reader_ok_def fresh_def pub_inv_def)
    show ?thesis
    proof (cases "b = p_cur st")
      case True
      then show ?thesis using ok n hist_head [OF inv] by (intro exI [of _ 0]) (simp add: reader_ok_def fresh_def)
    next
      case False
      then have "agrees m (p_hist st ! 1)" "1 + k \<le> length (p_hist st)" using ok n by (auto simp: reader_ok_def)
      then show ?thesis by blast
    qed
  qed
  then show ?thesis using ok by (simp add: reader_ok_def fresh_def)
qed

lemma inv_read_retry: "pub_inv st \<Longrightarrow> read_retry r st = Some st' \<Longrightarrow> pub_inv st'"
  by (auto simp: read_retry_def reader_ok_def [of _ RIdle] split: rphase.splits intro!: pub_inv_reader
           intro: recheck_ok)

lemma inv_read_end: "pub_inv st \<Longrightarrow> read_end r st = Some st' \<Longrightarrow> pub_inv st'"
  by (auto simp: read_end_def reader_ok_def split: rphase.splits intro!: pub_inv_reader)

lemma inv_lock_word:
  assumes inv: "pub_inv st" and w: "\<not> writing WSwapped st" and l: "0 \<notin> l" and o0: "o' = 0 \<longleftrightarrow> ph = WIdle"
  shows "pub_inv (st\<lparr>p_owner := o', p_live := l, p_wr := ph\<rparr>)"
proof -
  have "reader_ok (st\<lparr>p_owner := o', p_live := l, p_wr := ph\<rparr>) x" if "reader_ok st x" for x
    using that w by (auto simp: reader_ok_def fresh_def split: rphase.splits)
  then show ?thesis using inv l o0 by (simp add: pub_inv_def)
qed

lemma inv_write_lock:
  assumes inv: "pub_inv st" and w: "write_lock me st = Some st'"
  shows "pub_inv st'"
proof -
  have e: "st' = st\<lparr>p_owner := me, p_live := p_live st, p_wr := WEdit\<rparr>" and "me \<in> p_live st" "p_owner st = 0"
    using w by (auto simp: write_lock_def split: if_splits)
  moreover from this have "me \<noteq> 0" using inv by (metis pub_inv_def)
  ultimately show ?thesis unfolding e using inv
    by (intro inv_lock_word) (auto simp: pub_inv_def writing_def)
qed

lemma inv_write_free:
  assumes "pub_inv st" "\<not> writing WSwapped st"
  shows "pub_inv (st\<lparr>p_owner := 0, p_wr := WIdle\<rparr>)"
  using inv_lock_word [OF assms, of "p_live st" 0 WIdle] assms(1) by (simp add: pub_inv_def)

lemma inv_write_takeover: "pub_inv st \<Longrightarrow> write_takeover st = Some st' \<Longrightarrow> pub_inv st'"
  by (auto simp: write_takeover_def writing_def split: if_splits intro!: inv_write_free)

lemma inv_write_abort: "pub_inv st \<Longrightarrow> write_abort st = Some st' \<Longrightarrow> pub_inv st'"
  by (auto simp: write_abort_def writing_def split: if_splits intro!: inv_write_free)

lemma inv_write_release: "pub_inv st \<Longrightarrow> write_release st = Some st' \<Longrightarrow> pub_inv st'"
  by (auto simp: write_release_def writing_def split: if_splits intro!: inv_write_free)

lemma inv_live:
  assumes inv: "pub_inv st" and l: "0 \<notin> l" and o1: "p_owner st \<in> l \<longleftrightarrow> p_owner st \<in> p_live st"
  shows "pub_inv (st\<lparr>p_live := l\<rparr>)"
proof -
  have "reader_ok (st\<lparr>p_live := l\<rparr>) x = reader_ok st x" for x
    using o1 by (simp add: reader_ok_def fresh_def writing_def split: rphase.splits)
  then show ?thesis using inv l by (simp add: pub_inv_def)
qed

lemma pub_inv_live0: "pub_inv st \<Longrightarrow> 0 \<notin> p_live st"
  by (simp add: pub_inv_def)

lemma inv_thread_new: "pub_inv st \<Longrightarrow> thread_new t st = Some st' \<Longrightarrow> pub_inv st'"
  by (auto simp: thread_new_def pub_inv_live0 split: if_splits intro!: inv_live)

lemma inv_thread_exit: "pub_inv st \<Longrightarrow> thread_exit t st = Some st' \<Longrightarrow> pub_inv st'"
  by (auto simp: thread_exit_def pub_inv_live0 split: if_splits intro!: inv_live)

lemma inv_fork_child: "pub_inv st \<Longrightarrow> fork_child t st = Some st' \<Longrightarrow> pub_inv st'"
  by (auto simp: pub_inv_def fork_child_def reader_ok_def split: if_splits)

lemma inv_write_cell:
  assumes inv: "pub_inv st" and w: "write_cell i v st = Some st'"
  shows "pub_inv st'"
proof -
  have wr: "p_wr st = WEdit" "p_owner st \<in> p_live st"
    and st': "st' = st\<lparr>p_buf := (p_buf st)(\<not> p_cur st := (p_buf st (\<not> p_cur st))(i := v))\<rparr>"
    using w by (auto simp: write_cell_def writing_def split: if_splits)
  have "reader_ok st' ph" if "reader_ok st ph" for ph
    using that wr by (auto simp: st' reader_ok_def fresh_def writing_def split: rphase.splits)
  then show ?thesis using inv by (simp add: pub_inv_def st')
qed

lemma inv_write_swap:
  assumes inv: "pub_inv st" and w: "write_swap st = Some st'"
  shows "pub_inv st'"
proof -
  have wr: "p_wr st = WEdit" "p_owner st \<in> p_live st"
    and st': "st' = st\<lparr>p_cur := \<not> p_cur st, p_wr := WSwapped, p_hist := p_buf st (\<not> p_cur st) # p_hist st\<rparr>"
    using w by (auto simp: write_swap_def writing_def split: if_splits)
  have f: "fresh st' n k" if "fresh st n k" for n k using that wr by (auto simp: st' fresh_def writing_def)
  have "reader_ok st' ph" if ok: "reader_ok st ph" for ph
  proof (cases ph)
    case (RRead s n k b m)
    then show ?thesis using ok wr f hist_head [OF inv] by (auto simp: reader_ok_def st' fresh_def writing_def)
  next
    case (RDone k m)
    have "\<exists>j. j + k \<le> Suc l \<and> agrees m ((h # hs) ! j)" if "\<exists>j. j + k \<le> l \<and> agrees m (hs ! j)" for l h hs
      using that by (metis Suc_le_mono add_Suc nth_Cons_Suc)
    then show ?thesis using RDone ok by (auto simp: reader_ok_def st')
  qed (use ok f in \<open>auto simp: reader_ok_def\<close>)
  then show ?thesis using inv wr by (auto simp: pub_inv_def st')
qed

lemma inv_write_bump:
  assumes inv: "pub_inv st" and w: "write_bump st = Some st'"
  shows "pub_inv st'"
proof -
  have own: "p_owner st \<in> p_live st"
    and st': "st' = st\<lparr>p_seq := p_seq st + 1, p_npub := Suc (p_npub st), p_wr := WBumped\<rparr>"
    using w by (auto simp: write_bump_def writing_def split: if_splits)
  have "reader_ok st' ph" if "reader_ok st ph" for ph
    using that by (auto simp: st' reader_ok_def fresh_def split: rphase.splits)
  then show ?thesis using inv own by (cases "p_owner st = 0") (auto simp: pub_inv_def st')
qed

lemmas inv_steps = inv_read_seq inv_read_ptr inv_read_cell inv_read_retry inv_read_end inv_write_lock
  inv_write_takeover inv_write_cell inv_write_abort inv_write_swap inv_write_bump inv_write_release
  inv_thread_new inv_thread_exit inv_fork_child

lemma pub_step_inv: "pub_step st st' \<Longrightarrow> pub_inv st \<Longrightarrow> pub_inv st'"
  by (induction rule: pub_step.induct) (blast intro: inv_steps)+

lemma pub_reach_inv: "pub_reach st \<Longrightarrow> pub_inv st"
  by (induction rule: pub_reach.induct) (auto intro: pub_inv_init pub_step_inv)

section \<open>No torn read\<close>

text \<open>
  A read whose sequence number did not move is a read of one published object: all the cells it
  loaded are cells of one and the same object, and of one that was the current object at some moment
  between the start of the read and its end, whatever writers, threads and forks did in between (fewer
  than 2^32 publications, the range of the sequence number).
\<close>

lemma no_torn_read:
  assumes "pub_reach st" "p_npub st < 2 ^ 32" "p_rd st r = RDone k m"
  shows "\<exists>j. j + k \<le> length (p_hist st) \<and> agrees m (p_hist st ! j)"
  using reader_okD [OF pub_reach_inv [OF assms(1)] assms(3)] assms(2) by (simp add: reader_ok_def)

fun run_steps :: "('s \<Rightarrow> 's option) list \<Rightarrow> 's \<Rightarrow> 's option" where
  "run_steps [] st = Some st"
| "run_steps (f # fs) st = (case f st of None \<Rightarrow> None | Some st' \<Rightarrow> run_steps fs st')"

lemma run_steps_reach:
  assumes "pub_reach st" "run_steps fs st = Some st'" "\<And>f a b. f \<in> set fs \<Longrightarrow> f a = Some b \<Longrightarrow> pub_step a b"
  shows "pub_reach st'"
  using assms
proof (induction fs arbitrary: st)
  case (Cons f fs)
  from Cons.prems(2) obtain b where b: "f st = Some b" "run_steps fs b = Some st'"
    by (auto split: option.splits)
  then have "pub_reach b" using Cons.prems by (auto intro: pub_reach.step)
  moreover have "pub_step a c" if "g \<in> set fs" "g a = Some c" for g a c
    by (rule Cons.prems(3) [of g]) (use that in simp_all)
  ultimately show ?case by (rule Cons.IH [OF _ b(2)])
qed simp

lemmas pub_step_defs = read_seq_def read_ptr_def read_cell_def read_retry_def read_end_def writing_def write_lock_def
  write_takeover_def write_cell_def write_abort_def write_swap_def write_bump_def write_release_def

section \<open>The writer's whole critical section\<close>

definition pub_view :: "('r, 'i, 'v) pub \<Rightarrow> 'i \<Rightarrow> 'v" where
  "pub_view st = p_buf st (p_cur st)"

definition copy_cell :: "'i \<Rightarrow> ('r, 'i, 'v) pub \<Rightarrow> ('r, 'i, 'v) pub option" where
  "copy_cell i st = write_cell i (pub_view st i) st"

definition write_begin :: "nat \<Rightarrow> 'i list \<Rightarrow> (('r, 'i, 'v) pub \<Rightarrow> ('r, 'i, 'v) pub option) list" where
  "write_begin me cs = write_lock me # map copy_cell cs"

definition edit_cells :: "('i \<times> 'v) list \<Rightarrow> (('r, 'i, 'v) pub \<Rightarrow> ('r, 'i, 'v) pub option) list" where
  "edit_cells es = map (\<lambda>(i, v). write_cell i v) es"

definition write_end :: "bool \<Rightarrow> (('r, 'i, 'v) pub \<Rightarrow> ('r, 'i, 'v) pub option) list" where
  "write_end commit = (if commit then [write_swap, write_bump, write_release] else [write_abort])"

abbreviation edited :: "('i \<times> 'v) list \<Rightarrow> ('i \<Rightarrow> 'v) \<Rightarrow> 'i \<Rightarrow> 'v" where
  "edited es h \<equiv> fold (\<lambda>(i, v) f. f(i := v)) es h"

lemma run_steps_append:
  "run_steps (fs @ gs) st = (case run_steps fs st of None \<Rightarrow> None | Some st' \<Rightarrow> run_steps gs st')"
  by (induction fs arbitrary: st) (auto split: option.splits)

definition filled :: "('r, 'i, 'v) pub \<Rightarrow> ('i \<Rightarrow> 'v) \<Rightarrow> ('r, 'i, 'v) pub" where
  "filled st h = st\<lparr>p_buf := (p_buf st)(\<not> p_cur st := h)\<rparr>"

lemma run_edits:
  "writing WEdit st \<Longrightarrow>
   run_steps (edit_cells es) st = Some (filled st (edited es (p_buf st (\<not> p_cur st))))"
proof (induction es arbitrary: st)
  case (Cons e es)
  obtain i v where e: "e = (i, v)" by force
  let ?st = "filled st ((p_buf st (\<not> p_cur st))(i := v))"
  have "write_cell i v st = Some ?st" using Cons.prems by (simp add: write_cell_def filled_def)
  moreover have "writing WEdit ?st" using Cons.prems by (simp add: writing_def filled_def)
  ultimately show ?case using Cons.IH [of ?st] by (simp add: e edit_cells_def filled_def)
qed (simp add: edit_cells_def filled_def)

lemma run_copies:
  "writing WEdit st \<Longrightarrow>
   run_steps (map copy_cell cs) st = Some (filled st (edited (map (\<lambda>i. (i, pub_view st i)) cs) (p_buf st (\<not> p_cur st))))"
proof (induction cs arbitrary: st)
  case (Cons i cs)
  let ?st = "filled st ((p_buf st (\<not> p_cur st))(i := pub_view st i))"
  have "copy_cell i st = Some ?st" using Cons.prems by (simp add: copy_cell_def write_cell_def filled_def)
  moreover have "writing WEdit ?st" "pub_view ?st = pub_view st" using Cons.prems by (simp_all add: writing_def filled_def pub_view_def)
  ultimately show ?case using Cons.IH [of ?st] by (simp add: filled_def)
qed (simp add: filled_def)

lemma edited_copy: "edited (map (\<lambda>i. (i, h i)) cs) g i = (if i \<in> set cs then h i else g i)"
  by (induction cs arbitrary: g) auto

lemma edited_map_of:
  "distinct (map fst es) \<Longrightarrow> edited es h i = (case map_of es i of Some v \<Rightarrow> v | None \<Rightarrow> h i)"
proof (induction es arbitrary: h)
  case (Cons e es)
  obtain j v where e: "e = (j, v)" by force
  have "map_of es i = None" if "i = j" using Cons.prems that by (simp add: e map_of_eq_None_iff)
  then show ?case using Cons.IH [of "h(j := v)"] Cons.prems by (auto simp: e split: option.splits)
qed simp

definition pub_update :: "nat \<Rightarrow> 'i list \<Rightarrow> ('i \<times> 'v) list \<Rightarrow> bool \<Rightarrow> ('r, 'i, 'v) pub \<Rightarrow> ('r, 'i, 'v) pub option" where
  "pub_update me cs es commit = run_steps (write_begin me cs @ edit_cells es @ write_end commit)"

lemma run_write_begin:
  assumes "pub_inv st" "p_owner st = 0" "me \<in> p_live st"
  shows "\<exists>h. run_steps (write_begin me cs) st = Some (filled (st\<lparr>p_owner := me, p_wr := WEdit\<rparr>) h) \<and>
    (\<forall>i. i \<in> set cs \<longrightarrow> h i = pub_view st i)"
proof -
  let ?st = "st\<lparr>p_owner := me, p_wr := WEdit\<rparr>"
  have "writing WEdit ?st" using assms by (simp add: writing_def)
  moreover have "pub_view ?st = pub_view st" by (simp add: pub_view_def fun_eq_iff)
  ultimately show ?thesis using assms run_copies [of ?st cs]
    by (intro exI [of _ "edited (map (\<lambda>i. (i, pub_view st i)) cs) (p_buf st (\<not> p_cur st))"])
       (simp add: write_begin_def write_lock_def edited_copy)
qed

text \<open>
  The critical section of a writer that finds the lock free: it ends with the lock free again; with
  commit, the object readers then find is the edited copy, and it is the one newly published;
  without, the published object is the old one.
\<close>

lemma pub_update_spec:
  assumes "pub_reach st" "p_owner st = 0" "me \<in> p_live st"
  shows "\<exists>h st'. (\<forall>i. i \<in> set cs \<longrightarrow> h i = pub_view st i) \<and> pub_update me cs es commit st = Some st' \<and>
    p_owner st' = 0 \<and> p_rd st' = p_rd st \<and> p_live st' = p_live st \<and>
    (if commit then p_hist st' = pub_view st' # p_hist st \<and> p_seq st' = p_seq st + 1 \<and> pub_view st' = edited es h
     else p_hist st' = p_hist st \<and> p_seq st' = p_seq st \<and> pub_view st' = pub_view st)"
proof -
  let ?w = "st\<lparr>p_owner := me, p_wr := WEdit\<rparr>"
  obtain h where h: "run_steps (write_begin me cs) st = Some (filled ?w h)"
    and hi: "\<forall>i. i \<in> set cs \<longrightarrow> h i = pub_view st i"
    using run_write_begin [OF pub_reach_inv [OF assms(1)] assms(2,3)] by blast
  have w: "writing WEdit (filled ?w h)" using assms by (simp add: writing_def filled_def)
  then have ed: "run_steps (edit_cells es) (filled ?w h) = Some (filled ?w (edited es h))"
    by (simp add: run_edits) (simp add: filled_def)
  have upd: "pub_update me cs es commit st = run_steps (write_end commit) (filled ?w (edited es h))"
    by (simp add: pub_update_def run_steps_append h ed)
  show ?thesis
  proof (cases commit)
    case True
    then show ?thesis unfolding upd using assms(3) hi
      by (intro exI [of _ h])
         (simp add: write_end_def write_swap_def write_bump_def write_release_def writing_def filled_def pub_view_def)
  next
    case False
    then show ?thesis unfolding upd using assms(3) hi
      by (intro exI [of _ h]) (simp add: write_end_def write_abort_def writing_def filled_def pub_view_def)
  qed
qed

lemma pub_update_reach:
  assumes "pub_reach st" "pub_update me cs es commit st = Some st'"
  shows "pub_reach st'"
  using assms unfolding pub_update_def
  by (rule run_steps_reach)
     (auto simp: write_begin_def edit_cells_def write_end_def copy_cell_def split: if_splits intro: pub_step.intros)

section \<open>The lock is never stuck\<close>

lemma owner_frees:
  assumes inv: "pub_inv st" and o1: "p_owner st \<noteq> 0"
  shows "\<exists>st'. pub_step\<^sup>*\<^sup>* st st' \<and> p_owner st' = 0 \<and> p_live st' = p_live st"
proof (cases "p_owner st \<in> p_live st")
  case False
  then show ?thesis using o1
    by (intro exI [of _ "st\<lparr>p_owner := 0, p_wr := WIdle\<rparr>"])
       (auto intro!: r_into_rtranclp pub_step.takeover simp: write_takeover_def)
next
  case live: True
  have bumped: "\<exists>st'. pub_step\<^sup>*\<^sup>* s st' \<and> p_owner st' = 0 \<and> p_live st' = p_live s" if "writing WBumped s" for s :: "('a, 'b, 'c) pub"
    using that by (intro exI [of _ "s\<lparr>p_owner := 0, p_wr := WIdle\<rparr>"])
      (auto intro!: r_into_rtranclp pub_step.release simp: write_release_def)
  have swapped: "\<exists>st'. pub_step\<^sup>*\<^sup>* s st' \<and> p_owner st' = 0 \<and> p_live st' = p_live s" if w: "writing WSwapped s" for s :: "('a, 'b, 'c) pub"
  proof -
    let ?s = "s\<lparr>p_seq := p_seq s + 1, p_npub := Suc (p_npub s), p_wr := WBumped\<rparr>"
    have "pub_step s ?s" using w by (intro pub_step.bump) (simp add: write_bump_def)
    then show ?thesis using bumped [of ?s] w by (auto simp: writing_def intro: converse_rtranclp_into_rtranclp)
  qed
  have edit: "\<exists>st'. pub_step\<^sup>*\<^sup>* s st' \<and> p_owner st' = 0 \<and> p_live st' = p_live s" if w: "writing WEdit s" for s :: "('a, 'b, 'c) pub"
  proof -
    let ?s = "s\<lparr>p_cur := \<not> p_cur s, p_wr := WSwapped, p_hist := p_buf s (\<not> p_cur s) # p_hist s\<rparr>"
    have "pub_step s ?s" using w by (intro pub_step.swap) (simp add: write_swap_def)
    then show ?thesis using swapped [of ?s] w by (auto simp: writing_def intro: converse_rtranclp_into_rtranclp)
  qed
  show ?thesis using live inv o1 bumped [of st] swapped [of st] edit [of st]
    by (cases "p_wr st") (auto simp: writing_def pub_inv_def)
qed


definition orphan_lock :: "(unit, nat, nat) pub" where
  "orphan_lock = (pub_init (\<lambda>_ _. 5))\<lparr>p_owner := 1, p_wr := WEdit, p_live := {2}\<rparr>"

lemma orphan_reach: "pub_reach orphan_lock"
proof -
  have "run_steps [write_lock 1, fork_child 2] (pub_init (\<lambda>_ _. 5)) = Some orphan_lock"
    by (simp add: orphan_lock_def pub_init_def write_lock_def fork_child_def)
  then show ?thesis by (rule run_steps_reach [OF pub_reach.start]) (auto intro: pub_step.intros)
qed


section \<open>An object laid out in cells\<close>

text \<open>
  What the two instances share: \<open>put\<close> lays an object out in cells, \<open>get\<close> reads it back, and \<open>cells\<close> lists
  the cells in use, the ones a writer copies and a reader loads. A writer stores what the operation
  changed.
\<close>

definition changed :: "'i list \<Rightarrow> ('i \<Rightarrow> 'v) \<Rightarrow> ('i \<times> 'v) list \<Rightarrow> ('i \<times> 'v) list" where
  "changed cs h es = filter (\<lambda>(i, v). i \<notin> set cs \<or> h i \<noteq> v) es"

locale object_cells =
  fixes put :: "'o \<Rightarrow> ('i \<times> 'v) list" and get :: "('i \<Rightarrow> 'v) \<Rightarrow> 'o" and cells :: "('i \<Rightarrow> 'v) \<Rightarrow> 'i list"
    and ok :: "'o \<Rightarrow> bool"
  assumes put_distinct: "distinct (map fst (put x))"
    and get_put: "ok x \<Longrightarrow> (\<And>i v. (i, v) \<in> set (put x) \<Longrightarrow> h i = v) \<Longrightarrow> get h = x"
    and get_cong: "(\<And>i. i \<in> set (cells h) \<Longrightarrow> g i = h i) \<Longrightarrow> get g = get h"
begin

lemma get_changed:
  assumes "ok x" "\<And>i. i \<in> set (cells g) \<Longrightarrow> h i = g i"
  shows "get (edited (changed (cells g) g (put x)) h) = x"
proof (rule get_put [OF assms(1)])
  fix i v assume iv: "(i, v) \<in> set (put x)"
  have d: "distinct (map fst (changed (cells g) g (put x)))" using put_distinct by (simp add: changed_def distinct_map_filter)
  show "edited (changed (cells g) g (put x)) h i = v"
  proof (cases "(i, v) \<in> set (changed (cells g) g (put x))")
    case True
    then show ?thesis using d by (simp add: edited_map_of)
  next
    case False
    then have h: "h i = v" using iv assms(2) by (auto simp: changed_def)
    have "w = v" if "(i, w) \<in> set (changed (cells g) g (put x))" for w
      using that iv put_distinct [of x] by (auto simp: changed_def dest: eq_key_imp_eq_value)
    then have "map_of (changed (cells g) g (put x)) i = None" using False by (metis map_of_SomeD not_None_eq)
    then show ?thesis using d h by (simp add: edited_map_of)
  qed
qed

text \<open>The whole read: the cells in use, loaded one after the other, agree with one published object.\<close>

lemma read_is_published:
  assumes "pub_reach st" "p_npub st < 2 ^ 32" "p_rd st r = RDone k m"
    and "\<And>i. i \<in> set (cells (\<lambda>i. the (m i))) \<Longrightarrow> m i \<noteq> None"
  shows "\<exists>j. j + k \<le> length (p_hist st) \<and> get (\<lambda>i. the (m i)) = get (p_hist st ! j)"
proof -
  obtain j where j: "j + k \<le> length (p_hist st)" "agrees m (p_hist st ! j)"
    using no_torn_read [OF assms(1-3)] by blast
  have "get (p_hist st ! j) = get (\<lambda>i. the (m i))"
    using assms(4) j(2) by (intro get_cong) (force simp: agrees_def)
  then show ?thesis using j(1) by metis
qed

lemma write_is_atomic:
  assumes "pub_reach st" "p_owner st = 0" "me \<in> p_live st" "ok x"
  shows "\<exists>st'. pub_update me (cells (pub_view st)) (changed (cells (pub_view st)) (pub_view st) (put x)) True st = Some st' \<and> pub_reach st' \<and>
    p_owner st' = 0 \<and> get (pub_view st') = x \<and> p_hist st' = pub_view st' # p_hist st"
proof -
  obtain h st' where "\<forall>i. i \<in> set (cells (pub_view st)) \<longrightarrow> h i = pub_view st i"
      "pub_update me (cells (pub_view st)) (changed (cells (pub_view st)) (pub_view st) (put x)) True st = Some st'" "p_owner st' = 0"
      "p_hist st' = pub_view st' # p_hist st" "pub_view st' = edited (changed (cells (pub_view st)) (pub_view st) (put x)) h"
    using pub_update_spec [OF assms(1-3), of "cells (pub_view st)" "changed (cells (pub_view st)) (pub_view st) (put x)" True] by auto
  moreover from this have "get (pub_view st') = x" using get_changed [OF assms(4)] by simp
  ultimately show ?thesis using pub_update_reach [OF assms(1)] by blast
qed

end

end
