(* ===== verification/Views.thy ===== *)
theory Views
  imports Publish Path_Host Cred_Props
begin

text \<open>
  The two published objects: the file-system view of \<open>src/path/path.c\<close> (\<open>cng_g_fs\<close>) and the identity of
  \<open>src/monitor/cred.c\<close> (\<open>cng_g_cred\<close>). Each is laid out in the cells its copy loop and its readers touch,
  and the operations on the live object are the operations on a private one between \<open>write_begin\<close> and
  \<open>write_end\<close>.
\<close>

section \<open>The file-system view\<close>

datatype fs_cell = Rootfs | Rlen | Bind nat | Nbinds | Has_Ro | Cwd

datatype fs_val = Str string | Num nat | Entry cng_bind | Flag bool

fun str_of :: "fs_val \<Rightarrow> string" where
  "str_of (Str s) = s"
| "str_of _ = []"

fun num_of :: "fs_val \<Rightarrow> nat" where
  "num_of (Num n) = n"
| "num_of _ = 0"

fun entry_of :: "fs_val \<Rightarrow> cng_bind" where
  "entry_of (Entry b) = b"
| "entry_of _ = \<lparr>b_guest = [], b_host = [], b_glen = 0, b_hlen = 0, b_base = 0, b_ro = False\<rparr>"

fun flag_of :: "fs_val \<Rightarrow> bool" where
  "flag_of (Flag b) = b"
| "flag_of _ = False"

definition fs_put :: "cng_fs \<Rightarrow> (fs_cell \<times> fs_val) list" where
  "fs_put fs = [(Rootfs, Str (fs_rootfs fs)), (Rlen, Num (fs_rlen fs))] @
     map (\<lambda>i. (Bind i, Entry (fs_binds fs ! i))) [0..<length (fs_binds fs)] @
     [(Nbinds, Num (length (fs_binds fs))), (Has_Ro, Flag (fs_has_ro fs)), (Cwd, Str (fs_cwd fs))]"

definition fs_get :: "(fs_cell \<Rightarrow> fs_val) \<Rightarrow> cng_fs" where
  "fs_get h = \<lparr>fs_rootfs = str_of (h Rootfs), fs_rlen = num_of (h Rlen),
     fs_binds = map (\<lambda>i. entry_of (h (Bind i))) [0..<num_of (h Nbinds)], fs_has_ro = flag_of (h Has_Ro),
     fs_cwd = str_of (h Cwd)\<rparr>"

text \<open>The cells \<open>fs_copy\<close> copies, in its order; the strings go through \<open>cng_strlcpy\<close>.\<close>

definition fs_cells :: "(fs_cell \<Rightarrow> fs_val) \<Rightarrow> fs_cell list" where
  "fs_cells h = [Rootfs, Rlen] @ map Bind [0..<num_of (h Nbinds)] @ [Nbinds, Has_Ro, Cwd]"

definition fs_copy :: "cng_fs \<Rightarrow> cng_fs" where
  "fs_copy src = src\<lparr>fs_rootfs := fst (str_lcpy HOST_SZ (fs_rootfs src)), fs_cwd := fst (str_lcpy CNG_PATH_MAX (fs_cwd src))\<rparr>"

text \<open>On a well-formed view no string is cut, so the copy is the view.\<close>

lemma fs_copy_wf: "wf_fs fs \<Longrightarrow> fs_copy fs = fs"
proof -
  assume "wf_fs fs"
  then have "take (HOST_SZ - 1) (fs_rootfs fs) = fs_rootfs fs" "take (CNG_PATH_MAX - 1) (fs_cwd fs) = fs_cwd fs"
    by (auto simp: wf_fs_def)
  then show "fs_copy fs = fs" by (simp add: fs_copy_def str_lcpy_def)
qed

interpretation fso: object_cells fs_put fs_get fs_cells "\<lambda>_. True"
proof
  show "distinct (map fst (fs_put x))" for x
    by (auto simp: fs_put_def comp_def distinct_map inj_on_def)
next
  fix x h assume "\<And>i v. (i, v) \<in> set (fs_put x) \<Longrightarrow> h i = v"
  then have h: "h Rootfs = Str (fs_rootfs x)" "h Rlen = Num (fs_rlen x)" "h Nbinds = Num (length (fs_binds x))"
      "h Has_Ro = Flag (fs_has_ro x)" "h Cwd = Str (fs_cwd x)"
      "\<And>i. i < length (fs_binds x) \<Longrightarrow> h (Bind i) = Entry (fs_binds x ! i)"
    by (auto simp: fs_put_def)
  then have "map (\<lambda>i. entry_of (h (Bind i))) [0..<length (fs_binds x)] = fs_binds x"
    by (intro nth_equalityI) auto
  then show "fs_get h = x" by (simp add: fs_get_def h)
next
  show "fs_get g = fs_get h" if "\<And>i. i \<in> set (fs_cells h) \<Longrightarrow> g i = h i" for g h
    using that by (auto simp: fs_get_def fs_cells_def)
qed

type_synonym 'r fs_pub = "('r, fs_cell, fs_val) pub"

text \<open>The initial view, built in private and made the live one.\<close>

definition cng_fs_publish :: "cng_fs \<Rightarrow> (fs_cell \<Rightarrow> fs_val) \<Rightarrow> 'r fs_pub" where
  "cng_fs_publish src zero = pub_init (\<lambda>b. if b then zero else edited (fs_put (fs_copy src)) zero)"

definition cng_fs_read_begin :: "'r \<Rightarrow> 'r fs_pub \<Rightarrow> 'r fs_pub option" where
  "cng_fs_read_begin r = run_steps [read_seq r, read_ptr r]"

definition cng_fs_read_retry :: "'r \<Rightarrow> 'r fs_pub \<Rightarrow> 'r fs_pub option" where
  "cng_fs_read_retry r = read_retry r"

text \<open>\<open>fs_write_begin\<close>, the operation on the copy, \<open>fs_write_end\<close>.\<close>

definition fs_write :: "nat \<Rightarrow> (cng_fs \<Rightarrow> cng_fs) \<Rightarrow> 'r fs_pub \<Rightarrow> 'r fs_pub option" where
  "fs_write me f st = (let h = pub_view st; cs = fs_cells h in
     pub_update me cs (changed cs h (fs_put (f (fs_copy (fs_get h))))) True st)"

definition cng_fs_chroot :: "nat \<Rightarrow> 'r fs_pub \<Rightarrow> string \<Rightarrow> string \<Rightarrow> 'r fs_pub option" where
  "cng_fs_chroot me st guest_root host_root = fs_write me (\<lambda>fs. chroot_1 fs guest_root host_root) st"

definition cng_fs_set_cwd :: "nat \<Rightarrow> 'r fs_pub \<Rightarrow> string \<Rightarrow> 'r fs_pub option" where
  "cng_fs_set_cwd me st guest_cwd = fs_write me (\<lambda>fs. set_cwd_1 fs guest_cwd) st"

text \<open>What a reader computes from the cells it loaded.\<close>

definition loaded :: "('i \<rightharpoonup> 'v) \<Rightarrow> 'i \<Rightarrow> 'v" where
  "loaded m i = the (m i)"

definition cng_fs_cwd :: "(fs_cell \<rightharpoonup> fs_val) \<Rightarrow> nat \<Rightarrow> string \<times> nat" where
  "cng_fs_cwd m sz = (let cwd = str_of (loaded m Cwd) in str_lcpy sz (if cwd \<noteq> [] then cwd else [SL]))"

definition cng_fs_rootfs :: "(fs_cell \<rightharpoonup> fs_val) \<Rightarrow> nat \<Rightarrow> string \<times> nat" where
  "cng_fs_rootfs m sz = str_lcpy sz (str_of (loaded m Rootfs))"

definition cng_fs_host_ro :: "(fs_cell \<rightharpoonup> fs_val) \<Rightarrow> string \<Rightarrow> bool" where
  "cng_fs_host_ro m host = host_ro_1 (fs_get (loaded m)) host"

definition fs_loaded :: "(fs_cell \<rightharpoonup> fs_val) \<Rightarrow> bool" where
  "fs_loaded m = list_all (\<lambda>i. m i \<noteq> None) (fs_cells (loaded m))"

lemma fs_write_spec:
  assumes "pub_reach st" "p_owner st = 0" "me \<in> p_live st" "wf_fs (fs_get (pub_view st))"
  shows "\<exists>st'. fs_write me f st = Some st' \<and> pub_reach st' \<and> p_owner st' = 0 \<and>
    fs_get (pub_view st') = f (fs_get (pub_view st)) \<and> p_hist st' = pub_view st' # p_hist st"
  using fso.write_is_atomic [OF assms(1-3) TrueI] by (simp add: fs_write_def Let_def fs_copy_wf [OF assms(4)])

lemma fs_publish_view: "wf_fs fs \<Longrightarrow> fs_get (pub_view (cng_fs_publish fs z :: 'r fs_pub)) = fs"
proof -
  assume wf: "wf_fs fs"
  have "edited (fs_put fs) z i = v" if "(i, v) \<in> set (fs_put fs)" for i v
    using that fso.put_distinct [of fs] by (simp add: edited_map_of)
  then have "fs_get (edited (fs_put fs) z) = fs" by (intro fso.get_put) simp_all
  then show "fs_get (pub_view (cng_fs_publish fs z :: 'r fs_pub)) = fs"
    by (simp add: cng_fs_publish_def pub_view_def pub_init_def fs_copy_wf [OF wf])
qed


text \<open>A read that a chdir overtakes between its loads.\<close>

definition fs_zero :: "fs_cell \<Rightarrow> fs_val" where
  "fs_zero c = Num 0"

definition view_race :: "(unit fs_pub \<Rightarrow> unit fs_pub option) list" where
  "view_race = [read_seq (), read_ptr (), read_cell () Nbinds, read_cell () Rootfs, write_lock 1, write_cell Cwd (Str ''/d''),
     read_cell () Cwd, write_swap, read_cell () (Bind 0), read_cell () (Bind 1), read_cell () Rlen, read_cell () Has_Ro,
     read_retry ()]"

definition view_race_end :: "unit fs_pub" where
  "view_race_end = (case run_steps view_race (cng_fs_publish demo_fs fs_zero) of
     Some st \<Rightarrow> st | None \<Rightarrow> cng_fs_publish demo_fs fs_zero)"

definition view_race_read :: "fs_cell \<rightharpoonup> fs_val" where
  "view_race_read = map_of (fs_put demo_fs)"

lemma demo_fs_put: "fs_put demo_fs = [(Rootfs, Str ''/r''), (Rlen, Num 2), (Bind 0, Entry (demo_bind ''/d'' ''/x'' True)),
    (Bind 1, Entry (demo_bind ''/d/e'' ''/y'' False)), (Nbinds, Num 2), (Has_Ro, Flag True), (Cwd, Str ''/'')]"
  by (simp add: fs_put_def demo_fs_def upt_rec)

lemma demo_publish: "cng_fs_publish demo_fs z = pub_init (\<lambda>b. if b then z else edited (fs_put demo_fs) z)"
  by (simp only: cng_fs_publish_def fs_copy_wf [OF demo_wf(1)])

lemma view_race_runs: "run_steps view_race (cng_fs_publish demo_fs fs_zero) = Some view_race_end"
  by (simp add: view_race_end_def view_race_def demo_publish pub_init_def pub_step_defs)

lemma view_race_reach: "pub_reach view_race_end"
proof -
  have "pub_reach (cng_fs_publish demo_fs fs_zero :: unit fs_pub)" by (simp add: cng_fs_publish_def pub_reach.start)
  then show ?thesis by (rule run_steps_reach [OF _ view_race_runs]) (auto simp: view_race_def intro: pub_step.intros)
qed

lemma view_race_fields:
  "p_npub view_race_end = 0" "length (p_hist view_race_end) = 2" "p_rd view_race_end () = RDone 1 view_race_read"
  by (simp_all add: view_race_end_def view_race_def demo_publish pub_init_def pub_step_defs view_race_read_def
      demo_fs_put fun_eq_iff)

lemma view_race_loaded: "fs_loaded view_race_read" "fs_get (loaded view_race_read) = demo_fs"
  by (simp_all add: fs_loaded_def fs_cells_def loaded_def view_race_read_def demo_fs_put upt_rec fs_get_def)
     (simp add: demo_fs_def)




section \<open>The identity\<close>

datatype cred_cell = Ruid | Euid | Suid | Fsuid | Rgid | Egid | Sgid | Fsgid | Ngroups | Group nat

definition cred_put :: "cng_cred \<Rightarrow> (cred_cell \<times> int) list" where
  "cred_put c = [(Ruid, uint (ruid c)), (Euid, uint (euid c)), (Suid, uint (suid c)), (Fsuid, uint (fsuid c)),
     (Rgid, uint (rgid c)), (Egid, uint (egid c)), (Sgid, uint (sgid c)), (Fsgid, uint (fsgid c)),
     (Ngroups, ngroups c)] @ map (\<lambda>i. (Group i, uint (groups c ! i))) [0..<length (groups c)]"

text \<open>\<open>ids_of\<close> and the loop of \<open>cng_cred_groups\<close>, with its guard against a count that is being copied.\<close>

definition groups_read :: "(cred_cell \<Rightarrow> int) \<Rightarrow> nat" where
  "groups_read h = (if h Ngroups < 0 \<or> h Ngroups > CNG_NGROUPS_MAX then 0 else nat (h Ngroups))"

definition cred_get :: "(cred_cell \<Rightarrow> int) \<Rightarrow> cng_cred" where
  "cred_get h = \<lparr>ruid = word_of_int (h Ruid), euid = word_of_int (h Euid), suid = word_of_int (h Suid),
     fsuid = word_of_int (h Fsuid), rgid = word_of_int (h Rgid), egid = word_of_int (h Egid),
     sgid = word_of_int (h Sgid), fsgid = word_of_int (h Fsgid),
     groups = map (\<lambda>i. word_of_int (h (Group i))) [0..<groups_read h], ngroups = int (groups_read h)\<rparr>"

definition cred_cells :: "(cred_cell \<Rightarrow> int) \<Rightarrow> cred_cell list" where
  "cred_cells h = [Ruid, Euid, Suid, Fsuid, Rgid, Egid, Sgid, Fsgid, Ngroups] @ map Group [0..<groups_read h]"

definition cred_ok :: "cng_cred \<Rightarrow> bool" where
  "cred_ok c \<longleftrightarrow> ngroups c = int (length (groups c)) \<and> ngroups c \<le> CNG_NGROUPS_MAX"

interpretation credo: object_cells cred_put cred_get cred_cells cred_ok
proof
  show "distinct (map fst (cred_put x))" for x
    by (auto simp: cred_put_def comp_def distinct_map inj_on_def)
next
  fix x h assume ok: "cred_ok x" and "\<And>i v. (i, v) \<in> set (cred_put x) \<Longrightarrow> h i = v"
  then have h: "h Ruid = uint (ruid x)" "h Euid = uint (euid x)" "h Suid = uint (suid x)" "h Fsuid = uint (fsuid x)"
      "h Rgid = uint (rgid x)" "h Egid = uint (egid x)" "h Sgid = uint (sgid x)" "h Fsgid = uint (fsgid x)"
      "h Ngroups = ngroups x" "\<And>i. i < length (groups x) \<Longrightarrow> h (Group i) = uint (groups x ! i)"
    by (auto simp: cred_put_def)
  have n: "groups_read h = length (groups x)" "ngroups x = int (length (groups x))"
    using ok by (simp_all add: groups_read_def h cred_ok_def)
  have "map (\<lambda>i. word_of_int (h (Group i))) [0..<length (groups x)] = groups x"
    by (intro nth_equalityI) (auto simp: h)
  then show "cred_get h = x" by (simp add: cred_get_def h n)
next
  fix g h :: "cred_cell \<Rightarrow> int" assume eq: "\<And>i. i \<in> set (cred_cells h) \<Longrightarrow> g i = h i"
  then have "g Ngroups = h Ngroups" by (simp add: cred_cells_def)
  then have "groups_read g = groups_read h" by (simp add: groups_read_def)
  then show "cred_get g = cred_get h" using eq by (auto simp: cred_get_def cred_cells_def)
qed

type_synonym 'r cred_pub = "('r, cred_cell, int) pub"

text \<open>A setter on the live identity (\<open>CRED_SET\<close>): published only when it succeeded.\<close>

definition cred_live ::
  "nat \<Rightarrow> cred_cfg \<Rightarrow> umem \<Rightarrow> cap_env \<Rightarrow> cred_nr \<Rightarrow> u64 \<Rightarrow> u64 \<Rightarrow> u64 \<Rightarrow> 'r cred_pub \<Rightarrow> (int \<times> 'r cred_pub) option"
where
  "cred_live me cfg um ce nr a0 a1 a2 st =
     (let h = pub_view st; cs = cred_cells h; (r, c, _) = cng_cred_handle cfg um ce nr a0 a1 a2 (cred_get h) in
      map_option (\<lambda>st'. (r, st')) (pub_update me cs (changed cs h (cred_put c)) (r \<ge> 0) st))"

definition cng_cred_groups :: "(cred_cell \<rightharpoonup> int) \<Rightarrow> u32 list" where
  "cng_cred_groups m = groups (cred_get (loaded m))"

definition cred_loaded :: "(cred_cell \<rightharpoonup> int) \<Rightarrow> bool" where
  "cred_loaded m = list_all (\<lambda>i. m i \<noteq> None) (cred_cells (loaded m))"

text \<open>What a successful copy from the guest delivers.\<close>

definition copyin_exact :: "umem \<Rightarrow> bool" where
  "copyin_exact um \<longleftrightarrow> (\<forall>a n ws. copyin um a n = Some ws \<longrightarrow> length ws = n)"

lemma setters_keep_groups:
  "ngroups (snd (do_setuid c p u)) = ngroups c" "groups (snd (do_setuid c p u)) = groups c"
  "ngroups (snd (do_setgid c p u)) = ngroups c" "groups (snd (do_setgid c p u)) = groups c"
  "ngroups (snd (do_setreuid c p u v)) = ngroups c" "groups (snd (do_setreuid c p u v)) = groups c"
  "ngroups (snd (do_setregid c p u v)) = ngroups c" "groups (snd (do_setregid c p u v)) = groups c"
  "ngroups (snd (do_setresuid c p u v w)) = ngroups c" "groups (snd (do_setresuid c p u v w)) = groups c"
  "ngroups (snd (do_setresgid c p u v w)) = ngroups c" "groups (snd (do_setresgid c p u v w)) = groups c"
  "ngroups (snd (do_setfsuid c p u)) = ngroups c" "groups (snd (do_setfsuid c p u)) = groups c"
  "ngroups (snd (do_setfsgid c p u)) = ngroups c" "groups (snd (do_setfsgid c p u)) = groups c"
  by (simp_all add: do_setuid_def do_setgid_def do_setreuid_def do_setregid_def do_setresuid_def do_setresgid_def
      do_setfsuid_def do_setfsgid_def Let_def)

lemma setgroups_ok: "copyin_exact um \<Longrightarrow> cred_ok c \<Longrightarrow> cred_ok (snd (do_setgroups um c p n g))"
  by (auto simp: do_setgroups_def cred_ok_def copyin_exact_def split: option.splits if_splits)

lemma handle_ok:
  assumes "copyin_exact um" "cred_ok c"
  shows "cred_ok (fst (snd (cng_cred_handle cfg um ce nr a0 a1 a2 c)))"
proof (cases "nr = Setgroups")
  case True
  then show ?thesis using assms setgroups_ok [OF assms] by (simp add: cng_cred_handle_def Let_def CRED_SET_def)
next
  case False
  then show ?thesis using assms(2) unfolding cng_cred_handle_def Let_def CRED_SET_def
    by (cases nr) (simp_all add: setters_keep_groups split_def cred_ok_def)
qed

lemma failed_setter_same:
  "is_setter nr \<Longrightarrow> fst (cng_cred_handle cfg um ce nr a0 a1 a2 c) < 0 \<Longrightarrow>
   fst (snd (cng_cred_handle cfg um ce nr a0 a1 a2 c)) = c"
  unfolding cng_cred_handle_def Let_def CRED_SET_def by (cases nr) (simp_all add: is_setter_def)

text \<open>
  A setter on the live identity is one change. Whatever it is asked, it ends with the lock free and
  the result of the rules on the identity before; if it succeeds, the identity the rules give is
  published, with exactly one publication, and if it fails, nothing is.
\<close>

theorem live_identity_changes_as_one:
  assumes "pub_reach st" "p_owner st = 0" "me \<in> p_live st" "cred_ok (cred_get (pub_view st))" "copyin_exact um"
    and "is_setter nr" "cng_cred_handle cfg um ce nr a0 a1 a2 (cred_get (pub_view st)) = (r, c, w)"
  shows "\<exists>st'. cred_live me cfg um ce nr a0 a1 a2 st = Some (r, st') \<and> p_owner st' = 0 \<and>
    cred_get (pub_view st') = c \<and> cred_ok c \<and>
    p_hist st' = (if r \<ge> 0 then pub_view st' # p_hist st else p_hist st)"
proof -
  have ok: "cred_ok c" using handle_ok [OF assms(5,4)] assms(7) by (metis fst_conv snd_conv)
  let ?h = "pub_view st"
  let ?es = "changed (cred_cells ?h) ?h (cred_put c)"
  have live: "cred_live me cfg um ce nr a0 a1 a2 st =
      map_option (\<lambda>st'. (r, st')) (pub_update me (cred_cells ?h) ?es (r \<ge> 0) st)"
    using assms(7) by (simp add: cred_live_def Let_def)
  show ?thesis
  proof (cases "r \<ge> 0")
    case True
    then show ?thesis using credo.write_is_atomic [OF assms(1-3) ok] live ok by auto
  next
    case False
    then have "c = cred_get ?h" using failed_setter_same [OF assms(6)] assms(7) by (metis fst_conv not_le snd_conv)
    moreover obtain st' where "pub_update me (cred_cells ?h) ?es False st = Some st'" "p_owner st' = 0"
        "p_hist st' = p_hist st" "pub_view st' = ?h"
      using pub_update_spec [OF assms(1-3), of "cred_cells ?h" ?es False] by auto
    ultimately show ?thesis using live ok False by simp
  qed
qed

definition cred_pub0 :: "unit cred_pub" where
  "cred_pub0 = pub_init (\<lambda>_ i. the (map_of (cred_put demo_cred) i))"

lemma cred_pub0_view: "cred_get (pub_view cred_pub0) = demo_cred"
proof (rule credo.get_put)
  show "cred_ok demo_cred" by (simp add: cred_ok_def demo_cred_def CNG_NGROUPS_MAX_def)
  show "pub_view cred_pub0 i = v" if "(i, v) \<in> set (cred_put demo_cred)" for i v
    using map_of_is_SomeI [OF credo.put_distinct that] by (simp add: cred_pub0_def pub_view_def pub_init_def)
qed

lemma cred_pub0_start: "pub_reach cred_pub0" "p_owner cred_pub0 = 0" "1 \<in> p_live cred_pub0"
  by (simp add: cred_pub0_def pub_reach.start) (simp_all add: cred_pub0_def pub_init_def)

definition nomem :: umem where
  "nomem = \<lparr>copyin = (\<lambda>_ _. None), copyout_ok = (\<lambda>_ _. False)\<rparr>"

theorem live_identity_changes_as_one_witness:
  "\<exists>st'. cred_live 1 demo_cfg nomem demo_ce Setuid 0 0 0 cred_pub0 = Some (0, st') \<and> euid (cred_get (pub_view st')) = 0"
proof -
  have h: "cng_cred_handle demo_cfg nomem demo_ce Setuid 0 0 0 (cred_get (pub_view cred_pub0)) =
      (0, demo_cred\<lparr>euid := 0, fsuid := 0\<rparr>, [])"
    by (simp add: cred_pub0_view cng_cred_handle_def Let_def CRED_SET_def do_setuid_def demo_cred_def cred_priv_def
        arg32_def ID_KEEP_def)
  have "cred_ok (cred_get (pub_view cred_pub0))" "copyin_exact nomem" "is_setter Setuid"
    by (simp_all add: cred_pub0_view cred_ok_def demo_cred_def CNG_NGROUPS_MAX_def copyin_exact_def nomem_def is_setter_def)
  from live_identity_changes_as_one [OF cred_pub0_start this h] show ?thesis by auto
qed

text \<open>
  A reader of the identity - the ids and the group list with its count - gets one published identity,
  whole.
\<close>

theorem reader_sees_one_identity:
  assumes "pub_reach st" "p_npub st < 2 ^ 32" "p_rd st r = RDone k m" "cred_loaded m"
  shows "\<exists>j. j + k \<le> length (p_hist st) \<and> cred_get (loaded m) = cred_get (p_hist st ! j) \<and>
    cng_cred_groups m = groups (cred_get (p_hist st ! j))"
proof -
  have l: "loaded m = (\<lambda>i. the (m i))" by (simp add: loaded_def fun_eq_iff)
  show ?thesis
    using credo.read_is_published [OF assms(1-3)] assms(4) unfolding cred_loaded_def cng_cred_groups_def l list_all_iff
    by fastforce
qed

definition ids_race :: "(unit cred_pub \<Rightarrow> unit cred_pub option) list" where
  "ids_race = [read_seq (), read_ptr (), read_cell () Ngroups, read_cell () (Group 0), write_lock 1, write_cell Ngroups 1,
     write_swap, read_cell () (Group 1), read_cell () Ruid, read_cell () Euid, read_cell () Suid, read_cell () Fsuid,
     read_cell () Rgid, read_cell () Egid, read_cell () Sgid, read_cell () Fsgid, read_retry ()]"

definition ids_race_end :: "unit cred_pub" where
  "ids_race_end = (case run_steps ids_race cred_pub0 of Some st \<Rightarrow> st | None \<Rightarrow> cred_pub0)"

lemma demo_cred_put: "cred_put demo_cred = [(Ruid, 1000), (Euid, 1000), (Suid, 0), (Fsuid, 1000), (Rgid, 100), (Egid, 100),
    (Sgid, 100), (Fsgid, 100), (Ngroups, 2), (Group 0, 4), (Group 1, 27)]"
  by (simp add: cred_put_def demo_cred_def upt_rec)

lemma ids_race_runs: "run_steps ids_race cred_pub0 = Some ids_race_end"
  by (simp add: ids_race_end_def ids_race_def cred_pub0_def pub_init_def pub_step_defs)

lemma ids_race_reach: "pub_reach ids_race_end"
  by (rule run_steps_reach [OF cred_pub0_start(1) ids_race_runs]) (auto simp: ids_race_def intro: pub_step.intros)

lemma ids_race_fields:
  "p_npub ids_race_end = 0" "length (p_hist ids_race_end) = 2"
  "p_rd ids_race_end () = RDone 1 (map_of (cred_put demo_cred))"
  by (simp_all add: ids_race_end_def ids_race_def cred_pub0_def pub_init_def pub_step_defs demo_cred_put fun_eq_iff)

lemma ids_race_loaded: "cred_loaded (map_of (cred_put demo_cred))" "cng_cred_groups (map_of (cred_put demo_cred)) = [4, 27]"
  by (simp_all add: cred_loaded_def cred_cells_def loaded_def demo_cred_put groups_read_def CNG_NGROUPS_MAX_def
      upt_rec cng_cred_groups_def cred_get_def)

theorem reader_sees_one_identity_witness:
  "\<exists>j. j + 1 \<le> 2 \<and> groups (cred_get (p_hist ids_race_end ! j)) = [4, 27]"
  using reader_sees_one_identity [OF ids_race_reach _ ids_race_fields(3) ids_race_loaded(1)]
  by (auto simp: ids_race_fields ids_race_loaded(2))

end
