(* ===== verification/Bpf.thy ===== *)
theory Bpf
  imports Cng_Prelude
begin

text \<open>
  Classic BPF as \<open>include/cng/seccomp.h\<close> has it, the interpreter \<open>cng_bpf_run\<close> of \<open>src/monitor/seccomp.c\<close> with
  its program counter, and the same programs run as the list of the instructions still ahead, in which
  a block of a filter can be read on its own.
\<close>

unbundle bit_operations_syntax

section \<open>Instructions\<close>

type_synonym u16 = "16 word"

record sock_filter =
  sf_code :: u16
  sf_jt :: u8
  sf_jf :: u8
  sf_k :: u32

definition BPF_LD_W_ABS :: u16 where "BPF_LD_W_ABS = 0x00 OR 0x00 OR 0x20"
definition BPF_ALU_AND_K :: u16 where "BPF_ALU_AND_K = 0x04 OR 0x50 OR 0x00"
definition BPF_JMP_JEQ_K :: u16 where "BPF_JMP_JEQ_K = 0x05 OR 0x10 OR 0x00"
definition BPF_JMP_JGE_K :: u16 where "BPF_JMP_JGE_K = 0x05 OR 0x30 OR 0x00"
definition BPF_JMP_JGT_K :: u16 where "BPF_JMP_JGT_K = 0x05 OR 0x20 OR 0x00"
definition BPF_RET_K :: u16 where "BPF_RET_K = 0x06 OR 0x00"

lemmas bpf_codes = BPF_LD_W_ABS_def BPF_ALU_AND_K_def BPF_JMP_JEQ_K_def BPF_JMP_JGE_K_def BPF_JMP_JGT_K_def
  BPF_RET_K_def

text \<open>The two macros cast their offsets to \<open>uint8_t\<close>.\<close>

definition CNG_BPF_STMT :: "u16 \<Rightarrow> u32 \<Rightarrow> sock_filter" where
  "CNG_BPF_STMT code k = \<lparr>sf_code = code, sf_jt = 0, sf_jf = 0, sf_k = k\<rparr>"

definition CNG_BPF_JUMP :: "u16 \<Rightarrow> u32 \<Rightarrow> nat \<Rightarrow> nat \<Rightarrow> sock_filter" where
  "CNG_BPF_JUMP code k jt jf = \<lparr>sf_code = code, sf_jt = of_nat jt, sf_jf = of_nat jf, sf_k = k\<rparr>"

section \<open>The interpreter\<close>

definition bpf_jump :: "bool \<Rightarrow> sock_filter \<Rightarrow> nat" where
  "bpf_jump b i = 1 + (if b then unat (sf_jt i) else unat (sf_jf i))"

text \<open>None is \<open>*bad\<close>: an opcode outside the subset, a load outside the data, or running off the end.\<close>

function bpf_loop :: "sock_filter list \<Rightarrow> u32 list \<Rightarrow> u32 \<Rightarrow> nat \<Rightarrow> u32 option" where
  "bpf_loop f data A pc =
     (if pc < length f then
        let i = f ! pc in
        if sf_code i = BPF_LD_W_ABS then
          (if sf_k i AND 3 \<noteq> 0 \<or> sf_k i \<ge> 64 then None
           else bpf_loop f data (data ! unat (sf_k i div 4)) (pc + 1))
        else if sf_code i = BPF_ALU_AND_K then bpf_loop f data (A AND sf_k i) (pc + 1)
        else if sf_code i = BPF_JMP_JEQ_K then bpf_loop f data A (pc + bpf_jump (A = sf_k i) i)
        else if sf_code i = BPF_JMP_JGE_K then bpf_loop f data A (pc + bpf_jump (A \<ge> sf_k i) i)
        else if sf_code i = BPF_JMP_JGT_K then bpf_loop f data A (pc + bpf_jump (A > sf_k i) i)
        else if sf_code i = BPF_RET_K then Some (sf_k i)
        else None
      else None)"
  by pat_completeness auto
termination
  by (relation "measure (\<lambda>(f, data, A, pc). length f - pc)") (auto simp: bpf_jump_def)

declare bpf_loop.simps [simp del]

definition cng_bpf_run :: "sock_filter list \<Rightarrow> u32 list \<Rightarrow> u32 option" where
  "cng_bpf_run f data = bpf_loop f data 0 0"

section \<open>Running what is ahead\<close>

function bpf_exec :: "sock_filter list \<Rightarrow> u32 list \<Rightarrow> u32 \<Rightarrow> u32 option" where
  "bpf_exec [] data A = None"
| "bpf_exec (i # is) data A =
     (if sf_code i = BPF_LD_W_ABS then
        (if sf_k i AND 3 \<noteq> 0 \<or> sf_k i \<ge> 64 then None else bpf_exec is data (data ! unat (sf_k i div 4)))
      else if sf_code i = BPF_ALU_AND_K then bpf_exec is data (A AND sf_k i)
      else if sf_code i = BPF_JMP_JEQ_K then bpf_exec (drop (if A = sf_k i then unat (sf_jt i) else unat (sf_jf i)) is) data A
      else if sf_code i = BPF_JMP_JGE_K then bpf_exec (drop (if A \<ge> sf_k i then unat (sf_jt i) else unat (sf_jf i)) is) data A
      else if sf_code i = BPF_JMP_JGT_K then bpf_exec (drop (if A > sf_k i then unat (sf_jt i) else unat (sf_jf i)) is) data A
      else if sf_code i = BPF_RET_K then Some (sf_k i)
      else None)"
  by pat_completeness auto
termination
  by (relation "measure (\<lambda>(is, data, A). length is)") auto

declare bpf_exec.simps [simp del]

lemma bpf_loop_exec: "bpf_loop f data A pc = bpf_exec (drop pc f) data A"
proof (induction f data A pc rule: bpf_loop.induct)
  case (1 f data A pc)
  show ?case
  proof (cases "pc < length f")
    case True
    have d: "drop pc f = f ! pc # drop (Suc pc) f" using Cons_nth_drop_Suc [OF True] by simp
    have j: "drop (pc + bpf_jump b i) f = drop (if b then unat (sf_jt i) else unat (sf_jf i)) (drop (pc + 1) f)" for b i
      by (simp add: bpf_jump_def add.commute)
    note IH = "1.IH" [OF True refl, unfolded j]
    show ?thesis
      unfolding bpf_loop.simps [of f data A pc] d bpf_exec.simps(2) Let_def if_P [OF True] Suc_eq_plus1
      by (intro if_cong refl IH)
  qed (simp add: bpf_loop.simps bpf_exec.simps)
qed

lemma bpf_run_exec: "cng_bpf_run f data = bpf_exec f data 0"
  by (simp add: cng_bpf_run_def bpf_loop_exec)

section \<open>One instruction at a time\<close>

lemma exec_load [simp]:
  "bpf_exec (CNG_BPF_STMT BPF_LD_W_ABS k # is) data A =
     (if k AND 3 \<noteq> 0 \<or> k \<ge> 64 then None else bpf_exec is data (data ! unat (k div 4)))"
  by (simp add: bpf_exec.simps CNG_BPF_STMT_def)

lemma exec_and [simp]: "bpf_exec (CNG_BPF_STMT BPF_ALU_AND_K k # is) data A = bpf_exec is data (A AND k)"
  by (simp add: bpf_exec.simps CNG_BPF_STMT_def bpf_codes)

lemma exec_ret [simp]: "bpf_exec (CNG_BPF_STMT BPF_RET_K k # is) data A = Some k"
  by (simp add: bpf_exec.simps CNG_BPF_STMT_def bpf_codes)

lemma unat_u8: "unat (of_nat n :: u8) = n mod 256"
  by (simp add: unat_of_nat)

lemma exec_jeq [simp]:
  "bpf_exec (CNG_BPF_JUMP BPF_JMP_JEQ_K k t f # is) data A = bpf_exec (drop (if A = k then t mod 256 else f mod 256) is) data A"
  by (simp add: bpf_exec.simps CNG_BPF_JUMP_def bpf_codes unat_u8)

lemma exec_jge [simp]:
  "bpf_exec (CNG_BPF_JUMP BPF_JMP_JGE_K k t f # is) data A = bpf_exec (drop (if A \<ge> k then t mod 256 else f mod 256) is) data A"
  by (simp add: bpf_exec.simps CNG_BPF_JUMP_def bpf_codes unat_u8)

lemma exec_jgt [simp]:
  "bpf_exec (CNG_BPF_JUMP BPF_JMP_JGT_K k t f # is) data A = bpf_exec (drop (if A > k then t mod 256 else f mod 256) is) data A"
  by (simp add: bpf_exec.simps CNG_BPF_JUMP_def bpf_codes unat_u8)

section \<open>Chains of comparisons\<close>

text \<open>
  A run of checks that all jump to the same place: check \<open>i\<close> of \<open>n\<close> skips the remaining checks and \<open>extra\<close>
  instructions more on a match; on a mismatch it falls through, and the last one skips \<open>miss\<close>.
\<close>

definition jeq_chain :: "u32 list \<Rightarrow> nat \<Rightarrow> nat \<Rightarrow> sock_filter list" where
  "jeq_chain ks extra miss = (let n = length ks in
     map (\<lambda>i. CNG_BPF_JUMP BPF_JMP_JEQ_K (ks ! i) (n - 1 - i + extra) (if i = n - 1 then miss else 0)) [0..<n])"

lemma length_jeq_chain [simp]: "length (jeq_chain ks extra miss) = length ks"
  by (simp add: jeq_chain_def Let_def)

lemma jeq_chain_Cons:
  "jeq_chain (k # ks) extra miss =
     CNG_BPF_JUMP BPF_JMP_JEQ_K k (length ks + extra) (if ks = [] then miss else 0) # jeq_chain ks extra miss"
proof -
  let ?g = "\<lambda>zs n i. CNG_BPF_JUMP BPF_JMP_JEQ_K (zs ! i) (n - 1 - i + extra) (if i = n - 1 then miss else 0)"
  have "map (?g (k # ks) (Suc (length ks))) [0..<Suc (length ks)] =
      ?g (k # ks) (Suc (length ks)) 0 # map (\<lambda>i. ?g (k # ks) (Suc (length ks)) (Suc i)) [0..<length ks]"
    by (simp only: upt_conv_Cons [OF zero_less_Suc] list.map map_Suc_upt [symmetric] map_map comp_def)
  moreover have "map (\<lambda>i. ?g (k # ks) (Suc (length ks)) (Suc i)) [0..<length ks] = map (?g ks (length ks)) [0..<length ks]"
  proof (intro map_cong refl)
    fix i assume "i \<in> set [0..<length ks]"
    then have "Suc (length ks) - 1 - Suc i = length ks - 1 - i" "(Suc i = Suc (length ks) - 1) = (i = length ks - 1)"
      by auto
    then show "?g (k # ks) (Suc (length ks)) (Suc i) = ?g ks (length ks) i" by (simp only: nth_Cons_Suc)
  qed
  ultimately show ?thesis by (simp add: jeq_chain_def Let_def)
qed

lemma exec_jeq_chain:
  assumes "ks \<noteq> []" "length ks + extra \<le> 256" "miss < 256"
  shows "bpf_exec (jeq_chain ks extra miss @ rest) data A =
    (if A \<in> set ks then bpf_exec (drop extra rest) data A else bpf_exec (drop miss rest) data A)"
  using assms
proof (induction ks)
  case (Cons k ks)
  have m: "(length ks + extra) mod 256 = length ks + extra" using Cons.prems by simp
  have d: "drop (length ks + extra) (jeq_chain ks extra miss @ rest) = drop extra rest" by simp
  show ?case
  proof (cases "ks = []")
    case True
    then show ?thesis using Cons.prems by (simp add: jeq_chain_Cons jeq_chain_def [of "[]"])
  next
    case False
    then show ?thesis using Cons.IH Cons.prems by (simp add: jeq_chain_Cons m d)
  qed
qed simp

end
