(* ===== verification/Sysno.thy ===== *)
theory Sysno
  imports Cng_Prelude
begin

text \<open>
  The AArch64 system call numbers of \<open>include/cng/unistd.h\<close> that the tables of \<open>src/monitor/seccomp.c\<close> and
  \<open>src/monitor/blocklist.c\<close> name, and those tables, in the order of the source.
\<close>

section \<open>The numbers\<close>

abbreviation NR_setxattr :: u32 where "NR_setxattr \<equiv> 5"
abbreviation NR_lsetxattr :: u32 where "NR_lsetxattr \<equiv> 6"
abbreviation NR_fsetxattr :: u32 where "NR_fsetxattr \<equiv> 7"
abbreviation NR_getxattr :: u32 where "NR_getxattr \<equiv> 8"
abbreviation NR_lgetxattr :: u32 where "NR_lgetxattr \<equiv> 9"
abbreviation NR_listxattr :: u32 where "NR_listxattr \<equiv> 11"
abbreviation NR_llistxattr :: u32 where "NR_llistxattr \<equiv> 12"
abbreviation NR_removexattr :: u32 where "NR_removexattr \<equiv> 14"
abbreviation NR_lremovexattr :: u32 where "NR_lremovexattr \<equiv> 15"
abbreviation NR_fremovexattr :: u32 where "NR_fremovexattr \<equiv> 16"
abbreviation NR_getcwd :: u32 where "NR_getcwd \<equiv> 17"
abbreviation NR_epoll_pwait :: u32 where "NR_epoll_pwait \<equiv> 22"
abbreviation NR_inotify_add_watch :: u32 where "NR_inotify_add_watch \<equiv> 27"
abbreviation NR_ioctl :: u32 where "NR_ioctl \<equiv> 29"
abbreviation NR_mknodat :: u32 where "NR_mknodat \<equiv> 33"
abbreviation NR_mkdirat :: u32 where "NR_mkdirat \<equiv> 34"
abbreviation NR_unlinkat :: u32 where "NR_unlinkat \<equiv> 35"
abbreviation NR_symlinkat :: u32 where "NR_symlinkat \<equiv> 36"
abbreviation NR_linkat :: u32 where "NR_linkat \<equiv> 37"
abbreviation NR_renameat :: u32 where "NR_renameat \<equiv> 38"
abbreviation NR_umount2 :: u32 where "NR_umount2 \<equiv> 39"
abbreviation NR_mount :: u32 where "NR_mount \<equiv> 40"
abbreviation NR_pivot_root :: u32 where "NR_pivot_root \<equiv> 41"
abbreviation NR_statfs :: u32 where "NR_statfs \<equiv> 43"
abbreviation NR_fstatfs :: u32 where "NR_fstatfs \<equiv> 44"
abbreviation NR_truncate :: u32 where "NR_truncate \<equiv> 45"
abbreviation NR_faccessat :: u32 where "NR_faccessat \<equiv> 48"
abbreviation NR_chdir :: u32 where "NR_chdir \<equiv> 49"
abbreviation NR_fchdir :: u32 where "NR_fchdir \<equiv> 50"
abbreviation NR_chroot :: u32 where "NR_chroot \<equiv> 51"
abbreviation NR_fchmod :: u32 where "NR_fchmod \<equiv> 52"
abbreviation NR_fchmodat :: u32 where "NR_fchmodat \<equiv> 53"
abbreviation NR_fchownat :: u32 where "NR_fchownat \<equiv> 54"
abbreviation NR_fchown :: u32 where "NR_fchown \<equiv> 55"
abbreviation NR_openat :: u32 where "NR_openat \<equiv> 56"
abbreviation NR_quotactl :: u32 where "NR_quotactl \<equiv> 60"
abbreviation NR_getdents64 :: u32 where "NR_getdents64 \<equiv> 61"
abbreviation NR_read :: u32 where "NR_read \<equiv> 63"
abbreviation NR_readv :: u32 where "NR_readv \<equiv> 65"
abbreviation NR_pread64 :: u32 where "NR_pread64 \<equiv> 67"
abbreviation NR_preadv :: u32 where "NR_preadv \<equiv> 69"
abbreviation NR_pselect6 :: u32 where "NR_pselect6 \<equiv> 72"
abbreviation NR_ppoll :: u32 where "NR_ppoll \<equiv> 73"
abbreviation NR_signalfd4 :: u32 where "NR_signalfd4 \<equiv> 74"
abbreviation NR_readlinkat :: u32 where "NR_readlinkat \<equiv> 78"
abbreviation NR_newfstatat :: u32 where "NR_newfstatat \<equiv> 79"
abbreviation NR_fstat :: u32 where "NR_fstat \<equiv> 80"
abbreviation NR_utimensat :: u32 where "NR_utimensat \<equiv> 88"
abbreviation NR_acct :: u32 where "NR_acct \<equiv> 89"
abbreviation NR_capget :: u32 where "NR_capget \<equiv> 90"
abbreviation NR_capset :: u32 where "NR_capset \<equiv> 91"
abbreviation NR_waitid :: u32 where "NR_waitid \<equiv> 95"
abbreviation NR_set_robust_list :: u32 where "NR_set_robust_list \<equiv> 99"
abbreviation NR_timer_create :: u32 where "NR_timer_create \<equiv> 107"
abbreviation NR_timer_delete :: u32 where "NR_timer_delete \<equiv> 111"
abbreviation NR_ptrace :: u32 where "NR_ptrace \<equiv> 117"
abbreviation NR_kill :: u32 where "NR_kill \<equiv> 129"
abbreviation NR_tkill :: u32 where "NR_tkill \<equiv> 130"
abbreviation NR_tgkill :: u32 where "NR_tgkill \<equiv> 131"
abbreviation NR_rt_sigsuspend :: u32 where "NR_rt_sigsuspend \<equiv> 133"
abbreviation NR_rt_sigaction :: u32 where "NR_rt_sigaction \<equiv> 134"
abbreviation NR_rt_sigprocmask :: u32 where "NR_rt_sigprocmask \<equiv> 135"
abbreviation NR_rt_sigtimedwait :: u32 where "NR_rt_sigtimedwait \<equiv> 137"
abbreviation NR_rt_sigqueueinfo :: u32 where "NR_rt_sigqueueinfo \<equiv> 138"
abbreviation NR_rt_sigreturn :: u32 where "NR_rt_sigreturn \<equiv> 139"
abbreviation NR_setregid :: u32 where "NR_setregid \<equiv> 143"
abbreviation NR_setgid :: u32 where "NR_setgid \<equiv> 144"
abbreviation NR_setreuid :: u32 where "NR_setreuid \<equiv> 145"
abbreviation NR_setuid :: u32 where "NR_setuid \<equiv> 146"
abbreviation NR_setresuid :: u32 where "NR_setresuid \<equiv> 147"
abbreviation NR_getresuid :: u32 where "NR_getresuid \<equiv> 148"
abbreviation NR_setresgid :: u32 where "NR_setresgid \<equiv> 149"
abbreviation NR_getresgid :: u32 where "NR_getresgid \<equiv> 150"
abbreviation NR_setfsuid :: u32 where "NR_setfsuid \<equiv> 151"
abbreviation NR_setfsgid :: u32 where "NR_setfsgid \<equiv> 152"
abbreviation NR_getgroups :: u32 where "NR_getgroups \<equiv> 158"
abbreviation NR_setgroups :: u32 where "NR_setgroups \<equiv> 159"
abbreviation NR_uname :: u32 where "NR_uname \<equiv> 160"
abbreviation NR_prctl :: u32 where "NR_prctl \<equiv> 167"
abbreviation NR_getuid :: u32 where "NR_getuid \<equiv> 174"
abbreviation NR_geteuid :: u32 where "NR_geteuid \<equiv> 175"
abbreviation NR_getgid :: u32 where "NR_getgid \<equiv> 176"
abbreviation NR_getegid :: u32 where "NR_getegid \<equiv> 177"
abbreviation NR_mq_open :: u32 where "NR_mq_open \<equiv> 180"
abbreviation NR_mq_unlink :: u32 where "NR_mq_unlink \<equiv> 181"
abbreviation NR_mq_timedsend :: u32 where "NR_mq_timedsend \<equiv> 182"
abbreviation NR_mq_timedreceive :: u32 where "NR_mq_timedreceive \<equiv> 183"
abbreviation NR_mq_notify :: u32 where "NR_mq_notify \<equiv> 184"
abbreviation NR_mq_getsetattr :: u32 where "NR_mq_getsetattr \<equiv> 185"
abbreviation NR_msgget :: u32 where "NR_msgget \<equiv> 186"
abbreviation NR_msgctl :: u32 where "NR_msgctl \<equiv> 187"
abbreviation NR_msgrcv :: u32 where "NR_msgrcv \<equiv> 188"
abbreviation NR_msgsnd :: u32 where "NR_msgsnd \<equiv> 189"
abbreviation NR_semget :: u32 where "NR_semget \<equiv> 190"
abbreviation NR_semctl :: u32 where "NR_semctl \<equiv> 191"
abbreviation NR_semtimedop :: u32 where "NR_semtimedop \<equiv> 192"
abbreviation NR_semop :: u32 where "NR_semop \<equiv> 193"
abbreviation NR_shmget :: u32 where "NR_shmget \<equiv> 194"
abbreviation NR_shmctl :: u32 where "NR_shmctl \<equiv> 195"
abbreviation NR_shmat :: u32 where "NR_shmat \<equiv> 196"
abbreviation NR_shmdt :: u32 where "NR_shmdt \<equiv> 197"
abbreviation NR_socket :: u32 where "NR_socket \<equiv> 198"
abbreviation NR_bind :: u32 where "NR_bind \<equiv> 200"
abbreviation NR_accept :: u32 where "NR_accept \<equiv> 202"
abbreviation NR_connect :: u32 where "NR_connect \<equiv> 203"
abbreviation NR_getsockname :: u32 where "NR_getsockname \<equiv> 204"
abbreviation NR_getpeername :: u32 where "NR_getpeername \<equiv> 205"
abbreviation NR_sendto :: u32 where "NR_sendto \<equiv> 206"
abbreviation NR_recvfrom :: u32 where "NR_recvfrom \<equiv> 207"
abbreviation NR_getsockopt :: u32 where "NR_getsockopt \<equiv> 209"
abbreviation NR_sendmsg :: u32 where "NR_sendmsg \<equiv> 211"
abbreviation NR_recvmsg :: u32 where "NR_recvmsg \<equiv> 212"
abbreviation NR_mremap :: u32 where "NR_mremap \<equiv> 216"
abbreviation NR_clone :: u32 where "NR_clone \<equiv> 220"
abbreviation NR_execve :: u32 where "NR_execve \<equiv> 221"
abbreviation NR_mmap :: u32 where "NR_mmap \<equiv> 222"
abbreviation NR_swapon :: u32 where "NR_swapon \<equiv> 224"
abbreviation NR_swapoff :: u32 where "NR_swapoff \<equiv> 225"
abbreviation NR_mprotect :: u32 where "NR_mprotect \<equiv> 226"
abbreviation NR_rt_tgsigqueueinfo :: u32 where "NR_rt_tgsigqueueinfo \<equiv> 240"
abbreviation NR_accept4 :: u32 where "NR_accept4 \<equiv> 242"
abbreviation NR_recvmmsg :: u32 where "NR_recvmmsg \<equiv> 243"
abbreviation NR_wait4 :: u32 where "NR_wait4 \<equiv> 260"
abbreviation NR_fanotify_mark :: u32 where "NR_fanotify_mark \<equiv> 263"
abbreviation NR_name_to_handle_at :: u32 where "NR_name_to_handle_at \<equiv> 264"
abbreviation NR_open_by_handle_at :: u32 where "NR_open_by_handle_at \<equiv> 265"
abbreviation NR_sendmmsg :: u32 where "NR_sendmmsg \<equiv> 269"
abbreviation NR_process_vm_readv :: u32 where "NR_process_vm_readv \<equiv> 270"
abbreviation NR_process_vm_writev :: u32 where "NR_process_vm_writev \<equiv> 271"
abbreviation NR_renameat2 :: u32 where "NR_renameat2 \<equiv> 276"
abbreviation NR_seccomp :: u32 where "NR_seccomp \<equiv> 277"
abbreviation NR_execveat :: u32 where "NR_execveat \<equiv> 281"
abbreviation NR_preadv2 :: u32 where "NR_preadv2 \<equiv> 286"
abbreviation NR_statx :: u32 where "NR_statx \<equiv> 291"
abbreviation NR_rseq :: u32 where "NR_rseq \<equiv> 293"
abbreviation NR_io_uring_setup :: u32 where "NR_io_uring_setup \<equiv> 425"
abbreviation NR_io_uring_enter :: u32 where "NR_io_uring_enter \<equiv> 426"
abbreviation NR_io_uring_register :: u32 where "NR_io_uring_register \<equiv> 427"
abbreviation NR_open_tree :: u32 where "NR_open_tree \<equiv> 428"
abbreviation NR_move_mount :: u32 where "NR_move_mount \<equiv> 429"
abbreviation NR_fsopen :: u32 where "NR_fsopen \<equiv> 430"
abbreviation NR_fsconfig :: u32 where "NR_fsconfig \<equiv> 431"
abbreviation NR_fsmount :: u32 where "NR_fsmount \<equiv> 432"
abbreviation NR_fspick :: u32 where "NR_fspick \<equiv> 433"
abbreviation NR_pidfd_open :: u32 where "NR_pidfd_open \<equiv> 434"
abbreviation NR_clone3 :: u32 where "NR_clone3 \<equiv> 435"
abbreviation NR_openat2 :: u32 where "NR_openat2 \<equiv> 437"
abbreviation NR_pidfd_getfd :: u32 where "NR_pidfd_getfd \<equiv> 438"
abbreviation NR_faccessat2 :: u32 where "NR_faccessat2 \<equiv> 439"
abbreviation NR_epoll_pwait2 :: u32 where "NR_epoll_pwait2 \<equiv> 441"
abbreviation NR_mount_setattr :: u32 where "NR_mount_setattr \<equiv> 442"
abbreviation NR_quotactl_fd :: u32 where "NR_quotactl_fd \<equiv> 443"
abbreviation NR_fchmodat2 :: u32 where "NR_fchmodat2 \<equiv> 452"
abbreviation NR_statmount :: u32 where "NR_statmount \<equiv> 457"
abbreviation NR_listmount :: u32 where "NR_listmount \<equiv> 458"
abbreviation NR_setxattrat :: u32 where "NR_setxattrat \<equiv> 463"
abbreviation NR_getxattrat :: u32 where "NR_getxattrat \<equiv> 464"
abbreviation NR_listxattrat :: u32 where "NR_listxattrat \<equiv> 465"
abbreviation NR_removexattrat :: u32 where "NR_removexattrat \<equiv> 466"
abbreviation NR_open_tree_attr :: u32 where "NR_open_tree_attr \<equiv> 467"
abbreviation NR_file_getattr :: u32 where "NR_file_getattr \<equiv> 468"
abbreviation NR_file_setattr :: u32 where "NR_file_setattr \<equiv> 469"

section \<open>The tables\<close>

definition path_syscalls :: "u32 list" where
  "path_syscalls =
    [NR_openat, NR_openat2, NR_newfstatat, NR_statx, NR_faccessat, NR_faccessat2, NR_readlinkat, NR_mkdirat,
    NR_mknodat, NR_unlinkat, NR_fchownat, NR_fchmodat, NR_utimensat, NR_symlinkat, NR_linkat, NR_renameat,
    NR_renameat2, NR_truncate, NR_statfs, NR_chdir, NR_fchdir, NR_getcwd, NR_chroot, NR_rt_sigprocmask,
    NR_rt_sigaction, NR_execve, NR_execveat, NR_name_to_handle_at, NR_setxattr, NR_lsetxattr, NR_getxattr,
    NR_lgetxattr, NR_listxattr, NR_llistxattr, NR_removexattr, NR_lremovexattr, NR_setxattrat, NR_getxattrat,
    NR_listxattrat, NR_removexattrat, NR_file_getattr, NR_file_setattr, NR_inotify_add_watch, NR_bind, NR_connect,
    NR_sendto, NR_sendmsg, NR_getsockname, NR_getpeername, NR_accept, NR_accept4, NR_recvfrom, NR_recvmsg,
    NR_sendmmsg, NR_recvmmsg, NR_fchmodat2, NR_socket, NR_rt_sigsuspend, NR_rt_sigtimedwait, NR_signalfd4,
    NR_timer_create, NR_timer_delete, NR_rseq, NR_uname, NR_ptrace, NR_pidfd_getfd]"

definition id_syscalls :: "u32 list" where
  "id_syscalls =
    [NR_getuid, NR_geteuid, NR_getgid, NR_getegid, NR_getresuid, NR_getresgid, NR_getgroups, NR_setuid, NR_setgid,
    NR_setresuid, NR_setresgid, NR_setreuid, NR_setregid, NR_setgroups, NR_setfsuid, NR_setfsgid, NR_fchown,
    NR_fchmod, NR_capget, NR_capset, NR_getsockopt]"

definition ipc_syscalls :: "u32 list" where
  "ipc_syscalls =
    [NR_shmget, NR_shmat, NR_shmdt, NR_shmctl, NR_semget, NR_semop, NR_semctl, NR_semtimedop, NR_msgget,
    NR_msgsnd, NR_msgrcv, NR_msgctl]"

definition enosys_syscalls :: "u32 list" where
  "enosys_syscalls =
    [NR_io_uring_setup, NR_io_uring_enter, NR_io_uring_register, NR_clone3, NR_mount, NR_umount2, NR_pivot_root,
    NR_mount_setattr, NR_acct, NR_quotactl, NR_quotactl_fd, NR_swapon, NR_swapoff, NR_open_tree,
    NR_open_tree_attr, NR_move_mount, NR_fsopen, NR_fsconfig, NR_fsmount, NR_fspick, NR_open_by_handle_at,
    NR_fanotify_mark, NR_statmount, NR_listmount, NR_seccomp, NR_mq_open, NR_mq_unlink, NR_mq_timedsend,
    NR_mq_timedreceive, NR_mq_notify, NR_mq_getsetattr]"

definition ro_fd_syscalls :: "u32 list" where
  "ro_fd_syscalls =
    [NR_fchmod, NR_fchown, NR_fsetxattr, NR_fremovexattr]"

definition probe_set :: "u32 list" where
  "probe_set =
    [NR_openat, NR_openat2, NR_newfstatat, NR_statx, NR_faccessat, NR_faccessat2, NR_readlinkat, NR_mkdirat,
    NR_mknodat, NR_unlinkat, NR_fchownat, NR_fchmodat, NR_utimensat, NR_symlinkat, NR_linkat, NR_renameat,
    NR_renameat2, NR_truncate, NR_statfs, NR_chdir, NR_fchown, NR_fchmod, NR_fstat, NR_getdents64,
    NR_name_to_handle_at, NR_setxattr, NR_lsetxattr, NR_getxattr, NR_lgetxattr, NR_listxattr, NR_llistxattr,
    NR_removexattr, NR_lremovexattr, NR_inotify_add_watch, NR_process_vm_readv, NR_process_vm_writev,
    NR_set_robust_list, NR_rseq, NR_fchmodat2, NR_setxattrat, NR_getxattrat, NR_listxattrat, NR_removexattrat,
    NR_file_getattr, NR_file_setattr, NR_pidfd_open, NR_pidfd_getfd, NR_bind, NR_connect, NR_sendto, NR_sendmsg,
    NR_getsockname, NR_getpeername, NR_accept, NR_accept4, NR_recvfrom, NR_recvmsg, NR_sendmmsg, NR_recvmmsg,
    NR_getresuid, NR_getresgid, NR_getgroups, NR_capget, NR_capset, NR_setfsuid, NR_setfsgid, NR_setuid,
    NR_setgid, NR_setgroups, NR_setresuid, NR_setreuid, NR_setregid, NR_setresgid]"

definition cng_setid_deny_nrs :: "u32 list" where
  "cng_setid_deny_nrs =
    [NR_setuid, NR_setgid, NR_setreuid, NR_setregid, NR_setresgid, NR_setfsuid, NR_setfsgid, NR_setgroups]"

definition read_family :: "u32 list" where
  "read_family =
    [NR_read, NR_pread64, NR_readv, NR_preadv, NR_preadv2]"

abbreviation CNG_FS_IOC_SETFLAGS :: u32 where "CNG_FS_IOC_SETFLAGS \<equiv> 0x40086602"
abbreviation CNG_FS_IOC_FSSETXATTR :: u32 where "CNG_FS_IOC_FSSETXATTR \<equiv> 0x401c5820"
abbreviation CNG_FS_IOC_SETVERSION :: u32 where "CNG_FS_IOC_SETVERSION \<equiv> 0x40087602"
abbreviation CNG_FS_IOC_SET_ENCRYPTION_POLICY :: u32 where "CNG_FS_IOC_SET_ENCRYPTION_POLICY \<equiv> 0x800c6613"
abbreviation CNG_FS_IOC_ENABLE_VERITY :: u32 where "CNG_FS_IOC_ENABLE_VERITY \<equiv> 0x40806685"
abbreviation CNG_EXT4_IOC_MIGRATE :: u32 where "CNG_EXT4_IOC_MIGRATE \<equiv> 0x6609"
abbreviation CNG_EXT4_IOC_ALLOC_DA_BLKS :: u32 where "CNG_EXT4_IOC_ALLOC_DA_BLKS \<equiv> 0x660c"
abbreviation CNG_BTRFS_IOC_SNAP_CREATE :: u32 where "CNG_BTRFS_IOC_SNAP_CREATE \<equiv> 0x50009401"
abbreviation CNG_BTRFS_IOC_SNAP_CREATE_V2 :: u32 where "CNG_BTRFS_IOC_SNAP_CREATE_V2 \<equiv> 0x50009417"
abbreviation CNG_BTRFS_IOC_SUBVOL_CREATE :: u32 where "CNG_BTRFS_IOC_SUBVOL_CREATE \<equiv> 0x5000940e"
abbreviation CNG_BTRFS_IOC_SUBVOL_CREATE_V2 :: u32 where "CNG_BTRFS_IOC_SUBVOL_CREATE_V2 \<equiv> 0x50009418"
abbreviation CNG_BTRFS_IOC_SNAP_DESTROY :: u32 where "CNG_BTRFS_IOC_SNAP_DESTROY \<equiv> 0x5000940f"
abbreviation CNG_BTRFS_IOC_SNAP_DESTROY_V2 :: u32 where "CNG_BTRFS_IOC_SNAP_DESTROY_V2 \<equiv> 0x5000943f"
abbreviation CNG_BTRFS_IOC_DEFRAG :: u32 where "CNG_BTRFS_IOC_DEFRAG \<equiv> 0x50009402"
abbreviation CNG_BTRFS_IOC_DEFRAG_RANGE :: u32 where "CNG_BTRFS_IOC_DEFRAG_RANGE \<equiv> 0x40309410"
abbreviation CNG_BTRFS_IOC_SUBVOL_SETFLAGS :: u32 where "CNG_BTRFS_IOC_SUBVOL_SETFLAGS \<equiv> 0x4008941a"
abbreviation CNG_BTRFS_IOC_SET_RECEIVED_SUBVOL :: u32 where "CNG_BTRFS_IOC_SET_RECEIVED_SUBVOL \<equiv> 0xc0c89425"
abbreviation CNG_F2FS_IOC_SET_PIN_FILE :: u32 where "CNG_F2FS_IOC_SET_PIN_FILE \<equiv> 0x4004f50d"
abbreviation CNG_FIDEDUPERANGE :: u32 where "CNG_FIDEDUPERANGE \<equiv> 0xc0189436"

definition cng_ioctl_mnt_write :: "u32 list" where
  "cng_ioctl_mnt_write =
    [CNG_FS_IOC_SETFLAGS, CNG_FS_IOC_FSSETXATTR, CNG_FS_IOC_SETVERSION, CNG_FS_IOC_SET_ENCRYPTION_POLICY,
    CNG_FS_IOC_ENABLE_VERITY, CNG_EXT4_IOC_MIGRATE, CNG_EXT4_IOC_ALLOC_DA_BLKS, CNG_BTRFS_IOC_SNAP_CREATE,
    CNG_BTRFS_IOC_SNAP_CREATE_V2, CNG_BTRFS_IOC_SUBVOL_CREATE, CNG_BTRFS_IOC_SUBVOL_CREATE_V2,
    CNG_BTRFS_IOC_SNAP_DESTROY, CNG_BTRFS_IOC_SNAP_DESTROY_V2, CNG_BTRFS_IOC_DEFRAG, CNG_BTRFS_IOC_DEFRAG_RANGE,
    CNG_BTRFS_IOC_SUBVOL_SETFLAGS, CNG_BTRFS_IOC_SET_RECEIVED_SUBVOL, CNG_F2FS_IOC_SET_PIN_FILE, CNG_FIDEDUPERANGE]"

abbreviation TC_GETS2 :: u32 where "TC_GETS2 \<equiv> 0x802c542a"
abbreviation TC_SETS2 :: u32 where "TC_SETS2 \<equiv> 0x402c542b"
abbreviation TC_SETSW2 :: u32 where "TC_SETSW2 \<equiv> 0x402c542c"
abbreviation TC_SETSF2 :: u32 where "TC_SETSF2 \<equiv> 0x402c542d"
abbreviation TC_GSID :: u32 where "TC_GSID \<equiv> 0x5429"
abbreviation TC_SETSF :: u32 where "TC_SETSF \<equiv> 0x5404"

definition cng_ioctl_tty :: "u32 list" where
  "cng_ioctl_tty =
    [TC_GETS2, TC_SETS2, TC_SETSW2, TC_SETSF2, TC_GSID, TC_SETSF]"

end
