(* ===== verification/Seccomp.thy ===== *)
theory Seccomp
  imports Bpf Sysno Path_Core
begin

text \<open>
  \<open>src/monitor/seccomp.c\<close>: the builders of the three filters (the base filter \<open>cng_build_seccomp\<close>, the one a
  tracee stacks and the one a tracer stacks), the bitset of refused calls, and the prediction of a trap
  (\<open>cng_seccomp_traps\<close>). The configuration the builder reads from the rest of the monitor is a record; a
  block of the filter is one definition, in the order of the source.
\<close>

unbundle bit_operations_syntax

section \<open>Constants\<close>

definition RET_KILL_THREAD :: u32 where "RET_KILL_THREAD = 0x00000000"
definition RET_TRAP :: u32 where "RET_TRAP = 0x00030000"
definition RET_ERRNO :: u32 where "RET_ERRNO = 0x00050000"
definition RET_ALLOW :: u32 where "RET_ALLOW = 0x7fff0000"
definition RET_DATA :: u32 where "RET_DATA = 0x0000ffff"
definition AUDIT_ARCH_AARCH64 :: u32 where "AUDIT_ARCH_AARCH64 = 0xc00000b7"
definition CLONE_VM :: u32 where "CLONE_VM = 0x100"
definition CLONE_VFORK :: u32 where "CLONE_VFORK = 0x4000"
definition PROT_EXEC :: u32 where "PROT_EXEC = 4"
definition MAP_ANONYMOUS :: u32 where "MAP_ANONYMOUS = 0x20"
definition MREMAP_DONTUNMAP :: u32 where "MREMAP_DONTUNMAP = 4"
definition SIOC_BAND_LO :: u32 where "SIOC_BAND_LO = 0x8910"
definition SIOC_BAND_HI :: u32 where "SIOC_BAND_HI = 0x8970"
definition TAG_TRACEALL :: u32 where "TAG_TRACEALL = 0x7ace"
definition TAG_TRACER :: u32 where "TAG_TRACER = 0x7acf"
definition MAX_INSNS :: nat where "MAX_INSNS = 320"
definition TRACEALL_INSNS :: nat where "TRACEALL_INSNS = 24"
definition TRACER_INSNS :: nat where "TRACER_INSNS = 24"
definition NR_MAX :: nat where "NR_MAX = 512"

definition prctl_ops :: "u32 list" where
  "prctl_ops = [21, 22, 38, 39]"

definition waits :: "(u32 \<times> nat) list" where
  "waits = [(NR_ppoll, 3), (NR_pselect6, 5), (NR_epoll_pwait, 4), (NR_epoll_pwait2, 4)]"

text \<open>Offsets into \<open>struct seccomp_data\<close>.\<close>

definition SD_NR :: u32 where "SD_NR = 0"
definition SD_ARCH :: u32 where "SD_ARCH = 4"
definition SD_IP :: u32 where "SD_IP = 8"
definition SD_ARGS :: u32 where "SD_ARGS = 16"

section \<open>The trapped set\<close>

record filt_cfg =
  gate_start :: u64
  gate_end :: u64
  c_fake_id :: bool
  c_setid_deny :: bool
  c_l2s :: bool
  c_no_proc :: bool
  c_no_dev :: bool
  c_procreg_none :: bool
  c_view :: "cng_fs option"
  c_synth_fd_base :: int

definition view_has_ro :: "filt_cfg \<Rightarrow> bool" where
  "view_has_ro c = (case c_view c of None \<Rightarrow> False | Some fs \<Rightarrow> list_ex b_ro (fs_binds fs))"

fun add_new :: "u32 list \<Rightarrow> u32 list \<Rightarrow> u32 list" where
  "add_new [] nr = nr"
| "add_new (x # xs) nr = add_new xs (if x \<in> set nr then nr else nr @ [x])"

definition trap_list :: "filt_cfg \<Rightarrow> u32 list" where
  "trap_list c =
     (let nr = path_syscalls @ ipc_syscalls @
                 (if c_fake_id c then id_syscalls else if c_setid_deny c then cng_setid_deny_nrs else []);
          nr = (if view_has_ro c then add_new ro_fd_syscalls nr else nr);
          nr = nr @ (if c_l2s c \<or> c_fake_id c \<or> \<not> c_no_proc c then [NR_fstat] else []);
          nr = nr @ (if \<not> c_no_proc c then [NR_fstatfs] else []);
          nr = nr @ (if \<not> c_no_proc c then [NR_process_vm_readv, NR_process_vm_writev, NR_pidfd_open] else []);
          nr = nr @ (if \<not> c_no_proc c \<and> \<not> c_procreg_none c
                     then [NR_kill, NR_tkill, NR_tgkill, NR_rt_sigqueueinfo, NR_rt_tgsigqueueinfo] else [])
      in nr @ (if c_l2s c \<or> \<not> c_no_proc c \<or> \<not> c_no_dev c \<or>
                  (case c_view c of None \<Rightarrow> False | Some fs \<Rightarrow> length (fs_binds fs) > 0) then [NR_getdents64] else []))"

section \<open>The blocks of the base filter\<close>

abbreviation LD :: "u32 \<Rightarrow> sock_filter" where "LD k \<equiv> CNG_BPF_STMT BPF_LD_W_ABS k"
abbreviation ANDK :: "u32 \<Rightarrow> sock_filter" where "ANDK k \<equiv> CNG_BPF_STMT BPF_ALU_AND_K k"
abbreviation RET :: "u32 \<Rightarrow> sock_filter" where "RET k \<equiv> CNG_BPF_STMT BPF_RET_K k"
abbreviation JEQ :: "u32 \<Rightarrow> nat \<Rightarrow> nat \<Rightarrow> sock_filter" where "JEQ k t f \<equiv> CNG_BPF_JUMP BPF_JMP_JEQ_K k t f"
abbreviation JGE :: "u32 \<Rightarrow> nat \<Rightarrow> nat \<Rightarrow> sock_filter" where "JGE k t f \<equiv> CNG_BPF_JUMP BPF_JMP_JGE_K k t f"
abbreviation JGT :: "u32 \<Rightarrow> nat \<Rightarrow> nat \<Rightarrow> sock_filter" where "JGT k t f \<equiv> CNG_BPF_JUMP BPF_JMP_JGT_K k t f"

definition lo32 :: "u64 \<Rightarrow> u32" where "lo32 x = ucast x"
definition hi32 :: "u64 \<Rightarrow> u32" where "hi32 x = ucast (drop_bit 32 x)"

definition arch_block :: "sock_filter list" where
  "arch_block = [LD SD_ARCH, JEQ AUDIT_ARCH_AARCH64 1 0, RET RET_KILL_THREAD]"

definition enosys_block :: "sock_filter list" where
  "enosys_block = (if enosys_syscalls = [] then []
     else LD SD_NR # jeq_chain enosys_syscalls 0 1 @ [RET (RET_ERRNO OR (of_int ENOSYS AND RET_DATA))])"

definition gate_block :: "u64 \<Rightarrow> u64 \<Rightarrow> sock_filter list" where
  "gate_block gs ge =
     [LD (SD_IP + 4), JEQ (hi32 gs) 0 4, LD SD_IP, JGE (lo32 gs) 0 2, JGE (lo32 ge) 1 0, RET RET_ALLOW, LD SD_NR]"

definition clone_block :: "sock_filter list" where
  "clone_block =
     [JEQ NR_clone 0 8, LD SD_ARGS, ANDK CLONE_VM, JEQ 0 3 0, LD SD_ARGS, ANDK CLONE_VFORK, JEQ 0 1 0,
      RET RET_TRAP, RET RET_ALLOW, LD SD_NR]"

definition prctl_block :: "sock_filter list" where
  "prctl_block =
     [JEQ NR_prctl 0 7, LD SD_ARGS, JEQ (prctl_ops ! 0) 4 0, JEQ (prctl_ops ! 1) 3 0, JEQ (prctl_ops ! 2) 2 0,
      JEQ (prctl_ops ! 3) 1 0, RET RET_ALLOW, RET RET_TRAP, LD SD_NR]"

definition ioctl_requests :: "bool \<Rightarrow> u32 list" where
  "ioctl_requests has_ro = cng_ioctl_tty @ (if has_ro then cng_ioctl_mnt_write else [])"

definition ioctl_block :: "bool \<Rightarrow> sock_filter list" where
  "ioctl_block has_ro =
     (let ms = ioctl_requests has_ro; blk = 4 + length ms + 1 + 1 in
      [JEQ NR_ioctl 0 blk, LD (SD_ARGS + 8), JGE SIOC_BAND_LO 0 2, JGT SIOC_BAND_HI 1 0, RET RET_TRAP] @
      jeq_chain ms 0 1 @ [RET RET_TRAP, RET RET_ALLOW, LD SD_NR])"

definition mmap_block :: "sock_filter list" where
  "mmap_block =
     [JEQ NR_mmap 0 8, LD (SD_ARGS + 16), ANDK PROT_EXEC, JEQ 0 4 0, LD (SD_ARGS + 24), ANDK MAP_ANONYMOUS, JEQ 0 0 1,
      RET RET_TRAP, RET RET_ALLOW, LD SD_NR]"

definition mprotect_block :: "sock_filter list" where
  "mprotect_block =
     [JEQ NR_mprotect 0 5, LD (SD_ARGS + 16), ANDK PROT_EXEC, JEQ 0 1 0, RET RET_TRAP, RET RET_ALLOW, LD SD_NR]"

definition mremap_block :: "sock_filter list" where
  "mremap_block =
     [JEQ NR_mremap 0 5, LD (SD_ARGS + 24), ANDK MREMAP_DONTUNMAP, JEQ 0 1 0, RET RET_TRAP, RET RET_ALLOW, LD SD_NR]"

definition wait_block :: "u32 \<times> nat \<Rightarrow> sock_filter list" where
  "wait_block w =
     [JEQ (fst w) 0 6, LD (SD_ARGS + 8 * of_nat (snd w)), JEQ 0 0 2, LD (SD_ARGS + 8 * of_nat (snd w) + 4), JEQ 0 1 0,
      RET RET_TRAP, RET RET_ALLOW, LD SD_NR]"

definition read_block :: "int \<Rightarrow> sock_filter list" where
  "read_block base = (if base > 0 then
     jeq_chain read_family 0 4 @ [LD SD_ARGS, JGE (of_int base) 0 1, RET RET_TRAP, RET RET_ALLOW, LD SD_NR] else [])"

definition tail_block :: "u32 list \<Rightarrow> sock_filter list" where
  "tail_block nr = jeq_chain nr 1 0 @ [RET RET_ALLOW, RET RET_TRAP]"

definition base_filter :: "filt_cfg \<Rightarrow> sock_filter list" where
  "base_filter c =
     arch_block @ enosys_block @ gate_block (gate_start c) (gate_end c) @ clone_block @ prctl_block @
     ioctl_block (view_has_ro c) @ mmap_block @ mprotect_block @ mremap_block @ concat (map wait_block waits) @
     read_block (c_synth_fd_base c) @ tail_block (trap_list c)"

definition cng_build_seccomp :: "filt_cfg \<Rightarrow> nat \<Rightarrow> sock_filter list option" where
  "cng_build_seccomp c cap = (if cap < MAX_INSNS then None else Some (base_filter c))"

section \<open>The filters of tracing tasks\<close>

definition emit_prologue :: "u64 \<Rightarrow> u64 \<Rightarrow> sock_filter list" where
  "emit_prologue gs ge =
     [LD SD_ARCH, JEQ AUDIT_ARCH_AARCH64 1 0, RET RET_KILL_THREAD, LD (SD_IP + 4), JEQ (hi32 gs) 0 4, LD SD_IP,
      JGE (lo32 gs) 0 2, JGE (lo32 ge) 1 0, RET RET_ALLOW, LD SD_NR]"

definition cng_build_seccomp_traceall :: "u64 \<Rightarrow> u64 \<Rightarrow> nat \<Rightarrow> sock_filter list option" where
  "cng_build_seccomp_traceall gs ge cap = (if cap < TRACEALL_INSNS then None else Some (emit_prologue gs ge @
     [JEQ NR_rt_sigreturn 7 0, JEQ NR_clone 0 7, LD SD_ARGS, ANDK CLONE_VM, JEQ 0 4 0, LD SD_ARGS, ANDK CLONE_VFORK,
      JEQ 0 0 1, RET RET_ALLOW, RET (RET_TRAP OR TAG_TRACEALL)]))"

definition tracer_syscalls :: "u32 list" where
  "tracer_syscalls = [NR_wait4, NR_waitid, NR_kill, NR_tkill, NR_tgkill, NR_process_vm_readv, NR_process_vm_writev]"

definition cng_build_seccomp_tracer :: "u64 \<Rightarrow> u64 \<Rightarrow> nat \<Rightarrow> sock_filter list option" where
  "cng_build_seccomp_tracer gs ge cap = (if cap < TRACER_INSNS then None else Some (emit_prologue gs ge @
     jeq_chain tracer_syscalls 1 0 @ [RET RET_ALLOW, RET (RET_TRAP OR TAG_TRACER)]))"

section \<open>The refused set as a bitset\<close>

definition DENIED_WORDS :: nat where "DENIED_WORDS = 8"

definition denied_mark :: "u64 list \<Rightarrow> u32 \<Rightarrow> u64 list" where
  "denied_mark ws nr = (let n = unat nr in
     if n < DENIED_WORDS * 64 then ws[n div 64 := ws ! (n div 64) OR push_bit (n mod 64) 1] else ws)"

definition denied_build :: "u64 list" where
  "denied_build = foldl denied_mark (replicate DENIED_WORDS 0) enosys_syscalls"

definition cng_denied_syscall :: "u64 \<Rightarrow> bool" where
  "cng_denied_syscall nr =
     (if unat nr \<ge> DENIED_WORDS * 64 then nr \<in> set (map ucast enosys_syscalls)
      else drop_bit (unat nr mod 64) (denied_build ! (unat nr div 64)) AND 1 \<noteq> 0)"

section \<open>Predicting a trap\<close>

definition sd_image :: "u32 \<Rightarrow> u32 \<Rightarrow> u64 \<Rightarrow> u64 list \<Rightarrow> u32 list" where
  "sd_image nr arch ip a =
     [nr, arch, lo32 ip, hi32 ip] @ concat (map (\<lambda>i. [lo32 (a ! i), hi32 (a ! i)]) [0..<6])"

definition filter_traps :: "sock_filter list \<Rightarrow> u32 list \<Rightarrow> bool" where
  "filter_traps f d = (case cng_bpf_run f d of None \<Rightarrow> True | Some act \<Rightarrow> act AND NOT RET_DATA = RET_TRAP)"

definition cng_seccomp_traps ::
  "sock_filter list option \<Rightarrow> bool \<Rightarrow> u64 \<Rightarrow> u64 \<Rightarrow> (nat \<Rightarrow> bool) \<Rightarrow> u64 \<Rightarrow> u64 list \<Rightarrow> u64 \<Rightarrow> bool \<Rightarrow> bool \<Rightarrow> bool"
where
  "cng_seccomp_traps base live gs ge blocked nr a ip traceall tracer =
     (case base of None \<Rightarrow> False | Some f \<Rightarrow>
        live \<and>
        (let d = sd_image (lo32 nr) AUDIT_ARCH_AARCH64 ip a in
         filter_traps f d \<or>
         traceall \<and> (case cng_build_seccomp_traceall gs ge 24 of None \<Rightarrow> False | Some g \<Rightarrow> filter_traps g d) \<or>
         tracer \<and> (case cng_build_seccomp_tracer gs ge 24 of None \<Rightarrow> False | Some g \<Rightarrow> filter_traps g d) \<or>
         sint nr \<ge> 0 \<and> sint nr < int NR_MAX \<and> blocked (nat (sint nr))))"

end
