(* ===== verification/Seccomp_Props.thy ===== *)
theory Seccomp_Props
  imports Seccomp
begin

text \<open>
  What the filters decide, written as a decision on the call instead of a program, and that the programs
  the builders emit decide exactly that; that they fit; that the calls which reach the file system by name
  never run untranslated.
\<close>

unbundle bit_operations_syntax

section \<open>The policy\<close>

definition in_gate :: "u64 \<Rightarrow> u64 \<Rightarrow> u64 \<Rightarrow> bool" where
  "in_gate gs ge ip \<longleftrightarrow> gs \<le> ip \<and> ip < ge"

definition trap_if :: "bool \<Rightarrow> u32" where
  "trap_if b = (if b then RET_TRAP else RET_ALLOW)"

definition new_process :: "u32 \<Rightarrow> bool" where
  "new_process flags \<longleftrightarrow> flags AND CLONE_VM = 0 \<or> flags AND CLONE_VFORK \<noteq> 0"

text \<open>A call that passed the tests on the architecture, the refused set and the gate.\<close>

definition guest_policy :: "filt_cfg \<Rightarrow> u32 \<Rightarrow> u64 list \<Rightarrow> u32" where
  "guest_policy c nr a =
     (if nr = NR_clone then trap_if (new_process (lo32 (a ! 0)))
      else if nr = NR_prctl then trap_if (lo32 (a ! 0) \<in> set prctl_ops)
      else if nr = NR_ioctl then
        trap_if (SIOC_BAND_LO \<le> lo32 (a ! 1) \<and> lo32 (a ! 1) \<le> SIOC_BAND_HI \<or>
                 lo32 (a ! 1) \<in> set (ioctl_requests (view_has_ro c)))
      else if nr = NR_mmap then trap_if (lo32 (a ! 2) AND PROT_EXEC \<noteq> 0 \<and> lo32 (a ! 3) AND MAP_ANONYMOUS = 0)
      else if nr = NR_mprotect then trap_if (lo32 (a ! 2) AND PROT_EXEC \<noteq> 0)
      else if nr = NR_mremap then trap_if (lo32 (a ! 3) AND MREMAP_DONTUNMAP \<noteq> 0)
      else case map_of waits nr of
        Some arg \<Rightarrow> trap_if (a ! arg \<noteq> 0)
      | None \<Rightarrow>
          if c_synth_fd_base c > 0 \<and> nr \<in> set read_family then trap_if (of_int (c_synth_fd_base c) \<le> lo32 (a ! 0))
          else trap_if (nr \<in> set (trap_list c)))"

definition policy :: "filt_cfg \<Rightarrow> u32 \<Rightarrow> u32 \<Rightarrow> u64 \<Rightarrow> u64 list \<Rightarrow> u32" where
  "policy c nr arch ip a =
     (if arch \<noteq> AUDIT_ARCH_AARCH64 then RET_KILL_THREAD
      else if nr \<in> set enosys_syscalls then RET_ERRNO OR (of_int ENOSYS AND RET_DATA)
      else if in_gate (gate_start c) (gate_end c) ip then RET_ALLOW
      else guest_policy c nr a)"

text \<open>The filter compares the low halves only: the gate must not straddle a 4 GiB line.\<close>

definition gate_ok :: "u64 \<Rightarrow> u64 \<Rightarrow> bool" where
  "gate_ok gs ge \<longleftrightarrow> hi32 gs = hi32 ge"

section \<open>Halves of a 64-bit word\<close>

lemma unat_halves: "unat x = unat (hi32 x) * 2 ^ 32 + unat (lo32 x)"
proof -
  have "unat x < 2 ^ LENGTH(64)" by (rule unsigned_less)
  then have "unat x < 2 ^ 64" by simp
  then have "unat x div 2 ^ 32 < 2 ^ 32" by (simp add: less_mult_imp_div_less)
  then have "unat (hi32 x) = unat x div 2 ^ 32" "unat (lo32 x) = unat x mod 2 ^ 32"
    by (simp_all add: hi32_def lo32_def unsigned_ucast_eq unsigned_drop_bit_eq drop_bit_eq_div take_bit_eq_mod unat_div)
  then show ?thesis by (simp add: div_mult_mod_eq)
qed

lemma lo32_less: "unat (lo32 x) < 2 ^ 32" "unat (hi32 x) < 2 ^ 32"
proof -
  have "unat y < 2 ^ LENGTH(32)" for y :: u32 by (rule unsigned_less)
  then show "unat (lo32 x) < 2 ^ 32" "unat (hi32 x) < 2 ^ 32" by simp_all
qed

lemma le_same_half: "hi32 x = hi32 y \<Longrightarrow> x \<le> y \<longleftrightarrow> lo32 x \<le> lo32 y"
  by (simp add: word_le_nat_alt unat_halves [of x] unat_halves [of y])

lemma less_same_half: "hi32 x = hi32 y \<Longrightarrow> x < y \<longleftrightarrow> lo32 x < lo32 y"
  by (simp add: word_less_nat_alt unat_halves [of x] unat_halves [of y])

lemma zero_halves: "x = 0 \<longleftrightarrow> lo32 x = 0 \<and> hi32 x = 0"
  by (auto simp: unat_eq_0 [symmetric] unat_halves [of x] simp del: unat_eq_0)

lemma hi_between:
  assumes "hi32 gs = hi32 ge" "gs \<le> ip" "ip < ge"
  shows "hi32 ip = hi32 gs"
proof -
  have "unat (hi32 gs) \<le> unat (hi32 ip)" "unat (hi32 ip) \<le> unat (hi32 ge)"
    using assms lo32_less(1) [of gs] lo32_less(1) [of ip] lo32_less(1) [of ge]
    by (auto simp: word_le_nat_alt word_less_nat_alt unat_halves [of gs] unat_halves [of ip] unat_halves [of ge])
  then show ?thesis using assms(1) by (simp add: word_unat_eq_iff)
qed

section \<open>Block by block\<close>

lemma sd_nth:
  "sd_image nr arch ip a ! 0 = nr" "sd_image nr arch ip a ! Suc 0 = arch"
  "sd_image nr arch ip a ! 2 = lo32 ip" "sd_image nr arch ip a ! 3 = hi32 ip"
  "sd_image nr arch ip a ! 4 = lo32 (a ! 0)" "sd_image nr arch ip a ! 6 = lo32 (a ! 1)"
  "sd_image nr arch ip a ! 8 = lo32 (a ! 2)" "sd_image nr arch ip a ! 10 = lo32 (a ! 3)"
  "sd_image nr arch ip a ! 11 = hi32 (a ! 3)" "sd_image nr arch ip a ! 12 = lo32 (a ! 4)"
  "sd_image nr arch ip a ! 13 = hi32 (a ! 4)" "sd_image nr arch ip a ! 14 = lo32 (a ! 5)"
  "sd_image nr arch ip a ! 15 = hi32 (a ! 5)"
  by (simp_all add: sd_image_def upt_rec eval_nat_numeral)

lemma exec_ld:
  assumes "j < 16"
  shows "bpf_exec (LD (4 * of_nat j) # is) data A = bpf_exec is data (data ! j)"
proof -
  have u: "unat (4 * of_nat j :: u32) = 4 * j" using assms by (simp add: unat_word_ariths unat_of_nat)
  have "unat ((4 * of_nat j :: u32) div 4) = j" using u by (simp add: unat_div)
  moreover have "(4 * of_nat j :: u32) AND 3 = 0"
  proof -
    have "(4 * of_nat j :: u32) AND 3 = take_bit 2 (push_bit 2 (of_nat j))"
      by (simp add: push_bit_eq_mult take_bit_eq_mask mask_eq_exp_minus_1 mult.commute)
    then show ?thesis by (simp add: take_bit_push_bit)
  qed
  moreover have "\<not> (4 * of_nat j :: u32) \<ge> 64" using u assms by (simp add: word_le_nat_alt)
  ultimately show ?thesis by simp
qed

lemma offsets:
  "SD_NR = 4 * of_nat 0" "SD_ARCH = 4 * of_nat 1" "SD_IP = 4 * of_nat 2" "SD_IP + 4 = 4 * of_nat 3"
  "SD_ARGS = 4 * of_nat 4" "SD_ARGS + 8 = 4 * of_nat 6" "SD_ARGS + 16 = 4 * of_nat 8" "SD_ARGS + 24 = 4 * of_nat 10"
  by (simp_all add: SD_NR_def SD_ARCH_def SD_IP_def SD_ARGS_def)

lemma exec_lds:
  "bpf_exec (LD SD_NR # is) (sd_image nr arch ip a) A = bpf_exec is (sd_image nr arch ip a) nr"
  "bpf_exec (LD SD_ARCH # is) (sd_image nr arch ip a) A = bpf_exec is (sd_image nr arch ip a) arch"
  "bpf_exec (LD SD_IP # is) (sd_image nr arch ip a) A = bpf_exec is (sd_image nr arch ip a) (lo32 ip)"
  "bpf_exec (LD (SD_IP + 4) # is) (sd_image nr arch ip a) A = bpf_exec is (sd_image nr arch ip a) (hi32 ip)"
  "bpf_exec (LD SD_ARGS # is) (sd_image nr arch ip a) A = bpf_exec is (sd_image nr arch ip a) (lo32 (a ! 0))"
  "bpf_exec (LD (SD_ARGS + 8) # is) (sd_image nr arch ip a) A = bpf_exec is (sd_image nr arch ip a) (lo32 (a ! 1))"
  "bpf_exec (LD (SD_ARGS + 16) # is) (sd_image nr arch ip a) A = bpf_exec is (sd_image nr arch ip a) (lo32 (a ! 2))"
  "bpf_exec (LD (SD_ARGS + 24) # is) (sd_image nr arch ip a) A = bpf_exec is (sd_image nr arch ip a) (lo32 (a ! 3))"
  by (simp_all only: offsets exec_ld sd_nth One_nat_def) (simp_all add: exec_ld sd_nth)

lemma exec_arch:
  "bpf_exec (arch_block @ is) (sd_image nr arch ip a) A =
     (if arch \<noteq> AUDIT_ARCH_AARCH64 then Some RET_KILL_THREAD else bpf_exec is (sd_image nr arch ip a) arch)"
  by (simp add: arch_block_def exec_lds del: exec_load)

lemma exec_enosys:
  "bpf_exec (enosys_block @ is) (sd_image nr arch ip a) A =
     (if nr \<in> set enosys_syscalls then Some (RET_ERRNO OR (of_int ENOSYS AND RET_DATA))
      else bpf_exec is (sd_image nr arch ip a) nr)"
proof -
  have "enosys_syscalls \<noteq> []" "length enosys_syscalls = 31" by (simp_all add: enosys_syscalls_def)
  then show ?thesis by (simp add: enosys_block_def exec_lds exec_jeq_chain del: exec_load)
qed

lemma exec_gate:
  assumes "gate_ok gs ge"
  shows "bpf_exec (gate_block gs ge @ is) (sd_image nr arch ip a) A =
     (if in_gate gs ge ip then Some RET_ALLOW else bpf_exec is (sd_image nr arch ip a) nr)"
proof -
  have "in_gate gs ge ip \<longleftrightarrow> hi32 ip = hi32 gs \<and> lo32 gs \<le> lo32 ip \<and> lo32 ip < lo32 ge"
    using assms hi_between [of gs ge ip] le_same_half [of gs ip] less_same_half [of ip ge]
    unfolding in_gate_def gate_ok_def by metis
  then show ?thesis by (auto simp: gate_block_def exec_lds simp del: exec_load)
qed

lemma exec_clone:
  "bpf_exec (clone_block @ is) (sd_image nr arch ip a) nr =
     (if nr = NR_clone then Some (trap_if (new_process (lo32 (a ! 0)))) else bpf_exec is (sd_image nr arch ip a) nr)"
  by (simp add: clone_block_def exec_lds trap_if_def new_process_def del: exec_load)

lemma exec_prctl:
  "bpf_exec (prctl_block @ is) (sd_image nr arch ip a) nr =
     (if nr = NR_prctl then Some (trap_if (lo32 (a ! 0) \<in> set prctl_ops)) else bpf_exec is (sd_image nr arch ip a) nr)"
  by (simp add: prctl_block_def exec_lds trap_if_def prctl_ops_def del: exec_load)

lemma exec_ioctl:
  "bpf_exec (ioctl_block ro @ is) (sd_image nr arch ip a) nr =
     (if nr = NR_ioctl then Some (trap_if (SIOC_BAND_LO \<le> lo32 (a ! 1) \<and> lo32 (a ! 1) \<le> SIOC_BAND_HI \<or>
          lo32 (a ! 1) \<in> set (ioctl_requests ro)))
      else bpf_exec is (sd_image nr arch ip a) nr)"
proof -
  let ?ms = "ioctl_requests ro"
  have l: "?ms \<noteq> []" "length ?ms < 100"
    by (simp_all add: ioctl_requests_def cng_ioctl_tty_def cng_ioctl_mnt_write_def)
  have "drop (4 + length ?ms + 1 + 1) (LD (SD_ARGS + 8) # JGE SIOC_BAND_LO 0 2 # JGT SIOC_BAND_HI 1 0 # RET RET_TRAP #
      jeq_chain ?ms 0 1 @ RET RET_TRAP # RET RET_ALLOW # LD SD_NR # is) = LD SD_NR # is"
    by (simp add: drop_Cons' )
  moreover have "(4 + length ?ms + 1 + 1) mod 256 = 4 + length ?ms + 1 + 1" using l(2) by simp
  ultimately show ?thesis using l
    by (simp add: ioctl_block_def Let_def exec_lds exec_jeq_chain trap_if_def not_le del: exec_load) auto
qed

lemma exec_mmap:
  "bpf_exec (mmap_block @ is) (sd_image nr arch ip a) nr =
     (if nr = NR_mmap then Some (trap_if (lo32 (a ! 2) AND PROT_EXEC \<noteq> 0 \<and> lo32 (a ! 3) AND MAP_ANONYMOUS = 0))
      else bpf_exec is (sd_image nr arch ip a) nr)"
  by (simp add: mmap_block_def exec_lds trap_if_def del: exec_load)

lemma exec_mprotect:
  "bpf_exec (mprotect_block @ is) (sd_image nr arch ip a) nr =
     (if nr = NR_mprotect then Some (trap_if (lo32 (a ! 2) AND PROT_EXEC \<noteq> 0)) else bpf_exec is (sd_image nr arch ip a) nr)"
  by (simp add: mprotect_block_def exec_lds trap_if_def del: exec_load)

lemma exec_mremap:
  "bpf_exec (mremap_block @ is) (sd_image nr arch ip a) nr =
     (if nr = NR_mremap then Some (trap_if (lo32 (a ! 3) AND MREMAP_DONTUNMAP \<noteq> 0)) else bpf_exec is (sd_image nr arch ip a) nr)"
  by (simp add: mremap_block_def exec_lds trap_if_def del: exec_load)

lemma wait_offsets:
  "SD_ARGS + 8 * 3 = 4 * of_nat 10" "SD_ARGS + 8 * 3 + 4 = 4 * of_nat 11" "SD_ARGS + 8 * 4 = 4 * of_nat 12"
  "SD_ARGS + 8 * 4 + 4 = 4 * of_nat 13" "SD_ARGS + 8 * 5 = 4 * of_nat 14" "SD_ARGS + 8 * 5 + 4 = 4 * of_nat 15"
  by (simp_all add: SD_ARGS_def)

lemma exec_ld_arg:
  assumes "arg = 3 \<or> arg = 4 \<or> arg = 5"
  shows "bpf_exec (LD (SD_ARGS + 8 * of_nat arg) # is) (sd_image nr arch ip a) A = bpf_exec is (sd_image nr arch ip a) (lo32 (a ! arg))"
    "bpf_exec (LD (SD_ARGS + 8 * of_nat arg + 4) # is) (sd_image nr arch ip a) A = bpf_exec is (sd_image nr arch ip a) (hi32 (a ! arg))"
proof -
  have o3: "bpf_exec (LD (SD_ARGS + 8 * 3) # is) (sd_image nr arch ip a) A = bpf_exec is (sd_image nr arch ip a) (lo32 (a ! 3))"
    "bpf_exec (LD (SD_ARGS + 8 * 3 + 4) # is) (sd_image nr arch ip a) A = bpf_exec is (sd_image nr arch ip a) (hi32 (a ! 3))"
    "bpf_exec (LD (SD_ARGS + 8 * 4) # is) (sd_image nr arch ip a) A = bpf_exec is (sd_image nr arch ip a) (lo32 (a ! 4))"
    "bpf_exec (LD (SD_ARGS + 8 * 4 + 4) # is) (sd_image nr arch ip a) A = bpf_exec is (sd_image nr arch ip a) (hi32 (a ! 4))"
    "bpf_exec (LD (SD_ARGS + 8 * 5) # is) (sd_image nr arch ip a) A = bpf_exec is (sd_image nr arch ip a) (lo32 (a ! 5))"
    "bpf_exec (LD (SD_ARGS + 8 * 5 + 4) # is) (sd_image nr arch ip a) A = bpf_exec is (sd_image nr arch ip a) (hi32 (a ! 5))"
    unfolding wait_offsets
    using exec_ld [of 10] exec_ld [of 11] exec_ld [of 12] exec_ld [of 13] exec_ld [of 14] exec_ld [of 15]
    by (simp_all only: sd_nth) (simp_all add: sd_nth)
  show "bpf_exec (LD (SD_ARGS + 8 * of_nat arg) # is) (sd_image nr arch ip a) A = bpf_exec is (sd_image nr arch ip a) (lo32 (a ! arg))"
    "bpf_exec (LD (SD_ARGS + 8 * of_nat arg + 4) # is) (sd_image nr arch ip a) A = bpf_exec is (sd_image nr arch ip a) (hi32 (a ! arg))"
    using assms by (elim disjE; simp only: of_nat_numeral o3)+
qed

lemma exec_wait:
  assumes "arg = 3 \<or> arg = 4 \<or> arg = 5"
  shows "bpf_exec (wait_block (w, arg) @ is) (sd_image nr arch ip a) nr =
     (if nr = w then Some (trap_if (a ! arg \<noteq> 0)) else bpf_exec is (sd_image nr arch ip a) nr)"
  using exec_ld_arg [OF assms]
  by (simp add: wait_block_def exec_lds trap_if_def zero_halves [of "a ! arg"] del: exec_load)

lemma exec_waits:
  "bpf_exec (concat (map wait_block waits) @ is) (sd_image nr arch ip a) nr =
     (case map_of waits nr of Some arg \<Rightarrow> Some (trap_if (a ! arg \<noteq> 0)) | None \<Rightarrow> bpf_exec is (sd_image nr arch ip a) nr)"
  by (simp add: waits_def exec_wait)

lemma exec_read:
  "bpf_exec (read_block base @ is) (sd_image nr arch ip a) nr =
     (if base > 0 \<and> nr \<in> set read_family then Some (trap_if (of_int base \<le> lo32 (a ! 0)))
      else bpf_exec is (sd_image nr arch ip a) nr)"
proof -
  have "read_family \<noteq> []" "length read_family = 5" by (simp_all add: read_family_def)
  then show ?thesis by (simp add: read_block_def exec_jeq_chain exec_lds trap_if_def del: exec_load)
qed

lemma exec_tail:
  assumes "nrs \<noteq> []" "length nrs \<le> 255"
  shows "bpf_exec (tail_block nrs) data A = Some (trap_if (A \<in> set nrs))"
  using assms exec_jeq_chain [of nrs 1 0 "[RET RET_ALLOW, RET RET_TRAP]" data A] by (simp add: tail_block_def trap_if_def)

section \<open>The trapped set\<close>

lemma length_add_new: "length (add_new xs nr) \<le> length xs + length nr"
proof (induction xs arbitrary: nr)
  case (Cons x xs)
  show ?case using Cons.IH [of nr] Cons.IH [of "nr @ [x]"] by simp
qed simp

lemma set_add_new: "set (add_new xs nr) = set xs \<union> set nr"
  by (induction xs arbitrary: nr) auto

lemmas table_lengths = path_syscalls_def ipc_syscalls_def id_syscalls_def ro_fd_syscalls_def cng_setid_deny_nrs_def

lemma length_trap_list: "length (trap_list c) \<le> 66 + 12 + 21 + 4 + 11"
proof -
  have r: "length (add_new ro_fd_syscalls nr) \<le> 4 + length nr" for nr
    using length_add_new [of ro_fd_syscalls nr] by (simp add: ro_fd_syscalls_def)
  have "length path_syscalls = 66" "length ipc_syscalls = 12" "length id_syscalls = 21" "length cng_setid_deny_nrs = 8"
    by (simp_all add: table_lengths)
  then show ?thesis
    using r [of "path_syscalls @ ipc_syscalls @ id_syscalls"] r [of "path_syscalls @ ipc_syscalls @ cng_setid_deny_nrs"]
      r [of "path_syscalls @ ipc_syscalls"]
    by (simp add: trap_list_def Let_def)
qed

lemma trap_list_set:
  "set path_syscalls \<subseteq> set (trap_list c)" "set ipc_syscalls \<subseteq> set (trap_list c)"
  "c_fake_id c \<Longrightarrow> set id_syscalls \<subseteq> set (trap_list c)"
  "view_has_ro c \<Longrightarrow> set ro_fd_syscalls \<subseteq> set (trap_list c)"
  by (auto simp: trap_list_def Let_def set_add_new)

lemma trap_list_ne: "trap_list c \<noteq> []"
  using trap_list_set(2) [of c] by (auto simp: ipc_syscalls_def)

section \<open>The base filter\<close>

lemma base_filter_policy:
  assumes "gate_ok (gate_start c) (gate_end c)"
  shows "cng_bpf_run (base_filter c) (sd_image nr arch ip a) = Some (policy c nr arch ip a)"
proof -
  have t: "bpf_exec (tail_block (trap_list c)) d A = Some (trap_if (A \<in> set (trap_list c)))" for d A
    using length_trap_list [of c] by (intro exec_tail trap_list_ne) simp
  show ?thesis
    unfolding bpf_run_exec base_filter_def append_assoc exec_arch exec_enosys exec_gate [OF assms] exec_clone exec_prctl
      exec_ioctl exec_mmap exec_mprotect exec_mremap exec_waits exec_read t policy_def guest_policy_def
    by (auto split: option.split)
qed

text \<open>
  C5. The filter decides by the policy. Whatever the configuration, if the builder is given a buffer of the
  documented size, the program it emits runs to a verdict on every call, and the verdict is the policy's:
  kill on a foreign architecture, refuse the calls that cannot be contained, allow the monitor's own
  re-issues, and trap exactly the calls - and exactly the argument patterns of clone, prctl, ioctl, mmap,
  mprotect, mremap, the waits and the reads - that the dispatcher answers.
\<close>

theorem filter_decides_by_policy:
  assumes "cng_build_seccomp c cap = Some f" "gate_ok (gate_start c) (gate_end c)"
  shows "cng_bpf_run f (sd_image nr arch ip a) = Some (policy c nr arch ip a)"
  using assms(1) base_filter_policy [OF assms(2)] by (auto simp: cng_build_seccomp_def split: if_splits)

definition demo_filt :: filt_cfg where
  "demo_filt = \<lparr>gate_start = 0x700001000, gate_end = 0x700001010, c_fake_id = True, c_setid_deny = False, c_l2s = True,
     c_no_proc = False, c_no_dev = False, c_procreg_none = False, c_view = None, c_synth_fd_base = 1008\<rparr>"

theorem filter_decides_by_policy_witness:
  "cng_bpf_run (base_filter demo_filt) (sd_image NR_openat AUDIT_ARCH_AARCH64 0x1000 [0, 0, 0, 0, 0, 0]) =
     Some (policy demo_filt NR_openat AUDIT_ARCH_AARCH64 0x1000 [0, 0, 0, 0, 0, 0])"
  using filter_decides_by_policy [of demo_filt 320 "base_filter demo_filt" NR_openat AUDIT_ARCH_AARCH64 "0x1000"
      "[0, 0, 0, 0, 0, 0]"]
  by (simp add: cng_build_seccomp_def MAX_INSNS_def gate_ok_def demo_filt_def hi32_def drop_bit_eq_div)

text \<open>
  C39. The builder stays in bounds, for every configuration: the list of trapped numbers fits the array it
  is collected in and the 8-bit jump offsets, and the program leaves at least eight of the instructions
  of its buffer unused.
\<close>

theorem filter_fits:
  "length (trap_list c) \<le> length path_syscalls + length ipc_syscalls + length id_syscalls + length ro_fd_syscalls + 11 \<and>
   length (trap_list c) < 256 \<and> length (base_filter c) + 8 \<le> MAX_INSNS"
proof -
  have n: "length path_syscalls = 66" "length ipc_syscalls = 12" "length id_syscalls = 21" "length ro_fd_syscalls = 4"
    by (simp_all add: table_lengths)
  have "length (ioctl_requests b) \<le> 25" for b
    by (simp add: ioctl_requests_def cng_ioctl_tty_def cng_ioctl_mnt_write_def)
  then have "length (ioctl_block (view_has_ro c)) \<le> 33" by (simp add: ioctl_block_def Let_def)
  moreover have "length enosys_block = 33" by (simp add: enosys_block_def enosys_syscalls_def)
  moreover have "length (read_block (c_synth_fd_base c)) \<le> 10" by (simp add: read_block_def read_family_def)
  moreover have "length (concat (map wait_block waits)) = 32" by (simp add: waits_def wait_block_def)
  ultimately have "length (base_filter c) \<le> 163 + length (trap_list c) + 2"
    by (simp add: base_filter_def arch_block_def gate_block_def clone_block_def prctl_block_def mmap_block_def
        mprotect_block_def mremap_block_def tail_block_def add_mono)
  then show ?thesis using length_trap_list [of c] by (simp add: n MAX_INSNS_def)
qed

text \<open>The numbers the filter tests arguments for are not among the calls it traps whatever the arguments.\<close>

definition judged_by_argument :: "u32 list" where
  "judged_by_argument = [NR_clone, NR_prctl, NR_ioctl, NR_mmap, NR_mprotect, NR_mremap] @ map fst waits @ read_family"

lemma contained_calls_apart:
  "list_all (\<lambda>nr. nr \<notin> set enosys_syscalls \<and> nr \<notin> set judged_by_argument) (path_syscalls @ ipc_syscalls)"
proof -
  have "\<forall>x \<in> set (map uint (path_syscalls @ ipc_syscalls)). x \<notin> set (map uint (enosys_syscalls @ judged_by_argument))"
    by (simp add: path_syscalls_def ipc_syscalls_def enosys_syscalls_def judged_by_argument_def waits_def read_family_def)
  then show ?thesis by (auto simp: list_all_iff)
qed

lemma guest_policy_listed:
  assumes "nr \<in> set (trap_list c)" "nr \<notin> set judged_by_argument"
  shows "guest_policy c nr a = RET_TRAP"
proof -
  have "map_of waits nr = None" using assms(2) by (auto simp: judged_by_argument_def map_of_eq_None_iff)
  then show ?thesis using assms by (auto simp: guest_policy_def judged_by_argument_def trap_if_def)
qed



section \<open>The filters of tracing tasks\<close>

lemma exec_prologue:
  assumes "gate_ok gs ge"
  shows "bpf_exec (emit_prologue gs ge @ is) (sd_image nr arch ip a) A =
     (if arch \<noteq> AUDIT_ARCH_AARCH64 then Some RET_KILL_THREAD else if in_gate gs ge ip then Some RET_ALLOW
      else bpf_exec is (sd_image nr arch ip a) nr)"
proof -
  have "emit_prologue gs ge = arch_block @ gate_block gs ge"
    by (simp add: emit_prologue_def arch_block_def gate_block_def)
  then show ?thesis by (simp add: exec_arch exec_gate [OF assms])
qed

text \<open>
  A tracee's filter traps every call made outside the gate except the signal return and the creation
  of a thread, and a tracer's exactly the calls whose answer depends on its tracees; each trap carries the
  tag the handler knows the filter by.
\<close>

theorem tracing_filters_decide:
  assumes "cng_build_seccomp_traceall gs ge TRACEALL_INSNS = Some f" "cng_build_seccomp_tracer gs ge TRACER_INSNS = Some g"
    "gate_ok gs ge" "\<not> in_gate gs ge ip"
  shows "cng_bpf_run f (sd_image nr AUDIT_ARCH_AARCH64 ip a) =
      Some (if nr = NR_rt_sigreturn \<or> nr = NR_clone \<and> \<not> new_process (lo32 (a ! 0)) then RET_ALLOW
            else RET_TRAP OR TAG_TRACEALL) \<and>
    cng_bpf_run g (sd_image nr AUDIT_ARCH_AARCH64 ip a) =
      Some (if nr \<in> set tracer_syscalls then RET_TRAP OR TAG_TRACER else RET_ALLOW)"
proof
  show "cng_bpf_run f (sd_image nr AUDIT_ARCH_AARCH64 ip a) =
      Some (if nr = NR_rt_sigreturn \<or> nr = NR_clone \<and> \<not> new_process (lo32 (a ! 0)) then RET_ALLOW
            else RET_TRAP OR TAG_TRACEALL)"
  proof -
    have f: "f = emit_prologue gs ge @ [JEQ NR_rt_sigreturn 7 0, JEQ NR_clone 0 7, LD SD_ARGS, ANDK CLONE_VM, JEQ 0 4 0,
        LD SD_ARGS, ANDK CLONE_VFORK, JEQ 0 0 1, RET RET_ALLOW, RET (RET_TRAP OR TAG_TRACEALL)]"
      using assms(1) by (simp add: cng_build_seccomp_traceall_def)
    show ?thesis using assms(4) unfolding f bpf_run_exec exec_prologue [OF assms(3)]
      by (simp add: exec_lds new_process_def del: exec_load)
  qed
next
  show "cng_bpf_run g (sd_image nr AUDIT_ARCH_AARCH64 ip a) =
      Some (if nr \<in> set tracer_syscalls then RET_TRAP OR TAG_TRACER else RET_ALLOW)"
  proof -
    have g: "g = emit_prologue gs ge @ jeq_chain tracer_syscalls 1 0 @ [RET RET_ALLOW, RET (RET_TRAP OR TAG_TRACER)]"
      using assms(2) by (simp add: cng_build_seccomp_tracer_def)
    have "tracer_syscalls \<noteq> []" "length tracer_syscalls = 7" by (simp_all add: tracer_syscalls_def)
    then show ?thesis using assms(4) unfolding g bpf_run_exec exec_prologue [OF assms(3)]
      by (simp add: exec_jeq_chain)
  qed
qed

theorem tracing_filters_decide_witness:
  "\<exists>f g. cng_build_seccomp_traceall 0x700001000 0x700001010 24 = Some f \<and>
     cng_bpf_run f (sd_image NR_read AUDIT_ARCH_AARCH64 0x1000 []) = Some (RET_TRAP OR TAG_TRACEALL) \<and>
     cng_build_seccomp_tracer 0x700001000 0x700001010 24 = Some g \<and>
     cng_bpf_run g (sd_image NR_read AUDIT_ARCH_AARCH64 0x1000 []) = Some RET_ALLOW"
proof -
  have n: "NR_read \<noteq> NR_rt_sigreturn" "NR_read \<noteq> NR_clone" "NR_read \<notin> set tracer_syscalls"
    by (simp_all add: tracer_syscalls_def)
  obtain f where f: "cng_build_seccomp_traceall 0x700001000 0x700001010 TRACEALL_INSNS = Some f"
    by (simp add: cng_build_seccomp_traceall_def)
  obtain g where g: "cng_build_seccomp_tracer 0x700001000 0x700001010 TRACER_INSNS = Some g"
    by (simp add: cng_build_seccomp_tracer_def)
  have "gate_ok 0x700001000 0x700001010" "\<not> in_gate 0x700001000 0x700001010 0x1000"
    by (simp_all add: gate_ok_def hi32_def drop_bit_eq_div in_gate_def)
  from tracing_filters_decide [OF f g this, of NR_read "[]"] show ?thesis using f g n
    by (simp add: TRACEALL_INSNS_def TRACER_INSNS_def)
qed

section \<open>The bitset\<close>

definition has_bit :: "u64 list \<Rightarrow> nat \<Rightarrow> bool" where
  "has_bit ws n = bit (ws ! (n div 64)) (n mod 64)"

lemma length_denied_mark [simp]: "length (denied_mark ws nr) = length ws"
  by (simp add: denied_mark_def Let_def)

lemma denied_mark_bit:
  assumes "length ws = DENIED_WORDS" "n < DENIED_WORDS * 64"
  shows "has_bit (denied_mark ws nr) n \<longleftrightarrow> has_bit ws n \<or> unat nr = n"
proof (cases "unat nr < DENIED_WORDS * 64")
  case True
  then have d: "unat nr div 64 < length ws" using assms(1) by (simp add: DENIED_WORDS_def)
  show ?thesis
  proof (cases "n div 64 = unat nr div 64")
    case same: True
    have "bit (push_bit (unat nr mod 64) 1 :: u64) (n mod 64) \<longleftrightarrow> n mod 64 = unat nr mod 64"
      by (auto simp: bit_push_bit_iff bit_1_iff simp del: push_bit_of_1)
    moreover have "n = unat nr \<longleftrightarrow> n mod 64 = unat nr mod 64" using same by (metis div_mult_mod_eq)
    ultimately show ?thesis using True same d by (auto simp: has_bit_def denied_mark_def Let_def bit_or_iff)
  next
    case False
    then show ?thesis using True by (auto simp: has_bit_def denied_mark_def Let_def)
  qed
qed (use assms in \<open>auto simp: denied_mark_def Let_def\<close>)

lemma denied_fold_bit:
  "length ws = DENIED_WORDS \<Longrightarrow> n < DENIED_WORDS * 64 \<Longrightarrow>
   has_bit (foldl denied_mark ws nrs) n \<longleftrightarrow> has_bit ws n \<or> n \<in> unat ` set nrs"
  by (induction nrs arbitrary: ws) (auto simp: denied_mark_bit)

text \<open>
  The bitset the rewritten call sites ask is the refused set: for every 64-bit number, also a negative
  or a huge one, the answer is yes exactly for the numbers in the table the filter refuses.
\<close>

theorem denied_bitset_is_the_table:
  "cng_denied_syscall nr \<longleftrightarrow> nr \<in> ucast ` set enosys_syscalls"
proof (cases "unat nr < DENIED_WORDS * 64")
  case True
  have "drop_bit k (w :: u64) AND 1 \<noteq> 0 \<longleftrightarrow> bit w k" for k w
    by (simp add: bit_iff_and_drop_bit_eq_1 and_one_eq) 
  then have "cng_denied_syscall nr \<longleftrightarrow> has_bit denied_build (unat nr)"
    using True by (simp add: cng_denied_syscall_def has_bit_def)
  also have "\<dots> \<longleftrightarrow> unat nr \<in> unat ` set enosys_syscalls"
    using True by (simp add: denied_build_def denied_fold_bit) (simp add: has_bit_def DENIED_WORDS_def)
  also have "\<dots> \<longleftrightarrow> nr \<in> ucast ` set enosys_syscalls"
  proof -
    have "unat (ucast x :: u64) = unat x" for x :: u32
    proof -
      have "unat x < 2 ^ LENGTH(32)" by (rule unsigned_less)
      then show ?thesis by (simp add: unsigned_ucast_eq take_bit_nat_eq_self)
    qed
    then show ?thesis by (auto simp: image_iff word_unat_eq_iff)
  qed
  finally show ?thesis .
qed (simp add: cng_denied_syscall_def)

section \<open>Predicting a trap\<close>

text \<open>
  The kernel runs every filter a task has stacked and takes the action that is least as a signed number,
  the actions without their data.
\<close>

definition action :: "u32 \<Rightarrow> u32" where
  "action v = v AND NOT RET_DATA"

definition kernel_choice :: "u32 list \<Rightarrow> int" where
  "kernel_choice vs = Min (set (map (sint \<circ> action) vs))"

definition verdicts :: "filt_cfg \<Rightarrow> u32 \<Rightarrow> u64 \<Rightarrow> u64 list \<Rightarrow> bool \<Rightarrow> bool \<Rightarrow> u32 list" where
  "verdicts c nr ip a traceall tracer =
     policy c nr AUDIT_ARCH_AARCH64 ip a #
     (if traceall then [if in_gate (gate_start c) (gate_end c) ip \<or> nr = NR_rt_sigreturn \<or>
          nr = NR_clone \<and> \<not> new_process (lo32 (a ! 0)) then RET_ALLOW else RET_TRAP OR TAG_TRACEALL] else []) @
     (if tracer then [if \<not> in_gate (gate_start c) (gate_end c) ip \<and> nr \<in> set tracer_syscalls
          then RET_TRAP OR TAG_TRACER else RET_ALLOW] else [])"

lemma actions:
  "action RET_TRAP = RET_TRAP" "action RET_ALLOW = RET_ALLOW" "action (RET_TRAP OR TAG_TRACEALL) = RET_TRAP"
  "action (RET_TRAP OR TAG_TRACER) = RET_TRAP" "action (RET_ERRNO OR (of_int ENOSYS AND RET_DATA)) = RET_ERRNO"
  "sint RET_TRAP = 0x30000" "sint RET_ERRNO = 0x50000" "sint RET_ALLOW = 0x7fff0000"
  by (simp_all add: action_def RET_TRAP_def RET_ALLOW_def TAG_TRACEALL_def TAG_TRACER_def RET_ERRNO_def RET_DATA_def
      ENOSYS_def)

lemma policy_actions: "action (policy c nr AUDIT_ARCH_AARCH64 ip a) \<in> {RET_TRAP, RET_ALLOW, RET_ERRNO}"
  by (simp add: policy_def guest_policy_def trap_if_def actions split: option.split)

lemma verdict_actions: "v \<in> set (verdicts c nr ip a t r) \<Longrightarrow> action v \<in> {RET_TRAP, RET_ALLOW, RET_ERRNO}"
  using policy_actions by (auto simp: verdicts_def actions split: if_splits)

lemma kernel_traps_iff:
  "kernel_choice (verdicts c nr ip a t r) = sint RET_TRAP \<longleftrightarrow> RET_TRAP \<in> action ` set (verdicts c nr ip a t r)"
proof -
  let ?V = "(sint \<circ> action) ` set (verdicts c nr ip a t r)"
  have "sint RET_TRAP \<le> x" if "x \<in> ?V" for x
  proof -
    obtain v where v: "v \<in> set (verdicts c nr ip a t r)" "x = sint (action v)" using \<open>x \<in> ?V\<close> by auto
    show ?thesis using verdict_actions [OF v(1)] v(2) by (auto simp: actions)
  qed
  moreover have "finite ?V" "?V \<noteq> {}" by (simp_all add: verdicts_def)
  ultimately have "Min ?V = sint RET_TRAP \<longleftrightarrow> sint RET_TRAP \<in> ?V" by (auto simp: Min_eq_iff)
  also have "\<dots> \<longleftrightarrow> RET_TRAP \<in> action ` set (verdicts c nr ip a t r)"
  proof -
    have "sint x = sint y \<longleftrightarrow> x = y" for x y :: u32 by (auto intro: signed_word_eqI)
    then show ?thesis by (simp add: image_iff)
  qed
  finally show ?thesis by (simp add: kernel_choice_def)
qed

lemma traps_among:
  "RET_TRAP \<in> action ` set (verdicts c nr ip a t r) \<longleftrightarrow>
     action (policy c nr AUDIT_ARCH_AARCH64 ip a) = RET_TRAP \<or>
     t \<and> action (if in_gate (gate_start c) (gate_end c) ip \<or> nr = NR_rt_sigreturn \<or>
          nr = NR_clone \<and> \<not> new_process (lo32 (a ! 0)) then RET_ALLOW else RET_TRAP OR TAG_TRACEALL) = RET_TRAP \<or>
     r \<and> action (if \<not> in_gate (gate_start c) (gate_end c) ip \<and> nr \<in> set tracer_syscalls
          then RET_TRAP OR TAG_TRACER else RET_ALLOW) = RET_TRAP"
  unfolding verdicts_def
  by (cases t; cases r; simp only: if_True if_False append_Nil append_Nil2 append.simps list.set image_insert image_empty
      insert_iff empty_iff eq_commute [of RET_TRAP] simp_thms)

lemma filter_traps_run: "cng_bpf_run f d = Some v \<Longrightarrow> filter_traps f d \<longleftrightarrow> action v = RET_TRAP"
  by (simp add: filter_traps_def action_def)

lemma traceall_run:
  assumes "gate_ok gs ge"
  shows "\<exists>f. cng_build_seccomp_traceall gs ge 24 = Some f \<and> cng_bpf_run f (sd_image nr AUDIT_ARCH_AARCH64 ip a) =
    Some (if in_gate gs ge ip \<or> nr = NR_rt_sigreturn \<or> nr = NR_clone \<and> \<not> new_process (lo32 (a ! 0)) then RET_ALLOW
          else RET_TRAP OR TAG_TRACEALL)"
  unfolding cng_build_seccomp_traceall_def
  by (simp add: TRACEALL_INSNS_def bpf_run_exec exec_prologue [OF assms] exec_lds new_process_def del: exec_load)

lemma tracer_run:
  assumes "gate_ok gs ge"
  shows "\<exists>f. cng_build_seccomp_tracer gs ge 24 = Some f \<and> cng_bpf_run f (sd_image nr AUDIT_ARCH_AARCH64 ip a) =
    Some (if \<not> in_gate gs ge ip \<and> nr \<in> set tracer_syscalls then RET_TRAP OR TAG_TRACER else RET_ALLOW)"
proof -
  have "tracer_syscalls \<noteq> []" "length tracer_syscalls = 7" by (simp_all add: tracer_syscalls_def)
  then show ?thesis unfolding cng_build_seccomp_tracer_def
    by (simp add: TRACER_INSNS_def bpf_run_exec exec_prologue [OF assms] exec_jeq_chain)
qed

text \<open>
  C40. The monitor's prediction of a trap is the kernel's choice: for a task that carries the base filter
  and, as the two flags say, those of a tracee and a tracer, the prediction is yes exactly when the most
  restrictive action of the stacked filters is the trap, or when the call is one the host's own filter
  was measured to trap.
\<close>

theorem prediction_is_the_kernels_choice:
  assumes "gate_ok (gate_start c) (gate_end c)"
  shows "cng_seccomp_traps (cng_build_seccomp c MAX_INSNS) True (gate_start c) (gate_end c) blocked nr a ip traceall tracer \<longleftrightarrow>
    kernel_choice (verdicts c (lo32 nr) ip a traceall tracer) = sint RET_TRAP \<or>
    (0 \<le> sint nr \<and> sint nr < int NR_MAX \<and> blocked (nat (sint nr)))"
proof -
  let ?d = "sd_image (lo32 nr) AUDIT_ARCH_AARCH64 ip a"
  obtain f g where f: "cng_build_seccomp_traceall (gate_start c) (gate_end c) 24 = Some f"
      "cng_bpf_run f ?d = Some (if in_gate (gate_start c) (gate_end c) ip \<or> lo32 nr = NR_rt_sigreturn \<or>
        lo32 nr = NR_clone \<and> \<not> new_process (lo32 (a ! 0)) then RET_ALLOW else RET_TRAP OR TAG_TRACEALL)"
    and g: "cng_build_seccomp_tracer (gate_start c) (gate_end c) 24 = Some g"
      "cng_bpf_run g ?d = Some (if \<not> in_gate (gate_start c) (gate_end c) ip \<and> lo32 nr \<in> set tracer_syscalls
        then RET_TRAP OR TAG_TRACER else RET_ALLOW)"
    using traceall_run [OF assms, of "lo32 nr" ip a] tracer_run [OF assms, of "lo32 nr" ip a] by blast
  have live: "cng_seccomp_traps (Some (base_filter c)) True (gate_start c) (gate_end c) blocked nr a ip traceall tracer \<longleftrightarrow>
      filter_traps (base_filter c) ?d \<or> traceall \<and> filter_traps f ?d \<or> tracer \<and> filter_traps g ?d \<or>
      0 \<le> sint nr \<and> sint nr < int NR_MAX \<and> blocked (nat (sint nr))"
    by (simp add: cng_seccomp_traps_def Let_def f(1) g(1))
  have "cng_build_seccomp c MAX_INSNS = Some (base_filter c)" by (simp add: cng_build_seccomp_def)
  then show ?thesis
    unfolding kernel_traps_iff traps_among filter_traps_run [OF f(2), symmetric] filter_traps_run [OF g(2), symmetric]
      filter_traps_run [OF base_filter_policy [OF assms], symmetric]
    using live by simp
qed

theorem prediction_is_the_kernels_choice_witness:
  "cng_seccomp_traps (cng_build_seccomp demo_filt MAX_INSNS) True 0x700001000 0x700001010 (\<lambda>_. False) 64 [] 0x1000 False False
     \<longleftrightarrow> kernel_choice (verdicts demo_filt 64 0x1000 [] False False) = sint RET_TRAP"
  using prediction_is_the_kernels_choice [of demo_filt "\<lambda>_. False" 64 "[]" "0x1000" False False]
  by (simp add: gate_ok_def demo_filt_def hi32_def lo32_def drop_bit_eq_div)

end
