(* ===== verification/Blocklist.thy ===== *)
theory Blocklist
  imports Sysno
begin

text \<open>
  \<open>src/monitor/blocklist.c\<close>: which calls the filter the host put on the process traps. A forked child makes each
  candidate call once with a handler installed that marks the number in a shared page; what the host's
  filter does with a call is a parameter. The knobs add their marks on top.
\<close>

datatype ambient = Pass | Trap | Kill

record probe_host =
  ph_mmap_ok :: bool
  ph_fork :: int
  ph_filter :: "u32 \<Rightarrow> ambient"

record deny_cfg =
  setid_deny :: bool
  openat2_deny :: bool

definition CNG_NR_MAX :: nat where "CNG_NR_MAX = 512"

definition mark :: "u32 \<Rightarrow> bool list \<Rightarrow> bool list" where
  "mark nr b = (if unat nr < length b then b[unat nr := True] else b)"

definition knob_deny :: "deny_cfg \<Rightarrow> bool list \<Rightarrow> bool list" where
  "knob_deny k b =
     (let b = (if setid_deny k then fold mark cng_setid_deny_nrs b else b)
      in if openat2_deny k then mark NR_openat2 b else b)"

text \<open>The handler of the child, and its loop over the candidates; a call that kills ends the loop.\<close>

fun probe_child :: "(u32 \<Rightarrow> ambient) \<Rightarrow> u32 list \<Rightarrow> bool list \<Rightarrow> bool list" where
  "probe_child f [] page = page"
| "probe_child f (nr # nrs) page =
     (case f nr of Kill \<Rightarrow> page | Trap \<Rightarrow> probe_child f nrs (mark nr page) | Pass \<Rightarrow> probe_child f nrs page)"

definition cng_probe_blocked :: "probe_host \<Rightarrow> deny_cfg \<Rightarrow> bool list \<Rightarrow> bool list" where
  "cng_probe_blocked h k blocked =
     (if \<not> ph_mmap_ok h then knob_deny k blocked
      else let page = replicate CNG_NR_MAX False;
               page = probe_child (ph_filter h) probe_set page;
               blocked = (if ph_fork h > 0 then page else blocked)
           in knob_deny k blocked)"

lemma length_mark [simp]: "length (mark nr b) = length b"
  by (simp add: mark_def)

lemma nth_mark: "n < length b \<Longrightarrow> mark nr b ! n \<longleftrightarrow> b ! n \<or> n = unat nr"
  by (auto simp: mark_def nth_list_update)

lemma length_fold_mark [simp]: "length (fold mark nrs b) = length b"
  by (induction nrs arbitrary: b) simp_all

lemma nth_fold_mark: "n < length b \<Longrightarrow> fold mark nrs b ! n \<longleftrightarrow> b ! n \<or> n \<in> unat ` set nrs"
  by (induction nrs arbitrary: b) (auto simp: nth_mark)

lemma probe_child_fold:
  "(\<And>nr. nr \<in> set nrs \<Longrightarrow> f nr \<noteq> Kill) \<Longrightarrow> probe_child f nrs page = fold mark (filter (\<lambda>nr. f nr = Trap) nrs) page"
  by (induction nrs arbitrary: page) (auto split: ambient.split)

lemma length_probe [simp]: "length (probe_child f nrs page) = length page"
  by (induction nrs arbitrary: page) (auto split: ambient.split)

lemma nth_knob_deny:
  "n < length b \<Longrightarrow> knob_deny k b ! n \<longleftrightarrow>
     b ! n \<or> setid_deny k \<and> n \<in> unat ` set cng_setid_deny_nrs \<or> openat2_deny k \<and> n = unat NR_openat2"
  by (auto simp: knob_deny_def Let_def nth_mark nth_fold_mark)

text \<open>
  When the page can be mapped, the child runs and no call kills it, the marks are exact: a number is
  taken as blocked exactly if it is a candidate the host's filter traps, or a knob names it.
\<close>

theorem probe_marks_are_exact:
  assumes "ph_mmap_ok h" "ph_fork h > 0" "list_all (\<lambda>nr. ph_filter h nr \<noteq> Kill) probe_set" "n < CNG_NR_MAX"
  shows "cng_probe_blocked h k blocked ! n \<longleftrightarrow>
    n \<in> unat ` {nr \<in> set probe_set. ph_filter h nr = Trap} \<or>
    setid_deny k \<and> n \<in> unat ` set cng_setid_deny_nrs \<or> openat2_deny k \<and> n = unat NR_openat2"
proof -
  have "probe_child (ph_filter h) probe_set page = fold mark (filter (\<lambda>nr. ph_filter h nr = Trap) probe_set) page" for page
    using assms(3) by (intro probe_child_fold) (simp add: list_all_iff)
  then show ?thesis using assms by (auto simp: cng_probe_blocked_def Let_def nth_knob_deny nth_fold_mark)
qed

theorem probe_marks_are_exact_witness:
  "cng_probe_blocked \<lparr>ph_mmap_ok = True, ph_fork = 7, ph_filter = (\<lambda>nr. if nr = NR_mknodat then Trap else Pass)\<rparr>
     \<lparr>setid_deny = False, openat2_deny = True\<rparr> (replicate 512 False) ! unat NR_mknodat"
  using probe_marks_are_exact [of "\<lparr>ph_mmap_ok = True, ph_fork = 7, ph_filter = (\<lambda>nr. if nr = NR_mknodat then Trap else Pass)\<rparr>"
      "unat NR_mknodat" "\<lparr>setid_deny = False, openat2_deny = True\<rparr>" "replicate 512 False"]
  by (simp add: list_all_iff CNG_NR_MAX_def probe_set_def)

end
