(* ===== verification/Rewrite.thy ===== *)
theory Rewrite
  imports Cng_Prelude
begin

text \<open>
  \<open>src/monitor/rewrite.c\<close>, the ahead-of-time pass: which ranges of an object are code (\<open>cng_code_ranges\<close>), the scan
  for \<open>svc #0\<close> sites with its guards, and the emission of a trampoline per site. Memory is a map from the
  address of an aligned word to the word; the trampoline template is assembled from \<open>src/monitor/tramp.S\<close> and
  is a parameter here: its words and the offsets of the three places that are patched.
\<close>

unbundle bit_operations_syntax

section \<open>Instructions\<close>

definition SVC0_INSN :: u32 where "SVC0_INSN = 0xD4000001"
definition B_OPCODE :: u32 where "B_OPCODE = 0x14000000"
definition BRANCH_REACH :: int where "BRANCH_REACH = 2 ^ 27"
definition MOVZ_X8_MASK :: u32 where "MOVZ_X8_MASK = 0x7FE0001F"
definition MOVZ_X8 :: u32 where "MOVZ_X8 = 0x52800008"
definition NR_RT_SIGRETURN :: u32 where "NR_RT_SIGRETURN = 139"
definition NR_MUNMAP :: u32 where "NR_MUNMAP = 215"
definition NR_EXIT :: u32 where "NR_EXIT = 93"
definition X8_LOOKBACK :: nat where "X8_LOOKBACK = 8"

type_synonym wmem = "nat \<Rightarrow> u32"

definition b_insn :: "nat \<Rightarrow> nat \<Rightarrow> u32" where
  "b_insn at target = (let delta = int target - int at in
     if delta < - BRANCH_REACH \<or> delta \<ge> BRANCH_REACH \<or> delta AND 3 \<noteq> 0 then 0
     else B_OPCODE OR ucast (drop_bit 2 (word_of_int delta :: u64) AND 0x03FFFFFF))"

definition writes_x8 :: "u32 \<Rightarrow> bool" where
  "writes_x8 w =
     (if w AND 0x1F \<noteq> 8 then False
      else let g = w AND 0x7F800000 in
        if g = 0x52800000 \<or> g = 0x72800000 then True
        else if g = 0x11000000 \<or> g = 0x51000000 then True
        else let g = w AND 0x7FC00000 in
          if g = 0x0A000000 \<or> g = 0x2A000000 \<or> g = 0x4A000000 then True
          else let g = w AND 0x3B000000 in g = 0x39000000 \<or> g = 0x18000000)"

definition movz_x8 :: "u32 \<Rightarrow> u32 \<Rightarrow> bool" where
  "movz_x8 w nr \<longleftrightarrow> w AND MOVZ_X8_MASK = MOVZ_X8 \<and> drop_bit 5 w AND 0xFFFF = nr"

definition svc_nr :: "wmem \<Rightarrow> nat \<Rightarrow> nat \<Rightarrow> u32 \<Rightarrow> bool" where
  "svc_nr m a floor nr = (if a < floor + 4 \<or> m a \<noteq> SVC0_INSN then False else movz_x8 (m (a - 4)) nr)"

definition stack_teardown :: "wmem \<Rightarrow> nat \<Rightarrow> nat \<Rightarrow> nat \<Rightarrow> bool" where
  "stack_teardown m a floor hi =
     (if svc_nr m a floor NR_MUNMAP then
        list_ex (\<lambda>j. a + 4 * j + 4 \<le> hi \<and> svc_nr m (a + 4 * j) floor NR_EXIT) [2, 3]
      else if svc_nr m a floor NR_EXIT then
        list_ex (\<lambda>j. a \<ge> floor + 4 * j + 4 \<and> svc_nr m (a - 4 * j) floor NR_MUNMAP) [2, 3]
      else False)"

section \<open>Trampolines\<close>

record tramp =
  t_words :: "u32 list"
  t_back :: nat
  t_disp :: nat
  t_ret :: nat
  t_dispatch :: u64

definition cng_tramp_size :: "tramp \<Rightarrow> nat" where
  "cng_tramp_size t = 4 * length (t_words t)"

fun store_words :: "wmem \<Rightarrow> nat \<Rightarrow> u32 list \<Rightarrow> wmem" where
  "store_words m a [] = m"
| "store_words m a (w # ws) = store_words (m(a := w)) (a + 4) ws"

definition store_quad :: "wmem \<Rightarrow> nat \<Rightarrow> u64 \<Rightarrow> wmem" where
  "store_quad m a v = m(a := ucast v, a + 4 := ucast (drop_bit 32 v))"

definition emit :: "tramp \<Rightarrow> wmem \<Rightarrow> nat \<Rightarrow> nat \<Rightarrow> nat \<Rightarrow> nat \<Rightarrow> (nat \<times> nat \<times> wmem) option" where
  "emit t m pool cap used ret_site =
     (let tsz = cng_tramp_size t in
      if used + tsz > cap then None
      else let slot = pool + used; back = b_insn (slot + t_back t) ret_site in
        if back = 0 then None
        else let m = store_words m slot (t_words t);
                 m = store_quad m (slot + t_disp t) (t_dispatch t);
                 m = store_quad m (slot + t_ret t) (of_nat ret_site);
                 m = m(slot + t_back t := back)
             in Some (slot, used + tsz, m))"

section \<open>The scan\<close>

fun seen_x8 :: "wmem \<Rightarrow> nat \<Rightarrow> nat \<Rightarrow> nat list \<Rightarrow> bool" where
  "seen_x8 m a floor [] = False"
| "seen_x8 m a floor (k # ks) =
     (if a < floor + 4 * k then False else if writes_x8 (m (a - 4 * k)) then True else seen_x8 m a floor ks)"

definition sigreturn_site :: "wmem \<Rightarrow> nat \<Rightarrow> nat \<Rightarrow> bool" where
  "sigreturn_site m a floor \<longleftrightarrow> a \<ge> floor + 4 \<and> movz_x8 (m (a - 4)) NR_RT_SIGRETURN"

definition candidate :: "wmem \<Rightarrow> nat \<Rightarrow> nat \<Rightarrow> nat \<Rightarrow> bool \<Rightarrow> bool" where
  "candidate m a floor hi verify \<longleftrightarrow>
     m a = SVC0_INSN \<and> \<not> sigreturn_site m a floor \<and> \<not> stack_teardown m a floor hi \<and>
     (verify \<longrightarrow> seen_x8 m a floor [1..<X8_LOOKBACK + 1])"

text \<open>The state of a scan: sites rewritten, bytes of the pool used, memory.\<close>

type_synonym scan_st = "nat \<times> nat \<times> wmem"

function scan_loop :: "tramp \<Rightarrow> nat \<Rightarrow> nat \<Rightarrow> bool \<Rightarrow> nat \<Rightarrow> nat \<Rightarrow> nat \<Rightarrow> scan_st \<Rightarrow> scan_st" where
  "scan_loop t hi floor verify pool cap a (count, used, m) =
     (if a + 4 \<le> hi then
        if \<not> candidate m a floor hi verify then scan_loop t hi floor verify pool cap (a + 4) (count, used, m)
        else let br = b_insn a (pool + used) in
          if br = 0 then scan_loop t hi floor verify pool cap (a + 4) (count, used, m)
          else if used + cng_tramp_size t > cap then (count, used, m)
          else case emit t m pool cap used (a + 4) of
            None \<Rightarrow> scan_loop t hi floor verify pool cap (a + 4) (count, used, m)
          | Some (slot, used', m') \<Rightarrow>
              scan_loop t hi floor verify pool cap (a + 4) (count + 1, used', m'(a := br))
      else (count, used, m))"
  by pat_completeness auto
termination
  by (relation "measure (\<lambda>(t, hi, floor, verify, pool, cap, a, st). hi - a)") auto

declare scan_loop.simps [simp del]

definition scan :: "tramp \<Rightarrow> nat \<Rightarrow> nat \<Rightarrow> nat \<Rightarrow> bool \<Rightarrow> nat \<Rightarrow> nat \<Rightarrow> scan_st \<Rightarrow> scan_st" where
  "scan t lo hi floor verify pool cap st = scan_loop t hi floor verify pool cap (4 * ((lo + 3) div 4)) st"

section \<open>Where the code is\<close>

definition CNG_CODE_RANGES_MAX :: nat where "CNG_CODE_RANGES_MAX = 16"
definition MAX_SHDR :: nat where "MAX_SHDR = 1024"
definition SHDR_CHUNK :: nat where "SHDR_CHUNK = 64"
definition SHT_NOBITS :: nat where "SHT_NOBITS = 8"

record shdr =
  sh_type :: nat
  sh_alloc :: bool
  sh_execinstr :: bool
  sh_offset :: u64
  sh_size :: u64

record ehdr =
  e_magic_ok :: bool
  e_shoff :: u64
  e_shnum :: nat
  e_shentsize_ok :: bool

text \<open>
  What a read of the file gives: the header, or nothing, and a chunk of section headers from an index on,
  or nothing.
\<close>

record obj_file =
  of_ehdr :: "ehdr option"
  of_shdrs :: "nat \<Rightarrow> nat \<Rightarrow> shdr list option"

type_synonym ranges = "(u64 \<times> u64) list"

definition code_section :: "shdr \<Rightarrow> bool" where
  "code_section s \<longleftrightarrow> \<not> (sh_type s = SHT_NOBITS \<or> sh_size s = 0) \<and> sh_alloc s \<and> sh_execinstr s"

definition add_section :: "shdr \<Rightarrow> ranges \<Rightarrow> ranges option" where
  "add_section s cr =
     (if \<not> code_section s then Some cr
      else let lo = sh_offset s; hi = lo + sh_size s in
        if hi < lo then None
        else if cr \<noteq> [] \<and> snd (last cr) = lo then Some (butlast cr @ [(fst (last cr), hi)])
        else if length cr = CNG_CODE_RANGES_MAX then None
        else Some (cr @ [(lo, hi)]))"

primrec add_sections :: "shdr list \<Rightarrow> ranges \<Rightarrow> ranges option" where
  "add_sections [] cr = Some cr"
| "add_sections (s # ss) cr = (case add_section s cr of None \<Rightarrow> None | Some cr' \<Rightarrow> add_sections ss cr')"

function chunk_loop :: "obj_file \<Rightarrow> nat \<Rightarrow> nat \<Rightarrow> ranges \<Rightarrow> ranges option" where
  "chunk_loop f shnum i cr =
     (if i < shnum then
        let k = min (shnum - i) SHDR_CHUNK in
        case of_shdrs f i k of
          None \<Rightarrow> None
        | Some ss \<Rightarrow> (case add_sections ss cr of None \<Rightarrow> None | Some cr \<Rightarrow> chunk_loop f shnum (i + SHDR_CHUNK) cr)
      else Some cr)"
  by pat_completeness auto
termination
  by (relation "measure (\<lambda>(f, shnum, i, cr). shnum - i)") (auto simp: SHDR_CHUNK_def)

declare chunk_loop.simps [simp del]

definition cng_code_ranges :: "obj_file \<Rightarrow> ranges" where
  "cng_code_ranges f =
     (case of_ehdr f of
        None \<Rightarrow> []
      | Some eh \<Rightarrow>
          if \<not> e_magic_ok eh then []
          else if e_shoff eh = 0 \<or> e_shnum eh = 0 \<or> e_shnum eh > MAX_SHDR \<or> \<not> e_shentsize_ok eh then []
          else case chunk_loop f (e_shnum eh) 0 [] of None \<Rightarrow> [] | Some cr \<Rightarrow> cr)"

section \<open>One segment\<close>

text \<open>A range of file offsets, clipped to the part a mapping of the file holds.\<close>

definition clip :: "nat \<Rightarrow> nat \<Rightarrow> nat \<Rightarrow> u64 \<times> u64 \<Rightarrow> nat \<times> nat" where
  "clip lo hi foff r = (max (unat (fst r)) foff, min (unat (snd r)) (foff + (hi - lo)))"

fun seg_loop :: "tramp \<Rightarrow> nat \<Rightarrow> nat \<Rightarrow> nat \<Rightarrow> nat \<Rightarrow> nat \<Rightarrow> ranges \<Rightarrow> scan_st \<Rightarrow> scan_st" where
  "seg_loop t lo hi foff pool cap [] st = st"
| "seg_loop t lo hi foff pool cap (r # rs) st =
     (let (clo, chi) = clip lo hi foff r in
      if chi \<le> clo then seg_loop t lo hi foff pool cap rs st
      else seg_loop t lo hi foff pool cap rs (scan t (lo + (clo - foff)) (lo + (chi - foff)) lo False pool cap st))"

definition cng_rewrite_seg ::
  "bool \<Rightarrow> tramp \<Rightarrow> nat \<Rightarrow> nat \<Rightarrow> nat \<Rightarrow> ranges \<Rightarrow> nat \<Rightarrow> nat \<Rightarrow> nat \<Rightarrow> wmem \<Rightarrow> scan_st" where
  "cng_rewrite_seg on t lo hi foff cr pool cap used m =
     (if \<not> on \<or> hi \<le> lo then (0, used, m)
      else if cr = [] then scan t lo hi lo True pool cap (0, used, m)
      else seg_loop t lo hi foff pool cap cr (0, used, m))"

end
