(* ===== verification/Rewrite_Props.thy ===== *)
theory Rewrite_Props
  imports Rewrite
begin

text \<open>
  What rewriting does to a program: a branch lands where it was aimed, only \<open>svc #0\<close> words inside the code are
  replaced, each by a branch to a trampoline of its own whose way back is the instruction after the site,
  and no word but those and the trampolines changes.
\<close>

unbundle bit_operations_syntax

section \<open>Branches\<close>

text \<open>Where the architecture says a \<open>b\<close> at an address goes: a signed 26-bit count of words.\<close>

definition b_target :: "nat \<Rightarrow> u32 \<Rightarrow> int" where
  "b_target at w = int at + 4 * signed_take_bit 25 (uint (w AND 0x03FFFFFF))"

definition is_b :: "u32 \<Rightarrow> bool" where
  "is_b w \<longleftrightarrow> w AND 0xFC000000 = B_OPCODE"

definition reaches :: "nat \<Rightarrow> nat \<Rightarrow> bool" where
  "reaches at target \<longleftrightarrow> - BRANCH_REACH \<le> int target - int at \<and> int target - int at < BRANCH_REACH \<and> 4 dvd int target - int at"

lemma and3_dvd: "(d :: int) AND 3 = 0 \<longleftrightarrow> 4 dvd d"
proof -
  have "d AND 3 = d mod 4" using take_bit_eq_mask [of 2 d] by (simp add: take_bit_eq_mod mask_eq_exp_minus_1)
  then show ?thesis by (simp add: dvd_eq_mod_eq_0)
qed

definition imm26 :: "int \<Rightarrow> u32" where
  "imm26 q = word_of_int (take_bit 26 q)"

lemma imm26_encode:
  "(ucast (drop_bit 2 (word_of_int (4 * q) :: u64) AND 0x03FFFFFF) :: u32) = imm26 q"
proof -
  have m: "(0x03FFFFFF :: u64) = mask 26" by (simp add: mask_eq_exp_minus_1)
  have "uint (drop_bit 2 (word_of_int d :: u64) AND 0x03FFFFFF) = take_bit 26 (drop_bit 2 (take_bit 64 d))" for d
    unfolding m take_bit_eq_mask [symmetric] by (simp add: unsigned_take_bit_eq unsigned_drop_bit_eq unsigned_of_int)
  then have "uint (drop_bit 2 (word_of_int (4 * q) :: u64) AND 0x03FFFFFF) = take_bit 26 (drop_bit 2 (take_bit 64 (4 * q)))" .
  also have "\<dots> = take_bit 26 q"
  proof -
    have "drop_bit 2 (4 * q) = q" by (simp add: drop_bit_eq_div)
    then have "drop_bit 2 (take_bit 64 (4 * q)) = take_bit 62 q"
      by (simp add: drop_bit_take_bit)
    then show ?thesis by simp
  qed
  finally have u: "uint (drop_bit 2 (word_of_int (4 * q) :: u64) AND 0x03FFFFFF) = take_bit 26 q" .
  show ?thesis unfolding ucast_eq u imm26_def ..
qed

lemma b_insn_cases:
  "b_insn at target = (if reaches at target then B_OPCODE OR imm26 ((int target - int at) div 4) else 0)"
proof (cases "reaches at target")
  case True
  then obtain q where q: "int target - int at = 4 * q" by (auto simp: reaches_def dvd_def)
  have "(4 * q) AND 3 = 0" by (simp add: and3_dvd)
  then show ?thesis using True q imm26_encode [of q]
    by (simp add: b_insn_def Let_def reaches_def)
qed (auto simp: b_insn_def Let_def reaches_def and3_dvd)

lemma opcode_imm:
  "(B_OPCODE OR imm26 q) AND 0xFC000000 = B_OPCODE" "uint ((B_OPCODE OR imm26 q) AND 0x03FFFFFF) = take_bit 26 q"
proof -
  have i: "imm26 q = imm26 q AND mask 26"
    by (simp add: imm26_def take_bit_eq_mask [symmetric] take_bit_of_int)
  have "imm26 q AND 0xFC000000 = 0"
    by (subst i) (simp add: and.assoc mask_eq_exp_minus_1)
  then show "(B_OPCODE OR imm26 q) AND 0xFC000000 = B_OPCODE"
    by (simp add: bit.conj_disj_distrib2 B_OPCODE_def)
  have "imm26 q AND 0x03FFFFFF = imm26 q" using i by (simp add: mask_eq_exp_minus_1)
  then have "(B_OPCODE OR imm26 q) AND 0x03FFFFFF = imm26 q"
    by (simp add: bit.conj_disj_distrib2 B_OPCODE_def)
  then show "uint ((B_OPCODE OR imm26 q) AND 0x03FFFFFF) = take_bit 26 q"
    by (simp add: imm26_def unsigned_of_int)
qed

lemma b_insn_nz: "b_insn at target \<noteq> 0 \<longleftrightarrow> reaches at target"
proof -
  have "B_OPCODE OR imm26 q \<noteq> 0" for q using opcode_imm(1) [of q] by (auto simp: B_OPCODE_def)
  then show ?thesis by (simp add: b_insn_cases)
qed

text \<open>
  A branch that is encoded is a \<open>b\<close> and lands on its target: decoding the instruction the way the
  architecture does gives the address it was made for, forwards and backwards.
\<close>

lemma b_insn_lands:
  "reaches at target \<Longrightarrow> is_b (b_insn at target) \<and> b_target at (b_insn at target) = int target"
proof (cases "reaches at target")
  case True
  then obtain q where q: "int target - int at = 4 * q" by (auto simp: reaches_def dvd_def)
  then have r: "- (2 ^ 25) \<le> q" "q < 2 ^ 25" using True by (auto simp: reaches_def BRANCH_REACH_def)
  have "signed_take_bit 25 (take_bit 26 q) = q"
    using r by (simp add: signed_take_bit_take_bit signed_take_bit_int_eq_self)
  then show ?thesis using True q opcode_imm
    by (simp add: b_insn_cases is_b_def b_target_def)
qed (simp add: b_insn_cases)

section \<open>Writing a trampoline\<close>

definition tramp_ok :: "tramp \<Rightarrow> bool" where
  "tramp_ok t \<longleftrightarrow> 4 dvd t_back t \<and> 4 dvd t_disp t \<and> 4 dvd t_ret t \<and>
     t_back t + 4 \<le> t_disp t \<and> t_disp t + 8 \<le> t_ret t \<and> t_ret t + 8 \<le> cng_tramp_size t"

definition load_quad :: "wmem \<Rightarrow> nat \<Rightarrow> u64" where
  "load_quad m a = ucast (m a) OR push_bit 32 (ucast (m (a + 4)))"

definition patched :: "tramp \<Rightarrow> nat \<Rightarrow> bool" where
  "patched t o1 \<longleftrightarrow> o1 = t_back t \<or> o1 = t_disp t \<or> o1 = t_disp t + 4 \<or> o1 = t_ret t \<or> o1 = t_ret t + 4"

text \<open>A copy of the template that calls the dispatcher and returns to the word after a site.\<close>

definition tramp_for :: "tramp \<Rightarrow> wmem \<Rightarrow> nat \<Rightarrow> nat \<Rightarrow> bool" where
  "tramp_for t m slot site \<longleftrightarrow>
     (\<forall>i. i < length (t_words t) \<and> \<not> patched t (4 * i) \<longrightarrow> m (slot + 4 * i) = t_words t ! i) \<and>
     is_b (m (slot + t_back t)) \<and> b_target (slot + t_back t) (m (slot + t_back t)) = int (site + 4) \<and>
     load_quad m (slot + t_disp t) = t_dispatch t \<and> load_quad m (slot + t_ret t) = of_nat (site + 4)"

lemma quad_halves: "ucast (ucast v :: u32) OR push_bit 32 (ucast (ucast (drop_bit 32 v) :: u32)) = (v :: u64)"
  by (rule bit_word_eqI) (auto simp: bit_or_iff bit_push_bit_iff bit_ucast_iff bit_drop_bit_eq)

lemma load_store_quad: "load_quad (store_quad m a v) a = v"
  using quad_halves [of v] by (simp add: load_quad_def store_quad_def)

lemma store_words_out: "x < a \<or> a + 4 * length ws \<le> x \<Longrightarrow> store_words m a ws x = m x"
proof (induction ws arbitrary: m a)
  case (Cons w ws)
  then show ?case by (cases "x < a") auto
qed simp

lemma store_words_in: "i < length ws \<Longrightarrow> store_words m a ws (a + 4 * i) = ws ! i"
proof (induction ws arbitrary: m a i)
  case (Cons w ws)
  show ?case
  proof (cases i)
    case 0
    then show ?thesis by (simp add: store_words_out)
  next
    case (Suc j)
    then have "store_words (m(a := w)) (a + 4) ws (a + 4 + 4 * j) = ws ! j" using Cons by simp
    then show ?thesis using Suc by (simp add: add.assoc)
  qed
qed simp

lemma emit_spec:
  assumes e: "emit t m pool cap used (site + 4) = Some (slot, used', m')" and ok: "tramp_ok t"
  shows "slot = pool + used" "used' = used + cng_tramp_size t" "used' \<le> cap" "tramp_for t m' slot site"
    "x < slot \<or> slot + cng_tramp_size t \<le> x \<Longrightarrow> m' x = m x"
proof -
  let ?bk = "b_insn (pool + used + t_back t) (site + 4)"
  let ?m1 = "store_words m (pool + used) (t_words t)"
  let ?m2 = "store_quad ?m1 (pool + used + t_disp t) (t_dispatch t)"
  let ?m3 = "store_quad ?m2 (pool + used + t_ret t) (of_nat (site + 4))"
  have nz: "?bk \<noteq> 0" and s: "slot = pool + used" "used' = used + cng_tramp_size t" "used' \<le> cap"
    and m': "m' = ?m3(pool + used + t_back t := ?bk)"
    using e by (auto simp: emit_def Let_def split: if_splits)
  have off: "t_back t + 4 \<le> t_disp t" "t_disp t + 8 \<le> t_ret t" "t_ret t + 8 \<le> cng_tramp_size t"
    using ok by (auto simp: tramp_ok_def)
  show "slot = pool + used" "used' = used + cng_tramp_size t" "used' \<le> cap" by fact+
  have w: "m' (pool + used + 4 * i) = t_words t ! i" if "i < length (t_words t)" "\<not> patched t (4 * i)" for i
    using that off store_words_in [of i "t_words t" m "pool + used"]
    by (auto simp: m' store_quad_def patched_def)
  have b: "m' (slot + t_back t) = ?bk" by (simp add: m' s)
  have "reaches (pool + used + t_back t) (site + 4)" using nz by (simp add: b_insn_nz)
  then have bt: "is_b (m' (slot + t_back t))" "b_target (slot + t_back t) (m' (slot + t_back t)) = int (site + 4)"
    using b_insn_lands b s(1) by auto
  have "load_quad m' (slot + t_ret t) = of_nat (site + 4)"
    using off load_store_quad [of ?m2 "pool + used + t_ret t"] by (simp add: m' s load_quad_def)
  moreover have "load_quad m' (slot + t_disp t) = t_dispatch t"
    using off load_store_quad [of ?m1 "pool + used + t_disp t"] by (simp add: m' s load_quad_def store_quad_def)
  ultimately show "tramp_for t m' slot site" using w bt by (simp add: tramp_for_def s)
  show "m' x = m x" if "x < slot \<or> slot + cng_tramp_size t \<le> x"
    using that off by (auto simp: m' s store_quad_def store_words_out cng_tramp_size_def)
qed

lemma tramp_for_cong:
  assumes "\<And>x. slot \<le> x \<Longrightarrow> x < slot + cng_tramp_size t \<Longrightarrow> m' x = m x" "tramp_ok t"
  shows "tramp_for t m' slot site = tramp_for t m slot site"
proof -
  have off: "t_back t + 4 \<le> t_disp t" "t_disp t + 8 \<le> t_ret t" "t_ret t + 8 \<le> cng_tramp_size t"
    using assms(2) by (auto simp: tramp_ok_def)
  have "m' (slot + 4 * i) = m (slot + 4 * i)" if "i < length (t_words t)" for i
    using that by (intro assms(1)) (simp_all add: cng_tramp_size_def)
  moreover have "m' (slot + t_back t) = m (slot + t_back t)" using off by (intro assms(1)) simp_all
  moreover have "m' (slot + t_disp t) = m (slot + t_disp t)" "m' (slot + t_disp t + 4) = m (slot + t_disp t + 4)"
      "m' (slot + t_ret t) = m (slot + t_ret t)" "m' (slot + t_ret t + 4) = m (slot + t_ret t + 4)"
    using off by (auto intro!: assms(1))
  ultimately show ?thesis by (simp add: tramp_for_def load_quad_def)
qed

section \<open>A scan\<close>

definition in_pool :: "nat \<Rightarrow> nat \<Rightarrow> nat \<Rightarrow> bool" where
  "in_pool pool cap x \<longleftrightarrow> pool \<le> x \<and> x < pool + cap"

text \<open>A rewritten site: it was an \<open>svc\<close> that may be rewritten, and it now branches to its own trampoline.\<close>

definition site_done :: "tramp \<Rightarrow> nat \<Rightarrow> nat \<Rightarrow> nat \<Rightarrow> wmem \<Rightarrow> nat \<Rightarrow> wmem \<Rightarrow> nat \<Rightarrow> bool" where
  "site_done t pool used0 used m0 floor m x \<longleftrightarrow>
     m0 x = SVC0_INSN \<and> \<not> sigreturn_site m0 x floor \<and> is_b (m x) \<and>
     (\<exists>k. used0 \<le> k \<and> k + cng_tramp_size t \<le> used \<and> b_target x (m x) = int (pool + k) \<and> tramp_for t m (pool + k) x)"

fun rewrite_inv :: "tramp \<Rightarrow> nat \<Rightarrow> nat \<Rightarrow> nat \<Rightarrow> wmem \<Rightarrow> nat \<Rightarrow> (nat \<Rightarrow> bool) \<Rightarrow> scan_st \<Rightarrow> bool" where
  "rewrite_inv t pool cap used0 m0 floor P (count, used, m) \<longleftrightarrow>
     used = used0 + count * cng_tramp_size t \<and> used \<le> cap \<and>
     (\<forall>x. m x \<noteq> m0 x \<longrightarrow> pool + used0 \<le> x \<and> x < pool + used \<or> P x \<and> site_done t pool used0 used m0 floor m x)"

declare rewrite_inv.simps [simp del]

lemma svc_no_b: "\<not> is_b SVC0_INSN" "\<not> movz_x8 SVC0_INSN nr"
  by (simp_all add: is_b_def SVC0_INSN_def B_OPCODE_def movz_x8_def MOVZ_X8_MASK_def MOVZ_X8_def)

lemma inv_word:
  assumes "rewrite_inv t pool cap used0 m0 floor P (count, used, m)" "\<not> in_pool pool cap x"
  shows "m x = m0 x \<or> m0 x = SVC0_INSN \<and> is_b (m x)"
  using assms by (auto simp: rewrite_inv.simps in_pool_def site_done_def)

lemma inv_svc:
  assumes "rewrite_inv t pool cap used0 m0 floor P (count, used, m)" "\<not> in_pool pool cap x" "m x = SVC0_INSN"
  shows "m0 x = SVC0_INSN"
  using inv_word [OF assms(1,2)] assms(3) svc_no_b(1) by auto

lemma inv_movz:
  assumes "rewrite_inv t pool cap used0 m0 floor P (count, used, m)" "\<not> in_pool pool cap x" "movz_x8 (m0 x) nr"
  shows "m x = m0 x"
  using inv_word [OF assms(1,2)] assms(3) svc_no_b(2) by auto

lemma inv_emit:
  assumes inv: "rewrite_inv t pool cap used0 m0 floor P (count, used, m)" and ok: "tramp_ok t"
    and e: "emit t m pool cap used (a + 4) = Some (slot, used', m')" and br: "b_insn a (pool + used) \<noteq> 0"
    and a: "\<not> in_pool pool cap a" "m0 a = SVC0_INSN" "\<not> sigreturn_site m0 a floor" "P a"
  shows "rewrite_inv t pool cap used0 m0 floor P (count + 1, used', m'(a := b_insn a (pool + used)))"
proof -
  note es = emit_spec [OF e ok]
  let ?m = "m'(a := b_insn a (pool + used))" and ?z = "cng_tramp_size t"
  have u: "used = used0 + count * ?z" "used' = used0 + (count + 1) * ?z" "used' \<le> cap" using inv es(2,3) by (auto simp: rewrite_inv.simps)
  have out: "?m x = m x" if "x \<noteq> a" "x < pool + used \<or> pool + used' \<le> x" for x using that es(1,2,5) by auto
  have apart: "a < pool \<or> pool + cap \<le> a" using a(1) by (auto simp: in_pool_def)
  have tf: "tramp_for t ?m (pool + k) x = tramp_for t m (pool + k) x" if "k + ?z \<le> used" for k x
  proof (rule tramp_for_cong [OF _ ok])
    show "?m y = m y" if "pool + k \<le> y" "y < pool + k + ?z" for y
      using that \<open>k + ?z \<le> used\<close> apart u(3) es(2) by (intro out) auto
  qed
  have new: "site_done t pool used0 used' m0 floor ?m a"
  proof -
    have "reaches a (pool + used)" using br by (simp add: b_insn_nz)
    then have "is_b (b_insn a (pool + used))" "b_target a (b_insn a (pool + used)) = int (pool + used)"
      using b_insn_lands by auto
    moreover have "tramp_for t ?m (pool + used) a"
    proof -
      have "tramp_for t ?m (pool + used) a = tramp_for t m' (pool + used) a"
        using apart u(3) es(2) by (intro tramp_for_cong [OF _ ok]) auto
      then show ?thesis using es(1,4) by simp
    qed
    moreover have "used0 \<le> used" using u(1) by simp
    ultimately show ?thesis unfolding site_done_def using a(2,3) es(2)
      by (intro conjI exI [of _ used]) simp_all
  qed
  have old: "site_done t pool used0 used' m0 floor ?m x"
    if x: "site_done t pool used0 used m0 floor m x" "x \<noteq> a" "?m x = m x" for x
    using x tf es(2) by (force simp: site_done_def)
  have "pool + used0 \<le> x \<and> x < pool + used' \<or> P x \<and> site_done t pool used0 used' m0 floor ?m x" if ch: "?m x \<noteq> m0 x" for x
  proof (cases "x = a")
    case True
    then show ?thesis using new a(4) by simp
  next
    case xa: False
    show ?thesis
    proof (cases "x < pool + used \<or> pool + used' \<le> x")
      case True
      then have "?m x = m x" using xa by (rule out [rotated])
      then show ?thesis using inv ch xa old [of x] u es(2) by (fastforce simp: rewrite_inv.simps simp del: fun_upd_apply)
    next
      case False
      then show ?thesis using u(1) by auto
    qed
  qed
  then show ?thesis using u by (simp add: rewrite_inv.simps del: fun_upd_apply)
qed

lemma scan_loop_inv:
  assumes "rewrite_inv t pool cap used0 m0 floor P st" "tramp_ok t" "floor \<le> a"
    and "\<And>x. floor \<le> x \<Longrightarrow> x < hi \<Longrightarrow> \<not> in_pool pool cap x"
    and "\<And>x. 4 dvd x \<Longrightarrow> a \<le> x \<Longrightarrow> x + 4 \<le> hi \<Longrightarrow> P x" "4 dvd a"
  shows "rewrite_inv t pool cap used0 m0 floor P (scan_loop t hi floor verify pool cap a st)"
  using assms
proof (induction t hi floor verify pool cap a st rule: scan_loop.induct)
  case (1 t hi floor verify pool cap a count used m)
  note inv = "1.prems"(1) and ok = "1.prems"(2)
  have next4: "floor \<le> a + 4" "4 dvd a + 4" "\<And>x. 4 dvd x \<Longrightarrow> a + 4 \<le> x \<Longrightarrow> x + 4 \<le> hi \<Longrightarrow> P x"
    using "1.prems"(3,5,6) by auto
  show ?case
  proof (cases "a + 4 \<le> hi \<and> candidate m a floor hi verify \<and> b_insn a (pool + used) \<noteq> 0 \<and> \<not> used + cng_tramp_size t > cap")
    case False
    then show ?thesis
      using inv "1.IH"(1) [OF _ _ inv ok next4(1) "1.prems"(4) next4(3,2)]
        "1.IH"(2) [OF _ _ refl _ inv ok next4(1) "1.prems"(4) next4(3,2)]
      by (subst scan_loop.simps) (auto simp: Let_def)
  next
    case True
    note go = conjunct1 [OF True] conjunct1 [OF conjunct2 [OF True]] conjunct1 [OF conjunct2 [OF conjunct2 [OF True]]]
      conjunct2 [OF conjunct2 [OF conjunct2 [OF True]]]
    show ?thesis
    proof (cases "emit t m pool cap used (a + 4)")
      case None
      then show ?thesis using True inv ok next4 "1.prems"(4) "1.IH"(3) [OF go(1) _ refl go(3,4) None]
        by (subst scan_loop.simps) (simp add: Let_def)
    next
      case (Some r)
      obtain slot used' m' where r: "r = (slot, used', m')" by (cases r) auto
      have e: "emit t m pool cap used (a + 4) = Some (slot, used', m')" using Some r by simp
      have np: "\<not> in_pool pool cap a" using "1.prems"(3,4) go(1) by simp
      have "m0 a = SVC0_INSN" using inv_svc [OF inv np] go(2) by (simp add: candidate_def)
      moreover have "\<not> sigreturn_site m0 a floor"
      proof
        assume s: "sigreturn_site m0 a floor"
        then have "\<not> in_pool pool cap (a - 4)" using "1.prems"(4) go(1) by (auto simp: sigreturn_site_def)
        then have "m (a - 4) = m0 (a - 4)" using s inv_movz [OF inv] by (auto simp: sigreturn_site_def)
        then show False using s go(2) by (simp add: candidate_def sigreturn_site_def)
      qed
      moreover have "P a" using "1.prems"(5,6) go(1) by simp
      ultimately have "rewrite_inv t pool cap used0 m0 floor P (count + 1, used', m'(a := b_insn a (pool + used)))"
        using inv_emit [OF inv ok e go(3) np] by simp
      then have "rewrite_inv t pool cap used0 m0 floor P
          (scan_loop t hi floor verify pool cap (a + 4) (count + 1, used', m'(a := b_insn a (pool + used))))"
        using "1.IH"(4) [OF go(1) _ refl go(3,4) Some r [symmetric] refl] go(2) ok next4 "1.prems"(4) by simp
      then show ?thesis using True e by (subst scan_loop.simps) (simp add: Let_def)
    qed
  qed
qed

section \<open>Where the code is\<close>

definition in_section :: "shdr list \<Rightarrow> nat \<Rightarrow> bool" where
  "in_section hs off \<longleftrightarrow>
     (\<exists>s. s \<in> set hs \<and> code_section s \<and> unat (sh_offset s) \<le> off \<and> off < unat (sh_offset s) + unat (sh_size s))"

definition ranges_ok :: "shdr list \<Rightarrow> ranges \<Rightarrow> bool" where
  "ranges_ok hs cr \<longleftrightarrow> length cr \<le> CNG_CODE_RANGES_MAX \<and>
     (\<forall>l h off. (l, h) \<in> set cr \<longrightarrow> unat l \<le> off \<longrightarrow> off < unat h \<longrightarrow> in_section hs off)"

lemma add_section_ok:
  assumes "ranges_ok hs cr" "s \<in> set hs" "add_section s cr = Some cr'"
  shows "ranges_ok hs cr'"
proof (cases "code_section s")
  case True
  let ?lo = "sh_offset s" and ?hi = "sh_offset s + sh_size s"
  have nw: "\<not> ?hi < ?lo" using assms(3) True by (auto simp: add_section_def Let_def split: if_splits)
  note u = no_wrap [OF nw]
  have sec: "in_section hs off" if "unat ?lo \<le> off" "off < unat ?hi" for off
    using that True assms(2) u by (auto simp: in_section_def)
  show ?thesis
  proof (cases "cr \<noteq> [] \<and> snd (last cr) = ?lo")
    case join: True
    then have cr': "cr' = butlast cr @ [(fst (last cr), ?hi)]" and lc: "last cr \<in> set cr" "cr = butlast cr @ [last cr]"
      using assms(3) True nw by (auto simp: add_section_def Let_def)
    have "in_section hs off" if "unat (fst (last cr)) \<le> off" "off < unat ?hi" for off
    proof (cases "off < unat ?lo")
      case True
      have "(fst (last cr), ?lo) \<in> set cr" using lc(1) join by (metis prod.collapse)
      then show ?thesis using that(1) True assms(1) unfolding ranges_ok_def by blast
    qed (use that sec in auto)
    moreover have "set (butlast cr) \<subseteq> set cr" by (auto dest: in_set_butlastD)
    moreover have "length cr' = length cr" using lc(2) join by (simp add: cr')
    ultimately show ?thesis using assms(1) unfolding ranges_ok_def by (auto simp: cr')
  next
    case False
    then have "cr' = cr @ [(?lo, ?hi)]" "length cr \<noteq> CNG_CODE_RANGES_MAX"
      using assms(3) True nw by (auto simp: add_section_def Let_def split: if_splits)
    then show ?thesis using assms(1) sec by (auto simp: ranges_ok_def)
  qed
qed (use assms in \<open>simp add: add_section_def\<close>)

lemma add_sections_ok: "ranges_ok hs cr \<Longrightarrow> set ss \<subseteq> set hs \<Longrightarrow> add_sections ss cr = Some cr' \<Longrightarrow> ranges_ok hs cr'"
  by (induction ss arbitrary: cr) (auto split: option.splits dest: add_section_ok)

text \<open>The section headers of the file, as any read of them gives them.\<close>

definition has_shdrs :: "obj_file \<Rightarrow> shdr list \<Rightarrow> bool" where
  "has_shdrs f hs \<longleftrightarrow> (\<forall>i k ss. of_shdrs f i k = Some ss \<longrightarrow> set ss \<subseteq> set hs)"

lemma chunk_loop_ok:
  "has_shdrs f hs \<Longrightarrow> ranges_ok hs cr \<Longrightarrow> chunk_loop f n i cr = Some cr' \<Longrightarrow> ranges_ok hs cr'"
proof (induction f n i cr rule: chunk_loop.induct)
  case (1 f n i cr)
  show ?case
  proof (cases "i < n")
    case True
    then obtain ss cr1 where s: "of_shdrs f i (min (n - i) SHDR_CHUNK) = Some ss" "add_sections ss cr = Some cr1"
        "chunk_loop f n (i + SHDR_CHUNK) cr1 = Some cr'"
      using "1.prems"(3) by (auto simp: chunk_loop.simps [of f n i cr] Let_def split: option.splits)
    have "set ss \<subseteq> set hs" using "1.prems"(1) s(1) by (simp add: has_shdrs_def)
    then have "ranges_ok hs cr1" by (rule add_sections_ok [OF "1.prems"(2) _ s(2)])
    then show ?thesis using "1.IH" [OF True refl s(1,2) "1.prems"(1)] s(3) by simp
  qed (use "1.prems" in \<open>simp add: chunk_loop.simps [of f n i cr]\<close>)
qed

lemma cng_code_ranges_ok: "has_shdrs f hs \<Longrightarrow> ranges_ok hs (cng_code_ranges f)"
  using chunk_loop_ok [of f hs "[]"] by (auto simp: cng_code_ranges_def ranges_ok_def split: option.splits)

section \<open>A segment\<close>

definition in_range :: "nat \<Rightarrow> nat \<Rightarrow> nat \<Rightarrow> ranges \<Rightarrow> nat \<Rightarrow> bool" where
  "in_range lo hi foff cr x \<longleftrightarrow>
     (\<exists>r. r \<in> set cr \<and> unat (fst r) \<le> foff + (x - lo) \<and> foff + (x - lo) < unat (snd r)) \<and> lo \<le> x \<and> x + 4 \<le> hi"

lemma scan_inv:
  assumes "rewrite_inv t pool cap used0 m0 floor P st" "tramp_ok t" "floor \<le> lo"
    and "\<And>x. floor \<le> x \<Longrightarrow> x < hi \<Longrightarrow> \<not> in_pool pool cap x" "\<And>x. lo \<le> x \<Longrightarrow> x + 4 \<le> hi \<Longrightarrow> P x"
  shows "rewrite_inv t pool cap used0 m0 floor P (scan t lo hi floor verify pool cap st)"
proof -
  have "lo \<le> 4 * ((lo + 3) div 4)" by simp
  then show ?thesis unfolding scan_def using assms by (intro scan_loop_inv) auto
qed

lemma seg_loop_inv:
  assumes "rewrite_inv t pool cap used0 m0 lo P st" "tramp_ok t" "lo < hi"
    and "\<And>x. lo \<le> x \<Longrightarrow> x < hi \<Longrightarrow> \<not> in_pool pool cap x" "\<And>x. in_range lo hi foff rs x \<Longrightarrow> P x"
  shows "rewrite_inv t pool cap used0 m0 lo P (seg_loop t lo hi foff pool cap rs st)"
  using assms
proof (induction rs arbitrary: st)
  case (Cons r rs)
  obtain clo chi where c: "clip lo hi foff r = (clo, chi)" by force
  have rest: "P x" if "in_range lo hi foff rs x" for x
  proof (rule Cons.prems(5))
    show "in_range lo hi foff (r # rs) x" using that unfolding in_range_def by (meson list.set_intros(2))
  qed
  show ?case
  proof (cases "chi \<le> clo")
    case True
    then show ?thesis using Cons.IH [OF Cons.prems(1-4) rest] c by simp
  next
    case False
    have b: "foff \<le> clo" "unat (fst r) \<le> clo" "chi \<le> foff + (hi - lo)" "chi \<le> unat (snd r)"
      using c by (auto simp: clip_def)
    have "rewrite_inv t pool cap used0 m0 lo P (scan t (lo + (clo - foff)) (lo + (chi - foff)) lo False pool cap st)"
    proof (rule scan_inv [OF Cons.prems(1,2)])
      show "P x" if "lo + (clo - foff) \<le> x" "x + 4 \<le> lo + (chi - foff)" for x
      proof (rule Cons.prems(5))
        have "unat (fst r) \<le> foff + (x - lo)" "foff + (x - lo) < unat (snd r)" "lo \<le> x" "x + 4 \<le> hi"
          using that b Cons.prems(3) by auto
        then show "in_range lo hi foff (r # rs) x" unfolding in_range_def by (meson list.set_intros(1))
      qed
      show "\<not> in_pool pool cap x" if "lo \<le> x" "x < lo + (chi - foff)" for x
        using that b Cons.prems(3) by (intro Cons.prems(4)) auto
    qed simp
    then show ?thesis using Cons.IH [OF _ Cons.prems(2-4) rest] c False by simp
  qed
qed simp

text \<open>
  C11. Rewriting touches code only, and every rewritten site works. In a segment rewritten with the code
  map of its object, into a pool apart from it: a word that changed outside the part of the pool that
  was used was an \<open>svc #0\<close> inside an executable section of the object, not a signal return; it is now a
  branch to a trampoline in the pool that is a copy of the template, calls the dispatcher, carries the
  address after the site, and branches back there. The pool holds exactly one trampoline per rewritten
  site and is not overrun.
\<close>

theorem rewriting_touches_code_only:
  assumes "has_shdrs f hs" "cr = cng_code_ranges f" "cr \<noteq> []" "tramp_ok t" "used \<le> cap"
    and "pool + cap \<le> lo \<or> hi \<le> pool" "cng_rewrite_seg on t lo hi foff cr pool cap used m = (count, used', m')"
  shows "used' = used + count * cng_tramp_size t \<and> used' \<le> cap \<and>
    (\<forall>x. m' x = m x \<or> pool + used \<le> x \<and> x < pool + used' \<or>
       in_section hs (foff + (x - lo)) \<and> lo \<le> x \<and> x + 4 \<le> hi \<and> site_done t pool used used' m lo m' x)"
proof -
  let ?P = "\<lambda>x. in_section hs (foff + (x - lo)) \<and> lo \<le> x \<and> x + 4 \<le> hi"
  have st: "rewrite_inv t pool cap used m lo ?P (0, used, m)" using assms(5) by (simp add: rewrite_inv.simps)
  have "rewrite_inv t pool cap used m lo ?P (count, used', m')"
  proof (cases "\<not> on \<or> hi \<le> lo")
    case True
    then show ?thesis using st assms(7) by (auto simp: cng_rewrite_seg_def)
  next
    case False
    have "ranges_ok hs cr" using cng_code_ranges_ok [OF assms(1)] assms(2) by simp
    then have code: "?P x" if "in_range lo hi foff cr x" for x
      using that by (auto simp: in_range_def ranges_ok_def)
    have "\<not> in_pool pool cap x" if "lo \<le> x" "x < hi" for x using that assms(6) by (auto simp: in_pool_def)
    then have "rewrite_inv t pool cap used m lo ?P (seg_loop t lo hi foff pool cap cr (0, used, m))"
      using seg_loop_inv [OF st assms(4) _ _ code] False by simp
    then show ?thesis using False assms(3,7) by (simp add: cng_rewrite_seg_def)
  qed
  then show ?thesis by (auto simp: rewrite_inv.simps)
qed

definition demo_tramp :: tramp where
  "demo_tramp = \<lparr>t_words = [1, 2, 0, 0, 0, 0], t_back = 4, t_disp = 8, t_ret = 16, t_dispatch = 7\<rparr>"

definition demo_shdr :: shdr where
  "demo_shdr = \<lparr>sh_type = 1, sh_alloc = True, sh_execinstr = True, sh_offset = 0, sh_size = 16\<rparr>"

definition demo_obj :: obj_file where
  "demo_obj = \<lparr>of_ehdr = Some \<lparr>e_magic_ok = True, e_shoff = 64, e_shnum = 1, e_shentsize_ok = True\<rparr>,
     of_shdrs = (\<lambda>i k. Some [demo_shdr])\<rparr>"

definition demo_code :: wmem where
  "demo_code = (\<lambda>x. if x = 4100 then SVC0_INSN else 0)"

lemma demo_ranges: "cng_code_ranges demo_obj = [(0, 16)]"
  by (simp add: cng_code_ranges_def demo_obj_def chunk_loop.simps MAX_SHDR_def SHDR_CHUNK_def demo_shdr_def
      add_section_def code_section_def SHT_NOBITS_def CNG_CODE_RANGES_MAX_def)

lemma demo_seg:
  "\<exists>m'. cng_rewrite_seg True demo_tramp 4100 4104 4 [(0, 16)] 8192 24 0 demo_code = (1, 24, m') \<and> m' 4100 \<noteq> demo_code 4100"
proof -
  have r: "b_insn 4100 8192 \<noteq> 0" "b_insn 8196 4104 \<noteq> 0" by (simp_all add: b_insn_nz reaches_def BRANCH_REACH_def)
  then have d: "b_insn 4100 8192 \<noteq> SVC0_INSN"
    using b_insn_lands [of 4100 8192] svc_no_b(1) by (auto simp: b_insn_nz)
  have c: "candidate demo_code 4100 4100 4104 False"
    by (simp add: candidate_def demo_code_def sigreturn_site_def stack_teardown_def svc_nr_def)
  have e: "seg_loop demo_tramp 4100 4104 4 8192 24 [(0, 16)] (0, 0, demo_code) =
      scan_loop demo_tramp 4104 4100 False 8192 24 4100 (0, 0, demo_code)"
    by (simp add: clip_def scan_def)
  have "\<exists>m'. scan_loop demo_tramp 4104 4100 False 8192 24 4100 (0, 0, demo_code) = (1, 24, m'(4100 := b_insn 4100 8192))"
    using r c
    by (simp add: scan_loop.simps [of _ _ _ _ _ _ 4100] scan_loop.simps [of _ _ _ _ _ _ 4104] Let_def cng_tramp_size_def
        demo_tramp_def emit_def) blast
  then obtain m' where m': "scan_loop demo_tramp 4104 4100 False 8192 24 4100 (0, 0, demo_code) =
      (1, 24, m'(4100 := b_insn 4100 8192))" by blast
  have "cng_rewrite_seg True demo_tramp 4100 4104 4 [(0, 16)] 8192 24 0 demo_code = (1, 24, m'(4100 := b_insn 4100 8192))"
    unfolding cng_rewrite_seg_def using e m' by simp
  moreover have "demo_code 4100 = SVC0_INSN" by (simp add: demo_code_def)
  ultimately show ?thesis using d by (intro exI [of _ "m'(4100 := b_insn 4100 8192)"]) simp
qed

theorem rewriting_touches_code_only_witness:
  "\<exists>m'. cng_rewrite_seg True demo_tramp 4100 4104 4 (cng_code_ranges demo_obj) 8192 24 0 demo_code = (1, 24, m') \<and>
     site_done demo_tramp 8192 0 24 demo_code 4100 m' 4100 \<and> in_section [demo_shdr] 4"
proof -
  obtain m' where m': "cng_rewrite_seg True demo_tramp 4100 4104 4 (cng_code_ranges demo_obj) 8192 24 0 demo_code = (1, 24, m')"
      "m' 4100 \<noteq> demo_code 4100"
    using demo_seg by (auto simp: demo_ranges)
  have h: "has_shdrs demo_obj [demo_shdr]" by (simp add: has_shdrs_def demo_obj_def)
  have ok: "tramp_ok demo_tramp" by (simp add: tramp_ok_def demo_tramp_def cng_tramp_size_def)
  show ?thesis
    using rewriting_touches_code_only [OF h refl _ ok _ _ m'(1)] m'
    by (auto simp: demo_ranges dest: spec [of _ 4100])
qed

end
