(* ===== verification/Lazy_Maps.thy ===== *)
theory Lazy_Maps
  imports Cng_Prelude
begin

text \<open>
  \<open>lazy_vma\<close> of \<open>src/monitor/rewrite.c\<close>: one read of \<open>/proc/self/maps\<close> that finds the mapping holding an
  address, with its protection and whether it is shared, and the nearest hole a pool of trampolines fits
  in. The fl is read in pieces of whatever size the kernel gives into a buffer of 1024 bytes, and a
  line split across two reads is carried over at the front of the next one.

  A line of the fl is a string without its newline. The four characters read after the bounds are
  taken as NUL where a line ends before them.
\<close>

unbundle bit_operations_syntax

section \<open>One line\<close>

definition LAZY_POOL :: nat where "LAZY_POOL = 0x20000"

definition CNG_PROT_READ :: u32 where "CNG_PROT_READ = 1"
definition CNG_PROT_WRITE :: u32 where "CNG_PROT_WRITE = 2"
definition CNG_PROT_EXEC :: u32 where "CNG_PROT_EXEC = 4"

definition hex_digit :: "char \<Rightarrow> nat option" where
  "hex_digit c =
     (let n = of_char c :: nat in
      if 48 \<le> n \<and> n \<le> 57 then Some (n - 48) else if 97 \<le> n \<and> n \<le> 102 then Some (n - 97 + 10) else None)"

fun hex_at :: "u64 \<Rightarrow> string \<Rightarrow> u64 \<times> string" where
  "hex_at v [] = (v, [])"
| "hex_at v (c # cs) = (case hex_digit c of None \<Rightarrow> (v, c # cs) | Some d \<Rightarrow> hex_at (v * 16 + of_nat d) cs)"

text \<open>The variables of the survey: what was found, the end of the line before, and the best hole so far.\<close>

record survey =
  v_found :: bool
  v_lo :: u64
  v_hi :: u64
  v_prot :: u32
  v_shared :: bool
  v_prev_end :: u64
  v_best :: u64
  v_best_d :: u64

definition survey0 :: survey where
  "survey0 = \<lparr>v_found = False, v_lo = 0, v_hi = 0, v_prot = 0, v_shared = True, v_prev_end = 0, v_best = 0, v_best_d = - 1\<rparr>"

definition hole_dist :: "u64 \<Rightarrow> u64 \<Rightarrow> u64" where
  "hole_dist addr c = (if c > addr then c - addr else addr - c)"

definition hole_cand :: "u64 \<Rightarrow> u64 \<Rightarrow> survey \<Rightarrow> survey" where
  "hole_cand addr c v =
     (let d = hole_dist addr c in if d < v_best_d v then v\<lparr>v_best_d := d, v_best := c\<rparr> else v)"

definition char_at :: "string \<Rightarrow> nat \<Rightarrow> char" where
  "char_at q k = (if k < length q then q ! k else CHR 0x00)"

definition prot_of :: "string \<Rightarrow> u32" where
  "prot_of q = (if char_at q 1 = CHR ''r'' then CNG_PROT_READ else 0) OR
     (if char_at q 2 = CHR ''w'' then CNG_PROT_WRITE else 0) OR (if char_at q 3 = CHR ''x'' then CNG_PROT_EXEC else 0)"

definition vma_line :: "u64 \<Rightarrow> survey \<Rightarrow> string \<Rightarrow> survey" where
  "vma_line addr v line =
     (let (lo, q) = hex_at 0 line in
      if char_at q 0 \<noteq> CHR ''-'' then v
      else let (hi, q) = hex_at 0 (tl q) in
        if char_at q 0 \<noteq> CHR '' '' then v
        else let
          v = (if v_prev_end v \<noteq> 0 \<and> lo - v_prev_end v \<ge> of_nat LAZY_POOL
               then hole_cand addr (lo - of_nat LAZY_POOL) (hole_cand addr (v_prev_end v) v) else v);
          v = v\<lparr>v_prev_end := hi\<rparr>
        in if \<not> v_found v \<and> addr \<ge> lo \<and> addr < hi
           then v\<lparr>v_lo := lo, v_hi := hi, v_prot := prot_of q, v_shared := (char_at q 4 = CHR ''s''), v_found := True\<rparr>
           else v)"

section \<open>The reads\<close>

definition NL :: char where "NL = CHR 0x0A"

text \<open>\<open>strchr (p, newline)\<close>: the line before the first newline, and what follows it.\<close>

fun break_nl :: "string \<Rightarrow> (string \<times> string) option" where
  "break_nl [] = None"
| "break_nl (c # cs) =
     (if c = NL then Some ([], cs)
      else case break_nl cs of None \<Rightarrow> None | Some (l, r) \<Rightarrow> Some (c # l, r))"

lemma break_nl_shorter: "break_nl p = Some (l, r) \<Longrightarrow> length r < length p"
  by (induction p arbitrary: l) (auto split: if_splits option.splits)

function vma_buf :: "u64 \<Rightarrow> survey \<Rightarrow> string \<Rightarrow> survey \<times> string" where
  "vma_buf addr v p =
     (case break_nl p of None \<Rightarrow> (v, p) | Some (line, rest) \<Rightarrow> vma_buf addr (vma_line addr v line) rest)"
  by pat_completeness auto
termination
  by (relation "measure (\<lambda>(addr, v, p). length p)") (auto dest: break_nl_shorter)

declare vma_buf.simps [simp del]

definition VMA_BUF :: nat where "VMA_BUF = 1024"

text \<open>
  The loop over the reads. \<open>rd rest req\<close> is what a read of at most \<open>req\<close> bytes returns with \<open>rest\<close> bytes
  of the fl left, cut to both; 0 (the end of the fl, or an error) ends the loop.
\<close>

function vma_read :: "(nat \<Rightarrow> nat \<Rightarrow> nat) \<Rightarrow> u64 \<Rightarrow> string \<Rightarrow> survey \<Rightarrow> string \<Rightarrow> survey" where
  "vma_read rd addr fl v kept =
     (let req = VMA_BUF - 1 - length kept; n = min (rd (length fl) req) (min req (length fl)) in
      if n = 0 then v
      else let (v, p) = vma_buf addr v (kept @ take n fl) in
        vma_read rd addr (drop n fl) v (if length p \<ge> VMA_BUF - 1 then [] else p))"
  by pat_completeness auto
termination
  by (relation "measure (\<lambda>(rd, addr, fl, v, kept). length fl)") auto

declare vma_read.simps [simp del]

definition lazy_vma :: "(nat \<Rightarrow> nat \<Rightarrow> nat) \<Rightarrow> string \<Rightarrow> u64 \<Rightarrow> survey" where
  "lazy_vma rd fl addr = vma_read rd addr fl survey0 []"

section \<open>The reads do not matter\<close>

text \<open>The complete lines of a text, and the rest after the last newline.\<close>

function lines_of :: "string \<Rightarrow> string list \<times> string" where
  "lines_of p = (case break_nl p of None \<Rightarrow> ([], p) | Some (l, r) \<Rightarrow> (l # fst (lines_of r), snd (lines_of r)))"
  by pat_completeness auto
termination
  by (relation "measure length") (auto dest: break_nl_shorter)

declare lines_of.simps [simp del]

lemma break_nl_None: "break_nl p = None \<longleftrightarrow> NL \<notin> set p"
  by (induction p) (auto split: option.splits)

lemma break_nl_at: "NL \<notin> set l \<Longrightarrow> break_nl (l @ NL # r) = Some (l, r)"
  by (induction l) auto

lemma break_nl_split: "break_nl p = Some (l, r) \<Longrightarrow> p = l @ NL # r \<and> NL \<notin> set l"
proof (induction p arbitrary: l)
  case (Cons c cs)
  show ?case
  proof (cases "c = NL")
    case False
    then obtain k where k: "break_nl cs = Some (k, r)" "l = c # k"
      using Cons.prems by (cases "break_nl cs") auto
    then show ?thesis using Cons.IH [OF k(1)] False by simp
  qed (use Cons.prems in simp)
qed simp

lemma break_nl_Some: "break_nl p = Some (l, r) \<longleftrightarrow> p = l @ NL # r \<and> NL \<notin> set l"
  using break_nl_split break_nl_at by blast

lemma lines_of_nl: "NL \<notin> set l \<Longrightarrow> lines_of (l @ NL # r) = (l # fst (lines_of r), snd (lines_of r))"
  by (subst lines_of.simps) (simp add: break_nl_at)

lemma lines_of_no_nl: "NL \<notin> set p \<Longrightarrow> lines_of p = ([], p)"
  by (subst lines_of.simps) (simp add: iffD2 [OF break_nl_None])

lemma lines_of_append:
  "lines_of (p @ q) = (fst (lines_of p) @ fst (lines_of (snd (lines_of p) @ q)), snd (lines_of (snd (lines_of p) @ q)))"
proof (induction p rule: lines_of.induct)
  case (1 p)
  show ?case
  proof (cases "break_nl p")
    case None
    then show ?thesis by (simp add: lines_of.simps [of p])
  next
    case (Some lr)
    obtain l r where lr: "lr = (l, r)" by (cases lr)
    then have p: "p = l @ NL # r" "NL \<notin> set l" using Some by (simp_all add: break_nl_Some)
    show ?thesis using "1.IH" [OF Some lr [symmetric]] p(2) by (simp add: p(1) lines_of_nl)
  qed
qed

lemma vma_buf_lines: "vma_buf addr v p = (foldl (vma_line addr) v (fst (lines_of p)), snd (lines_of p))"
proof (induction addr v p rule: vma_buf.induct)
  case (1 addr v p)
  show ?case
    by (subst vma_buf.simps, subst (1 2) lines_of.simps) (auto simp: "1.IH" split: option.split)
qed

text \<open>Every line, the unfinished one at the end included, fits the buffer.\<close>

definition lines_fit :: "string \<Rightarrow> bool" where
  "lines_fit fl \<longleftrightarrow> (\<forall>l \<in> set (snd (lines_of fl) # fst (lines_of fl)). length l < VMA_BUF - 1)"

text \<open>A read of a file that is not at its end gives something.\<close>

definition reads_on :: "(nat \<Rightarrow> nat \<Rightarrow> nat) \<Rightarrow> bool" where
  "reads_on rd \<longleftrightarrow> (\<forall>rest req. 0 < rest \<longrightarrow> 0 < req \<longrightarrow> 0 < rd rest req)"

lemma tail_no_nl: "NL \<notin> set (snd (lines_of p))"
proof (induction p rule: lines_of.induct)
  case (1 p)
  then show ?case by (subst lines_of.simps) (auto simp: break_nl_None split: option.split)
qed

lemma tail_fits:
  assumes "lines_fit (p @ q)"
  shows "length (snd (lines_of p)) < VMA_BUF - 1"
proof -
  let ?t = "snd (lines_of p)"
  have nl: "NL \<notin> set ?t" by (rule tail_no_nl)
  have "\<exists>l \<in> set (snd (lines_of (?t @ q)) # fst (lines_of (?t @ q))). length ?t \<le> length l"
  proof (cases "break_nl q")
    case None
    then show ?thesis using nl by (simp add: break_nl_None lines_of_no_nl)
  next
    case (Some lr)
    obtain l r where "q = l @ NL # r" "NL \<notin> set l" using Some by (cases lr) (auto simp: break_nl_Some)
    then show ?thesis using nl lines_of_nl [of "?t @ l" r] by simp
  qed
  then obtain l where l: "l \<in> set (snd (lines_of (?t @ q)) # fst (lines_of (?t @ q)))" "length ?t \<le> length l" by blast
  then have "length l < VMA_BUF - 1" using assms by (auto simp: lines_fit_def lines_of_append [of p q])
  then show ?thesis using l(2) by simp
qed

lemma vma_read_step:
  assumes "n = min (rd (length fl) (VMA_BUF - 1 - length kept)) (min (VMA_BUF - 1 - length kept) (length fl))" "n \<noteq> 0"
    and "lines_of (kept @ take n fl) = (ls, t)" "length t < VMA_BUF - 1"
  shows "vma_read rd addr fl v kept = vma_read rd addr (drop n fl) (foldl (vma_line addr) v ls) t"
proof -
  have b: "vma_buf addr v (kept @ take n fl) = (foldl (vma_line addr) v ls, t)" using assms(3) by (simp add: vma_buf_lines)
  show ?thesis
    unfolding vma_read.simps [of rd addr fl v kept] Let_def assms(1) [symmetric] b using assms(2,4) by simp
qed

lemma vma_read_lines:
  assumes "reads_on rd" "lines_fit (kept @ fl)" "NL \<notin> set kept"
  shows "vma_read rd addr fl v kept = foldl (vma_line addr) v (fst (lines_of (kept @ fl)))"
  using assms(2,3)
proof (induction "length fl" arbitrary: fl v kept rule: less_induct)
  case less
  have k: "length kept < VMA_BUF - 1" using tail_fits [OF less.prems(1)] less.prems(2) by (simp add: lines_of_no_nl)
  show ?case
  proof (cases "fl = []")
    case True
    then show ?thesis using less.prems(2) by (simp add: vma_read.simps lines_of_no_nl)
  next
    case False
    define n where "n = min (rd (length fl) (VMA_BUF - 1 - length kept)) (min (VMA_BUF - 1 - length kept) (length fl))"
    have n: "n \<noteq> 0" using False k assms(1) by (simp add: reads_on_def n_def)
    obtain ls t where p: "lines_of (kept @ take n fl) = (ls, t)" by (cases "lines_of (kept @ take n fl)")
    have split: "kept @ fl = (kept @ take n fl) @ drop n fl" by simp
    have all: "lines_of (kept @ fl) = (ls @ fst (lines_of (t @ drop n fl)), snd (lines_of (t @ drop n fl)))"
      unfolding split lines_of_append [of "kept @ take n fl"] p by simp
    have t: "length t < VMA_BUF - 1" using tail_fits [of "kept @ take n fl" "drop n fl"] less.prems(1) p by simp
    have nl: "NL \<notin> set t" using tail_no_nl [of "kept @ take n fl"] p by simp
    have fit: "lines_fit (t @ drop n fl)" using less.prems(1) by (simp add: lines_fit_def all)
    have "length (drop n fl) < length fl" using n False by simp
    then have "vma_read rd addr (drop n fl) (foldl (vma_line addr) v ls) t =
        foldl (vma_line addr) (foldl (vma_line addr) v ls) (fst (lines_of (t @ drop n fl)))"
      using fit nl by (rule less.hyps)
    then show ?thesis using vma_read_step [of n rd fl kept ls t addr v, OF n_def n p t] all by simp
  qed
qed

section \<open>What the survey finds\<close>

text \<open>A mapping as the kernel has it, and the line that shows it: its bounds in hexadecimal and its four letters.\<close>

record vma =
  m_lo :: u64
  m_hi :: u64
  m_r :: bool
  m_w :: bool
  m_x :: bool
  m_shared :: bool

definition perms :: "vma \<Rightarrow> string" where
  "perms m = [if m_r m then CHR ''r'' else CHR ''-'', if m_w m then CHR ''w'' else CHR ''-'',
     if m_x m then CHR ''x'' else CHR ''-'', if m_shared m then CHR ''s'' else CHR ''p'']"

definition vma_prot :: "vma \<Rightarrow> u32" where
  "vma_prot m = (if m_r m then CNG_PROT_READ else 0) OR (if m_w m then CNG_PROT_WRITE else 0) OR (if m_x m then CNG_PROT_EXEC else 0)"

definition hex_of :: "string \<Rightarrow> u64 \<Rightarrow> bool" where
  "hex_of ds a \<longleftrightarrow> list_all (\<lambda>c. hex_digit c \<noteq> None) ds \<and> foldl (\<lambda>n c. n * 16 + the (hex_digit c)) 0 ds = unat a"

definition shows_vma :: "vma \<Rightarrow> string \<Rightarrow> bool" where
  "shows_vma m line \<longleftrightarrow>
     (\<exists>ds es rest. line = ds @ CHR ''-'' # es @ CHR '' '' # perms m @ rest \<and> hex_of ds (m_lo m) \<and> hex_of es (m_hi m))"

definition holds_addr :: "u64 \<Rightarrow> vma \<Rightarrow> bool" where
  "holds_addr addr m \<longleftrightarrow> m_lo m \<le> addr \<and> addr < m_hi m"

text \<open>The mappings in the order of the file, each above the one before.\<close>

fun vmas_from :: "u64 \<Rightarrow> vma list \<Rightarrow> bool" where
  "vmas_from e [] = True"
| "vmas_from e (m # ms) = (e \<le> m_lo m \<and> m_lo m < m_hi m \<and> vmas_from (m_hi m) ms)"

text \<open>A pool at an address overlaps no mapping, and there is a mapping below it and one above it.\<close>

definition pool_free :: "vma list \<Rightarrow> nat \<Rightarrow> bool" where
  "pool_free ms c \<longleftrightarrow> (\<forall>m \<in> set ms. unat (m_hi m) \<le> c \<or> c + LAZY_POOL \<le> unat (m_lo m))"

definition pool_between :: "vma list \<Rightarrow> nat \<Rightarrow> bool" where
  "pool_between ms c \<longleftrightarrow> pool_free ms c \<and> (\<exists>m \<in> set ms. unat (m_hi m) \<le> c) \<and> (\<exists>m \<in> set ms. c + LAZY_POOL \<le> unat (m_lo m))"

definition adist :: "u64 \<Rightarrow> nat \<Rightarrow> nat" where
  "adist a c = (if c > unat a then c - unat a else unat a - c)"

definition vma_step :: "u64 \<Rightarrow> survey \<Rightarrow> vma \<Rightarrow> survey" where
  "vma_step addr v m =
     (let v = (if v_prev_end v \<noteq> 0 \<and> m_lo m - v_prev_end v \<ge> of_nat LAZY_POOL
               then hole_cand addr (m_lo m - of_nat LAZY_POOL) (hole_cand addr (v_prev_end v) v) else v);
          v = v\<lparr>v_prev_end := m_hi m\<rparr>
      in if \<not> v_found v \<and> holds_addr addr m
         then v\<lparr>v_lo := m_lo m, v_hi := m_hi m, v_prot := vma_prot m, v_shared := m_shared m, v_found := True\<rparr>
         else v)"

lemma hex_at_digits:
  "list_all (\<lambda>c. hex_digit c \<noteq> None) ds \<Longrightarrow> hex_digit c = None \<Longrightarrow>
   hex_at (of_nat n) (ds @ c # cs) = (of_nat (foldl (\<lambda>n c. n * 16 + the (hex_digit c)) n ds), c # cs)"
proof (induction ds arbitrary: n)
  case (Cons d ds)
  then obtain k where k: "hex_digit d = Some k" by auto
  have "hex_at (of_nat (n * 16 + k)) (ds @ c # cs) =
      (of_nat (foldl (\<lambda>n c. n * 16 + the (hex_digit c)) (n * 16 + k) ds), c # cs)"
    using Cons.prems by (intro Cons.IH) simp_all
  then show ?case by (simp add: k)
qed simp

lemma hex_at_shown: "hex_of ds a \<Longrightarrow> hex_digit c = None \<Longrightarrow> hex_at 0 (ds @ c # cs) = (a, c # cs)"
  using hex_at_digits [of ds c 0 cs] by (simp add: hex_of_def)

lemma not_digits: "hex_digit (CHR ''-'') = None" "hex_digit (CHR '' '') = None"
  by (simp_all add: hex_digit_def)

lemma vma_line_shown:
  assumes "shows_vma m line"
  shows "vma_line addr v line = vma_step addr v m"
proof -
  obtain ds es rest where l: "line = ds @ CHR ''-'' # es @ CHR '' '' # perms m @ rest"
      "hex_of ds (m_lo m)" "hex_of es (m_hi m)" using assms by (auto simp: shows_vma_def)
  let ?q = "CHR '' '' # perms m @ rest"
  have p: "prot_of ?q = vma_prot m" "(char_at ?q 4 = CHR ''s'') = m_shared m" "char_at ?q 0 = CHR '' ''"
    by (simp_all add: prot_of_def vma_prot_def char_at_def perms_def)
  have h: "hex_at 0 line = (m_lo m, CHR ''-'' # es @ ?q)" "hex_at 0 (es @ ?q) = (m_hi m, ?q)"
    using l not_digits by (simp_all add: hex_at_shown)
  show ?thesis
    unfolding vma_line_def vma_step_def h(1) Let_def prod.case list.sel h(2) p holds_addr_def
    by (simp add: char_at_def)
qed

lemma foldl_shown:
  "list_all2 shows_vma ms ls \<Longrightarrow> foldl (vma_line addr) v ls = foldl (vma_step addr) v ms"
  by (induction arbitrary: v rule: list_all2_induct) (simp_all add: vma_line_shown)

subsection \<open>The mapping\<close>

lemma hole_cand_keeps [simp]:
  "v_found (hole_cand addr c v) = v_found v" "v_lo (hole_cand addr c v) = v_lo v" "v_hi (hole_cand addr c v) = v_hi v"
  "v_prot (hole_cand addr c v) = v_prot v" "v_shared (hole_cand addr c v) = v_shared v"
  "v_prev_end (hole_cand addr c v) = v_prev_end v"
  by (simp_all add: hole_cand_def Let_def)

definition vma_seen :: "survey \<Rightarrow> bool \<times> u64 \<times> u64 \<times> u32 \<times> bool" where
  "vma_seen v = (v_found v, v_lo v, v_hi v, v_prot v, v_shared v)"

lemma vma_step_seen:
  "vma_seen (vma_step addr v m) =
    (if \<not> v_found v \<and> holds_addr addr m then (True, m_lo m, m_hi m, vma_prot m, m_shared m) else vma_seen v)"
  by (simp add: vma_step_def vma_seen_def Let_def)

lemma vma_seen_stays: "v_found v \<Longrightarrow> vma_seen (foldl (vma_step addr) v ms) = vma_seen v"
proof (induction ms arbitrary: v)
  case (Cons m ms)
  have "vma_seen (vma_step addr v m) = vma_seen v" using Cons.prems by (simp add: vma_step_seen)
  moreover from this have "v_found (vma_step addr v m)" using Cons.prems by (simp add: vma_seen_def)
  ultimately show ?case using Cons.IH by simp
qed simp

lemma vma_seen_first:
  "\<not> v_found v \<Longrightarrow> vma_seen (foldl (vma_step addr) v ms) =
    (case List.find (holds_addr addr) ms of None \<Rightarrow> vma_seen v | Some m \<Rightarrow> (True, m_lo m, m_hi m, vma_prot m, m_shared m))"
proof (induction ms arbitrary: v)
  case (Cons m ms)
  show ?case
  proof (cases "holds_addr addr m")
    case True
    then have s: "vma_seen (vma_step addr v m) = (True, m_lo m, m_hi m, vma_prot m, m_shared m)"
      using Cons.prems by (simp add: vma_step_seen)
    then have "v_found (vma_step addr v m)" by (simp add: vma_seen_def)
    then show ?thesis using True s by (simp add: vma_seen_stays)
  next
    case False
    then have s: "vma_seen (vma_step addr v m) = vma_seen v" by (simp add: vma_step_seen)
    then have "\<not> v_found (vma_step addr v m)" using Cons.prems by (simp add: vma_seen_def)
    then show ?thesis using False s Cons.IH [of "vma_step addr v m"] by (simp cong: option.case_cong)
  qed
qed simp

lemma vmas_above: "vmas_from e ms \<Longrightarrow> m \<in> set ms \<Longrightarrow> e \<le> m_lo m \<and> m_lo m < m_hi m"
proof (induction ms arbitrary: e)
  case (Cons n ms)
  then show ?case by (cases "m = n") (auto dest: Cons.IH intro: order_trans order_less_imp_le)
qed simp

lemma find_holder:
  "vmas_from e ms \<Longrightarrow> m \<in> set ms \<Longrightarrow> holds_addr addr m \<Longrightarrow> List.find (holds_addr addr) ms = Some m"
proof (induction ms arbitrary: e)
  case (Cons n ms)
  show ?case
  proof (cases "m = n")
    case False
    then have "m_hi n \<le> m_lo m" using Cons.prems vmas_above [of "m_hi n" ms m] by simp
    then have "\<not> holds_addr addr n" using Cons.prems(3) by (auto simp: holds_addr_def)
    then show ?thesis using False Cons by auto
  qed (use Cons in simp)
qed simp

subsection \<open>The hole\<close>

fun gaps_from :: "u64 \<Rightarrow> vma list \<Rightarrow> u64 list" where
  "gaps_from e [] = []"
| "gaps_from e (m # ms) =
     (if e \<noteq> 0 \<and> m_lo m - e \<ge> of_nat LAZY_POOL then [e, m_lo m - of_nat LAZY_POOL] else []) @ gaps_from (m_hi m) ms"

fun best_of :: "u64 \<Rightarrow> u64 \<times> u64 \<Rightarrow> u64 \<Rightarrow> u64 \<times> u64" where
  "best_of addr (b, d) c = (if hole_dist addr c < d then (c, hole_dist addr c) else (b, d))"

lemma hole_cand_best:
  "(v_best (hole_cand addr c v), v_best_d (hole_cand addr c v)) = best_of addr (v_best v, v_best_d v) c"
  by (simp add: hole_cand_def Let_def)

lemma vma_step_prev: "v_prev_end (vma_step addr v m) = m_hi m"
  by (simp add: vma_step_def Let_def)

lemma vma_step_best:
  fixes v m
  defines "big \<equiv> v_prev_end v \<noteq> 0 \<and> m_lo m - v_prev_end v \<ge> of_nat LAZY_POOL"
  shows "(v_best (vma_step addr v m), v_best_d (vma_step addr v m)) =
    foldl (best_of addr) (v_best v, v_best_d v) (if big then [v_prev_end v, m_lo m - of_nat LAZY_POOL] else [])"
proof -
  let ?w = "if big then hole_cand addr (m_lo m - of_nat LAZY_POOL) (hole_cand addr (v_prev_end v) v) else v"
  have "v_best (vma_step addr v m) = v_best ?w" "v_best_d (vma_step addr v m) = v_best_d ?w"
    unfolding vma_step_def Let_def big_def [symmetric] by simp_all
  then show ?thesis
    by (cases big) (simp_all add: hole_cand_best [symmetric] del: best_of.simps)
qed

lemma survey_best:
  "(v_best (foldl (vma_step addr) v ms), v_best_d (foldl (vma_step addr) v ms)) =
    foldl (best_of addr) (v_best v, v_best_d v) (gaps_from (v_prev_end v) ms)"
proof (induction ms arbitrary: v)
  case (Cons m ms)
  show ?case using Cons.IH [of "vma_step addr v m"] vma_step_best [of addr v m]
    by (simp add: vma_step_prev del: best_of.simps)
qed simp

lemma best_of_least:
  assumes "foldl (best_of addr) (b, d) cs = (b', d')"
  shows "((b', d') = (b, d) \<or> b' \<in> set cs \<and> d' = hole_dist addr b') \<and> d' \<le> d \<and> (\<forall>c \<in> set cs. d' \<le> hole_dist addr c)"
  using assms
proof (induction cs arbitrary: b d)
  case (Cons c cs)
  show ?case
  proof (cases "hole_dist addr c < d")
    case True
    then show ?thesis using Cons.IH [of c "hole_dist addr c"] Cons.prems by auto
  next
    case False
    then show ?thesis using Cons.IH [of b d] Cons.prems by auto
  qed
qed simp

lemma pool_word: "unat (of_nat LAZY_POOL :: u64) = LAZY_POOL"
  by (simp add: LAZY_POOL_def)

lemma gap_arith:
  assumes "(e :: u64) \<le> l"
  shows "of_nat LAZY_POOL \<le> l - e \<longleftrightarrow> unat e + LAZY_POOL \<le> unat l"
    and "unat e + LAZY_POOL \<le> unat l \<Longrightarrow> unat (l - of_nat LAZY_POOL) = unat l - LAZY_POOL"
proof -
  show "of_nat LAZY_POOL \<le> l - e \<longleftrightarrow> unat e + LAZY_POOL \<le> unat l"
    using assms by (auto simp: word_le_nat_alt unat_sub pool_word)
  show "unat (l - of_nat LAZY_POOL) = unat l - LAZY_POOL" if "unat e + LAZY_POOL \<le> unat l"
    using that by (subst unat_sub) (simp_all add: word_le_nat_alt pool_word)
qed

lemma gap_free:
  assumes "vmas_from e ms" "c \<in> set (gaps_from e ms)"
  shows "e \<le> c \<and> c \<noteq> 0 \<and> unat c + LAZY_POOL < 2 ^ 64 \<and> pool_free ms (unat c)"
  using assms
proof (induction ms arbitrary: e)
  case (Cons m ms)
  note le = conjunct1 [OF Cons.prems(1) [unfolded vmas_from.simps]]
  have lm: "m_lo m < m_hi m" "vmas_from (m_hi m) ms" using Cons.prems(1) by simp_all
  have above: "unat (m_hi m) \<le> unat (m_lo n)" if "n \<in> set ms" for n
    using vmas_above [OF lm(2) that] by (simp add: word_le_nat_alt)
  show ?case
  proof (cases "c \<in> set (gaps_from (m_hi m) ms)")
    case True
    then have "m_hi m \<le> c \<and> c \<noteq> 0 \<and> unat c + LAZY_POOL < 2 ^ 64 \<and> pool_free ms (unat c)" using Cons.IH lm(2) by simp
    then show ?thesis using le lm(1) by (auto simp: pool_free_def word_le_nat_alt word_less_nat_alt)
  next
    case False
    then have c: "e \<noteq> 0" "of_nat LAZY_POOL \<le> m_lo m - e" "c = e \<or> c = m_lo m - of_nat LAZY_POOL"
      using Cons.prems(2) by (auto split: if_splits)
    have g: "unat e + LAZY_POOL \<le> unat (m_lo m)" "unat (m_lo m - of_nat LAZY_POOL) = unat (m_lo m) - LAZY_POOL"
      using gap_arith [OF le] c(2) by auto
    have e0: "0 < unat e" using c(1) by (simp add: unat_gt_0)
    have cc: "unat e \<le> unat c" "unat c + LAZY_POOL \<le> unat (m_lo m)" using c(3) g by auto
    have "unat c + LAZY_POOL \<le> unat (m_lo n)" if "n \<in> set ms" for n
      using above [OF that] cc(2) lm(1) by (simp add: word_less_nat_alt)
    then have "pool_free (m # ms) (unat c)" using cc(2) by (auto simp: pool_free_def)
    moreover have "c \<noteq> 0" using e0 cc(1) by auto
    moreover have "unat c + LAZY_POOL < 2 ^ 64"
      using cc(2) unsigned_less [of "m_lo m", where 'a = nat] by simp
    ultimately show ?thesis using cc(1) by (simp add: word_le_nat_alt)
  qed
qed simp

lemma gap_around:
  assumes "vmas_from e ms" "e \<noteq> 0" "unat e \<le> c" "pool_free ms c" "\<exists>m \<in> set ms. c + LAZY_POOL \<le> unat (m_lo m)"
  shows "\<exists>p l. p \<in> set (gaps_from e ms) \<and> l \<in> set (gaps_from e ms) \<and> e \<le> p \<and> unat p \<le> c \<and> c \<le> unat l \<and>
    (\<forall>m \<in> set ms. m_hi m \<le> p \<or> unat l + LAZY_POOL \<le> unat (m_lo m))"
  using assms
proof (induction ms arbitrary: e)
  case (Cons m ms)
  have s: "e \<le> m_lo m" "m_lo m < m_hi m" "vmas_from (m_hi m) ms" using Cons.prems(1) by simp_all
  show ?case
  proof (cases "c + LAZY_POOL \<le> unat (m_lo m)")
    case True
    then have g: "of_nat LAZY_POOL \<le> m_lo m - e" "unat (m_lo m - of_nat LAZY_POOL) = unat (m_lo m) - LAZY_POOL"
      using gap_arith [OF s(1)] Cons.prems(3) by auto
    have "unat (m_lo m) \<le> unat (m_lo n)" if "n \<in> set ms" for n
      using vmas_above [OF s(3) that] s(2) by (simp add: word_le_nat_alt word_less_nat_alt)
    then show ?thesis using g True Cons.prems(2,3)
      by (intro exI [of _ e] exI [of _ "m_lo m - of_nat LAZY_POOL"]) (auto intro: le_trans)
  next
    case False
    then have h: "unat (m_hi m) \<le> c" using Cons.prems(4) by (auto simp: pool_free_def)
    have hz: "m_hi m \<noteq> 0" using s(2) by auto
    have up: "\<exists>n \<in> set ms. c + LAZY_POOL \<le> unat (m_lo n)" using Cons.prems(5) False by auto
    have fr: "pool_free ms c" using Cons.prems(4) by (simp add: pool_free_def)
    obtain p l where pl: "p \<in> set (gaps_from (m_hi m) ms)" "l \<in> set (gaps_from (m_hi m) ms)" "m_hi m \<le> p"
        "unat p \<le> c" "c \<le> unat l" "\<forall>n \<in> set ms. m_hi n \<le> p \<or> unat l + LAZY_POOL \<le> unat (m_lo n)"
      using Cons.IH [OF s(3) hz h fr up] by blast
    then show ?thesis using s by (intro exI [of _ p] exI [of _ l]) auto
  qed
qed simp

lemma hole_dist_adist: "unat (hole_dist addr c) = adist addr (unat c)"
proof (cases "c > addr")
  case True
  then have "unat (c - addr) = unat c - unat addr" by (intro unat_sub) simp
  then show ?thesis using True by (simp add: hole_dist_def adist_def word_less_nat_alt)
next
  case False
  then have "unat (addr - c) = unat addr - unat c" by (intro unat_sub) simp
  then show ?thesis using False by (simp add: hole_dist_def adist_def word_less_nat_alt)
qed

lemma nearest_gap:
  assumes "vmas_from 0 ms" "pool_between ms c" "m \<in> set ms" "holds_addr addr m"
  shows "\<exists>g \<in> set (gaps_from 0 ms). unat (hole_dist addr g) \<le> adist addr c"
proof -
  obtain n ns where ms: "ms = n # ns" using assms(3) by (cases ms) auto
  have s: "m_lo n < m_hi n" "vmas_from (m_hi n) ns" using assms(1) ms by simp_all
  have b: "pool_free ms c" "\<exists>m \<in> set ms. unat (m_hi m) \<le> c" "\<exists>m \<in> set ms. c + LAZY_POOL \<le> unat (m_lo m)"
    using assms(2) by (simp_all add: pool_between_def)
  have nc: "unat (m_hi n) \<le> c"
  proof -
    obtain k where k: "k \<in> set ms" "unat (m_hi k) \<le> c" using b(2) by blast
    show ?thesis
    proof (cases "k = n")
      case False
      then have "m_hi n \<le> m_lo k \<and> m_lo k < m_hi k" using vmas_above [OF s(2), of k] k(1) ms by simp
      then show ?thesis using k(2) by (simp add: word_le_nat_alt word_less_nat_alt)
    qed (use k in simp)
  qed
  have up: "\<exists>k \<in> set ns. c + LAZY_POOL \<le> unat (m_lo k)"
    using b(3) nc s(1) ms by (auto simp: word_less_nat_alt)
  have nz: "m_hi n \<noteq> 0" using s(1) by auto
  have fr: "pool_free ns c" using b(1) ms by (simp add: pool_free_def)
  obtain p l where pl: "p \<in> set (gaps_from (m_hi n) ns)" "l \<in> set (gaps_from (m_hi n) ns)" "m_hi n \<le> p"
      "unat p \<le> c" "c \<le> unat l" "\<forall>k \<in> set ns. m_hi k \<le> p \<or> unat l + LAZY_POOL \<le> unat (m_lo k)"
    using gap_around [OF s(2) nz nc fr up] by blast
  have g: "set (gaps_from (m_hi n) ns) \<subseteq> set (gaps_from 0 ms)" by (simp add: ms)
  have "m_hi m \<le> p \<or> unat l + LAZY_POOL \<le> unat (m_lo m)" using pl(3,6) assms(3) ms by auto
  then show ?thesis
  proof
    assume "m_hi m \<le> p"
    then have "unat addr < unat p" using assms(4) by (auto simp: holds_addr_def word_less_nat_alt word_le_nat_alt)
    then have "adist addr (unat p) \<le> adist addr c" using pl(4) by (simp add: adist_def)
    then show ?thesis using pl(1) g by (auto simp: hole_dist_adist)
  next
    assume "unat l + LAZY_POOL \<le> unat (m_lo m)"
    then have "unat l \<le> unat addr" using assms(4) by (auto simp: holds_addr_def word_less_nat_alt word_le_nat_alt)
    then have "adist addr (unat l) \<le> adist addr c" using pl(5) by (simp add: adist_def)
    then show ?thesis using pl(2) g by (auto simp: hole_dist_adist)
  qed
qed

text \<open>
  C20. The survey of \<open>/proc/self/maps\<close> is right, however the reads cut the file. When every line fits the
  buffer and the file lists mappings in ascending order, \<open>lazy_vma\<close> finds the mapping that holds the address
  exactly when there is one, with its bounds, its protection and whether it is shared; and for an
  address that is mapped the hole it gives is free of every mapping and nearer than, or as near as, any other
  place between two mappings where a pool fits. It gives 0 only when there is no such place.
\<close>

theorem survey_finds_mapping_and_nearest_hole:
  assumes "reads_on rd" "lines_fit fl" "list_all2 shows_vma ms (fst (lines_of fl))" "vmas_from 0 ms"
    and "lazy_vma rd fl addr = v"
  shows "(v_found v \<longleftrightarrow> (\<exists>m \<in> set ms. holds_addr addr m)) \<and>
    (\<forall>m \<in> set ms. holds_addr addr m \<longrightarrow>
       v_lo v = m_lo m \<and> v_hi v = m_hi m \<and> v_prot v = vma_prot m \<and> v_shared v = m_shared m \<and>
       (v_best v \<noteq> 0 \<longrightarrow> pool_free ms (unat (v_best v))) \<and>
       (\<forall>c. pool_between ms c \<longrightarrow> v_best v \<noteq> 0 \<and> adist addr (unat (v_best v)) \<le> adist addr c))"
proof -
  let ?f = "foldl (vma_step addr) survey0 ms"
  have v: "v = ?f"
    using vma_read_lines [OF assms(1), of "[]" fl addr survey0] assms(2,3)
    by (simp add: assms(5) [symmetric] lazy_vma_def lines_of_no_nl foldl_shown)
  have seen: "vma_seen v = (case List.find (holds_addr addr) ms of None \<Rightarrow> vma_seen survey0
      | Some m \<Rightarrow> (True, m_lo m, m_hi m, vma_prot m, m_shared m))"
    using vma_seen_first [of survey0 addr ms] by (simp add: v survey0_def)
  have found: "v_found v \<longleftrightarrow> (\<exists>m \<in> set ms. holds_addr addr m)"
    using seen by (cases "List.find (holds_addr addr) ms")
      (auto simp: vma_seen_def survey0_def find_None_iff find_Some_iff)
  have best: "foldl (best_of addr) (0, - 1) (gaps_from 0 ms) = (v_best v, v_best_d v)"
    using survey_best [of addr survey0 ms] by (simp add: v survey0_def)
  note least = best_of_least [OF best]
  have "v_lo v = m_lo m \<and> v_hi v = m_hi m \<and> v_prot v = vma_prot m \<and> v_shared v = m_shared m"
    if "m \<in> set ms" "holds_addr addr m" for m
    using seen find_holder [OF assms(4) that] by (simp add: vma_seen_def)
  moreover have "pool_free ms (unat (v_best v))" if "v_best v \<noteq> 0"
    using least that gap_free [OF assms(4), of "v_best v"] by auto
  moreover have "v_best v \<noteq> 0 \<and> adist addr (unat (v_best v)) \<le> adist addr c"
    if m: "m \<in> set ms" "holds_addr addr m" and c: "pool_between ms c" for m c
  proof -
    obtain g where g: "g \<in> set (gaps_from 0 ms)" "unat (hole_dist addr g) \<le> adist addr c"
      using nearest_gap [OF assms(4) c m] by blast
    have gz: "0 < unat g" "unat g + LAZY_POOL < 2 ^ 64" using gap_free [OF assms(4) g(1)] by (simp_all add: unat_gt_0)
    have "v_best_d v \<le> hole_dist addr g" using least g(1) by auto
    moreover have "hole_dist addr g < - 1"
    proof -
      have "unat (hole_dist addr g) < 2 ^ 64 - 1"
        using gz unsigned_less [of addr, where 'a = nat] by (auto simp: hole_dist_adist adist_def LAZY_POOL_def)
      then show ?thesis by (simp add: word_less_nat_alt unsigned_minus_1_eq_mask mask_eq_exp_minus_1)
    qed
    ultimately have ne: "v_best_d v \<noteq> - 1" by auto
    then have b: "v_best v \<in> set (gaps_from 0 ms)" "v_best_d v = hole_dist addr (v_best v)" using least by auto
    then have "unat (hole_dist addr (v_best v)) \<le> unat (hole_dist addr g)"
      using \<open>v_best_d v \<le> hole_dist addr g\<close> by (simp add: word_le_nat_alt)
    then show ?thesis using g(2) gap_free [OF assms(4) b(1)] by (simp add: hole_dist_adist)
  qed
  ultimately show ?thesis using found by auto
qed

definition demo_vmas :: "vma list" where
  "demo_vmas = [\<lparr>m_lo = 0x1000, m_hi = 0x2000, m_r = True, m_w = False, m_x = True, m_shared = False\<rparr>,
     \<lparr>m_lo = 0x90000, m_hi = 0x91000, m_r = True, m_w = True, m_x = False, m_shared = True\<rparr>]"

definition demo_maps :: string where
  "demo_maps = ''1000-2000 r-xp 0'' @ NL # ''90000-91000 rw-s 0'' @ [NL]"

lemma demo_lines: "lines_of demo_maps = ([''1000-2000 r-xp 0'', ''90000-91000 rw-s 0''], [])"
proof -
  have n: "NL \<notin> set ''1000-2000 r-xp 0''" "NL \<notin> set ''90000-91000 rw-s 0''" by (simp_all add: NL_def)
  show ?thesis unfolding demo_maps_def lines_of_nl [OF n(1)] lines_of_nl [OF n(2)] by (simp add: lines_of_no_nl)
qed

lemma demo_line_1: "shows_vma (demo_vmas ! 0) ''1000-2000 r-xp 0''"
  unfolding shows_vma_def
  by (rule exI [of _ "''1000''"], rule exI [of _ "''2000''"], rule exI [of _ "'' 0''"])
    (simp add: perms_def demo_vmas_def hex_of_def hex_digit_def)

lemma demo_line_2: "shows_vma (demo_vmas ! 1) ''90000-91000 rw-s 0''"
  unfolding shows_vma_def
  by (rule exI [of _ "''90000''"], rule exI [of _ "''91000''"], rule exI [of _ "'' 0''"])
    (simp add: perms_def demo_vmas_def hex_of_def hex_digit_def)

lemma demo_shown: "list_all2 shows_vma demo_vmas [''1000-2000 r-xp 0'', ''90000-91000 rw-s 0'']"
  using demo_line_1 demo_line_2 by (simp add: demo_vmas_def)

theorem survey_finds_mapping_and_nearest_hole_witness:
  "\<exists>v. lazy_vma (\<lambda>rest req. 7) demo_maps 0x1004 = v \<and> v_found v \<and> v_lo v = 0x1000 \<and> v_hi v = 0x2000 \<and>
     v_prot v = 5 \<and> \<not> v_shared v \<and> v_best v \<noteq> 0 \<and> pool_free demo_vmas (unat (v_best v))"
proof -
  have r: "reads_on (\<lambda>rest req. 7)" by (simp add: reads_on_def)
  have f: "lines_fit demo_maps" by (simp add: lines_fit_def demo_lines VMA_BUF_def)
  have s: "list_all2 shows_vma demo_vmas (fst (lines_of demo_maps))" by (simp add: demo_lines demo_shown)
  have o1: "vmas_from 0 demo_vmas" by (simp add: demo_vmas_def)
  have b: "pool_between demo_vmas 0x2000" by (simp add: pool_between_def pool_free_def demo_vmas_def LAZY_POOL_def)
  have p: "vma_prot (hd demo_vmas) = 5" by (simp add: vma_prot_def demo_vmas_def CNG_PROT_READ_def CNG_PROT_EXEC_def)
  have h: "hd demo_vmas \<in> set demo_vmas" "holds_addr 0x1004 (hd demo_vmas)" "\<not> m_shared (hd demo_vmas)"
      "m_lo (hd demo_vmas) = 0x1000" "m_hi (hd demo_vmas) = 0x2000"
    by (simp_all add: demo_vmas_def holds_addr_def)
  obtain v where v: "lazy_vma (\<lambda>rest req. 7) demo_maps 0x1004 = v" by simp
  note t = survey_finds_mapping_and_nearest_hole [OF r f s o1 v]
  have "v_found v" using t h(1,2) by blast
  moreover have "v_lo v = 0x1000" "v_hi v = 0x2000" "v_prot v = 5" "\<not> v_shared v" using t h p by auto
  moreover have "v_best v \<noteq> 0" using t h(1,2) b by blast
  moreover have "pool_free demo_vmas (unat (v_best v))" using t h(1,2) \<open>v_best v \<noteq> 0\<close> by blast
  ultimately show ?thesis using v by blast
qed

text \<open>
  C37. A line longer than the buffer is not dropped whole: its first 1023 bytes are, and the survey goes on as if the
  file began right after them, so the rest of the line is read as a line of its own.
\<close>

theorem rest_of_a_long_line_is_read_as_a_line:
  assumes "length l = VMA_BUF - 1" "NL \<notin> set l" "\<And>rest req. req \<le> rd rest req"
  shows "lazy_vma rd (l @ t) addr = lazy_vma rd t addr"
proof -
  have n: "min (rd (length (l @ t)) (VMA_BUF - 1)) (min (VMA_BUF - 1) (length (l @ t))) = length l"
    using assms(1) assms(3) [of "VMA_BUF - 1" "length (l @ t)"] by simp
  have b: "vma_buf addr survey0 l = (survey0, l)" using assms(2) by (simp add: vma_buf_lines lines_of_no_nl)
  have z: "length l \<noteq> 0" using assms(1) by (simp add: VMA_BUF_def)
  have "vma_read rd addr (l @ t) survey0 [] = vma_read rd addr t survey0 []"
    using n b z assms(1) by (subst vma_read.simps) (simp add: Let_def del: length_append length_0_conv)
  then show ?thesis by (simp add: lazy_vma_def)
qed

theorem rest_of_a_long_line_is_read_as_a_line_witness:
  "\<exists>l. fst (lines_of (l @ demo_maps)) = [l @ ''1000-2000 r-xp 0'', ''90000-91000 rw-s 0''] \<and>
     take 14 l = ''5000-6000 rw-s'' \<and> v_found (lazy_vma (\<lambda>rest req. req) (l @ demo_maps) 0x1004)"
proof -
  let ?l = "''5000-6000 rw-s'' @ replicate 1009 (CHR ''a'')"
  have l: "length ?l = VMA_BUF - 1" "NL \<notin> set ?l" by (simp_all add: VMA_BUF_def NL_def)
  have "lazy_vma (\<lambda>rest req. req) (?l @ demo_maps) 0x1004 = lazy_vma (\<lambda>rest req. req) demo_maps 0x1004"
    by (rule rest_of_a_long_line_is_read_as_a_line [OF l]) simp
  moreover have "v_found (lazy_vma (\<lambda>rest req. req) demo_maps 0x1004)"
  proof -
    have "lazy_vma (\<lambda>rest req. req) demo_maps 0x1004 = foldl (vma_line 0x1004) survey0 (fst (lines_of demo_maps))"
      using vma_read_lines [of "\<lambda>rest req. req" "[]" demo_maps "0x1004" survey0]
      by (simp add: lazy_vma_def reads_on_def lines_fit_def demo_lines VMA_BUF_def lines_of_no_nl)
    also have "\<dots> = foldl (vma_step 0x1004) survey0 demo_vmas" using foldl_shown [OF demo_shown] by (simp add: demo_lines)
    finally show ?thesis
      using vma_seen_first [of survey0 "0x1004" demo_vmas]
      by (simp add: vma_seen_def survey0_def demo_vmas_def holds_addr_def)
  qed
  moreover have "fst (lines_of (?l @ demo_maps)) = [?l @ ''1000-2000 r-xp 0'', ''90000-91000 rw-s 0'']"
  proof -
    have "fst (lines_of (?l @ demo_maps)) = (?l @ ''1000-2000 r-xp 0'') # fst (lines_of (''90000-91000 rw-s 0'' @ [NL]))"
      using lines_of_nl [of "?l @ ''1000-2000 r-xp 0''" "''90000-91000 rw-s 0'' @ [NL]"] l(2)
      by (simp add: demo_maps_def NL_def)
    also have "lines_of (''90000-91000 rw-s 0'' @ [NL]) = ([''90000-91000 rw-s 0''], [])"
    proof -
      have n: "NL \<notin> set ''90000-91000 rw-s 0''" by (simp add: NL_def)
      show ?thesis unfolding lines_of_nl [OF n] by (simp add: lines_of_no_nl)
    qed
    finally show ?thesis by simp
  qed
  ultimately show ?thesis by (intro exI [of _ ?l]) simp
qed

end
