(* ===== verification/Lazy.thy ===== *)
theory Lazy
  imports Rewrite_Props Lazy_Maps
begin

text \<open>
  The lazy tier of \<open>src/monitor/rewrite.c\<close>: a site that traps is patched where it is found, into a pool of
  trampolines placed within reach of its mapping. The state is the table of mappings that have trapped,
  the flags beside it, the words of the address space, and the log of the system calls made so far, latest first.
  What the kernel answers is a parameter, a record of functions of that log, so that it may change its
  answer from one call to the next.

  Addresses are natural numbers: the sums of the code stay inside the address space. A pool and a site are
  aligned words, and a \<open>pwrite64\<close> of one aligned word is made whole or not at all. Descriptors
  are not modelled.
\<close>

unbundle bit_operations_syntax

section \<open>State and environment\<close>

record lazy_region =
  r_lo :: nat
  r_hi :: nat
  r_pool :: nat
  r_used :: nat
  r_live :: bool

datatype lev =
    E_mmap nat
  | E_munmap nat
  | E_mprotect nat nat u32
  | E_open_maps
  | E_open_mem
  | E_pread nat
  | E_pwrite nat u32
  | E_tab

record lazy_st =
  g_lazy :: "lazy_region list"
  g_lazy_last :: "nat option"
  g_lazy_off :: bool
  g_lazy_busy :: bool
  l_mem :: wmem
  l_log :: "lev list"

text \<open>What does not change: the trampoline template, the page size, the bounds of the image, and whether rewriting is on.\<close>

record lenv =
  e_tramp :: tramp
  e_page :: nat
  e_img_lo :: nat
  e_img_hi :: nat
  e_rewrite :: bool

text \<open>
  The answers: the text of \<open>/proc/self/maps\<close>, or nothing when it cannot be opened, and the sizes of the reads of it; the address an
  \<open>mmap\<close> of a pool at a wanted address gives, 0 for no wish, or nothing for an error; whether an \<open>mprotect\<close>, the \<open>pread64\<close> of
  a word and the \<open>pwrite64\<close> of one succeed; the result of opening \<open>/proc/self/mem\<close>; and whether the table has a page
  for another record.
\<close>

record lhost =
  h_maps :: "lev list \<Rightarrow> string option"
  h_rd :: "lev list \<Rightarrow> nat \<Rightarrow> nat \<Rightarrow> nat"
  h_mmap :: "lev list \<Rightarrow> nat \<Rightarrow> nat option"
  h_mprotect :: "lev list \<Rightarrow> nat \<Rightarrow> nat \<Rightarrow> u32 \<Rightarrow> bool"
  h_open_mem :: "lev list \<Rightarrow> int"
  h_pread :: "lev list \<Rightarrow> nat \<Rightarrow> bool"
  h_pwrite :: "lev list \<Rightarrow> nat \<Rightarrow> u32 \<Rightarrow> bool"
  h_tab :: "lev list \<Rightarrow> nat \<Rightarrow> bool"

definition logged :: "lev \<Rightarrow> lazy_st \<Rightarrow> lazy_st" where
  "logged ev s = s\<lparr>l_log := ev # l_log s\<rparr>"

definition sys_mprotect :: "lhost \<Rightarrow> nat \<Rightarrow> nat \<Rightarrow> u32 \<Rightarrow> lazy_st \<Rightarrow> bool \<times> lazy_st" where
  "sys_mprotect h a n prot s = (h_mprotect h (l_log s) a n prot, logged (E_mprotect a n prot) s)"

section \<open>Placing a pool\<close>

definition cng_hits_image :: "lenv \<Rightarrow> nat \<Rightarrow> nat \<Rightarrow> bool" where
  "cng_hits_image e addr len =
     (if len = 0 then False
      else let end1 = (if addr + len \<ge> 2 ^ 64 then 2 ^ 64 - 1 else addr + len) in addr < e_img_hi e \<and> end1 > e_img_lo e)"

definition cng_pool_at :: "lenv \<Rightarrow> lhost \<Rightarrow> nat \<Rightarrow> nat \<Rightarrow> lazy_st \<Rightarrow> nat \<times> lazy_st" where
  "cng_pool_at e h want len s =
     (if want = 0 \<or> cng_hits_image e want len then (0, s)
      else case h_mmap h (l_log s) want of
        None \<Rightarrow> (0, s)
      | Some p \<Rightarrow>
          let s = logged (E_mmap p) s in
          if p \<noteq> want then (0, logged (E_munmap p) s) else (want, s))"

definition pool_try :: "lenv \<Rightarrow> lhost \<Rightarrow> nat \<Rightarrow> nat \<Rightarrow> nat \<Rightarrow> lazy_st \<Rightarrow> nat \<times> lazy_st" where
  "pool_try e h lo hi want s =
     (let (p, s) =
        (if want \<noteq> 0 then cng_pool_at e h want LAZY_POOL s
         else case h_mmap h (l_log s) 0 of None \<Rightarrow> (0, s) | Some p \<Rightarrow> (p, logged (E_mmap p) s))
      in if p = 0 then (0, s)
      else if b_insn lo (p + LAZY_POOL) = 0 \<or> b_insn (hi - 4) p = 0 then (0, logged (E_munmap p) s)
      else let (ok, s) = sys_mprotect h p LAZY_POOL (CNG_PROT_READ OR CNG_PROT_EXEC) s in
        if \<not> ok then (0, logged (E_munmap p) s) else (p, s))"

definition lazy_pool :: "lenv \<Rightarrow> lhost \<Rightarrow> nat \<Rightarrow> nat \<Rightarrow> nat \<Rightarrow> lazy_st \<Rightarrow> nat \<times> lazy_st" where
  "lazy_pool e h lo hi hole s =
     (let (p, s) = pool_try e h lo hi hole s;
          (p, s) = (if p = 0 then pool_try e h lo hi hi s else (p, s));
          (p, s) = (if p = 0 \<and> lo \<ge> LAZY_POOL then pool_try e h lo hi (lo - LAZY_POOL) s else (p, s));
          (p, s) = (if p = 0 then pool_try e h lo hi 0 s else (p, s))
      in (p, s))"

section \<open>The table\<close>

definition in_region :: "nat \<Rightarrow> lazy_region \<Rightarrow> bool" where
  "in_region site r \<longleftrightarrow> site \<ge> r_lo r \<and> site < r_hi r"

fun region_index :: "nat \<Rightarrow> nat \<Rightarrow> lazy_region list \<Rightarrow> nat option" where
  "region_index site i [] = None"
| "region_index site i (r # rs) = (if in_region site r then Some i else region_index site (i + 1) rs)"

definition lazy_known :: "nat \<Rightarrow> lazy_st \<Rightarrow> nat option \<times> lazy_st" where
  "lazy_known site s =
     (case g_lazy_last s of
        Some i \<Rightarrow>
          if in_region site (g_lazy s ! i) then (Some i, s)
          else (case region_index site 0 (g_lazy s) of None \<Rightarrow> (None, s) | Some i \<Rightarrow> (Some i, s\<lparr>g_lazy_last := Some i\<rparr>))
      | None \<Rightarrow> (case region_index site 0 (g_lazy s) of None \<Rightarrow> (None, s) | Some i \<Rightarrow> (Some i, s\<lparr>g_lazy_last := Some i\<rparr>)))"

definition lazy_add :: "lenv \<Rightarrow> lhost \<Rightarrow> nat \<Rightarrow> nat \<Rightarrow> bool \<Rightarrow> nat \<Rightarrow> lazy_st \<Rightarrow> nat option \<times> lazy_st" where
  "lazy_add e h lo hi usable hole s =
     (let i = length (g_lazy s); ok = h_tab h (l_log s) i; s = logged E_tab s in
      if \<not> ok then (None, s)
      else let (pool, s) = (if usable then lazy_pool e h lo hi hole s else (0, s)) in
        (Some i, s\<lparr>g_lazy := g_lazy s @ [\<lparr>r_lo = lo, r_hi = hi, r_pool = pool, r_used = 0, r_live = (pool \<noteq> 0)\<rparr>]\<rparr>))"

definition lazy_usable :: "u32 \<Rightarrow> bool \<Rightarrow> bool" where
  "lazy_usable prot shared \<longleftrightarrow>
     \<not> shared \<and> prot AND (CNG_PROT_READ OR CNG_PROT_EXEC) = (CNG_PROT_READ OR CNG_PROT_EXEC)"

definition lazy_close :: "nat \<Rightarrow> lazy_st \<Rightarrow> lazy_st" where
  "lazy_close i s =
     (let r = (g_lazy s ! i)\<lparr>r_live := False\<rparr> in
      if r_pool r \<noteq> 0 \<and> r_used r = 0
      then logged (E_munmap (r_pool r)) (s\<lparr>g_lazy := (g_lazy s)[i := r\<lparr>r_pool := 0\<rparr>]\<rparr>)
      else s\<lparr>g_lazy := (g_lazy s)[i := r]\<rparr>)"

section \<open>One site\<close>

text \<open>The survey, on the text the kernel gives now; without one the tier is turned off.\<close>

definition site_vma :: "lhost \<Rightarrow> nat \<Rightarrow> lazy_st \<Rightarrow> survey \<times> lazy_st" where
  "site_vma h site s =
     (let t = h_maps h (l_log s); rd = h_rd h (l_log s); s = logged E_open_maps s in
      case t of
        None \<Rightarrow> (survey0, s\<lparr>g_lazy_off := True\<rparr>)
      | Some t \<Rightarrow> (lazy_vma rd t (of_nat site), s))"

definition ENFILE :: int where [errno_simps]: "ENFILE = 23"
definition EMFILE :: int where [errno_simps]: "EMFILE = 24"

definition lazy_mem_open :: "lhost \<Rightarrow> lazy_st \<Rightarrow> bool \<times> lazy_st" where
  "lazy_mem_open h s =
     (let fd = h_open_mem h (l_log s); s = logged E_open_mem s in
      if fd \<ge> 0 then (True, s)
      else if fd \<noteq> - EMFILE \<and> fd \<noteq> - ENFILE \<and> fd \<noteq> - ENOMEM \<and> fd \<noteq> - EINTR then (False, s\<lparr>g_lazy_off := True\<rparr>)
      else (False, s))"

definition page_down :: "lenv \<Rightarrow> nat \<Rightarrow> nat" where
  "page_down e a = a - a mod e_page e"

definition page_up :: "lenv \<Rightarrow> nat \<Rightarrow> nat" where
  "page_up e a = page_down e (a + e_page e - 1)"

definition lazy_emit :: "lenv \<Rightarrow> lhost \<Rightarrow> nat \<Rightarrow> nat \<Rightarrow> lazy_st \<Rightarrow> nat \<times> lazy_st" where
  "lazy_emit e h i site s =
     (let r = g_lazy s ! i; tsz = cng_tramp_size (e_tramp e); slot = r_pool r + r_used r in
      if r_used r + tsz > LAZY_POOL then (0, s)
      else if b_insn site slot = 0 then (0, s)
      else let p0 = page_down e slot; p1 = page_up e (slot + tsz);
             (ok, s) = sys_mprotect h p0 (p1 - p0) (CNG_PROT_READ OR CNG_PROT_WRITE OR CNG_PROT_EXEC) s
        in if \<not> ok then (0, s)
        else let (got, s) =
            (case emit (e_tramp e) (l_mem s) (r_pool r) LAZY_POOL (r_used r) (site + 4) of
               None \<Rightarrow> (0, s)
             | Some (got, used, m) \<Rightarrow> (got, s\<lparr>l_mem := m, g_lazy := (g_lazy s)[i := r\<lparr>r_used := used\<rparr>]\<rparr>))
          in (got, snd (sys_mprotect h p0 (p1 - p0) (CNG_PROT_READ OR CNG_PROT_EXEC) s)))"

text \<open>The two labels the body of \<open>cng_rewrite_site\<close> leaves by.\<close>

datatype leave = L_out bool | L_close

text \<open>From the trampoline to the store: the page gains write where it lacks it, the word goes in, and the protection goes back.\<close>

definition lazy_store :: "lenv \<Rightarrow> lhost \<Rightarrow> nat \<Rightarrow> nat \<Rightarrow> u32 \<Rightarrow> lazy_st \<Rightarrow> leave \<times> lazy_st" where
  "lazy_store e h i site prot s =
     (let (slot, s) = lazy_emit e h i site s;
          br = (if slot \<noteq> 0 then b_insn site slot else 0)
      in if br = 0 then (L_close, s)
      else let p0 = page_down e site; p1 = page_up e (site + 4);
             add_w = (prot AND CNG_PROT_WRITE = 0);
             (ok, s) = (if add_w then sys_mprotect h p0 (p1 - p0) (prot OR CNG_PROT_WRITE) s else (True, s))
        in if \<not> ok then (L_close, s)
        else let wr = h_pwrite h (l_log s) site br;
               s = logged (E_pwrite site br) s;
               s = (if wr then s\<lparr>l_mem := (l_mem s)(site := br)\<rparr> else s);
               s = (if add_w then snd (sys_mprotect h p0 (p1 - p0) prot s) else s)
          in if \<not> wr then (L_close, s) else (L_out True, s))"

text \<open>A live entry: the word is read, the page is asked about again unless the entry is fresh, and the site is patched.\<close>

definition lazy_patch :: "lenv \<Rightarrow> lhost \<Rightarrow> nat \<Rightarrow> nat \<Rightarrow> survey option \<Rightarrow> lazy_st \<Rightarrow> leave \<times> lazy_st" where
  "lazy_patch e h i site fresh s =
     (let (ok, s) = lazy_mem_open h s in
      if \<not> ok then (L_out False, s)
      else let got = h_pread h (l_log s) site; s = logged (E_pread site) s in
        if \<not> got then (L_close, s)
        else if l_mem s site \<noteq> SVC0_INSN then (L_out False, s)
        else let (v, s) = (case fresh of Some v \<Rightarrow> (v, s) | None \<Rightarrow> site_vma h site s) in
          if \<not> v_found v then (L_close, s)
          else if \<not> lazy_usable (v_prot v) (v_shared v) then (L_close, s)
          else lazy_store e h i site (v_prot v) s)"

definition cng_rewrite_site :: "lenv \<Rightarrow> lhost \<Rightarrow> nat \<Rightarrow> lazy_st \<Rightarrow> bool \<times> lazy_st" where
  "cng_rewrite_site e h site s =
     (if \<not> e_rewrite e \<or> site mod 4 \<noteq> 0 \<or> g_lazy_off s then (False, s)
      else if g_lazy_busy s then (False, s)
      else let s = s\<lparr>g_lazy_busy := True\<rparr>;
             (known, s) = lazy_known site s;
             (r, fresh, s) =
               (case known of
                  Some i \<Rightarrow> (Some i, None, s)
                | None \<Rightarrow>
                    let (v, s) = site_vma h site s in
                    if \<not> v_found v then (None, None, s)
                    else let (r, s) = lazy_add e h (unat (v_lo v)) (unat (v_hi v)) (lazy_usable (v_prot v) (v_shared v)) (unat (v_best v)) s
                      in (r, Some v, s));
             (done1, s) =
               (case r of
                  None \<Rightarrow> (False, s)
                | Some i \<Rightarrow>
                    if \<not> r_live (g_lazy s ! i) then (False, s)
                    else case lazy_patch e h i site fresh s of
                        (L_out d, s) \<Rightarrow> (d, s)
                      | (L_close, s) \<Rightarrow> (False, lazy_close i s))
        in (done1, s\<lparr>g_lazy_busy := False\<rparr>))"

fun give_back :: "lazy_region list \<Rightarrow> lazy_st \<Rightarrow> lazy_st" where
  "give_back [] s = s"
| "give_back (r # rs) s = give_back rs (if r_pool r \<noteq> 0 then logged (E_munmap (r_pool r)) s else s)"

definition cng_rewrite_lazy_reset :: "lazy_st \<Rightarrow> lazy_st" where
  "cng_rewrite_lazy_reset s =
     (let s = give_back (g_lazy s) (s\<lparr>g_lazy_busy := False\<rparr>) in s\<lparr>g_lazy := [], g_lazy_last := None\<rparr>)"

end
