(* ===== verification/Lazy_Props.thy ===== *)
theory Lazy_Props
  imports Lazy
begin

text \<open>
  The lazy tier is safe. The pools the tier holds are read off the log of its system calls; every run of
  it, interleaved with whatever the guest does to its own memory, keeps the trampoline of every site ever patched
  mapped and intact until the reset at an exec.
\<close>

unbundle bit_operations_syntax

section \<open>Pools held\<close>

fun held :: "lev list \<Rightarrow> nat set" where
  "held [] = {}"
| "held (E_mmap p # l) = insert p (held l)"
| "held (E_munmap p # l) = held l - {p}"
| "held (ev # l) = held l"

definition apart :: "nat \<Rightarrow> nat \<Rightarrow> bool" where
  "apart p q \<longleftrightarrow> p + LAZY_POOL \<le> q \<or> q + LAZY_POOL \<le> p"

definition outside :: "nat \<Rightarrow> nat \<Rightarrow> bool" where
  "outside x p \<longleftrightarrow> x + 4 \<le> p \<or> p + LAZY_POOL \<le> x"

text \<open>
  What \<open>mmap\<close> promises: a new mapping overlaps none that is there, neither a pool nor the page of the
  site that trapped, and is not at address 0.
\<close>

definition mmap_fresh :: "nat \<Rightarrow> lhost \<Rightarrow> bool" where
  "mmap_fresh site h \<longleftrightarrow>
     (\<forall>log want p. h_mmap h log want = Some p \<longrightarrow> p \<noteq> 0 \<and> outside site p \<and> (\<forall>q \<in> held log. apart p q))"

lemma not_apart_self: "\<not> apart p p"
  by (simp add: apart_def LAZY_POOL_def)

lemma held_logged [simp]:
  "held (l_log (logged (E_mmap p) s)) = insert p (held (l_log s))"
  "held (l_log (logged (E_munmap p) s)) = held (l_log s) - {p}"
  "held (l_log (logged (E_mprotect a n pr) s)) = held (l_log s)"
  "held (l_log (logged E_open_maps s)) = held (l_log s)"
  "held (l_log (logged E_open_mem s)) = held (l_log s)"
  "held (l_log (logged (E_pread a) s)) = held (l_log s)"
  "held (l_log (logged (E_pwrite a w) s)) = held (l_log s)"
  "held (l_log (logged E_tab s)) = held (l_log s)"
  by (simp_all add: logged_def)

lemma logged_keeps [simp]:
  "g_lazy (logged ev s) = g_lazy s" "g_lazy_last (logged ev s) = g_lazy_last s" "l_mem (logged ev s) = l_mem s"
  "g_lazy_off (logged ev s) = g_lazy_off s" "g_lazy_busy (logged ev s) = g_lazy_busy s"
  by (simp_all add: logged_def)

lemma mprotect_keeps [simp]:
  "g_lazy (snd (sys_mprotect h a n pr s)) = g_lazy s" "g_lazy_last (snd (sys_mprotect h a n pr s)) = g_lazy_last s"
  "l_mem (snd (sys_mprotect h a n pr s)) = l_mem s" "held (l_log (snd (sys_mprotect h a n pr s))) = held (l_log s)"
  by (simp_all add: sys_mprotect_def)

section \<open>Placing a pool\<close>

definition placed :: "nat \<Rightarrow> nat \<Rightarrow> lazy_st \<Rightarrow> lazy_st \<Rightarrow> bool" where
  "placed site p s s' \<longleftrightarrow>
     g_lazy s' = g_lazy s \<and> g_lazy_last s' = g_lazy_last s \<and> l_mem s' = l_mem s \<and>
     held (l_log s') = (if p = 0 then {} else {p}) \<union> held (l_log s) \<and>
     (p \<noteq> 0 \<longrightarrow> outside site p \<and> (\<forall>q \<in> held (l_log s). apart p q))"

lemma placed_none: "placed site 0 s s"
  by (simp add: placed_def)

lemma placed_trans: "placed site 0 s s1 \<Longrightarrow> placed site p s1 s2 \<Longrightarrow> placed site p s s2"
  by (simp add: placed_def)

lemma placed_mmap:
  assumes "mmap_fresh site h" "h_mmap h (l_log s) want = Some p"
  shows "placed site p s (logged (E_mmap p) s)" "placed site 0 s (logged (E_munmap p) (logged (E_mmap p) s))" "p \<noteq> 0"
proof -
  have f: "p \<noteq> 0" "outside site p" "\<forall>q \<in> held (l_log s). apart p q" using assms by (auto simp: mmap_fresh_def)
  then have "p \<notin> held (l_log s)" using not_apart_self by blast
  then show "placed site 0 s (logged (E_munmap p) (logged (E_mmap p) s))" by (simp add: placed_def)
  show "placed site p s (logged (E_mmap p) s)" "p \<noteq> 0" using f by (simp_all add: placed_def)
qed

lemma placed_undo: "placed site p s s' \<Longrightarrow> p \<noteq> 0 \<Longrightarrow> placed site 0 s (logged (E_munmap p) s')"
  using not_apart_self [of p] by (auto simp: placed_def)

lemma placed_mprotect: "placed site p s s' \<Longrightarrow> placed site p s (snd (sys_mprotect h a n pr s'))"
  by (simp add: placed_def)

lemma placed_pool_at:
  "mmap_fresh site h \<Longrightarrow> cng_pool_at e h want len s = (p, s') \<Longrightarrow> placed site p s s'"
  using placed_mmap [of site h s want]
  by (auto simp: cng_pool_at_def Let_def placed_none split: if_splits option.splits)

lemma placed_any:
  "mmap_fresh site h \<Longrightarrow>
   (if want \<noteq> 0 then cng_pool_at e h want LAZY_POOL s
    else case h_mmap h (l_log s) 0 of None \<Rightarrow> (0, s) | Some p \<Rightarrow> (p, logged (E_mmap p) s)) = (p, s') \<Longrightarrow> placed site p s s'"
  using placed_mmap(1) [of site h s 0] placed_pool_at [of site h e want LAZY_POOL s p s']
  by (auto simp: placed_none split: if_splits option.splits)

lemma placed_try:
  assumes "mmap_fresh site h" "pool_try e h lo hi want s = (p, s')"
  shows "placed site p s s'"
proof -
  obtain q s1 where q: "(if want \<noteq> 0 then cng_pool_at e h want LAZY_POOL s
      else case h_mmap h (l_log s) 0 of None \<Rightarrow> (0, s) | Some p \<Rightarrow> (p, logged (E_mmap p) s)) = (q, s1)" by fastforce
  note pl = placed_any [OF assms(1) q]
  show ?thesis
  proof (cases "q = 0")
    case True
    then show ?thesis using assms(2) pl unfolding pool_try_def q by simp
  next
    case False
    obtain ok s2 where m: "sys_mprotect h q LAZY_POOL (CNG_PROT_READ OR CNG_PROT_EXEC) s1 = (ok, s2)" by fastforce
    have p2: "placed site q s s2" using placed_mprotect [OF pl, of h q LAZY_POOL "CNG_PROT_READ OR CNG_PROT_EXEC"] m by simp
    show ?thesis
      using assms(2) False p2 placed_undo [OF pl False] placed_undo [OF p2 False] unfolding pool_try_def q prod.case Let_def m
      by (simp split: if_splits)
  qed
qed

lemma placed_pool:
  assumes f: "mmap_fresh site h" and l: "lazy_pool e h lo hi hole s = (p, s')"
  shows "placed site p s s'"
proof -
  note tr = placed_try [OF f]
  have more: "placed site q' s s2"
    if "placed site q s s1" "(if q = 0 \<and> c then pool_try e h lo hi want s1 else (q, s1)) = (q', s2)" for q c want q' s1 s2
    using that tr [of e lo hi want s1 q' s2] placed_trans by (auto split: if_splits)
  obtain p1 s1 where 1: "pool_try e h lo hi hole s = (p1, s1)" by fastforce
  obtain p2 s2 where 2: "(if p1 = 0 then pool_try e h lo hi hi s1 else (p1, s1)) = (p2, s2)" by fastforce
  obtain p3 s3 where 3: "(if p2 = 0 \<and> lo \<ge> LAZY_POOL then pool_try e h lo hi (lo - LAZY_POOL) s2 else (p2, s2)) = (p3, s3)" by fastforce
  obtain p4 s4 where 4: "(if p3 = 0 then pool_try e h lo hi 0 s3 else (p3, s3)) = (p4, s4)" by fastforce
  have "placed site p4 s s4"
    using more [OF more [OF more [OF tr [OF 1], of True hi] 3], of True 0] 2 4 by simp
  moreover have "(p4, s4) = (p, s')" using l unfolding lazy_pool_def 1 prod.case Let_def 2 3 4 by simp
  ultimately show ?thesis by simp
qed

section \<open>The invariant\<close>

definition region_ok :: "nat set \<Rightarrow> lazy_region \<Rightarrow> bool" where
  "region_ok H r \<longleftrightarrow> r_used r \<le> LAZY_POOL \<and> (r_pool r \<noteq> 0 \<longrightarrow> r_pool r \<in> H) \<and> (r_pool r = 0 \<longrightarrow> \<not> r_live r \<and> r_used r = 0)"

text \<open>
  A patched word: a branch, from its site, to a trampoline for the site that lies in the used part of
  the pool of an entry of the table.
\<close>

definition patch_ok :: "tramp \<Rightarrow> lazy_region list \<Rightarrow> wmem \<Rightarrow> nat \<times> u32 \<Rightarrow> bool" where
  "patch_ok t tab m = (\<lambda>(site, w). is_b w \<and>
     (\<exists>r k. r \<in> set tab \<and> r_pool r \<noteq> 0 \<and> k + cng_tramp_size t \<le> r_used r \<and>
        b_target site w = int (r_pool r + k) \<and> tramp_for t m (r_pool r + k) site))"

definition pools_differ :: "lazy_region list \<Rightarrow> bool" where
  "pools_differ tab \<longleftrightarrow>
     (\<forall>i j. i < j \<longrightarrow> j < length tab \<longrightarrow> r_pool (tab ! i) \<noteq> 0 \<longrightarrow> r_pool (tab ! i) \<noteq> r_pool (tab ! j))"

text \<open>No pool is held that the table does not know of.\<close>

definition pools_known :: "nat set \<Rightarrow> lazy_region list \<Rightarrow> bool" where
  "pools_known H tab \<longleftrightarrow> (\<forall>p \<in> H. p \<noteq> 0 \<and> p \<in> r_pool ` set tab)"

definition linv :: "tramp \<Rightarrow> lazy_region list \<Rightarrow> nat set \<Rightarrow> wmem \<Rightarrow> (nat \<times> u32) set \<Rightarrow> bool" where
  "linv t tab H m ps \<longleftrightarrow>
     (\<forall>r \<in> set tab. region_ok H r) \<and> pools_differ tab \<and> pools_known H tab \<and>
     (\<forall>p \<in> H. \<forall>q \<in> H. p \<noteq> q \<longrightarrow> apart p q) \<and> (\<forall>a \<in> ps. patch_ok t tab m a)"

lemma linv_mem:
  assumes "linv t tab H m ps" "tramp_ok t" "\<And>x p. p \<in> H \<Longrightarrow> p \<le> x \<Longrightarrow> x < p + LAZY_POOL \<Longrightarrow> m' x = m x"
  shows "linv t tab H m' ps"
proof -
  have "tramp_for t m' (r_pool r + k) site = tramp_for t m (r_pool r + k) site"
    if "r \<in> set tab" "r_pool r \<noteq> 0" "k + cng_tramp_size t \<le> r_used r" for r k site
  proof (rule tramp_for_cong [OF _ assms(2)])
    have r: "r_pool r \<in> H" "r_used r \<le> LAZY_POOL" using assms(1) that(1,2) by (auto simp: linv_def region_ok_def)
    show "m' x = m x" if "r_pool r + k \<le> x" "x < r_pool r + k + cng_tramp_size t" for x
      using that r \<open>k + cng_tramp_size t \<le> r_used r\<close> by (intro assms(3) [of "r_pool r"]) auto
  qed
  then have "patch_ok t tab m' a" if "patch_ok t tab m a" for a
    using that by (force simp: patch_ok_def)
  then show ?thesis using assms(1) by (simp add: linv_def)
qed

lemma pools_differ_add:
  assumes "pools_differ tab" "\<And>r'. r' \<in> set tab \<Longrightarrow> r_pool r' \<noteq> 0 \<Longrightarrow> r_pool r' \<noteq> r_pool r"
  shows "pools_differ (tab @ [r])"
  using assms(1) assms(2) [OF nth_mem] unfolding pools_differ_def by (simp add: nth_append less_Suc_eq)

lemma patch_ok_mono: "patch_ok t tab m a \<Longrightarrow> set tab \<subseteq> set tab' \<Longrightarrow> patch_ok t tab' m a"
  unfolding patch_ok_def by (cases a) (simp, blast)

lemma apart_sym: "apart p q \<Longrightarrow> apart q p"
  unfolding apart_def by blast

lemma linv_add:
  assumes "linv t tab H m ps" "\<forall>q \<in> H. p \<noteq> 0 \<longrightarrow> apart p q"
    and "r = \<lparr>r_lo = lo, r_hi = hi, r_pool = p, r_used = 0, r_live = (p \<noteq> 0)\<rparr>"
  shows "linv t (tab @ [r]) ((if p = 0 then {} else {p}) \<union> H) m ps"
proof -
  have new: "r_pool r' \<noteq> r_pool r" if "r' \<in> set tab" "r_pool r' \<noteq> 0" for r'
  proof
    assume eq: "r_pool r' = r_pool r"
    then have "p \<noteq> 0" "p \<in> H" using that assms(1,3) by (auto simp: linv_def region_ok_def)
    then show False using assms(2) not_apart_self by blast
  qed
  have old: "region_ok (X \<union> H) r'" if "r' \<in> set tab" for r' X
    using assms(1) that by (auto simp: linv_def region_ok_def)
  have "pools_differ (tab @ [r])" using assms(1) new by (simp add: linv_def pools_differ_add)
  moreover have "\<forall>r' \<in> set (tab @ [r]). region_ok ((if p = 0 then {} else {p}) \<union> H) r'"
    using old assms(3) by (auto simp: region_ok_def)
  moreover have "\<forall>a \<in> ps. patch_ok t (tab @ [r]) m a"
    using assms(1) patch_ok_mono [of t tab m _ "tab @ [r]"] by (simp add: linv_def subset_insertI)
  moreover have "\<forall>q \<in> (if p = 0 then {} else {p}) \<union> H. \<forall>q' \<in> (if p = 0 then {} else {p}) \<union> H. q \<noteq> q' \<longrightarrow> apart q q'"
    using assms(1,2) apart_sym by (auto simp: linv_def)
  moreover have "pools_known ((if p = 0 then {} else {p}) \<union> H) (tab @ [r])"
  proof -
    have hp: "q \<noteq> 0 \<and> q \<in> r_pool ` set tab" if "q \<in> H" for q using assms(1) that unfolding linv_def pools_known_def by blast
    have rp: "p = r_pool r" using assms(3) by simp
    show ?thesis unfolding pools_known_def
    proof
      fix q assume q: "q \<in> (if p = 0 then {} else {p}) \<union> H"
      show "q \<noteq> 0 \<and> q \<in> r_pool ` set (tab @ [r])"
      proof (cases "q \<in> H")
        case True
        then show ?thesis using hp [OF True] by simp
      next
        case False
        then have "q = p" "p \<noteq> 0" using q by (simp_all split: if_splits)
        then show ?thesis by (simp add: rp)
      qed
    qed
  qed
  ultimately show ?thesis unfolding linv_def by blast
qed

text \<open>Two entries that hold pools hold pools apart.\<close>

lemma pools_apart:
  assumes "linv t tab H m ps" "i < length tab" "j < length tab" "i \<noteq> j" "r_pool (tab ! i) \<noteq> 0" "r_pool (tab ! j) \<noteq> 0"
  shows "apart (r_pool (tab ! i)) (r_pool (tab ! j))"
proof -
  have "i < j \<or> j < i" using assms(4) by auto
  then have "r_pool (tab ! i) \<noteq> r_pool (tab ! j)" using assms unfolding linv_def pools_differ_def by metis
  moreover have "r_pool (tab ! i) \<in> H" "r_pool (tab ! j) \<in> H"
    using assms nth_mem [OF assms(2)] nth_mem [OF assms(3)] by (simp_all add: linv_def region_ok_def)
  ultimately show ?thesis using assms(1) by (simp add: linv_def)
qed

lemma region_at: "linv t tab H m ps \<Longrightarrow> i < length tab \<Longrightarrow> region_ok H (tab ! i)"
  by (simp add: linv_def)

lemma in_update: "j < length tab \<Longrightarrow> j \<noteq> i \<Longrightarrow> tab ! j \<in> set (tab[i := r])"
  by (metis length_list_update nth_list_update_neq nth_mem)

lemma pools_differ_same:
  "pools_differ tab \<Longrightarrow> i < length tab \<Longrightarrow> r_pool r = r_pool (tab ! i) \<Longrightarrow> pools_differ (tab[i := r])"
  unfolding pools_differ_def by (simp add: nth_list_update)

lemma pools_differ_free: "pools_differ tab \<Longrightarrow> i < length tab \<Longrightarrow> r_pool r = 0 \<Longrightarrow> pools_differ (tab[i := r])"
  unfolding pools_differ_def by (simp add: nth_list_update)

text \<open>The pools of the entries other than the one that changes are still pools of the table.\<close>

lemma pool_still:
  assumes "linv t tab H m ps" "p \<in> H" "i < length tab" "p \<noteq> r_pool (tab ! i) \<or> r_pool r = p"
  shows "p \<noteq> 0 \<and> p \<in> r_pool ` set (tab[i := r])"
proof -
  obtain j where j: "j < length tab" "p = r_pool (tab ! j)" "p \<noteq> 0"
    using assms(1,2) unfolding linv_def pools_known_def by (metis imageE in_set_conv_nth)
  show ?thesis
  proof (cases "r_pool r = p")
    case True
    then show ?thesis using set_update_memI [OF assms(3), of r] j(3) by blast
  next
    case False
    then have "j \<noteq> i" using assms(4) j(2) by auto
    then show ?thesis using in_update [OF j(1)] j(2,3) by blast
  qed
qed

text \<open>An entry that only uses more of its pool keeps every patch, where the memory below is as it was.\<close>

lemma linv_use:
  assumes inv: "linv t tab H m ps" and ok: "tramp_ok t" and i: "i < length tab" "r_pool (tab ! i) \<noteq> 0"
    and r: "r_pool r = r_pool (tab ! i)" "r_used (tab ! i) \<le> r_used r" "r_used r \<le> LAZY_POOL"
    and out: "\<And>x. x < r_pool r + r_used (tab ! i) \<or> r_pool r + r_used r \<le> x \<Longrightarrow> m' x = m x"
  shows "linv t (tab[i := r]) H m' ps"
proof -
  have reg: "region_ok H r'" if "r' \<in> set (tab[i := r])" for r'
    using that set_update_subset_insert [of tab i r] region_at [OF inv i(1)] inv r(1,3) i(2)
    by (auto simp: linv_def region_ok_def)
  have "patch_ok t (tab[i := r]) m' a" if a: "a \<in> ps" for a
  proof -
    obtain site w where sw: "a = (site, w)" by (cases a)
    have "patch_ok t tab m a" using inv a by (simp add: linv_def)
    then obtain j k where b: "is_b w" and j: "j < length tab" "r_pool (tab ! j) \<noteq> 0" "k + cng_tramp_size t \<le> r_used (tab ! j)"
        "b_target site w = int (r_pool (tab ! j) + k)" "tramp_for t m (r_pool (tab ! j) + k) site"
      unfolding patch_ok_def sw prod.case by (metis in_set_conv_nth)
    have ju: "r_used (tab ! j) \<le> LAZY_POOL" using region_at [OF inv j(1)] by (simp add: region_ok_def)
    have same: "tramp_for t m' (r_pool (tab ! j) + k) site"
    proof -
      have "tramp_for t m' (r_pool (tab ! j) + k) site = tramp_for t m (r_pool (tab ! j) + k) site"
      proof (rule tramp_for_cong [OF _ ok])
        show "m' x = m x" if x: "r_pool (tab ! j) + k \<le> x" "x < r_pool (tab ! j) + k + cng_tramp_size t" for x
        proof (rule out, cases "j = i")
          case True
          then show "x < r_pool r + r_used (tab ! i) \<or> r_pool r + r_used r \<le> x" using x j(3) r(1) by simp
        next
          case False
          then have "apart (r_pool (tab ! j)) (r_pool r)" using pools_apart [OF inv j(1) i(1) _ j(2) i(2)] r(1) by simp
          then show "x < r_pool r + r_used (tab ! i) \<or> r_pool r + r_used r \<le> x" using x j(3) ju r(3) by (auto simp: apart_def)
        qed
      qed
      then show ?thesis using j(5) by simp
    qed
    show ?thesis
    proof (cases "j = i")
      case True
      have "r \<in> set (tab[i := r])" using i(1) by (rule set_update_memI)
      then show ?thesis unfolding patch_ok_def sw prod.case
        using b j same r True by (intro conjI exI [of _ r] exI [of _ k]) simp_all
    next
      case False
      show ?thesis unfolding patch_ok_def sw prod.case
        using b j same in_update [OF j(1) False] by (intro conjI exI [of _ "tab ! j"] exI [of _ k]) simp_all
    qed
  qed
  moreover have "pools_known H (tab[i := r])" unfolding pools_known_def using pool_still [OF inv _ i(1)] r(1) by metis
  ultimately show ?thesis using inv reg pools_differ_same [of tab i r] i(1) r(1) by (simp add: linv_def)
qed

text \<open>A pool nothing branches into may go.\<close>

lemma linv_free:
  assumes inv: "linv t tab H m ps" and ok: "tramp_ok t" and i: "i < length tab" "r_pool (tab ! i) \<noteq> 0" "r_used (tab ! i) = 0"
    and r: "r_pool r = 0" "r_used r = 0" "\<not> r_live r"
  shows "linv t (tab[i := r]) (H - {r_pool (tab ! i)}) m ps"
proof -
  have tsz: "0 < cng_tramp_size t" using ok by (auto simp: tramp_ok_def)
  have others: "region_ok (H - {r_pool (tab ! i)}) (tab ! j)" if j: "j < length tab" "j \<noteq> i" for j
  proof -
    have "r_pool (tab ! j) \<noteq> r_pool (tab ! i)" if "r_pool (tab ! j) \<noteq> 0"
      using pools_apart [OF inv j(1) i(1) j(2) that i(2)] not_apart_self by metis
    then show ?thesis using region_at [OF inv j(1)] by (auto simp: region_ok_def)
  qed
  have reg: "region_ok (H - {r_pool (tab ! i)}) r'" if r': "r' \<in> set (tab[i := r])" for r'
  proof -
    obtain j where j: "j < length tab" "r' = tab[i := r] ! j" using r' by (metis in_set_conv_nth length_list_update)
    show ?thesis
    proof (cases "j = i")
      case True
      then show ?thesis using j i(1) r by (simp add: region_ok_def)
    next
      case False
      then show ?thesis using j others by simp
    qed
  qed
  have "patch_ok t (tab[i := r]) m a" if a: "a \<in> ps" for a
  proof -
    obtain site w where sw: "a = (site, w)" by (cases a)
    have "patch_ok t tab m a" using inv a by (simp add: linv_def)
    then obtain j k where b: "is_b w" and j: "j < length tab" "r_pool (tab ! j) \<noteq> 0" "k + cng_tramp_size t \<le> r_used (tab ! j)"
        "b_target site w = int (r_pool (tab ! j) + k)" "tramp_for t m (r_pool (tab ! j) + k) site"
      unfolding patch_ok_def sw prod.case by (metis in_set_conv_nth)
    then have "j \<noteq> i" using i(3) tsz by auto
    then show ?thesis unfolding patch_ok_def sw prod.case
      using b j in_update [OF j(1)] by (intro conjI exI [of _ "tab ! j"] exI [of _ k]) simp_all
  qed
  moreover have "pools_known (H - {r_pool (tab ! i)}) (tab[i := r])"
    unfolding pools_known_def using pool_still [OF inv _ i(1)] by blast
  ultimately show ?thesis using inv reg pools_differ_free [OF _ i(1) r(1)] by (simp add: linv_def)
qed

section \<open>The operations keep it\<close>

definition lazy_inv :: "lenv \<Rightarrow> lazy_st \<Rightarrow> (nat \<times> u32) set \<Rightarrow> bool" where
  "lazy_inv e s ps \<longleftrightarrow> linv (e_tramp e) (g_lazy s) (held (l_log s)) (l_mem s) ps \<and>
     (\<forall>i. g_lazy_last s = Some i \<longrightarrow> i < length (g_lazy s))"

lemma lazy_inv_frame:
  "lazy_inv e s ps \<Longrightarrow> g_lazy s' = g_lazy s \<Longrightarrow> g_lazy_last s' = g_lazy_last s \<Longrightarrow> held (l_log s') = held (l_log s) \<Longrightarrow>
   l_mem s' = l_mem s \<Longrightarrow> lazy_inv e s' ps"
  by (simp add: lazy_inv_def)

lemma region_index_in: "region_index site k rs = Some i \<Longrightarrow> k \<le> i \<and> i < k + length rs \<and> in_region site (rs ! (i - k))"
proof (induction rs arbitrary: k)
  case (Cons r rs)
  show ?case
  proof (cases "in_region site r")
    case False
    then have "k + 1 \<le> i \<and> i < k + 1 + length rs \<and> in_region site (rs ! (i - (k + 1)))"
      using Cons.IH [of "k + 1"] Cons.prems by simp
    then show ?thesis by (simp add: nth_Cons')
  qed (use Cons.prems in simp)
qed simp

lemma lazy_known_spec:
  assumes "lazy_inv e s ps" "lazy_known site s = (k, s')"
  shows "lazy_inv e s' ps \<and> l_mem s' = l_mem s \<and> l_log s' = l_log s \<and> g_lazy s' = g_lazy s \<and>
    (\<forall>i. k = Some i \<longrightarrow> i < length (g_lazy s))"
proof -
  have i: "j < length (g_lazy s)" if "region_index site 0 (g_lazy s) = Some j" for j
    using region_index_in [OF that] by simp
  show ?thesis
    using assms i by (auto simp: lazy_known_def lazy_inv_def split: option.splits if_splits)
qed

lemma lazy_add_spec:
  assumes inv: "lazy_inv e s ps" and f: "mmap_fresh site h" and a: "lazy_add e h lo hi usable hole s = (k, s')"
    and out: "\<forall>p \<in> held (l_log s). outside site p"
  shows "lazy_inv e s' ps \<and> l_mem s' = l_mem s \<and> (\<forall>p \<in> held (l_log s'). outside site p) \<and>
    (\<forall>i. k = Some i \<longrightarrow> i < length (g_lazy s'))"
proof (cases "h_tab h (l_log s) (length (g_lazy s))")
  case False
  then show ?thesis using a out lazy_inv_frame [OF inv, of "logged E_tab s"] by (auto simp: lazy_add_def Let_def)
next
  case True
  obtain p s1 where p: "(if usable then lazy_pool e h lo hi hole (logged E_tab s) else (0, logged E_tab s)) = (p, s1)" by fastforce
  have pl: "placed site p (logged E_tab s) s1"
    using p placed_pool [OF f] placed_none by (auto split: if_splits)
  let ?r = "\<lparr>r_lo = lo, r_hi = hi, r_pool = p, r_used = 0, r_live = (p \<noteq> 0)\<rparr>"
  have s': "k = Some (length (g_lazy s))" "s' = s1\<lparr>g_lazy := g_lazy s1 @ [?r]\<rparr>"
    using a True unfolding lazy_add_def Let_def p by simp_all
  have g: "g_lazy s1 = g_lazy s" "g_lazy_last s1 = g_lazy_last s" "l_mem s1 = l_mem s"
      "held (l_log s1) = (if p = 0 then {} else {p}) \<union> held (l_log s)" "p \<noteq> 0 \<Longrightarrow> outside site p"
      "\<forall>q \<in> held (l_log s). p \<noteq> 0 \<longrightarrow> apart p q"
    using pl by (auto simp: placed_def)
  have li: "linv (e_tramp e) (g_lazy s) (held (l_log s)) (l_mem s) ps"
    and la: "\<forall>i. g_lazy_last s = Some i \<longrightarrow> i < length (g_lazy s)" using inv by (simp_all add: lazy_inv_def)
  have "linv (e_tramp e) (g_lazy s @ [?r]) ((if p = 0 then {} else {p}) \<union> held (l_log s)) (l_mem s) ps"
    by (rule linv_add [OF li g(6) refl])
  then have "lazy_inv e s' ps" unfolding lazy_inv_def s'(2) using la by (simp add: g less_Suc_eq)
  moreover have "\<forall>p' \<in> held (l_log s'). outside site p'" unfolding s'(2) using g(4,5) out by (simp split: if_splits)
  ultimately show ?thesis unfolding s' using g by simp
qed

text \<open>What writing one trampoline does: a slot past the used part of the entry's pool, in reach of the site, and nothing else.\<close>

definition emitted :: "lenv \<Rightarrow> nat \<Rightarrow> nat \<Rightarrow> nat \<Rightarrow> lazy_st \<Rightarrow> lazy_st \<Rightarrow> bool" where
  "emitted e i site slot s s' \<longleftrightarrow>
     slot = r_pool (g_lazy s ! i) + r_used (g_lazy s ! i) \<and> b_insn site slot \<noteq> 0 \<and> tramp_for (e_tramp e) (l_mem s') slot site \<and>
     r_pool (g_lazy s' ! i) = r_pool (g_lazy s ! i) \<and> r_used (g_lazy s' ! i) = r_used (g_lazy s ! i) + cng_tramp_size (e_tramp e) \<and>
     (\<forall>x. x < slot \<or> slot + cng_tramp_size (e_tramp e) \<le> x \<longrightarrow> l_mem s' x = l_mem s x)"

lemma lazy_emit_spec:
  assumes inv: "lazy_inv e s ps" and ok: "tramp_ok (e_tramp e)" and i: "i < length (g_lazy s)" "r_pool (g_lazy s ! i) \<noteq> 0"
    and em: "lazy_emit e h i site s = (slot, s')"
  shows "lazy_inv e s' ps" "held (l_log s') = held (l_log s)" "length (g_lazy s') = length (g_lazy s)"
    "slot = 0 \<Longrightarrow> l_mem s' = l_mem s" "slot \<noteq> 0 \<Longrightarrow> emitted e i site slot s s'"
proof -
  let ?r = "g_lazy s ! i" and ?tsz = "cng_tramp_size (e_tramp e)"
  let ?sl = "r_pool ?r + r_used ?r"
  let ?p0 = "page_down e ?sl" and ?p1 = "page_up e (?sl + ?tsz)"
  let ?rwx = "CNG_PROT_READ OR CNG_PROT_WRITE OR CNG_PROT_EXEC" and ?rx = "CNG_PROT_READ OR CNG_PROT_EXEC"
  have "lazy_inv e s' ps \<and> held (l_log s') = held (l_log s) \<and> length (g_lazy s') = length (g_lazy s) \<and>
      (slot = 0 \<longrightarrow> l_mem s' = l_mem s) \<and> (slot \<noteq> 0 \<longrightarrow> emitted e i site slot s s')"
  proof (cases "r_used ?r + ?tsz > LAZY_POOL \<or> b_insn site ?sl = 0")
    case True
    then have "(slot, s') = (0, s)" using em unfolding lazy_emit_def Let_def by (simp split: if_splits)
    then show ?thesis using inv by simp
  next
    case go: False
    obtain okp s1 where m: "sys_mprotect h ?p0 (?p1 - ?p0) ?rwx s = (okp, s1)" by fastforce
    have keeps: "g_lazy s1 = g_lazy s" "g_lazy_last s1 = g_lazy_last s" "l_mem s1 = l_mem s" "held (l_log s1) = held (l_log s)"
      using mprotect_keeps [of h ?p0 "?p1 - ?p0" ?rwx s] m by simp_all
    have em': "lazy_emit e h i site s =
        (if \<not> okp then (0, s1)
         else let (got, s) = (case emit (e_tramp e) (l_mem s1) (r_pool ?r) LAZY_POOL (r_used ?r) (site + 4) of
               None \<Rightarrow> (0, s1)
             | Some (got, used, m) \<Rightarrow> (got, s1\<lparr>l_mem := m, g_lazy := (g_lazy s1)[i := ?r\<lparr>r_used := used\<rparr>]\<rparr>))
           in (got, snd (sys_mprotect h ?p0 (?p1 - ?p0) ?rx s)))"
      using go unfolding lazy_emit_def Let_def m prod.case by simp
    show ?thesis
    proof (cases "okp \<and> emit (e_tramp e) (l_mem s) (r_pool ?r) LAZY_POOL (r_used ?r) (site + 4) \<noteq> None")
      case False
      then have z: "slot = 0" "s' = s1 \<or> s' = snd (sys_mprotect h ?p0 (?p1 - ?p0) ?rx s1)"
        using em unfolding em' keeps(3) Let_def by (auto split: option.splits if_splits)
      from z(2) have "g_lazy s' = g_lazy s \<and> g_lazy_last s' = g_lazy_last s \<and> l_mem s' = l_mem s \<and> held (l_log s') = held (l_log s)"
      proof
        assume "s' = s1"
        then show ?thesis using keeps by simp
      next
        assume "s' = snd (sys_mprotect h ?p0 (?p1 - ?p0) ?rx s1)"
        then show ?thesis using keeps by simp
      qed
      with z(1) show ?thesis using lazy_inv_frame [OF inv, of s'] by simp
    next
      case True
      then obtain got used m' where e1: "emit (e_tramp e) (l_mem s) (r_pool ?r) LAZY_POOL (r_used ?r) (site + 4) = Some (got, used, m')"
        by auto
      note es = emit_spec [OF e1 ok]
      let ?r' = "?r\<lparr>r_used := used\<rparr>"
      have s': "slot = got" "s' = snd (sys_mprotect h ?p0 (?p1 - ?p0) ?rx (s1\<lparr>l_mem := m', g_lazy := (g_lazy s)[i := ?r']\<rparr>))"
        using em True unfolding em' keeps(1,3) e1 Let_def by simp_all
      have f: "g_lazy s' = (g_lazy s)[i := ?r']" "g_lazy_last s' = g_lazy_last s" "l_mem s' = m'" "held (l_log s') = held (l_log s)"
        unfolding s'(2) using keeps by simp_all
      have li: "linv (e_tramp e) (g_lazy s) (held (l_log s)) (l_mem s) ps" using inv by (simp add: lazy_inv_def)
      have "linv (e_tramp e) ((g_lazy s)[i := ?r']) (held (l_log s)) m' ps"
        using es by (intro linv_use [OF li ok i]) auto
      then have "lazy_inv e s' ps" using inv by (simp add: lazy_inv_def f)
      moreover have "emitted e i site slot s s'"
        using es go i(1) s'(1) by (simp add: emitted_def f)
      moreover have "slot \<noteq> 0" using es(1) s'(1) i(2) by simp
      ultimately show ?thesis by (simp add: f)
    qed
  qed
  then show "lazy_inv e s' ps" "held (l_log s') = held (l_log s)" "length (g_lazy s') = length (g_lazy s)"
    "slot = 0 \<Longrightarrow> l_mem s' = l_mem s" "slot \<noteq> 0 \<Longrightarrow> emitted e i site slot s s'" by blast+
qed

lemma lazy_close_inv:
  assumes inv: "lazy_inv e s ps" and ok: "tramp_ok (e_tramp e)" and i: "i < length (g_lazy s)"
  shows "lazy_inv e (lazy_close i s) ps"
proof -
  let ?r = "(g_lazy s ! i)\<lparr>r_live := False\<rparr>"
  have li: "linv (e_tramp e) (g_lazy s) (held (l_log s)) (l_mem s) ps"
    and la: "\<forall>i. g_lazy_last s = Some i \<longrightarrow> i < length (g_lazy s)" using inv by (simp_all add: lazy_inv_def)
  show ?thesis
  proof (cases "r_pool ?r \<noteq> 0 \<and> r_used ?r = 0")
    case True
    then have "linv (e_tramp e) ((g_lazy s)[i := ?r\<lparr>r_pool := 0\<rparr>]) (held (l_log s) - {r_pool (g_lazy s ! i)}) (l_mem s) ps"
      by (intro linv_free [OF li ok i]) simp_all
    then show ?thesis using True la by (simp add: lazy_close_def Let_def lazy_inv_def logged_def)
  next
    case False
    have "linv (e_tramp e) ((g_lazy s)[i := ?r]) (held (l_log s)) (l_mem s) ps"
    proof (cases "r_pool (g_lazy s ! i) = 0")
      case True
      have "\<not> r_live (g_lazy s ! i)" using region_at [OF li i] True by (simp add: region_ok_def)
      then have "?r = g_lazy s ! i" by simp
      then show ?thesis using li by (metis list_update_id)
    next
      case nz: False
      show ?thesis using region_at [OF li i] by (intro linv_use [OF li ok i nz]) (simp_all add: region_ok_def)
    qed
    then show ?thesis using False la by (auto simp: lazy_close_def Let_def lazy_inv_def)
  qed
qed

section \<open>Patching one site\<close>

definition in_held :: "lazy_st \<Rightarrow> nat \<Rightarrow> bool" where
  "in_held s x \<longleftrightarrow> (\<exists>p \<in> held (l_log s). p \<le> x \<and> x < p + LAZY_POOL)"

text \<open>
  A store that was made: the site's word is a branch to a trampoline for the site, which lies in a pool that is held; no other word
  changed but those of the trampoline; and a page that could not be written was given write for the one \<open>pwrite64\<close> and then the
  protection it had.
\<close>

definition store_done :: "lenv \<Rightarrow> nat \<Rightarrow> u32 \<Rightarrow> lazy_st \<Rightarrow> lazy_st \<Rightarrow> bool" where
  "store_done e site prot s s' \<longleftrightarrow>
     (\<exists>slot p. p \<in> held (l_log s') \<and> p \<le> slot \<and> slot + cng_tramp_size (e_tramp e) \<le> p + LAZY_POOL \<and>
        is_b (l_mem s' site) \<and> b_target site (l_mem s' site) = int slot \<and> tramp_for (e_tramp e) (l_mem s') slot site \<and>
        (\<forall>x. x \<noteq> site \<longrightarrow> x < slot \<or> slot + cng_tramp_size (e_tramp e) \<le> x \<longrightarrow> l_mem s' x = l_mem s x)) \<and>
     (let p0 = page_down e site; n = page_up e (site + 4) - p0 in
      if prot AND CNG_PROT_WRITE = 0
      then take 3 (l_log s') = [E_mprotect p0 n prot, E_pwrite site (l_mem s' site), E_mprotect p0 n (prot OR CNG_PROT_WRITE)]
      else take 1 (l_log s') = [E_pwrite site (l_mem s' site)])"

definition store_failed :: "nat \<Rightarrow> lazy_st \<Rightarrow> lazy_st \<Rightarrow> bool" where
  "store_failed i s s' \<longleftrightarrow> l_mem s' = l_mem s \<or>
     0 < r_used (g_lazy s' ! i) \<and> r_pool (g_lazy s' ! i) \<noteq> 0 \<and> r_pool (g_lazy s' ! i) \<in> held (l_log s') \<and>
     (\<forall>x. x < r_pool (g_lazy s' ! i) \<or> r_pool (g_lazy s' ! i) + LAZY_POOL \<le> x \<longrightarrow> l_mem s' x = l_mem s x)"

lemma emitted_pool:
  assumes "lazy_inv e s' ps" "tramp_ok (e_tramp e)" "i < length (g_lazy s')" "r_pool (g_lazy s ! i) \<noteq> 0" "emitted e i site slot s s'"
  shows "r_pool (g_lazy s' ! i) \<in> held (l_log s')" "r_pool (g_lazy s' ! i) \<le> slot"
    "slot + cng_tramp_size (e_tramp e) \<le> r_pool (g_lazy s' ! i) + LAZY_POOL" "0 < r_used (g_lazy s' ! i)"
    "r_pool (g_lazy s' ! i) \<noteq> 0" "slot \<noteq> 0"
proof -
  have "region_ok (held (l_log s')) (g_lazy s' ! i)" using assms(1,3) by (auto simp: lazy_inv_def intro: region_at)
  then show "r_pool (g_lazy s' ! i) \<in> held (l_log s')" "r_pool (g_lazy s' ! i) \<le> slot"
    "slot + cng_tramp_size (e_tramp e) \<le> r_pool (g_lazy s' ! i) + LAZY_POOL" "0 < r_used (g_lazy s' ! i)"
    "r_pool (g_lazy s' ! i) \<noteq> 0" "slot \<noteq> 0"
    using assms(2,4,5) by (auto simp: region_ok_def emitted_def tramp_ok_def)
qed

text \<open>Adding the patch that was just made.\<close>

lemma lazy_inv_patch:
  assumes inv: "lazy_inv e s1 ps" and ok: "tramp_ok (e_tramp e)" and i: "i < length (g_lazy s1)" "r_pool (g_lazy s ! i) \<noteq> 0"
    and em: "emitted e i site slot s s1" and out: "\<forall>p \<in> held (l_log s1). outside site p"
    and s2: "g_lazy s2 = g_lazy s1" "g_lazy_last s2 = g_lazy_last s1" "held (l_log s2) = held (l_log s1)"
      "l_mem s2 = (l_mem s1)(site := b_insn site slot)"
  shows "lazy_inv e s2 (insert (site, b_insn site slot) ps)" "tramp_for (e_tramp e) (l_mem s2) slot site"
    "is_b (b_insn site slot)" "b_target site (b_insn site slot) = int slot"
proof -
  note pool = emitted_pool [OF inv ok i em]
  have same: "l_mem s2 x = l_mem s1 x" if "p \<in> held (l_log s1)" "p \<le> x" "x < p + LAZY_POOL" for x p
    using that out s2(4) by (auto simp: outside_def)
  have li: "linv (e_tramp e) (g_lazy s1) (held (l_log s1)) (l_mem s1) ps" using inv by (simp add: lazy_inv_def)
  have "linv (e_tramp e) (g_lazy s1) (held (l_log s1)) (l_mem s2) ps" using same by (rule linv_mem [OF li ok])
  have tf: "tramp_for (e_tramp e) (l_mem s2) slot site"
  proof -
    have "tramp_for (e_tramp e) (l_mem s2) slot site = tramp_for (e_tramp e) (l_mem s1) slot site"
      using pool by (intro tramp_for_cong [OF _ ok] same [OF pool(1)]) auto
    then show ?thesis using em unfolding emitted_def by blast
  qed
  have "b_insn site slot \<noteq> 0" using em unfolding emitted_def by blast
  then have "reaches site slot" by (simp add: b_insn_nz)
  then have b: "is_b (b_insn site slot)" "b_target site (b_insn site slot) = int slot" using b_insn_lands by auto
  have "patch_ok (e_tramp e) (g_lazy s1) (l_mem s2) (site, b_insn site slot)"
  proof -
    let ?r = "g_lazy s1 ! i"
    obtain k where k: "slot = r_pool ?r + k" "k + cng_tramp_size (e_tramp e) \<le> r_used ?r" using em by (auto simp: emitted_def)
    then show ?thesis unfolding patch_ok_def prod.case
      using nth_mem [OF i(1)] pool(5) b tf by (intro conjI exI [of _ ?r] exI [of _ k]) simp_all
  qed
  then have "linv (e_tramp e) (g_lazy s1) (held (l_log s1)) (l_mem s2) (insert (site, b_insn site slot) ps)"
    using \<open>linv (e_tramp e) (g_lazy s1) (held (l_log s1)) (l_mem s2) ps\<close> by (simp add: linv_def)
  then show "lazy_inv e s2 (insert (site, b_insn site slot) ps)" using inv by (simp add: lazy_inv_def s2)
  show "tramp_for (e_tramp e) (l_mem s2) slot site" "is_b (b_insn site slot)" "b_target site (b_insn site slot) = int slot"
    using tf b by simp_all
qed

definition after :: "leave \<Rightarrow> nat \<Rightarrow> lazy_st \<Rightarrow> (nat \<times> u32) set \<Rightarrow> (nat \<times> u32) set" where
  "after l site s ps = (if l = L_out True then insert (site, l_mem s site) ps else ps)"

lemma lazy_store_spec:
  assumes inv: "lazy_inv e s ps" and ok: "tramp_ok (e_tramp e)" and i: "i < length (g_lazy s)" "r_pool (g_lazy s ! i) \<noteq> 0"
    and out: "\<forall>p \<in> held (l_log s). outside site p" and st: "lazy_store e h i site prot s = (l, s')"
  shows "lazy_inv e s' (after l site s' ps)" "length (g_lazy s') = length (g_lazy s)"
    "l = L_close \<and> store_failed i s s' \<or> l = L_out True \<and> store_done e site prot s s'"
proof -
  obtain slot s1 where em: "lazy_emit e h i site s = (slot, s1)" by fastforce
  note sp = lazy_emit_spec [OF inv ok i em]
  have "lazy_inv e s' (after l site s' ps) \<and> length (g_lazy s') = length (g_lazy s) \<and>
      (l = L_close \<and> store_failed i s s' \<or> l = L_out True \<and> store_done e site prot s s')"
  proof (cases "slot = 0")
    case True
    then have "l = L_close" "s' = s1" using st unfolding lazy_store_def em by simp_all
    then show ?thesis using sp True by (simp add: after_def store_failed_def)
  next
    case False
    note e1 = sp(5) [OF False]
    have i1: "i < length (g_lazy s1)" using sp(3) i(1) by simp
    note pool = emitted_pool [OF sp(1) ok i1 i(2) e1]
    have br: "b_insn site slot \<noteq> 0" using e1 unfolding emitted_def by blast
    have rest: "l_mem s1 x = l_mem s x" if "x < slot \<or> slot + cng_tramp_size (e_tramp e) \<le> x" for x
      using e1 that unfolding emitted_def by blast
    let ?p0 = "page_down e site"
    let ?n = "page_up e (site + 4) - ?p0"
    let ?w = "prot AND CNG_PROT_WRITE = 0"
    obtain okp s2 where m: "(if ?w then sys_mprotect h ?p0 ?n (prot OR CNG_PROT_WRITE) s1 else (True, s1)) = (okp, s2)" by fastforce
    have s2: "g_lazy s2 = g_lazy s1" "g_lazy_last s2 = g_lazy_last s1" "l_mem s2 = l_mem s1" "held (l_log s2) = held (l_log s1)"
        "l_log s2 = (if ?w then [E_mprotect ?p0 ?n (prot OR CNG_PROT_WRITE)] else []) @ l_log s1"
      using m by (auto simp: sys_mprotect_def logged_def split: if_splits)
    have inv2: "lazy_inv e s2 ps" by (rule lazy_inv_frame [OF sp(1) s2(1,2,4,3)])
    have failed: "store_failed i s s3" if "g_lazy s3 = g_lazy s1" "l_mem s3 = l_mem s1" "held (l_log s3) = held (l_log s1)" for s3
      using pool rest that unfolding store_failed_def by auto
    show ?thesis
    proof (cases okp)
      case False
      then have "l = L_close" "s' = s2"
        using st br \<open>slot \<noteq> 0\<close> unfolding lazy_store_def em prod.case Let_def m by simp_all
      then show ?thesis using inv2 s2 failed sp(3) by (simp add: after_def)
    next
      case True
      let ?s3 = "logged (E_pwrite site (b_insn site slot)) s2"
      let ?s4 = "if h_pwrite h (l_log s2) site (b_insn site slot) then ?s3\<lparr>l_mem := (l_mem ?s3)(site := b_insn site slot)\<rparr> else ?s3"
      have s': "s' = (if ?w then snd (sys_mprotect h ?p0 ?n prot ?s4) else ?s4)"
          "l = (if h_pwrite h (l_log s2) site (b_insn site slot) then L_out True else L_close)"
        using st br \<open>slot \<noteq> 0\<close> True unfolding lazy_store_def em prod.case Let_def m by (simp_all split: if_splits)
      have f: "g_lazy s' = g_lazy s1" "g_lazy_last s' = g_lazy_last s1" "held (l_log s') = held (l_log s1)"
        using s2 unfolding s'(1) by (simp_all split: if_splits)
      have lg: "l_log s' = (if ?w then [E_mprotect ?p0 ?n prot] else []) @ E_pwrite site (b_insn site slot) # l_log s2"
        unfolding s'(1) by (simp add: sys_mprotect_def logged_def split: if_splits)
      show ?thesis
      proof (cases "h_pwrite h (l_log s2) site (b_insn site slot)")
        case False
        then have "l = L_close" "l_mem s' = l_mem s1" using s2 unfolding s' by (simp_all split: if_splits)
        then show ?thesis using lazy_inv_frame [OF sp(1) f(1,2,3)] failed f sp(3) by (simp add: after_def)
      next
        case True
        then have l: "l = L_out True" and mem: "l_mem s' = (l_mem s1)(site := b_insn site slot)"
          using s2 unfolding s' by (simp_all split: if_splits)
        have out1: "\<forall>p \<in> held (l_log s1). outside site p" using out sp(2) by simp
        note ip = lazy_inv_patch [OF sp(1) ok i1 i(2) e1 out1 f mem]
        have w: "l_mem s' site = b_insn site slot" by (simp add: mem)
        have "store_done e site prot s s'"
          unfolding store_done_def
        proof (intro conjI exI)
          show "r_pool (g_lazy s1 ! i) \<in> held (l_log s')" using pool(1) f(3) by simp
          show "r_pool (g_lazy s1 ! i) \<le> slot" "slot + cng_tramp_size (e_tramp e) \<le> r_pool (g_lazy s1 ! i) + LAZY_POOL"
            by (rule pool(2), rule pool(3))
          show "is_b (l_mem s' site)" "b_target site (l_mem s' site) = int slot" "tramp_for (e_tramp e) (l_mem s') slot site"
            using ip(2-4) w by simp_all
          show "\<forall>x. x \<noteq> site \<longrightarrow> x < slot \<or> slot + cng_tramp_size (e_tramp e) \<le> x \<longrightarrow> l_mem s' x = l_mem s x"
            using rest by (simp add: mem)
          show "let p0 = page_down e site; n = page_up e (site + 4) - p0 in
              if prot AND CNG_PROT_WRITE = 0
              then take 3 (l_log s') = [E_mprotect p0 n prot, E_pwrite site (l_mem s' site), E_mprotect p0 n (prot OR CNG_PROT_WRITE)]
              else take 1 (l_log s') = [E_pwrite site (l_mem s' site)]"
            unfolding Let_def w lg s2(5) by (simp add: numeral_3_eq_3)
        qed
        then show ?thesis using ip(1) l w f(1) sp(3) by (simp add: after_def)
      qed
    qed
  qed
  then show "lazy_inv e s' (after l site s' ps)" "length (g_lazy s') = length (g_lazy s)"
    "l = L_close \<and> store_failed i s s' \<or> l = L_out True \<and> store_done e site prot s s'" by blast+
qed

text \<open>The survey of the mappings this call made, on the text the kernel gave it at some point of the call.\<close>

definition surveyed :: "lhost \<Rightarrow> nat \<Rightarrow> survey \<Rightarrow> lazy_st \<Rightarrow> bool" where
  "surveyed h site v s \<longleftrightarrow> (\<exists>log t. h_maps h log = Some t \<and> v = lazy_vma (h_rd h log) t (of_nat site) \<and> suffix (E_open_maps # log) (l_log s))"

lemma site_vma_spec:
  assumes "site_vma h site s = (v, s')"
  shows "g_lazy s' = g_lazy s" "g_lazy_last s' = g_lazy_last s" "l_mem s' = l_mem s" "held (l_log s') = held (l_log s)"
    "v_found v \<Longrightarrow> surveyed h site v s'"
proof -
  show "g_lazy s' = g_lazy s" "g_lazy_last s' = g_lazy_last s" "l_mem s' = l_mem s" "held (l_log s') = held (l_log s)"
    using assms by (auto simp: site_vma_def Let_def split: option.splits)
  assume f: "v_found v"
  show "surveyed h site v s'"
  proof (cases "h_maps h (l_log s)")
    case None
    then show ?thesis using assms f by (auto simp: site_vma_def survey0_def)
  next
    case (Some t)
    then have "v = lazy_vma (h_rd h (l_log s)) t (of_nat site)" "l_log s' = E_open_maps # l_log s"
      using assms by (auto simp: site_vma_def logged_def)
    then show ?thesis unfolding surveyed_def using Some by (intro exI [of _ "l_log s"] exI [of _ t]) simp
  qed
qed

lemma site_vma_log: "site_vma h site s = (v, s') \<Longrightarrow> suffix (l_log s) (l_log s')"
  by (auto simp: site_vma_def Let_def logged_def suffix_def split: option.splits)

lemma mem_open_keeps:
  assumes "lazy_mem_open h s = (r, s')"
  shows "g_lazy s' = g_lazy s" "g_lazy_last s' = g_lazy_last s" "l_mem s' = l_mem s" "held (l_log s') = held (l_log s)"
    "suffix (l_log s) (l_log s')"
  using assms by (auto simp: lazy_mem_open_def Let_def logged_def suffix_def split: if_splits)

lemma surveyed_mono: "surveyed h site v s \<Longrightarrow> suffix (l_log s) (l_log s') \<Longrightarrow> surveyed h site v s'"
  unfolding surveyed_def by (elim exE, rule exI, rule exI) (auto intro: suffix_order.trans)

lemma mprotect_log: "suffix (l_log s) (l_log (snd (sys_mprotect h a n pr s)))"
  by (simp add: sys_mprotect_def logged_def suffix_ConsI)

lemma lazy_emit_log: "lazy_emit e h i site s = (slot, s') \<Longrightarrow> suffix (l_log s) (l_log s')"
  by (auto simp: lazy_emit_def Let_def sys_mprotect_def logged_def suffix_def split: if_splits option.splits)

lemma lazy_store_log:
  assumes "lazy_store e h i site prot s = (l, s')"
  shows "suffix (l_log s) (l_log s')"
proof -
  obtain slot s1 where em: "lazy_emit e h i site s = (slot, s1)" by fastforce
  have "suffix (l_log s1) (l_log s')"
    using assms unfolding lazy_store_def em prod.case Let_def
    by (auto simp: sys_mprotect_def logged_def suffix_def split: if_splits)
  then show ?thesis using lazy_emit_log [OF em] suffix_order.trans by blast
qed

text \<open>A successful patch, and what a call that patched nothing leaves of memory.\<close>

definition patch_done :: "lenv \<Rightarrow> lhost \<Rightarrow> nat \<Rightarrow> lazy_st \<Rightarrow> lazy_st \<Rightarrow> bool" where
  "patch_done e h site s s' \<longleftrightarrow> l_mem s site = SVC0_INSN \<and>
     (\<exists>v. surveyed h site v s' \<and> v_found v \<and> lazy_usable (v_prot v) (v_shared v) \<and> store_done e site (v_prot v) s s')"

lemma store_done_frame: "store_done e site prot s s' \<Longrightarrow> l_mem s0 = l_mem s \<Longrightarrow> store_done e site prot s0 s'"
  unfolding store_done_def by simp

lemma patch_done_frame:
  "l_mem s0 = l_mem s \<Longrightarrow> l_mem s1 = l_mem s' \<Longrightarrow> l_log s1 = l_log s' \<Longrightarrow> patch_done e h site s0 s1 = patch_done e h site s s'"
  by (simp only: patch_done_def store_done_def surveyed_def)

lemma lazy_patch_spec:
  assumes inv: "lazy_inv e s ps" and ok: "tramp_ok (e_tramp e)" and i: "i < length (g_lazy s)" "r_pool (g_lazy s ! i) \<noteq> 0"
    and out: "\<forall>p \<in> held (l_log s). outside site p" and fr: "\<forall>v. fresh = Some v \<longrightarrow> surveyed h site v s"
    and pt: "lazy_patch e h i site fresh s = (l, s')"
  shows "lazy_inv e s' (after l site s' ps)" "length (g_lazy s') = length (g_lazy s)"
    "l = L_close \<and> store_failed i s s' \<or> l = L_out False \<and> l_mem s' = l_mem s \<or> l = L_out True \<and> patch_done e h site s s'"
proof -
  obtain okm s1 where m: "lazy_mem_open h s = (okm, s1)" by fastforce
  note k1 = mem_open_keeps [OF m]
  let ?s2 = "logged (E_pread site) s1"
  obtain v s3 where v: "(case fresh of Some v \<Rightarrow> (v, ?s2) | None \<Rightarrow> site_vma h site ?s2) = (v, s3)" by fastforce
  have k2: "suffix (l_log s) (l_log ?s2)" using k1(5) by (simp add: logged_def suffix_ConsI)
  have k3: "g_lazy s3 = g_lazy s" "g_lazy_last s3 = g_lazy_last s" "l_mem s3 = l_mem s" "held (l_log s3) = held (l_log s)"
  proof -
    have "g_lazy s3 = g_lazy s \<and> g_lazy_last s3 = g_lazy_last s \<and> l_mem s3 = l_mem s \<and> held (l_log s3) = held (l_log s)"
    proof (cases fresh)
      case None
      then have sv: "site_vma h site ?s2 = (v, s3)" using v by simp
      show ?thesis using site_vma_spec(1-4) [OF sv] k1(1-4) by simp
    next
      case (Some w)
      then have "s3 = ?s2" using v by simp
      then show ?thesis using k1(1-4) by simp
    qed
    then show "g_lazy s3 = g_lazy s" "g_lazy_last s3 = g_lazy_last s" "l_mem s3 = l_mem s" "held (l_log s3) = held (l_log s)" by blast+
  qed
  have sv: "surveyed h site v s3" if "v_found v"
  proof (cases fresh)
    case None
    then show ?thesis using v site_vma_spec(5) that by simp
  next
    case (Some w)
    then show ?thesis using v fr surveyed_mono k2 by fastforce
  qed
  have inv3: "lazy_inv e s3 ps" by (rule lazy_inv_frame [OF inv k3(1,2,4,3)])
  have left_alone: "store_failed i s s''" if "l_mem s'' = l_mem s" for s'' using that by (simp add: store_failed_def)
  have "lazy_inv e s' (after l site s' ps) \<and> length (g_lazy s') = length (g_lazy s) \<and>
      (l = L_close \<and> store_failed i s s' \<or> l = L_out False \<and> l_mem s' = l_mem s \<or> l = L_out True \<and> patch_done e h site s s')"
  proof (cases "okm \<and> h_pread h (l_log s1) site \<and> l_mem s1 site = SVC0_INSN \<and> v_found v \<and> lazy_usable (v_prot v) (v_shared v)")
    case False
    then have "(l = L_out False \<or> l = L_close) \<and> (s' = s1 \<or> s' = ?s2 \<or> s' = s3)"
      using pt unfolding lazy_patch_def m prod.case Let_def v by (auto split: if_splits)
    then have l: "l = L_out False \<or> l = L_close" and s': "s' = s1 \<or> s' = ?s2 \<or> s' = s3" by blast+
    have f: "g_lazy s' = g_lazy s" "g_lazy_last s' = g_lazy_last s" "l_mem s' = l_mem s" "held (l_log s') = held (l_log s)"
      using s' k1(1-4) k3 held_logged(6) logged_keeps(1-3) by metis+
    have "lazy_inv e s' ps" by (rule lazy_inv_frame [OF inv f(1,2,4,3)])
    moreover have "after l site s' ps = ps" using l by (auto simp: after_def)
    ultimately show ?thesis
      using l f(1,3) left_alone [OF f(3)] by metis
  next
    case True
    then have st: "lazy_store e h i site (v_prot v) s3 = (l, s')"
      using pt unfolding lazy_patch_def m prod.case Let_def v by simp
    have i3: "i < length (g_lazy s3)" "r_pool (g_lazy s3 ! i) \<noteq> 0" "\<forall>p \<in> held (l_log s3). outside site p"
      using i out by (simp_all add: k3)
    note sp = lazy_store_spec [OF inv3 ok i3 st]
    have "store_failed i s s'" if "store_failed i s3 s'" using that by (simp add: store_failed_def k3)
    moreover have "patch_done e h site s s'" if d: "store_done e site (v_prot v) s3 s'"
    proof -
      have "surveyed h site v s'" using sv True surveyed_mono lazy_store_log [OF st] by blast
      then show ?thesis unfolding patch_done_def using True store_done_frame [OF d k3(3) [symmetric]] k1(3) by auto
    qed
    ultimately show ?thesis
      using sp k3(1) by auto
  qed
  then show "lazy_inv e s' (after l site s' ps)" "length (g_lazy s') = length (g_lazy s)"
    "l = L_close \<and> store_failed i s s' \<or> l = L_out False \<and> l_mem s' = l_mem s \<or> l = L_out True \<and> patch_done e h site s s'" by blast+
qed

section \<open>The whole call\<close>

lemma lazy_close_mem: "l_mem (lazy_close i s) = l_mem s"
  by (simp add: lazy_close_def Let_def)

text \<open>A pool with a trampoline in it is not given back.\<close>

lemma lazy_close_keeps:
  assumes inv: "lazy_inv e s ps" and i: "i < length (g_lazy s)" and u: "0 < r_used (g_lazy s ! i)"
  shows "held (l_log (lazy_close i s)) = held (l_log s)"
  using u by (simp add: lazy_close_def Let_def)

definition left_alone :: "lazy_st \<Rightarrow> lazy_st \<Rightarrow> bool" where
  "left_alone s s' \<longleftrightarrow> (\<forall>x. \<not> in_held s' x \<longrightarrow> l_mem s' x = l_mem s x)"

lemma failed_left_alone:
  assumes "lazy_inv e s' ps" "i < length (g_lazy s')" "store_failed i s s'"
  shows "left_alone s (lazy_close i s')"
proof (cases "l_mem s' = l_mem s")
  case True
  then show ?thesis by (simp add: left_alone_def lazy_close_mem)
next
  case False
  let ?p = "r_pool (g_lazy s' ! i)"
  have f: "0 < r_used (g_lazy s' ! i)" "?p \<in> held (l_log s')" "\<forall>x. x < ?p \<or> ?p + LAZY_POOL \<le> x \<longrightarrow> l_mem s' x = l_mem s x"
    using False assms(3) unfolding store_failed_def by blast+
  have "in_held (lazy_close i s') x" if "?p \<le> x" "x < ?p + LAZY_POOL" for x
    using that f(2) lazy_close_keeps [OF assms(1,2) f(1)] by (auto simp: in_held_def)
  then show ?thesis unfolding left_alone_def lazy_close_mem using f(3) by (meson not_le)
qed

text \<open>The table entry a call works on: the known one, or the one it has just made.\<close>

definition site_entry :: "lenv \<Rightarrow> lhost \<Rightarrow> nat \<Rightarrow> lazy_st \<Rightarrow> nat option \<times> survey option \<times> lazy_st" where
  "site_entry e h site s =
     (let (known, s) = lazy_known site s in
      case known of
        Some i \<Rightarrow> (Some i, None, s)
      | None \<Rightarrow>
          let (v, s) = site_vma h site s in
          if \<not> v_found v then (None, None, s)
          else let (r, s) = lazy_add e h (unat (v_lo v)) (unat (v_hi v)) (lazy_usable (v_prot v) (v_shared v)) (unat (v_best v)) s
            in (r, Some v, s))"

lemma lazy_pool_log: "lazy_pool e h lo hi hole s = (p, s') \<Longrightarrow> suffix (l_log s) (l_log s')"
proof -
  have tr: "suffix (l_log s) (l_log s')" if "pool_try e h lo hi want s = (p, s')" for want s p s'
    using that by (auto simp: pool_try_def cng_pool_at_def Let_def sys_mprotect_def logged_def suffix_def split: if_splits option.splits)
  have more: "suffix (l_log s) (l_log s2)"
    if "suffix (l_log s) (l_log s1)" "(if c then pool_try e h lo hi want s1 else (q, s1)) = (q', s2)" for q c want q' s1 s2
    using that tr [of want s1 q' s2] suffix_order.trans by (auto split: if_splits)
  assume l: "lazy_pool e h lo hi hole s = (p, s')"
  obtain p1 s1 where 1: "pool_try e h lo hi hole s = (p1, s1)" by fastforce
  obtain p2 s2 where 2: "(if p1 = 0 then pool_try e h lo hi hi s1 else (p1, s1)) = (p2, s2)" by fastforce
  obtain p3 s3 where 3: "(if p2 = 0 \<and> lo \<ge> LAZY_POOL then pool_try e h lo hi (lo - LAZY_POOL) s2 else (p2, s2)) = (p3, s3)" by fastforce
  obtain p4 s4 where 4: "(if p3 = 0 then pool_try e h lo hi 0 s3 else (p3, s3)) = (p4, s4)" by fastforce
  have "(p4, s4) = (p, s')" using l unfolding lazy_pool_def 1 prod.case Let_def 2 3 4 by simp
  then show "suffix (l_log s) (l_log s')" using more [OF more [OF more [OF tr [OF 1] 2] 3] 4] by simp
qed

lemma lazy_add_log:
  assumes "lazy_add e h lo hi usable hole s = (k, s')"
  shows "suffix (l_log s) (l_log s')"
proof -
  obtain p s1 where p: "(if usable then lazy_pool e h lo hi hole (logged E_tab s) else (0, logged E_tab s)) = (p, s1)" by fastforce
  have "suffix (l_log (logged E_tab s)) (l_log s1)" using p lazy_pool_log by (auto split: if_splits)
  moreover have "suffix (l_log s) (l_log (logged E_tab s))" by (simp add: logged_def suffix_ConsI)
  ultimately have "suffix (l_log s) (l_log s1)" by (rule suffix_order.trans [rotated])
  then show ?thesis using assms \<open>suffix (l_log s) (l_log (logged E_tab s))\<close>
    unfolding lazy_add_def Let_def p by (auto split: if_splits)
qed

lemma site_entry_spec:
  assumes inv: "lazy_inv e s ps" and f: "mmap_fresh site h" and out: "\<forall>p \<in> held (l_log s). outside site p"
    and se: "site_entry e h site s = (r, fresh, s')"
  shows "lazy_inv e s' ps" "l_mem s' = l_mem s" "\<forall>p \<in> held (l_log s'). outside site p"
    "\<And>i. r = Some i \<Longrightarrow> i < length (g_lazy s')" "\<And>v. r \<noteq> None \<Longrightarrow> fresh = Some v \<Longrightarrow> surveyed h site v s'"
proof -
  obtain known s1 where k: "lazy_known site s = (known, s1)" by fastforce
  note kn = lazy_known_spec [OF inv k]
  have "lazy_inv e s' ps \<and> l_mem s' = l_mem s \<and> (\<forall>p \<in> held (l_log s'). outside site p) \<and>
      (\<forall>i. r = Some i \<longrightarrow> i < length (g_lazy s')) \<and> (\<forall>v. r \<noteq> None \<longrightarrow> fresh = Some v \<longrightarrow> surveyed h site v s')"
  proof (cases known)
    case (Some i)
    then have "r = Some i" "fresh = None" "s' = s1" using se unfolding site_entry_def k by simp_all
    then show ?thesis using kn Some out by simp
  next
    case None
    obtain v s2 where v: "site_vma h site s1 = (v, s2)" by fastforce
    note sv = site_vma_spec [OF v]
    have inv2: "lazy_inv e s2 ps" using kn by (intro lazy_inv_frame [OF _ sv(1,2,4,3)]) simp
    have out2: "\<forall>p \<in> held (l_log s2). outside site p" using kn sv(4) out by simp
    show ?thesis
    proof (cases "v_found v")
      case False
      then have "r = None" "s' = s2" using se None unfolding site_entry_def k by (simp_all add: v)
      then show ?thesis using inv2 out2 kn sv(3) by simp
    next
      case True
      obtain r1 s3 where a: "lazy_add e h (unat (v_lo v)) (unat (v_hi v)) (lazy_usable (v_prot v) (v_shared v)) (unat (v_best v)) s2 = (r1, s3)"
        by fastforce
      have e1: "r = r1" "fresh = Some v" "s' = s3" using se None True unfolding site_entry_def k v Let_def prod.case a by simp_all
      note ad = lazy_add_spec [OF inv2 f a out2]
      have "surveyed h site v s3" using surveyed_mono [OF sv(5) [OF True] lazy_add_log [OF a]] .
      then show ?thesis using ad kn sv(3) by (simp add: e1)
    qed
  qed
  then show "lazy_inv e s' ps" "l_mem s' = l_mem s" "\<forall>p \<in> held (l_log s'). outside site p"
    "\<And>i. r = Some i \<Longrightarrow> i < length (g_lazy s')" "\<And>v. r \<noteq> None \<Longrightarrow> fresh = Some v \<Longrightarrow> surveyed h site v s'" by blast+
qed

lemma rewrite_site_entry:
  "cng_rewrite_site e h site s =
     (if \<not> e_rewrite e \<or> site mod 4 \<noteq> 0 \<or> g_lazy_off s \<or> g_lazy_busy s then (False, s)
      else let (r, fresh, s) = site_entry e h site (s\<lparr>g_lazy_busy := True\<rparr>);
             (done1, s) = (case r of None \<Rightarrow> (False, s)
                | Some i \<Rightarrow> if \<not> r_live (g_lazy s ! i) then (False, s)
                    else case lazy_patch e h i site fresh s of (L_out d, s) \<Rightarrow> (d, s) | (L_close, s) \<Rightarrow> (False, lazy_close i s))
        in (done1, s\<lparr>g_lazy_busy := False\<rparr>))"
  unfolding cng_rewrite_site_def site_entry_def Let_def
  by (simp split: prod.split)

text \<open>
  The call as a whole: the invariant holds afterwards of the sites patched before and of this one if it was patched; a
  call that patched made a good patch, and one that did not left memory alone outside the pools.
\<close>

lemma rewrite_site_spec:
  assumes inv: "lazy_inv e s ps" and ok: "tramp_ok (e_tramp e)" and f: "mmap_fresh site h"
    and out: "\<forall>p \<in> held (l_log s). outside site p" and c: "cng_rewrite_site e h site s = (d, s')"
  shows "lazy_inv e s' (if d then insert (site, l_mem s' site) ps else ps)"
    "if d then e_rewrite e \<and> 4 dvd site \<and> patch_done e h site s s' else left_alone s s'"
proof -
  have "lazy_inv e s' (if d then insert (site, l_mem s' site) ps else ps) \<and>
      (if d then e_rewrite e \<and> 4 dvd site \<and> patch_done e h site s s' else left_alone s s')"
  proof (cases "\<not> e_rewrite e \<or> site mod 4 \<noteq> 0 \<or> g_lazy_off s \<or> g_lazy_busy s")
    case True
    then have "\<not> d" "s' = s" using c unfolding rewrite_site_entry by simp_all
    then show ?thesis using inv by (simp add: left_alone_def)
  next
    case go: False
    let ?s0 = "s\<lparr>g_lazy_busy := True\<rparr>"
    obtain r fresh s1 where se: "site_entry e h site ?s0 = (r, fresh, s1)" by (metis prod_cases3)
    have inv0: "lazy_inv e ?s0 ps" using inv by (intro lazy_inv_frame [OF inv]) simp_all
    have out0: "\<forall>p \<in> held (l_log ?s0). outside site p" using out by simp
    note sp = site_entry_spec [OF inv0 f out0 se]
    have m1: "l_mem s1 = l_mem s" using sp(2) by simp
    have unbusy: "lazy_inv e (s2\<lparr>g_lazy_busy := False\<rparr>) qs" if "lazy_inv e s2 qs" for s2 qs
      using that by (intro lazy_inv_frame [OF that]) simp_all
    have qu: "left_alone s (s2\<lparr>g_lazy_busy := False\<rparr>)" if "left_alone s s2" for s2
      using that by (simp add: left_alone_def in_held_def)
    have same: "left_alone s s2" if "l_mem s2 = l_mem s" for s2 using that by (simp add: left_alone_def)
    show ?thesis
    proof (cases "\<exists>i. r = Some i \<and> r_live (g_lazy s1 ! i)")
      case False
      then have "\<not> d" "s' = s1\<lparr>g_lazy_busy := False\<rparr>"
        using c go unfolding rewrite_site_entry se by (auto split: option.splits)
      then show ?thesis using unbusy [OF sp(1)] qu [OF same [OF m1]] by simp
    next
      case True
      then obtain i where i: "r = Some i" "r_live (g_lazy s1 ! i)" by blast
      have il: "i < length (g_lazy s1)" by (rule sp(4) [OF i(1)])
      have ip: "r_pool (g_lazy s1 ! i) \<noteq> 0"
        using sp(1) i(2) region_at [OF _ il] unfolding lazy_inv_def region_ok_def by metis
      have fr: "\<forall>v. fresh = Some v \<longrightarrow> surveyed h site v s1" using sp(5) i(1) by simp
      obtain l s2 where pt: "lazy_patch e h i site fresh s1 = (l, s2)" by fastforce
      note pp = lazy_patch_spec [OF sp(1) ok il ip sp(3) fr pt]
      have i2: "i < length (g_lazy s2)" using pp(2) il by simp
      have res: "(d, s') = (case l of L_out d \<Rightarrow> (d, s2\<lparr>g_lazy_busy := False\<rparr>) | L_close \<Rightarrow> (False, (lazy_close i s2)\<lparr>g_lazy_busy := False\<rparr>))"
        using c go i unfolding rewrite_site_entry se by (simp add: pt split: leave.splits)
      from pp(3) show ?thesis
      proof (elim disjE conjE)
        assume l: "l = L_close" and sf: "store_failed i s1 s2"
        have "lazy_inv e s2 ps" using pp(1) l by (simp add: after_def)
        moreover have "left_alone s1 (lazy_close i s2)" by (rule failed_left_alone [OF calculation i2 sf])
        then have "left_alone s (lazy_close i s2)" by (simp add: left_alone_def m1)
        ultimately show ?thesis using res l unbusy [OF lazy_close_inv [OF _ ok i2]] qu by simp
      next
        assume l: "l = L_out False" and "l_mem s2 = l_mem s1"
        then show ?thesis using res pp(1) unbusy qu [OF same] m1 by (simp add: after_def)
      next
        assume l: "l = L_out True" and pd: "patch_done e h site s1 s2"
        have "patch_done e h site s (s2\<lparr>g_lazy_busy := False\<rparr>)"
          using pd patch_done_frame [OF m1 [symmetric], of "s2\<lparr>g_lazy_busy := False\<rparr>" s2] by simp
        then show ?thesis using res l pp(1) unbusy go by (auto simp: after_def)
      qed
    qed
  qed
  then show "lazy_inv e s' (if d then insert (site, l_mem s' site) ps else ps)"
    "if d then e_rewrite e \<and> 4 dvd site \<and> patch_done e h site s s' else left_alone s s'" by blast+
qed

section \<open>Runs\<close>

text \<open>
  The tier in a running process, with the words it has put at sites since the last exec: a site that lies outside the
  pools traps; the guest writes its own memory, unmaps it and maps other things there; the exec resets the tier.
\<close>

inductive lazy_run :: "lenv \<Rightarrow> lazy_st \<Rightarrow> (nat \<times> u32) set \<Rightarrow> bool" for e where
  start: "g_lazy s = [] \<Longrightarrow> g_lazy_last s = None \<Longrightarrow> l_log s = [] \<Longrightarrow> lazy_run e s {}"
| trap: "lazy_run e s ps \<Longrightarrow> mmap_fresh site h \<Longrightarrow> \<forall>p \<in> held (l_log s). outside site p \<Longrightarrow>
    cng_rewrite_site e h site s = (d, s') \<Longrightarrow> lazy_run e s' (if d then insert (site, l_mem s' site) ps else ps)"
| guest: "lazy_run e s ps \<Longrightarrow> \<forall>x. in_held s x \<longrightarrow> m x = l_mem s x \<Longrightarrow> lazy_run e (s\<lparr>l_mem := m\<rparr>) ps"
| exec: "lazy_run e s ps \<Longrightarrow> lazy_run e (cng_rewrite_lazy_reset s) {}"

lemma give_back_spec:
  "g_lazy (give_back rs s) = g_lazy s" "l_mem (give_back rs s) = l_mem s" "g_lazy_busy (give_back rs s) = g_lazy_busy s"
  "held (l_log (give_back rs s)) = held (l_log s) - {r_pool r |r. r \<in> set rs \<and> r_pool r \<noteq> 0}"
  by (induction rs arbitrary: s) auto

lemma reset_held:
  assumes "linv t (g_lazy s) (held (l_log s)) m ps"
  shows "held (l_log (cng_rewrite_lazy_reset s)) = {}"
proof -
  have "held (l_log s) \<subseteq> {r_pool r |r. r \<in> set (g_lazy s) \<and> r_pool r \<noteq> 0}"
  proof
    fix p assume "p \<in> held (l_log s)"
    moreover have "pools_known (held (l_log s)) (g_lazy s)" using assms unfolding linv_def by blast
    ultimately have "p \<noteq> 0" "p \<in> r_pool ` set (g_lazy s)" unfolding pools_known_def by blast+
    then show "p \<in> {r_pool r |r. r \<in> set (g_lazy s) \<and> r_pool r \<noteq> 0}" by blast
  qed
  then show ?thesis by (simp add: cng_rewrite_lazy_reset_def Let_def give_back_spec)
qed

lemma lazy_run_inv:
  assumes "lazy_run e s ps" "tramp_ok (e_tramp e)"
  shows "lazy_inv e s ps"
  using assms(1)
proof induction
  case (start s)
  then show ?case by (simp add: lazy_inv_def linv_def pools_differ_def pools_known_def)
next
  case (trap s ps site h d s')
  then show ?case using rewrite_site_spec(1) assms(2) by blast
next
  case (guest s ps m)
  have "linv (e_tramp e) (g_lazy s) (held (l_log s)) m ps"
    using guest.IH guest.hyps(2) assms(2) by (auto simp: lazy_inv_def in_held_def intro: linv_mem)
  then show ?case using guest.IH by (simp add: lazy_inv_def)
next
  case (exec s ps)
  then have "held (l_log (cng_rewrite_lazy_reset s)) = {}" by (intro reset_held) (auto simp: lazy_inv_def)
  then show ?case by (simp add: lazy_inv_def linv_def pools_differ_def pools_known_def cng_rewrite_lazy_reset_def Let_def)
qed

text \<open>
  C12. A patched site never loses its trampoline. Whatever sequence of traps, of stores, unmappings and
  mappings by the guest in its own memory, and of refusals by the kernel a process goes through, every word the lazy
  tier has put at a site since the last exec is a branch to a trampoline made for that site, which lies in a
  pool that is still mapped, and is whole: it calls the dispatcher and returns to the instruction after the site.
\<close>

theorem patched_sites_keep_their_trampolines:
  assumes "lazy_run e s ps" "tramp_ok (e_tramp e)" "(site, w) \<in> ps"
  shows "is_b w \<and> (\<exists>slot p. b_target site w = int slot \<and> p \<in> held (l_log s) \<and> p \<le> slot \<and>
    slot + cng_tramp_size (e_tramp e) \<le> p + LAZY_POOL \<and> tramp_for (e_tramp e) (l_mem s) slot site)"
proof -
  have li: "linv (e_tramp e) (g_lazy s) (held (l_log s)) (l_mem s) ps"
    using lazy_run_inv [OF assms(1,2)] by (simp add: lazy_inv_def)
  then have "patch_ok (e_tramp e) (g_lazy s) (l_mem s) (site, w)" using assms(3) by (simp add: linv_def)
  then obtain r k where p: "is_b w" "r \<in> set (g_lazy s)" "r_pool r \<noteq> 0" "k + cng_tramp_size (e_tramp e) \<le> r_used r"
      "b_target site w = int (r_pool r + k)" "tramp_for (e_tramp e) (l_mem s) (r_pool r + k) site"
    unfolding patch_ok_def prod.case by blast
  have r: "r_pool r \<in> held (l_log s)" "r_used r \<le> LAZY_POOL" using li p(2,3) by (auto simp: linv_def region_ok_def)
  show ?thesis
  proof (intro conjI exI)
    show "is_b w" "b_target site w = int (r_pool r + k)" "r_pool r \<in> held (l_log s)"
      "tramp_for (e_tramp e) (l_mem s) (r_pool r + k) site" by fact+
    show "r_pool r \<le> r_pool r + k" "r_pool r + k + cng_tramp_size (e_tramp e) \<le> r_pool r + LAZY_POOL" using p(4) r(2) by simp_all
  qed
qed

lemma usable_private:
  assumes "lazy_usable prot shared"
  shows "\<not> shared \<and> prot AND CNG_PROT_READ \<noteq> 0 \<and> prot AND CNG_PROT_EXEC \<noteq> 0"
proof -
  have u: "\<not> shared" "prot AND 5 = 5"
    using assms by (simp_all add: lazy_usable_def CNG_PROT_READ_def CNG_PROT_EXEC_def)
  have "prot AND 1 = (prot AND 5) AND 1" "prot AND 4 = (prot AND 5) AND 4" by (simp_all only: and.assoc) simp_all
  then have "prot AND 1 = 1" "prot AND 4 = 4" unfolding u(2) by simp_all
  then show ?thesis using u(1) by (simp add: CNG_PROT_READ_def CNG_PROT_EXEC_def)
qed

text \<open>
  C13. The lazy tier writes private code only, one word at a time. A call that patches found an \<open>svc #0\<close> at an
  aligned site in a mapping that the kernel's own list, read during the call, shows private, readable and
  executable; it changes that word and one trampoline in a held pool and nothing else; and it leaves the page
  with the protection that list showed. A call that does not patch changes nothing outside the pools.
\<close>

theorem lazy_tier_writes_private_code_only:
  assumes "lazy_run e s ps" "tramp_ok (e_tramp e)" "mmap_fresh site h" "\<forall>p \<in> held (l_log s). outside site p"
    and "cng_rewrite_site e h site s = (d, s')"
  shows "if d then e_rewrite e \<and> 4 dvd site \<and> l_mem s site = SVC0_INSN \<and>
      (\<exists>v. surveyed h site v s' \<and> v_found v \<and> \<not> v_shared v \<and> v_prot v AND CNG_PROT_READ \<noteq> 0 \<and>
         v_prot v AND CNG_PROT_EXEC \<noteq> 0 \<and> store_done e site (v_prot v) s s')
    else (\<forall>x. \<not> in_held s' x \<longrightarrow> l_mem s' x = l_mem s x)"
  using rewrite_site_spec(2) [OF lazy_run_inv [OF assms(1,2)] assms(2-5)] usable_private
  unfolding patch_done_def left_alone_def by (cases d) auto

text \<open>
  An exec keeps no pool. After the reset nothing the lazy tier has mapped is still mapped, pools of
  closed entries included, and the table is empty, so a chain of execs does not accumulate them.
\<close>

theorem exec_gives_every_pool_back:
  assumes "lazy_run e s ps" "tramp_ok (e_tramp e)"
  shows "held (l_log (cng_rewrite_lazy_reset s)) = {} \<and> g_lazy (cng_rewrite_lazy_reset s) = [] \<and>
    \<not> g_lazy_busy (cng_rewrite_lazy_reset s) \<and> l_mem (cng_rewrite_lazy_reset s) = l_mem s"
  using reset_held [of "e_tramp e" s "l_mem s" ps] lazy_run_inv [OF assms]
  by (simp add: lazy_inv_def cng_rewrite_lazy_reset_def Let_def give_back_spec)

section \<open>A run\<close>

definition demo_lenv :: lenv where
  "demo_lenv = \<lparr>e_tramp = demo_tramp, e_page = 4096, e_img_lo = 0, e_img_hi = 0, e_rewrite = True\<rparr>"

definition no_mmap :: "lev list \<Rightarrow> bool" where
  "no_mmap log \<longleftrightarrow> list_all (\<lambda>ev. case ev of E_mmap p \<Rightarrow> False | _ \<Rightarrow> True) log"

definition demo_lhost :: lhost where
  "demo_lhost = \<lparr>h_maps = (\<lambda>_. Some demo_maps), h_rd = (\<lambda>_ rest req. req),
     h_mmap = (\<lambda>log want. if want = 8192 \<and> no_mmap log then Some 8192 else None), h_mprotect = (\<lambda>_ _ _ _. True),
     h_open_mem = (\<lambda>_. 3), h_pread = (\<lambda>_ _. True), h_pwrite = (\<lambda>_ _ _. True), h_tab = (\<lambda>_ _. True)\<rparr>"

definition demo_lst :: lazy_st where
  "demo_lst = \<lparr>g_lazy = [], g_lazy_last = None, g_lazy_off = False, g_lazy_busy = False, l_mem = demo_code, l_log = []\<rparr>"

lemma no_mmap_held: "no_mmap log \<Longrightarrow> held log = {}"
proof (induction log)
  case (Cons ev log)
  then show ?case by (cases ev) (simp_all add: no_mmap_def)
qed simp

lemma demo_fresh: "mmap_fresh 4100 demo_lhost"
  using no_mmap_held by (auto simp: mmap_fresh_def demo_lhost_def outside_def split: if_splits)

lemma demo_ok: "tramp_ok (e_tramp demo_lenv)"
  by (simp add: demo_lenv_def tramp_ok_def demo_tramp_def cng_tramp_size_def)

lemma demo_survey:
  "lazy_vma (\<lambda>rest req. req) demo_maps 4100 =
    \<lparr>v_found = True, v_lo = 4096, v_hi = 8192, v_prot = 5, v_shared = False, v_prev_end = 0x91000, v_best = 8192, v_best_d = 4092\<rparr>"
proof -
  have "lazy_vma (\<lambda>rest req. req) demo_maps 4100 = foldl (vma_line 4100) survey0 (fst (lines_of demo_maps))"
    using vma_read_lines [of "\<lambda>rest req. req" "[]" demo_maps "4100" survey0]
    by (simp add: lazy_vma_def reads_on_def lines_fit_def demo_lines VMA_BUF_def)
  also have "\<dots> = foldl (vma_step 4100) survey0 demo_vmas" using foldl_shown [OF demo_shown] by (simp add: demo_lines)
  finally show ?thesis
    by (simp add: vma_step_def Let_def survey0_def demo_vmas_def holds_addr_def hole_cand_def hole_dist_def vma_prot_def
        CNG_PROT_READ_def CNG_PROT_WRITE_def CNG_PROT_EXEC_def LAZY_POOL_def)
qed

lemma demo_site: "\<exists>s'. cng_rewrite_site demo_lenv demo_lhost 4100 demo_lst = (True, s') \<and> 8192 \<in> held (l_log s')"
proof -
  have b: "b_insn 4096 139264 \<noteq> 0" "b_insn 8188 8192 \<noteq> 0" "b_insn 4100 8192 \<noteq> 0" "b_insn 8196 4104 \<noteq> 0"
    by (simp_all add: b_insn_nz reaches_def BRANCH_REACH_def)
  show ?thesis using b
    by (simp add: cng_rewrite_site_def demo_lst_def lazy_known_def site_vma_def demo_survey lazy_add_def lazy_usable_def lazy_pool_def
        pool_try_def cng_pool_at_def cng_hits_image_def demo_lenv_def demo_lhost_def logged_def sys_mprotect_def no_mmap_def lazy_patch_def
        lazy_mem_open_def lazy_store_def lazy_emit_def emit_def demo_tramp_def cng_tramp_size_def Let_def LAZY_POOL_def
        CNG_PROT_READ_def CNG_PROT_WRITE_def CNG_PROT_EXEC_def demo_code_def)
qed

lemma demo_start: "lazy_run demo_lenv demo_lst {}"
  by (rule lazy_run.start) (simp_all add: demo_lst_def)

lemma demo_run:
  "\<exists>s'. cng_rewrite_site demo_lenv demo_lhost 4100 demo_lst = (True, s') \<and> 8192 \<in> held (l_log s') \<and>
     lazy_run demo_lenv s' {(4100, l_mem s' 4100)}"
proof -
  obtain s' where s': "cng_rewrite_site demo_lenv demo_lhost 4100 demo_lst = (True, s')" "8192 \<in> held (l_log s')" using demo_site by blast
  have "\<forall>p \<in> held (l_log demo_lst). outside 4100 p" by (simp add: demo_lst_def)
  from lazy_run.trap [OF demo_start demo_fresh this s'(1)] show ?thesis using s' by simp
qed

theorem patched_sites_keep_their_trampolines_witness:
  "\<exists>s w slot. lazy_run demo_lenv s {(4100, w)} \<and> is_b w \<and> b_target 4100 w = int slot \<and> tramp_for demo_tramp (l_mem s) slot 4100"
proof -
  obtain s where s: "lazy_run demo_lenv s {(4100, l_mem s 4100)}" using demo_run by blast
  have t: "e_tramp demo_lenv = demo_tramp" by (simp add: demo_lenv_def)
  from patched_sites_keep_their_trampolines [OF s demo_ok, of 4100 "l_mem s 4100"] show ?thesis using s unfolding t by blast
qed

theorem lazy_tier_writes_private_code_only_witness:
  "\<exists>s'. cng_rewrite_site demo_lenv demo_lhost 4100 demo_lst = (True, s') \<and>
     (\<exists>v. surveyed demo_lhost 4100 v s' \<and> v_found v \<and> \<not> v_shared v \<and> store_done demo_lenv 4100 (v_prot v) demo_lst s')"
proof -
  obtain s' where s': "cng_rewrite_site demo_lenv demo_lhost 4100 demo_lst = (True, s')" using demo_run by blast
  have "\<forall>p \<in> held (l_log demo_lst). outside 4100 p" by (simp add: demo_lst_def)
  from lazy_tier_writes_private_code_only [OF demo_start demo_ok demo_fresh this s'] show ?thesis using s' by auto
qed

end
