(* ===== verification/Tramp.thy ===== *)
theory Tramp
  imports Rewrite
begin

text \<open>
  \<open>src/monitor/tramp.S\<close>, the trampoline a rewritten \<open>svc #0\<close> branches to, as a program for a small AArch64
  machine (general registers, sp, NZCV and the stack), and \<open>cng_tramp_unwind\<close> of \<open>src/monitor/rewrite.c\<close>, which
  takes a thread found inside a copy back to the guest's own state. Branch targets are indices of
  instructions of the template; \<open>encode\<close> gives the word of each instruction, as the assembler does.
\<close>

unbundle bit_operations_syntax

section \<open>The machine\<close>

datatype insn =
    SubSp nat | AddSp nat
  | Stp nat nat nat | Ldp nat nat nat | Str nat nat | Ldr nat nat
  | MrsNzcv nat | MsrNzcv nat
  | CmpW nat nat | CmpX nat nat | TstBit nat nat | CcmpEq nat nat
  | Bne nat | Beq nat | B nat | BackSite | Svc
  | AddXSp nat nat | MovXSp nat | MovSpX nat
  | LdrRet nat | LdrDisp nat | Blr nat | Br nat | Nop

record mach =
  mx :: "nat \<Rightarrow> u64"
  msp :: u64
  mpst :: u64
  mmem :: "u64 \<Rightarrow> u64"
  mpc :: nat

definition NZCV :: u64 where "NZCV = 0xF0000000"

definition mk_nzcv :: "bool \<Rightarrow> bool \<Rightarrow> bool \<Rightarrow> bool \<Rightarrow> u64" where
  "mk_nzcv n z c v = (if n then 0x80000000 else 0) OR (if z then 0x40000000 else 0) OR
     (if c then 0x20000000 else 0) OR (if v then 0x10000000 else 0)"

definition subs_flags :: "'a::len word \<Rightarrow> 'a word \<Rightarrow> u64" where
  "subs_flags a b = mk_nzcv (sint (a - b) < 0) (a = b) (b \<le> a) (sint (a - b) \<noteq> sint a - sint b)"

definition ands_flags :: "u64 \<Rightarrow> u64" where
  "ands_flags r = mk_nzcv (sint r < 0) (r = 0) False False"

definition set_nzcv :: "u64 \<Rightarrow> u64 \<Rightarrow> u64" where
  "set_nzcv pst v = (pst AND NOT NZCV) OR (v AND NZCV)"

definition zflag :: "u64 \<Rightarrow> bool" where "zflag pst \<longleftrightarrow> pst AND 0x40000000 \<noteq> 0"

definition cell :: "u64 \<Rightarrow> nat \<Rightarrow> u64" where "cell b off = b + of_nat off"

text \<open>What a step does: go on, enter the kernel, call the dispatcher, or leave for an address of the guest.\<close>

datatype event = Go mach | Trap_svc mach | Call_disp u64 mach | Leave u64 mach | Undefined

definition adv :: "mach \<Rightarrow> mach" where "adv m = m\<lparr>mpc := mpc m + 1\<rparr>"

fun exec :: "u64 \<Rightarrow> u64 \<Rightarrow> insn \<Rightarrow> mach \<Rightarrow> event" where
  "exec disp ret (SubSp n) m = Go (adv (m\<lparr>msp := msp m - of_nat n\<rparr>))"
| "exec disp ret (AddSp n) m = Go (adv (m\<lparr>msp := msp m + of_nat n\<rparr>))"
| "exec disp ret (Stp a b off) m =
     Go (adv (m\<lparr>mmem := (mmem m)(cell (msp m) off := mx m a, cell (msp m) (off + 8) := mx m b)\<rparr>))"
| "exec disp ret (Ldp a b off) m =
     Go (adv (m\<lparr>mx := (mx m)(a := mmem m (cell (msp m) off), b := mmem m (cell (msp m) (off + 8)))\<rparr>))"
| "exec disp ret (Str a off) m = Go (adv (m\<lparr>mmem := (mmem m)(cell (msp m) off := mx m a)\<rparr>))"
| "exec disp ret (Ldr a off) m = Go (adv (m\<lparr>mx := (mx m)(a := mmem m (cell (msp m) off))\<rparr>))"
| "exec disp ret (MrsNzcv a) m = Go (adv (m\<lparr>mx := (mx m)(a := mpst m AND NZCV)\<rparr>))"
| "exec disp ret (MsrNzcv a) m = Go (adv (m\<lparr>mpst := set_nzcv (mpst m) (mx m a)\<rparr>))"
| "exec disp ret (CmpW a n) m =
     Go (adv (m\<lparr>mpst := set_nzcv (mpst m) (subs_flags (ucast (mx m a) :: u32) (of_nat n))\<rparr>))"
| "exec disp ret (CmpX a b) m = Go (adv (m\<lparr>mpst := set_nzcv (mpst m) (subs_flags (mx m a) (mx m b))\<rparr>))"
| "exec disp ret (TstBit a k) m =
     Go (adv (m\<lparr>mpst := set_nzcv (mpst m) (ands_flags (mx m a AND push_bit k 1))\<rparr>))"
| "exec disp ret (CcmpEq a b) m =
     Go (adv (m\<lparr>mpst := set_nzcv (mpst m) (if zflag (mpst m) then subs_flags (mx m a) (mx m b) else 0)\<rparr>))"
| "exec disp ret (Bne i) m = Go (if zflag (mpst m) then adv m else m\<lparr>mpc := i\<rparr>)"
| "exec disp ret (Beq i) m = Go (if zflag (mpst m) then m\<lparr>mpc := i\<rparr> else adv m)"
| "exec disp ret (B i) m = Go (m\<lparr>mpc := i\<rparr>)"
| "exec disp ret BackSite m = Leave ret m"
| "exec disp ret Svc m = Trap_svc (adv m)"
| "exec disp ret (AddXSp a n) m = Go (adv (m\<lparr>mx := (mx m)(a := msp m + of_nat n)\<rparr>))"
| "exec disp ret (MovXSp a) m = Go (adv (m\<lparr>mx := (mx m)(a := msp m)\<rparr>))"
| "exec disp ret (MovSpX a) m = Go (adv (m\<lparr>msp := mx m a\<rparr>))"
| "exec disp ret (LdrRet a) m = Go (adv (m\<lparr>mx := (mx m)(a := ret)\<rparr>))"
| "exec disp ret (LdrDisp a) m = Go (adv (m\<lparr>mx := (mx m)(a := disp)\<rparr>))"
| "exec disp ret (Blr a) m = Call_disp (mx m a) (adv m)"
| "exec disp ret (Br a) m = Leave (mx m a) m"
| "exec disp ret Nop m = Go (adv m)"

section \<open>The template\<close>

definition cng_svc_tramp_tpl :: "insn list" where
  "cng_svc_tramp_tpl =
    [SubSp 288, Stp 16 17 128, MrsNzcv 16, Str 16 264,
     CmpW 8 220, Bne 16, TstBit 0 8, Beq 16, TstBit 0 14, Bne 16,
     Ldr 16 264, MsrNzcv 16, Ldp 16 17 128, AddSp 288,
     Svc, B 64,
     Stp 0 1 0, Stp 2 3 16, Stp 4 5 32, Stp 6 7 48, Stp 8 9 64, Stp 10 11 80, Stp 12 13 96, Stp 14 15 112,
     Stp 18 19 144, Stp 20 21 160, Stp 22 23 176, Stp 24 25 192, Stp 26 27 208, Stp 28 29 224, Str 30 240,
     AddXSp 16 288, Str 16 248, LdrRet 16, Str 16 256, MovXSp 0, LdrDisp 16,
     Blr 16,
     Ldp 0 1 0, Ldp 2 3 16, Ldp 4 5 32, Ldp 6 7 48, Ldp 8 9 64, Ldp 10 11 80, Ldp 12 13 96, Ldp 14 15 112,
     Ldp 18 19 144, Ldp 20 21 160, Ldp 22 23 176, Ldp 24 25 192, Ldp 26 27 208, Ldp 28 29 224, Ldr 30 240,
     Ldr 16 256, LdrRet 17, CmpX 16 17, Ldr 16 248, AddXSp 17 288, CcmpEq 16 17, Bne 65,
     Ldr 16 264, MsrNzcv 16, Ldp 16 17 128, AddSp 288,
     BackSite,
     Ldr 16 264, MsrNzcv 16, Ldr 17 248, Ldr 16 256, MovSpX 17, Br 16,
     Nop]"

text \<open>The labels of the template, as byte offsets from its start.\<close>

definition T_clone :: nat where "T_clone = 4 * 14"
definition T_call :: nat where "T_call = 4 * 37"
definition T_back :: nat where "T_back = 4 * 64"
definition T_gen :: nat where "T_gen = 4 * 65"
definition T_disp :: nat where "T_disp = 4 * 72"
definition T_ret :: nat where "T_ret = 4 * 74"

text \<open>
  The run of a copy: at most \<open>n\<close> instructions, up to the first that leaves the copy. Every branch of the
  template goes forward, so its length bounds every run.
\<close>

definition step :: "u64 \<Rightarrow> u64 \<Rightarrow> mach \<Rightarrow> event" where
  "step disp ret m = (if mpc m < length cng_svc_tramp_tpl then exec disp ret (cng_svc_tramp_tpl ! mpc m) m
     else Undefined)"

fun run :: "u64 \<Rightarrow> u64 \<Rightarrow> nat \<Rightarrow> mach \<Rightarrow> event" where
  "run disp ret 0 m = Go m"
| "run disp ret (Suc n) m = (case step disp ret m of Go m' \<Rightarrow> run disp ret n m' | e \<Rightarrow> e)"

section \<open>The words of the template\<close>

definition rel :: "nat \<Rightarrow> nat \<Rightarrow> u32" where
  "rel from to = of_nat to - of_nat from"

fun encode :: "nat \<Rightarrow> insn \<Rightarrow> u32" where
  "encode i (SubSp n) = 0xD10003FF OR push_bit 10 (of_nat n)"
| "encode i (AddSp n) = 0x910003FF OR push_bit 10 (of_nat n)"
| "encode i (Stp a b off) = 0xA90003E0 OR push_bit 15 (of_nat (off div 8)) OR push_bit 10 (of_nat b) OR of_nat a"
| "encode i (Ldp a b off) = 0xA94003E0 OR push_bit 15 (of_nat (off div 8)) OR push_bit 10 (of_nat b) OR of_nat a"
| "encode i (Str a off) = 0xF90003E0 OR push_bit 10 (of_nat (off div 8)) OR of_nat a"
| "encode i (Ldr a off) = 0xF94003E0 OR push_bit 10 (of_nat (off div 8)) OR of_nat a"
| "encode i (MrsNzcv a) = 0xD53B4200 OR of_nat a"
| "encode i (MsrNzcv a) = 0xD51B4200 OR of_nat a"
| "encode i (CmpW a n) = 0x7100001F OR push_bit 10 (of_nat n) OR push_bit 5 (of_nat a)"
| "encode i (CmpX a b) = 0xEB00001F OR push_bit 16 (of_nat b) OR push_bit 5 (of_nat a)"
| "encode i (TstBit a k) = 0xF240001F OR push_bit 16 (of_nat ((64 - k) mod 64)) OR push_bit 5 (of_nat a)"
| "encode i (CcmpEq a b) = 0xFA400000 OR push_bit 16 (of_nat b) OR push_bit 5 (of_nat a)"
| "encode i (Bne j) = 0x54000001 OR push_bit 5 (rel i j AND 0x7FFFF)"
| "encode i (Beq j) = 0x54000000 OR push_bit 5 (rel i j AND 0x7FFFF)"
| "encode i (B j) = B_OPCODE OR (rel i j AND 0x03FFFFFF)"
| "encode i BackSite = 0xD4200000"
| "encode i Svc = SVC0_INSN"
| "encode i (AddXSp a n) = 0x910003E0 OR push_bit 10 (of_nat n) OR of_nat a"
| "encode i (MovXSp a) = 0x910003E0 OR of_nat a"
| "encode i (MovSpX a) = 0x9100001F OR push_bit 5 (of_nat a)"
| "encode i (LdrRet a) = 0x58000000 OR push_bit 5 (rel i 74 AND 0x7FFFF) OR of_nat a"
| "encode i (LdrDisp a) = 0x58000000 OR push_bit 5 (rel i 72 AND 0x7FFFF) OR of_nat a"
| "encode i (Blr a) = 0xD63F0000 OR push_bit 5 (of_nat a)"
| "encode i (Br a) = 0xD61F0000 OR push_bit 5 (of_nat a)"
| "encode i Nop = 0xD503201F"

definition tpl_words :: "u32 list" where
  "tpl_words = map (\<lambda>(i, c). encode i c) (zip [0..<length cng_svc_tramp_tpl] cng_svc_tramp_tpl) @ [0, 0, 0, 0]"

definition svc_tramp :: "u64 \<Rightarrow> tramp" where
  "svc_tramp dispatch = \<lparr>t_words = tpl_words, t_back = T_back, t_disp = T_disp, t_ret = T_ret, t_dispatch = dispatch\<rparr>"

section \<open>Unwinding a thread found inside a copy\<close>

record uregs =
  ux :: "nat \<Rightarrow> u64"
  usp :: u64
  upc :: u64
  upst :: u64

definition TRAMP_WORDS :: nat where "TRAMP_WORDS = 128"

text \<open>The guest's memory as \<open>cng_user_copyin\<close> reads it: words of code and cells of the stack, or a fault.\<close>

record umem =
  um_code :: "nat \<Rightarrow> u32 option"
  um_cell :: "u64 \<Rightarrow> u64 option"

fun copyin_words :: "umem \<Rightarrow> nat \<Rightarrow> nat \<Rightarrow> u32 list option" where
  "copyin_words um a 0 = Some []"
| "copyin_words um a (Suc n) = (case um_code um a of None \<Rightarrow> None
     | Some w \<Rightarrow> (case copyin_words um (a + 4) n of None \<Rightarrow> None | Some ws \<Rightarrow> Some (w # ws)))"

fun copyin_cells :: "umem \<Rightarrow> u64 \<Rightarrow> nat \<Rightarrow> u64 list option" where
  "copyin_cells um a 0 = Some []"
| "copyin_cells um a (Suc n) = (case um_cell um a of None \<Rightarrow> None
     | Some w \<Rightarrow> (case copyin_cells um (a + 8) n of None \<Rightarrow> None | Some ws \<Rightarrow> Some (w # ws)))"

definition copyin_uregs :: "umem \<Rightarrow> u64 \<Rightarrow> uregs option" where
  "copyin_uregs um a = (case copyin_cells um a 34 of None \<Rightarrow> None
     | Some ws \<Rightarrow> Some \<lparr>ux = (\<lambda>i. ws ! i), usp = ws ! 31, upc = ws ! 32, upst = ws ! 33\<rparr>)"

definition quad_at :: "u32 list \<Rightarrow> nat \<Rightarrow> u64" where
  "quad_at w off = ucast (w ! (off div 4)) OR push_bit 32 (ucast (w ! (off div 4 + 1)))"

definition b_word :: "u32 \<Rightarrow> bool" where "b_word w \<longleftrightarrow> w AND 0xFC000000 = B_OPCODE"

definition word_ok :: "nat \<Rightarrow> u32 \<Rightarrow> bool" where
  "word_ok off w = (if off = T_clone + 4 \<or> off = T_back then b_word w else w = tpl_words ! (off div 4))"

definition tramp_is_copy :: "u64 \<Rightarrow> u32 list \<Rightarrow> bool" where
  "tramp_is_copy dispatch w \<longleftrightarrow>
     list_all (\<lambda>i. word_ok (4 * i) (w ! i)) [0..<T_disp div 4] \<and> quad_at w T_disp = dispatch"

definition unwind_at :: "umem \<Rightarrow> nat \<Rightarrow> u64 \<Rightarrow> uregs \<Rightarrow> uregs option" where
  "unwind_at um off site4 u =
     (if off = T_clone + 4 \<or> off = T_back then Some (u\<lparr>upc := site4\<rparr>)
      else if off = T_gen + 20 then Some (u\<lparr>upc := ux u 16\<rparr>)
      else if off = T_clone \<or> off < 8 then
        Some (u\<lparr>usp := (if off \<noteq> T_clone \<and> off \<ge> 4 then usp u + 288 else usp u), upc := site4 - 4\<rparr>)
      else case copyin_uregs um (usp u) of
        None \<Rightarrow> None
      | Some f \<Rightarrow>
          let nzcv = upst f AND NZCV in
          if off > T_call then Some (f\<lparr>upst := (upst u AND NOT NZCV) OR nzcv\<rparr>)
          else
            let x = (ux u)(16 := ux f 16, 17 := ux f 17);
                x = (if off \<ge> T_call - 4 then x(0 := ux f 0) else x);
                ps = (if off \<ge> 20 then (upst u AND NOT NZCV) OR nzcv else upst u)
            in Some \<lparr>ux = x, usp = usp u + 288, upc = site4 - 4, upst = ps\<rparr>)"

fun unwind_loop :: "umem \<Rightarrow> u64 \<Rightarrow> u32 \<Rightarrow> uregs \<Rightarrow> nat list \<Rightarrow> uregs option" where
  "unwind_loop um dispatch cur u [] = None"
| "unwind_loop um dispatch cur u (i # is) =
     (if \<not> word_ok (4 * i) cur then unwind_loop um dispatch cur u is
      else case copyin_words um (unat (upc u - of_nat (4 * i))) (length tpl_words) of
        None \<Rightarrow> unwind_loop um dispatch cur u is
      | Some w \<Rightarrow>
          if \<not> tramp_is_copy dispatch w then unwind_loop um dispatch cur u is
          else unwind_at um (4 * i) (quad_at w T_ret) u)"

definition cng_tramp_unwind :: "umem \<Rightarrow> u64 \<Rightarrow> uregs \<Rightarrow> uregs option" where
  "cng_tramp_unwind um dispatch u =
     (if length tpl_words > TRAMP_WORDS \<or> upc u AND 3 \<noteq> 0 then None
      else case um_code um (unat (upc u)) of
        None \<Rightarrow> None
      | Some cur \<Rightarrow> unwind_loop um dispatch cur u [0..<T_disp div 4])"

end
