(* ===== verification/Tramp_Run.thy ===== *)
theory Tramp_Run
  imports Tramp
begin

text \<open>
  What the trampoline does: at every instruction before the call the guest's state is recoverable from the
  registers and the frame (\<open>before_call\<close>), at every instruction after it the frame holds what the guest is
  to resume with (\<open>after_call\<close>). Both are invariants of the step, and since every branch goes forward each run
  ends at one of the instructions that leave the copy.
\<close>

unbundle bit_operations_syntax

section \<open>Flags and cells\<close>

lemma cell_eq [simp]: "cell f i = cell f j \<longleftrightarrow> (of_nat i :: u64) = of_nat j"
  by (simp add: cell_def)

lemma cell_off [simp]: "cell f i - f = of_nat i"
  by (simp add: cell_def)

lemma zflag_bit: "zflag p \<longleftrightarrow> bit p 30"
proof -
  have "(0x40000000 :: u64) = 2 ^ 30" by simp
  then show ?thesis unfolding zflag_def by (simp only: and_exp_eq_0_iff_not_bit not_not)
qed

lemma bit_flags_30 [simp]: "bit (0x80000000 :: u64) 30 = False" "bit (0x40000000 :: u64) 30"
  "bit (0x20000000 :: u64) 30 = False" "bit (0x10000000 :: u64) 30 = False" "bit (0xF0000000 :: u64) 30"
  by code_simp+

lemma zflag_mk [simp]: "zflag (mk_nzcv n z c v) \<longleftrightarrow> z"
  by (simp add: zflag_bit mk_nzcv_def bit_or_iff)

lemma zflag_set [simp]: "zflag (set_nzcv p v) \<longleftrightarrow> zflag v"
  by (simp add: zflag_bit set_nzcv_def NZCV_def bit_or_iff bit_and_iff bit_not_iff)

lemma zflag_0 [simp]: "\<not> zflag 0"
  by (simp add: zflag_def)

lemma zflag_subs [simp]: "zflag (subs_flags a b) \<longleftrightarrow> a = b"
  by (simp add: subs_flags_def)

lemma zflag_ands [simp]: "zflag (ands_flags a) \<longleftrightarrow> a = 0"
  by (simp add: ands_flags_def)

lemma set_nzcv_absorb [simp]: "set_nzcv (set_nzcv p v) w = set_nzcv p w"
  by (rule bit_word_eqI) (auto simp: set_nzcv_def bit_simps)

lemma set_nzcv_self [simp]: "set_nzcv p (p AND NZCV) = p" "set_nzcv p p = p"
  by (rule bit_word_eqI; auto simp: set_nzcv_def bit_simps)+

lemma set_nzcv_masked [simp]: "set_nzcv p (v AND NZCV) = set_nzcv p v"
  by (rule bit_word_eqI) (auto simp: set_nzcv_def bit_simps)

lemma set_nzcv_mask [simp]: "(p AND NOT NZCV) OR (v AND NZCV) = set_nzcv p v"
  by (simp add: set_nzcv_def)

lemma set_nzcv_rest: "set_nzcv p 0 = set_nzcv q 0 \<Longrightarrow> set_nzcv p v = set_nzcv q v"
  by (metis set_nzcv_absorb)

section \<open>Before the call\<close>

text \<open>The registers a thread's clone is told by.\<close>

definition thread_clone :: "mach \<Rightarrow> bool" where
  "thread_clone g \<longleftrightarrow> (ucast (mx g 8) :: u32) = 220 \<and> mx g 0 AND push_bit 8 1 \<noteq> 0 \<and> mx g 0 AND push_bit 14 1 = 0"

text \<open>The index of the instruction that saves a register, and of the one that loads it again.\<close>

definition saved_by :: "nat \<Rightarrow> nat" where
  "saved_by i = (if i \<le> 15 then 16 + i div 2 else if i \<le> 17 then 1 else if i \<le> 29 then 24 + (i - 18) div 2 else 30)"

definition loaded_by :: "nat \<Rightarrow> nat" where
  "loaded_by i = (if i \<le> 15 then 38 + i div 2 else if i \<le> 29 then 46 + (i - 18) div 2 else 52)"

definition frame :: "mach \<Rightarrow> u64" where "frame g = msp g - 288"

definition before_call :: "u64 \<Rightarrow> u64 \<Rightarrow> mach \<Rightarrow> mach \<Rightarrow> bool" where
  "before_call disp ret g m \<longleftrightarrow>
     (let p = mpc m; f = frame g in
      p \<le> 37 \<and> p \<noteq> 15 \<and>
      msp m = (if p = 0 \<or> p = 14 then f + 288 else f) \<and>
      (\<forall>i. i \<noteq> 16 \<and> i \<noteq> 17 \<and> (i = 0 \<longrightarrow> p \<le> 35) \<longrightarrow> mx m i = mx g i) \<and>
      (p \<le> 2 \<or> p = 13 \<or> p = 14 \<longrightarrow> mx m 16 = mx g 16) \<and>
      (p \<le> 14 \<longrightarrow> mx m 17 = mx g 17) \<and>
      set_nzcv (mpst m) 0 = set_nzcv (mpst g) 0 \<and>
      (p \<le> 4 \<or> 12 \<le> p \<and> p \<le> 14 \<longrightarrow> mpst m = mpst g) \<and>
      (p = 3 \<or> p = 11 \<longrightarrow> mx m 16 = mpst g AND NZCV) \<and>
      (p \<ge> 4 \<longrightarrow> mmem m (cell f 264) = mpst g AND NZCV) \<and>
      (p = 5 \<longrightarrow> (zflag (mpst m) \<longleftrightarrow> (ucast (mx g 8) :: u32) = 220)) \<and>
      (6 \<le> p \<and> p \<le> 14 \<longrightarrow> (ucast (mx g 8) :: u32) = 220) \<and>
      (p = 7 \<longrightarrow> (zflag (mpst m) \<longleftrightarrow> mx g 0 AND push_bit 8 1 = 0)) \<and>
      (8 \<le> p \<and> p \<le> 14 \<longrightarrow> mx g 0 AND push_bit 8 1 \<noteq> 0) \<and>
      (p = 9 \<longrightarrow> (zflag (mpst m) \<longleftrightarrow> mx g 0 AND push_bit 14 1 = 0)) \<and>
      (10 \<le> p \<and> p \<le> 14 \<longrightarrow> thread_clone g) \<and>
      (16 \<le> p \<longrightarrow> \<not> thread_clone g) \<and>
      list_all (\<lambda>i. saved_by i < p \<longrightarrow> mmem m (cell f (8 * i)) = mx g i) [0..<31] \<and>
      (p = 32 \<longrightarrow> mx m 16 = f + 288) \<and> (p \<ge> 33 \<longrightarrow> mmem m (cell f 248) = f + 288) \<and>
      (p = 34 \<longrightarrow> mx m 16 = ret) \<and> (p \<ge> 35 \<longrightarrow> mmem m (cell f 256) = ret) \<and>
      (p \<ge> 36 \<longrightarrow> mx m 0 = f) \<and> (p = 37 \<longrightarrow> mx m 16 = disp) \<and>
      (\<forall>a. a - f \<ge> 288 \<longrightarrow> mmem m a = mmem g a))"

lemma upt_31: "[0..<31] = [0, 1, 2, 3, 4, 5, 6, 7, 8, 9, 10, 11, 12, 13, 14, 15, 16, 17, 18, 19, 20, 21, 22, 23, 24, 25,
  26, 27, 28, 29, 30]"
  by code_simp

lemma below_38: "(p::nat) \<le> 37 \<Longrightarrow>
  p = 0 \<or> p = 1 \<or> p = 2 \<or> p = 3 \<or> p = 4 \<or> p = 5 \<or> p = 6 \<or> p = 7 \<or> p = 8 \<or> p = 9 \<or> p = 10 \<or> p = 11 \<or> p = 12 \<or> p = 13 \<or>
  p = 14 \<or> p = 15 \<or> p = 16 \<or> p = 17 \<or> p = 18 \<or> p = 19 \<or> p = 20 \<or> p = 21 \<or> p = 22 \<or> p = 23 \<or> p = 24 \<or> p = 25 \<or> p = 26 \<or>
  p = 27 \<or> p = 28 \<or> p = 29 \<or> p = 30 \<or> p = 31 \<or> p = 32 \<or> p = 33 \<or> p = 34 \<or> p = 35 \<or> p = 36 \<or> p = 37"
  by presburger

lemma before_call_step:
  assumes "before_call disp ret g m" "mpc m \<noteq> 14" "mpc m \<noteq> 37"
  obtains m' where "step disp ret m = Go m'" "before_call disp ret g m'" "mpc m < mpc m'"
proof -
  have r: "set_nzcv (mpst m) v = set_nzcv (mpst g) v" for v
    using assms(1) by - (rule set_nzcv_rest, simp add: before_call_def Let_def)
  have le: "mpc m \<le> 37" using assms(1) by (simp add: before_call_def Let_def)
  have "\<exists>m'. step disp ret m = Go m' \<and> before_call disp ret g m' \<and> mpc m < mpc m'"
    using below_38 [OF le] assms
    apply (elim disjE)
    apply (simp_all add: r step_def cng_svc_tramp_tpl_def adv_def before_call_def Let_def saved_by_def
      thread_clone_def upt_31)
    done
  then show thesis using that by blast
qed

lemma before_call_entry: "mpc g = 0 \<Longrightarrow> before_call disp ret g g"
  by (simp add: before_call_def Let_def frame_def saved_by_def upt_31)

lemma run_before_call:
  assumes "before_call disp ret g m" "38 - mpc m \<le> n"
  shows "\<exists>m'. before_call disp ret g m' \<and> (mpc m' = 14 \<and> run disp ret n m = Trap_svc (adv m') \<or>
    mpc m' = 37 \<and> run disp ret n m = Call_disp disp (adv m'))"
  using assms
proof (induction n arbitrary: m)
  case 0
  then show ?case by (simp add: before_call_def Let_def)
next
  case (Suc n)
  consider "mpc m = 14" | "mpc m = 37" | "mpc m \<noteq> 14" "mpc m \<noteq> 37" by blast
  then show ?case
  proof cases
    case 1
    then show ?thesis using Suc.prems by (intro exI [of _ m]) (simp add: step_def cng_svc_tramp_tpl_def)
  next
    case 2
    moreover have "mx m 16 = disp" using Suc.prems(1) 2 by (simp add: before_call_def Let_def)
    ultimately show ?thesis using Suc.prems by (intro exI [of _ m]) (simp add: step_def cng_svc_tramp_tpl_def)
  next
    case 3
    obtain m' where m': "step disp ret m = Go m'" "before_call disp ret g m'" "mpc m < mpc m'"
      using before_call_step [OF Suc.prems(1) 3] .
    have "38 - mpc m' \<le> n" using m'(3) Suc.prems(2) by linarith
    then show ?thesis using Suc.IH [OF m'(2)] m'(1) by simp
  qed
qed

section \<open>After the call\<close>

text \<open>The register file a frame holds.\<close>

definition frame_regs :: "(u64 \<Rightarrow> u64) \<Rightarrow> u64 \<Rightarrow> uregs" where
  "frame_regs M f = \<lparr>ux = (\<lambda>i. M (cell f (8 * i))), usp = M (cell f 248), upc = M (cell f 256), upst = M (cell f 264)\<rparr>"

text \<open>Whether pc and sp are where the site left them, which is the exit that needs no register.\<close>

definition unmoved :: "u64 \<Rightarrow> u64 \<Rightarrow> uregs \<Rightarrow> bool" where
  "unmoved ret f r \<longleftrightarrow> upc r = ret \<and> usp r = f + 288"

definition after_call :: "u64 \<Rightarrow> u64 \<Rightarrow> (u64 \<Rightarrow> u64) \<Rightarrow> u64 \<Rightarrow> mach \<Rightarrow> bool" where
  "after_call ret f M p0 m \<longleftrightarrow>
     (let p = mpc m; r = frame_regs M f in
      38 \<le> p \<and> p \<le> 70 \<and> mmem m = M \<and>
      msp m = (if p = 64 then f + 288 else if p = 70 then usp r else f) \<and>
      list_all (\<lambda>i. i \<noteq> 16 \<and> i \<noteq> 17 \<and> loaded_by i < p \<longrightarrow> mx m i = ux r i) [0..<31] \<and>
      (p = 63 \<or> p = 64 \<longrightarrow> mx m 16 = ux r 16 \<and> mx m 17 = ux r 17) \<and>
      set_nzcv (mpst m) 0 = set_nzcv p0 0 \<and>
      (p = 54 \<or> p = 55 \<longrightarrow> mx m 16 = upc r) \<and> (p = 55 \<longrightarrow> mx m 17 = ret) \<and>
      (p = 56 \<or> p = 57 \<or> p = 58 \<longrightarrow> (zflag (mpst m) \<longleftrightarrow> upc r = ret)) \<and>
      (p = 57 \<or> p = 58 \<longrightarrow> mx m 16 = usp r) \<and> (p = 58 \<longrightarrow> mx m 17 = f + 288) \<and>
      (p = 59 \<longrightarrow> (zflag (mpst m) \<longleftrightarrow> unmoved ret f r)) \<and>
      (60 \<le> p \<and> p \<le> 64 \<longrightarrow> unmoved ret f r) \<and> (65 \<le> p \<longrightarrow> \<not> unmoved ret f r) \<and>
      (p = 61 \<or> p = 66 \<longrightarrow> mx m 16 = upst r) \<and>
      (62 \<le> p \<and> p \<le> 64 \<or> 67 \<le> p \<longrightarrow> mpst m = set_nzcv p0 (upst r)) \<and>
      (68 \<le> p \<longrightarrow> mx m 17 = usp r) \<and> (69 \<le> p \<longrightarrow> mx m 16 = upc r))"

lemma between_38_70: "38 \<le> (p::nat) \<Longrightarrow> p \<le> 70 \<Longrightarrow>
  p = 38 \<or> p = 39 \<or> p = 40 \<or> p = 41 \<or> p = 42 \<or> p = 43 \<or> p = 44 \<or> p = 45 \<or> p = 46 \<or> p = 47 \<or> p = 48 \<or> p = 49 \<or>
  p = 50 \<or> p = 51 \<or> p = 52 \<or> p = 53 \<or> p = 54 \<or> p = 55 \<or> p = 56 \<or> p = 57 \<or> p = 58 \<or> p = 59 \<or> p = 60 \<or> p = 61 \<or>
  p = 62 \<or> p = 63 \<or> p = 64 \<or> p = 65 \<or> p = 66 \<or> p = 67 \<or> p = 68 \<or> p = 69 \<or> p = 70"
  by presburger

lemma after_call_step:
  assumes "after_call ret f M p0 m" "mpc m \<noteq> 64" "mpc m \<noteq> 70"
  obtains m' where "step disp ret m = Go m'" "after_call ret f M p0 m'" "mpc m < mpc m'"
proof -
  have r: "set_nzcv (mpst m) v = set_nzcv p0 v" for v
    using assms(1) by - (rule set_nzcv_rest, simp add: after_call_def Let_def)
  have b: "38 \<le> mpc m" "mpc m \<le> 70" using assms(1) by (simp_all add: after_call_def Let_def)
  have "\<exists>m'. step disp ret m = Go m' \<and> after_call ret f M p0 m' \<and> mpc m < mpc m'"
    using between_38_70 [OF b] assms
    apply (elim disjE)
    apply (simp_all add: r step_def cng_svc_tramp_tpl_def adv_def after_call_def Let_def loaded_by_def
      upt_31 frame_regs_def unmoved_def)
    done
  then show thesis using that by blast
qed

lemma after_call_entry: "mpc m = 38 \<Longrightarrow> msp m = f \<Longrightarrow> after_call ret f (mmem m) (mpst m) m"
  by (simp add: after_call_def Let_def loaded_by_def upt_31)

lemma run_after_call:
  assumes "after_call ret f M p0 m" "71 - mpc m \<le> n"
  shows "\<exists>m'. after_call ret f M p0 m' \<and> (mpc m' = 64 \<and> run disp ret n m = Leave ret m' \<or>
    mpc m' = 70 \<and> run disp ret n m = Leave (upc (frame_regs M f)) m')"
  using assms
proof (induction n arbitrary: m)
  case 0
  then show ?case by (simp add: after_call_def Let_def)
next
  case (Suc n)
  consider "mpc m = 64" | "mpc m = 70" | "mpc m \<noteq> 64" "mpc m \<noteq> 70" by blast
  then show ?case
  proof cases
    case 1
    then show ?thesis using Suc.prems by (intro exI [of _ m]) (simp add: step_def cng_svc_tramp_tpl_def)
  next
    case 2
    moreover have "mx m 16 = upc (frame_regs M f)" using Suc.prems(1) 2 by (simp add: after_call_def Let_def)
    ultimately show ?thesis using Suc.prems by (intro exI [of _ m]) (simp add: step_def cng_svc_tramp_tpl_def)
  next
    case 3
    obtain m' where m': "step disp ret m = Go m'" "after_call ret f M p0 m'" "mpc m < mpc m'"
      using after_call_step [OF Suc.prems(1) 3] .
    have "71 - mpc m' \<le> n" using m'(3) Suc.prems(2) by linarith
    then show ?thesis using Suc.IH [OF m'(2)] m'(1) by simp
  qed
qed

end
