(* ===== verification/Tramp_Props.thy ===== *)
theory Tramp_Props
  imports Tramp_Run Rewrite_Props
begin

text \<open>
  The trampoline's properties: a rewritten site is the system call it replaced, a tracer's changes to the
  frame take effect, a thread's clone is made as an unrewritten site makes it, and a thread stopped
  anywhere inside a copy is unwound to the guest's state.
\<close>

unbundle bit_operations_syntax

section \<open>Running a copy\<close>

text \<open>Equal register files, of which \<open>x0\<close> to \<open>x30\<close> exist.\<close>

definition regs_eq :: "uregs \<Rightarrow> uregs \<Rightarrow> bool" where
  "regs_eq u v \<longleftrightarrow> (\<forall>i<31. ux u i = ux v i) \<and> usp u = usp v \<and> upc u = upc v \<and> upst u = upst v"

text \<open>The dispatcher comes back with a result in the frame's \<open>x0\<close>, sp as it was and the rest of the frame kept.\<close>

definition dispatched :: "u64 \<Rightarrow> mach \<Rightarrow> mach \<Rightarrow> bool" where
  "dispatched r m1 m2 \<longleftrightarrow> mpc m2 = mpc m1 \<and> msp m2 = msp m1 \<and>
     regs_eq (frame_regs (mmem m2) (msp m1))
       ((frame_regs (mmem m1) (msp m1))\<lparr>ux := (ux (frame_regs (mmem m1) (msp m1)))(0 := r)\<rparr>)"

definition guest_regs :: "u64 \<Rightarrow> mach \<Rightarrow> uregs" where
  "guest_regs pc g = \<lparr>ux = mx g, usp = msp g, upc = pc, upst = mpst g\<rparr>"

lemma less_31_upt: "(\<forall>i<31. P i) \<longleftrightarrow> list_all P [0..<31]"
  by (auto simp: list_all_iff)

lemma before_call_at_call:
  assumes "before_call disp ret g m" "mpc m = 37"
  shows "mx m 0 = frame g" "msp m = frame g" "\<not> thread_clone g"
    "\<forall>i<31. mmem m (cell (frame g) (8 * i)) = mx g i"
    "mmem m (cell (frame g) 248) = msp g" "mmem m (cell (frame g) 256) = ret"
    "mmem m (cell (frame g) 264) = mpst g AND NZCV" "a - frame g \<ge> 288 \<Longrightarrow> mmem m a = mmem g a"
  using assms by (simp_all only: before_call_def Let_def less_31_upt) (simp_all add: saved_by_def upt_31 frame_def)

lemma before_call_at_clone:
  assumes "before_call disp ret g m" "mpc m = 14"
  shows "mx m = mx g" "msp m = msp g" "mpst m = mpst g" "thread_clone g" "a - frame g \<ge> 288 \<Longrightarrow> mmem m a = mmem g a"
proof -
  show "mx m = mx g"
  proof
    fix i
    show "mx m i = mx g i" using assms by (cases "i = 16 \<or> i = 17") (auto simp: before_call_def Let_def)
  qed
qed (use assms in \<open>simp_all add: before_call_def Let_def frame_def\<close>)

lemma after_call_at_exit:
  assumes "after_call ret f M p0 m" "mpc m = 64 \<or> mpc m = 70"
  shows "mmem m = M" "msp m = usp (frame_regs M f)" "mpst m = set_nzcv p0 (upst (frame_regs M f))"
    "mpc m = 64 \<longleftrightarrow> unmoved ret f (frame_regs M f)"
    "\<forall>i<31. i \<noteq> 16 \<and> i \<noteq> 17 \<or> mpc m = 64 \<longrightarrow> mx m i = ux (frame_regs M f) i"
proof -
  let ?r = "frame_regs M f"
  show "mmem m = M" using assms(1) by (simp add: after_call_def Let_def)
  have "msp m = usp ?r \<and> mpst m = set_nzcv p0 (upst ?r) \<and> (mpc m = 64 \<longleftrightarrow> unmoved ret f ?r)"
    using assms(2)
  proof
    assume p: "mpc m = 64"
    show ?thesis using assms(1) by (simp add: after_call_def Let_def p unmoved_def del: upt_Suc list_all_iff)
  next
    assume p: "mpc m = 70"
    show ?thesis using assms(1) by (simp add: after_call_def Let_def p)
  qed
  then show "msp m = usp ?r" "mpst m = set_nzcv p0 (upst ?r)" "mpc m = 64 \<longleftrightarrow> unmoved ret f ?r" by blast+
  have l: "\<forall>i<31. i \<noteq> 16 \<and> i \<noteq> 17 \<and> loaded_by i < mpc m \<longrightarrow> mx m i = ux ?r i"
    using assms(1) by (simp add: after_call_def Let_def less_31_upt)
  have b: "loaded_by i < mpc m" if "i < 31" for i using that assms(2) by (auto simp: loaded_by_def)
  have x: "mx m 16 = ux ?r 16" "mx m 17 = ux ?r 17" if p: "mpc m = 64"
    using assms(1) by (simp_all add: after_call_def Let_def p)
  show "\<forall>i<31. i \<noteq> 16 \<and> i \<noteq> 17 \<or> mpc m = 64 \<longrightarrow> mx m i = ux ?r i"
  proof (intro allI impI)
    fix i assume i: "i < (31::nat)" "i \<noteq> 16 \<and> i \<noteq> 17 \<or> mpc m = 64"
    show "mx m i = ux ?r i"
      by (cases "i = 16 \<or> i = 17") (use i l b x in auto)
  qed
qed

lemma run_to_call:
  assumes "mpc g = 0" "\<not> thread_clone g"
  obtains m where "run disp ret 72 g = Call_disp disp (adv m)" "before_call disp ret g m" "mpc m = 37"
  using run_before_call [OF before_call_entry [OF assms(1), of disp ret], of 72] before_call_at_clone(4) assms
  by fastforce

lemma run_from_call:
  assumes "mpc m = 38" "msp m = f"
  obtains m' where "run disp ret 72 m = Leave (upc (frame_regs (mmem m) f)) m'"
    "after_call ret f (mmem m) (mpst m) m'" "mpc m' = 64 \<or> mpc m' = 70"
proof -
  obtain m' where m': "after_call ret f (mmem m) (mpst m) m'"
    and e: "mpc m' = 64 \<and> run disp ret 72 m = Leave ret m' \<or>
      mpc m' = 70 \<and> run disp ret 72 m = Leave (upc (frame_regs (mmem m) f)) m'"
    using run_after_call [OF after_call_entry [OF assms, of ret], of 72 disp] assms(1) by (auto simp del: run.simps)
  then have p: "mpc m' = 64 \<or> mpc m' = 70" by blast
  have "mpc m' = 64 \<Longrightarrow> upc (frame_regs (mmem m) f) = ret"
    using after_call_at_exit(4) [OF m' p] by (simp add: unmoved_def)
  then show thesis using that [OF _ m' p] e by metis
qed

text \<open>
  C1. A rewritten site is the system call it replaced. For every call but a thread's clone the copy hands the
  dispatcher a frame with the guest's registers, sp, return address and flags, and writes nothing at or
  above the guest's sp. When the dispatcher comes back with a result, whatever it did to the registers and
  flags, the guest resumes behind the site with that result in \<open>x0\<close> and every other register, \<open>x16\<close> and
  \<open>x17\<close> included, sp and the flags as they were.
\<close>

theorem rewritten_site_is_the_call:
  assumes "mpc g = 0" "\<not> thread_clone g"
  shows "\<exists>m1. run disp ret 72 g = Call_disp disp m1 \<and> mx m1 0 = msp g - 288 \<and> msp m1 = msp g - 288 \<and>
    regs_eq (frame_regs (mmem m1) (msp g - 288)) \<lparr>ux = mx g, usp = msp g, upc = ret, upst = mpst g AND NZCV\<rparr> \<and>
    (\<forall>a. a - (msp g - 288) \<ge> 288 \<longrightarrow> mmem m1 a = mmem g a) \<and>
    (\<forall>m2 r. dispatched r m1 m2 \<longrightarrow>
      (\<exists>m3. run disp ret 72 m2 = Leave ret m3 \<and> (\<forall>i<31. mx m3 i = (if i = 0 then r else mx g i)) \<and>
        msp m3 = msp g \<and> mpst m3 = set_nzcv (mpst m2) (mpst g) \<and> mmem m3 = mmem m2))"
proof -
  let ?f = "frame g"
  obtain m where m: "run disp ret 72 g = Call_disp disp (adv m)" "before_call disp ret g m" "mpc m = 37"
    using run_to_call [OF assms] .
  note ac = before_call_at_call [OF m(2,3)]
  have sp: "msp g = ?f + 288" by (simp add: frame_def)
  have resume: "\<exists>m3. run disp ret 72 m2 = Leave ret m3 \<and> (\<forall>i<31. mx m3 i = (if i = 0 then r else mx g i)) \<and>
      msp m3 = msp g \<and> mpst m3 = set_nzcv (mpst m2) (mpst g) \<and> mmem m3 = mmem m2"
    if d: "dispatched r (adv m) m2" for m2 r
  proof -
    let ?r = "frame_regs (mmem m2) ?f"
    have p2: "mpc m2 = 38" "msp m2 = ?f" using d m(3) ac(2) by (simp_all add: dispatched_def adv_def)
    have r: "\<forall>i<31. ux ?r i = (if i = 0 then r else mmem m (cell ?f (8 * i)))" "usp ?r = msp g" "upc ?r = ret"
      "upst ?r = mpst g AND NZCV"
      using d ac(2,5,6,7) by (simp_all add: dispatched_def adv_def frame_regs_def regs_eq_def)
    obtain m3 where m3: "run disp ret 72 m2 = Leave (upc ?r) m3" "after_call ret ?f (mmem m2) (mpst m2) m3"
      "mpc m3 = 64 \<or> mpc m3 = 70"
      using run_from_call [OF p2] .
    note ex = after_call_at_exit [OF m3(2,3)]
    have "mpc m3 = 64" using ex(4) r sp by (simp add: unmoved_def)
    then have "\<forall>i<31. mx m3 i = (if i = 0 then r else mx g i)" using ex(5) r(1) ac(4) by auto
    then show ?thesis using m3(1) ex(1,2,3) r by auto
  qed
  have "regs_eq (frame_regs (mmem m) ?f) \<lparr>ux = mx g, usp = msp g, upc = ret, upst = mpst g AND NZCV\<rparr>"
    using ac(4,5,6,7) by (simp add: regs_eq_def frame_regs_def)
  then show ?thesis using m(1) ac(1,2,8) resume
    by (intro exI [of _ "adv m"]) (simp add: adv_def frame_def)
qed

text \<open>A guest at a site: every register 7, flags ZC, stack at \<open>0x8000\<close>.\<close>

definition guest_example :: mach where
  "guest_example = \<lparr>mx = (\<lambda>_. 7), msp = 0x8000, mpst = 0x60000000, mmem = (\<lambda>_. 0), mpc = 0\<rparr>"

theorem rewritten_site_is_the_call_witness:
  "mpc guest_example = 0 \<and> \<not> thread_clone guest_example \<and>
   (\<exists>m1 m3. run 0x4000 0x1004 72 guest_example = Call_disp 0x4000 m1 \<and>
     run 0x4000 0x1004 72 (m1\<lparr>mx := (\<lambda>_. 0), mmem := (mmem m1)(cell (msp m1) 0 := 42)\<rparr>) = Leave 0x1004 m3 \<and>
     mx m3 0 = 42 \<and> mx m3 16 = 7 \<and> mx m3 30 = 7 \<and> msp m3 = 0x8000)"
proof -
  have g: "mpc guest_example = 0" "\<not> thread_clone guest_example"
    by (simp_all add: guest_example_def thread_clone_def)
  obtain m1 where m1: "run 0x4000 0x1004 72 guest_example = Call_disp 0x4000 m1"
    and b: "\<And>m2 r. dispatched r m1 m2 \<longrightarrow> (\<exists>m3. run 0x4000 0x1004 72 m2 = Leave 0x1004 m3 \<and>
      (\<forall>i<31. mx m3 i = (if i = 0 then r else mx guest_example i)) \<and> msp m3 = msp guest_example \<and>
      mpst m3 = set_nzcv (mpst m2) (mpst guest_example) \<and> mmem m3 = mmem m2)"
    using rewritten_site_is_the_call [OF g, of "0x4000" "0x1004"] by blast
  let ?m2 = "m1\<lparr>mx := (\<lambda>_. 0), mmem := (mmem m1)(cell (msp m1) 0 := 42)\<rparr>"
  have "dispatched 42 m1 ?m2"
    by (simp add: dispatched_def regs_eq_def frame_regs_def less_31_upt upt_31)
  then obtain m3 where m3: "run 0x4000 0x1004 72 ?m2 = Leave 0x1004 m3" "msp m3 = msp guest_example"
    "\<forall>i<31. mx m3 i = (if i = 0 then 42 else mx guest_example i)"
    using b by blast
  have "mx m3 0 = 42" "mx m3 16 = 7" "mx m3 30 = 7" "msp m3 = 0x8000"
    using m3(2) spec [OF m3(3), of 0] spec [OF m3(3), of 16] spec [OF m3(3), of 30]
    by (simp_all add: guest_example_def)
  then show ?thesis using g m1 m3(1) by blast
qed

text \<open>
  What a tracer leaves in the frame takes effect: whatever the frame holds when the dispatcher comes
  back, the copy leaves for the frame's pc, with its sp, its flags and its registers; only when pc or sp was
  moved are \<open>x16\<close> and \<open>x17\<close> spent on them.
\<close>

theorem exit_resumes_the_frame:
  assumes "mpc m = 38" "r = frame_regs (mmem m) (msp m)"
  shows "\<exists>m'. run disp ret 72 m = Leave (upc r) m' \<and> msp m' = usp r \<and> mpst m' = set_nzcv (mpst m) (upst r) \<and>
    mmem m' = mmem m \<and>
    (\<forall>i<31. i \<noteq> 16 \<and> i \<noteq> 17 \<or> upc r = ret \<and> usp r = msp m + 288 \<longrightarrow> mx m' i = ux r i)"
proof -
  obtain m' where m': "run disp ret 72 m = Leave (upc r) m'" "after_call ret (msp m) (mmem m) (mpst m) m'"
    "mpc m' = 64 \<or> mpc m' = 70"
    using run_from_call [OF assms(1) refl] assms(2) by blast
  note ex = after_call_at_exit [OF m'(2,3), folded assms(2)]
  show ?thesis using m'(1) ex by (intro exI [of _ m']) (simp add: unmoved_def)
qed

theorem exit_resumes_the_frame_witness:
  "\<exists>m'. run 0x4000 0x1004 72 (guest_example\<lparr>mpc := 38, mmem := (\<lambda>a. a)\<rparr>) = Leave 0x8100 m' \<and>
    msp m' = 0x80F8 \<and> mx m' 3 = 0x8018"
  using exit_resumes_the_frame [of "guest_example\<lparr>mpc := 38, mmem := (\<lambda>a. a)\<rparr>" _ "0x4000" "0x1004", OF _ refl]
  by (auto simp: guest_example_def frame_regs_def cell_def)

text \<open>
  A thread's clone reaches the kernel from the copy as it would from the site: with every register, sp
  and the flags the guest's and nothing written at or above sp. Both sides of the clone, whatever registers
  and stack the kernel gives them, then continue behind the site without a change.
\<close>

theorem thread_clone_runs_natively:
  assumes "mpc g = 0" "thread_clone g"
  shows "\<exists>m1. run disp ret 72 g = Trap_svc m1 \<and> mx m1 = mx g \<and> msp m1 = msp g \<and> mpst m1 = mpst g \<and>
    (\<forall>a. a - (msp g - 288) \<ge> 288 \<longrightarrow> mmem m1 a = mmem g a) \<and>
    (\<forall>m2. mpc m2 = mpc m1 \<longrightarrow> run disp ret 72 m2 = Leave ret (m2\<lparr>mpc := 64\<rparr>))"
proof -
  obtain m where m: "before_call disp ret g m" "mpc m = 14" "run disp ret 72 g = Trap_svc (adv m)"
    using run_before_call [OF before_call_entry [OF assms(1), of disp ret], of 72] before_call_at_call(3) assms
    by fastforce
  have resume: "run disp ret 72 m2 = Leave ret (m2\<lparr>mpc := 64\<rparr>)" if "mpc m2 = 15" for m2
  proof -
    have "step disp ret m2 = Go (m2\<lparr>mpc := 64\<rparr>)" "step disp ret (m2\<lparr>mpc := 64\<rparr>) = Leave ret (m2\<lparr>mpc := 64\<rparr>)"
      using that by (simp_all add: step_def cng_svc_tramp_tpl_def)
    then have "run disp ret (Suc (Suc 70)) m2 = Leave ret (m2\<lparr>mpc := 64\<rparr>)" by (simp only: run.simps event.case)
    then show ?thesis by simp
  qed
  show ?thesis using m(3) before_call_at_clone [OF m(1,2)] m(2) resume
    by (intro exI [of _ "adv m"]) (simp add: adv_def frame_def)
qed

theorem thread_clone_runs_natively_witness:
  "\<exists>m1. run 0x4000 0x1004 72 (guest_example\<lparr>mx := (\<lambda>i. if i = 8 then 220 else 0x3D0F00)\<rparr>) = Trap_svc m1 \<and>
    mx m1 16 = 0x3D0F00 \<and> msp m1 = 0x8000"
  using thread_clone_runs_natively [of "guest_example\<lparr>mx := (\<lambda>i. if i = 8 then 220 else 0x3D0F00)\<rparr>" "0x4000" "0x1004"]
  by (auto simp: guest_example_def thread_clone_def)

section \<open>Unwinding\<close>

text \<open>A thread stopped at an instruction of the copy in \<open>slot\<close>, as the signal frame reports it.\<close>

definition stopped :: "nat \<Rightarrow> mach \<Rightarrow> uregs" where
  "stopped slot m = \<lparr>ux = mx m, usp = msp m, upc = of_nat (slot + 4 * mpc m), upst = mpst m\<rparr>"

text \<open>The memory of a thread whose code is \<open>c\<close> and whose stack is mapped.\<close>

definition mapped :: "wmem \<Rightarrow> mach \<Rightarrow> umem" where
  "mapped c m = \<lparr>um_code = (\<lambda>a. Some (c a)), um_cell = (\<lambda>a. Some (mmem m a))\<rparr>"

lemma length_tpl_words: "length tpl_words = 76"
  by (simp add: tpl_words_def cng_svc_tramp_tpl_def)

lemma tramp_ok_svc_tramp: "tramp_ok (svc_tramp disp)"
  by (simp add: tramp_ok_def svc_tramp_def T_back_def T_disp_def T_ret_def cng_tramp_size_def length_tpl_words)

lemma tpl_words_head: "list_all (\<lambda>w. w \<noteq> tpl_words ! 0) (tl (take 72 tpl_words))" "\<not> b_word (tpl_words ! 0)"
  by code_simp+

lemma tpl_words_branch: "b_word (tpl_words ! 15)"
  by code_simp

lemma copyin_words_mapped: "copyin_words (mapped c m) a n = Some (map (\<lambda>i. c (a + 4 * i)) [0..<n])"
proof (induction n arbitrary: a)
  case (Suc n)
  have "map (\<lambda>i. c (a + 4 + 4 * i)) [0..<n] = map (\<lambda>i. c (a + 4 * i)) [Suc 0..<Suc n]"
    by (simp add: map_Suc_upt [symmetric] add.assoc del: upt_Suc)
  then show ?case using Suc by (simp add: mapped_def upt_conv_Cons del: upt_Suc)
qed simp

lemma copyin_cells_mapped: "copyin_cells (mapped c m) a n = Some (map (\<lambda>i. mmem m (cell a (8 * i))) [0..<n])"
proof (induction n arbitrary: a)
  case (Suc n)
  have "map (\<lambda>i. mmem m (cell (a + 8) (8 * i))) [0..<n] = map (\<lambda>i. mmem m (cell a (8 * i))) [Suc 0..<Suc n]"
    by (simp add: map_Suc_upt [symmetric] cell_def algebra_simps del: upt_Suc)
  then show ?case using Suc by (simp add: mapped_def upt_conv_Cons cell_def del: upt_Suc)
qed simp

lemma copyin_uregs_mapped: "\<exists>f. copyin_uregs (mapped c m) a = Some f \<and> regs_eq f (frame_regs (mmem m) a)"
  by (auto simp: copyin_uregs_def copyin_cells_mapped regs_eq_def frame_regs_def)

text \<open>A copy as the rewriter leaves it, whole and below the end of the address space.\<close>

definition copy_in :: "u64 \<Rightarrow> wmem \<Rightarrow> nat \<Rightarrow> nat \<Rightarrow> bool" where
  "copy_in disp c slot site \<longleftrightarrow> tramp_for (svc_tramp disp) c slot site \<and> 4 dvd slot \<and> slot + 304 \<le> 2 ^ 64"

lemma copy_word_ok:
  assumes "copy_in disp c slot site" "i < 72"
  shows "word_ok (4 * i) (c (slot + 4 * i))"
proof -
  have t: "\<And>i. i < 76 \<and> \<not> patched (svc_tramp disp) (4 * i) \<longrightarrow> c (slot + 4 * i) = tpl_words ! i"
    "is_b (c (slot + T_back))"
    using assms(1) by (simp_all add: copy_in_def tramp_for_def svc_tramp_def length_tpl_words)
  show ?thesis
  proof (cases "i = 64")
    case True
    then show ?thesis using t(2) by (simp add: word_ok_def T_back_def is_b_def b_word_def)
  next
    case False
    then have "\<not> patched (svc_tramp disp) (4 * i)"
      using assms(2) by (simp add: patched_def svc_tramp_def T_back_def T_disp_def T_ret_def)
    then have "c (slot + 4 * i) = tpl_words ! i" using t(1) assms(2) by simp
    then show ?thesis using tpl_words_branch False by (simp add: word_ok_def T_clone_def T_back_def)
  qed
qed

lemma copy_not_head:
  assumes "copy_in disp c slot site" "0 < k" "k < 72"
  shows "\<not> word_ok 0 (c (slot + 4 * k))"
proof -
  have "tl (take 72 tpl_words) ! (k - 1) \<noteq> tpl_words ! 0"
    using tpl_words_head(1) assms(2,3) by (simp add: list_all_length length_tpl_words)
  then have "tpl_words ! k \<noteq> tpl_words ! 0"
    using assms(2,3) by (simp add: nth_tl length_tpl_words)
  then show ?thesis using copy_word_ok [OF assms(1,3)] tpl_words_head(2)
    by (auto simp: word_ok_def T_clone_def T_back_def split: if_splits)
qed

lemma copy_is_copy:
  assumes "copy_in disp c slot site"
  shows "tramp_is_copy disp (map (\<lambda>i. c (slot + 4 * i)) [0..<76])"
    "quad_at (map (\<lambda>i. c (slot + 4 * i)) [0..<76]) T_ret = of_nat (site + 4)"
proof -
  have q: "load_quad c (slot + T_disp) = disp" "load_quad c (slot + T_ret) = of_nat (site + 4)"
    using assms by (simp_all add: copy_in_def tramp_for_def svc_tramp_def)
  have nth: "map (\<lambda>i. c (slot + 4 * i)) [0..<76] ! k = c (slot + 4 * k)" if "k < 76" for k using that by simp
  show "tramp_is_copy disp (map (\<lambda>i. c (slot + 4 * i)) [0..<76])"
    using q(1) copy_word_ok [OF assms]
    by (simp add: tramp_is_copy_def list_all_length T_disp_def quad_at_def load_quad_def nth add.assoc del: nth_map)
  show "quad_at (map (\<lambda>i. c (slot + 4 * i)) [0..<76]) T_ret = of_nat (site + 4)"
    using q(2) by (simp add: T_ret_def quad_at_def load_quad_def nth add.assoc del: nth_map)
qed

lemma unwind_loop_skip:
  assumes "\<forall>j\<in>set js. \<not> word_ok (4 * j) cur \<or> (\<exists>w. copyin_words um (unat (upc u - of_nat (4 * j))) (length tpl_words) = Some w
    \<and> \<not> tramp_is_copy dispatch w)"
  shows "unwind_loop um dispatch cur u (js @ ks) = unwind_loop um dispatch cur u ks"
  using assms by (induction js) auto

lemma unwind_finds:
  assumes c: "copy_in disp c slot site" and i: "i < 72" and pc: "upc u = of_nat (slot + 4 * i)"
  shows "cng_tramp_unwind (mapped c m) disp u = unwind_at (mapped c m) (4 * i) (of_nat (site + 4)) u"
proof -
  have a: "unat (upc u - of_nat (4 * j)) = slot + 4 * (i - j)" if "j \<le> i" for j
  proof -
    have "upc u - of_nat (4 * j) = of_nat (slot + 4 * (i - j))"
      using that by (simp add: pc of_nat_diff algebra_simps)
    moreover have "slot + 4 * (i - j) < 2 ^ 64" using c i by (auto simp: copy_in_def)
    ultimately show ?thesis by (simp only: unat_of_nat) simp
  qed
  have pcn: "unat (upc u) = slot + 4 * i" using a [of 0] by simp
  have al: "upc u AND 3 = 0"
  proof -
    have "unat (take_bit 2 (upc u)) = unat (upc u) mod 4"
      by (simp only: unsigned_take_bit_eq) (simp add: take_bit_eq_mod)
    also have "\<dots> = 0" using pcn c by (simp add: copy_in_def)
    finally have "take_bit 2 (upc u) = 0" by (simp only: unat_eq_0)
    then show ?thesis by (simp add: take_bit_eq_mask mask_eq_exp_minus_1)
  qed
  let ?cur = "c (slot + 4 * i)"
  have sp: "[0..<T_disp div 4] = [0..<i] @ i # [Suc i..<72]"
    using i upt_add_eq_append [of 0 i "72 - i"] by (simp add: T_disp_def upt_conv_Cons)
  have skip: "unwind_loop (mapped c m) disp ?cur u ([0..<i] @ i # [Suc i..<72]) =
    unwind_loop (mapped c m) disp ?cur u (i # [Suc i..<72])"
  proof (rule unwind_loop_skip, intro ballI disjI2)
    fix j assume j: "j \<in> set [0..<i]"
    have "\<not> tramp_is_copy disp (map (\<lambda>k. c (slot + 4 * (i - j) + 4 * k)) [0..<76])"
    proof
      assume "tramp_is_copy disp (map (\<lambda>k. c (slot + 4 * (i - j) + 4 * k)) [0..<76])"
      then have "\<forall>k<72. word_ok (4 * k) (c (slot + 4 * (i - j) + 4 * k))"
        by (simp add: tramp_is_copy_def list_all_length T_disp_def)
      from spec [OF this, of 0] have "word_ok 0 (c (slot + 4 * (i - j)))" by simp
      moreover have "0 < i - j" "i - j < 72" using j i by auto
      ultimately show False using copy_not_head [OF c] by blast
    qed
    then show "\<exists>w. copyin_words (mapped c m) (unat (upc u - of_nat (4 * j))) (length tpl_words) = Some w \<and>
        \<not> tramp_is_copy disp w"
      using a [of j] j by (simp add: copyin_words_mapped length_tpl_words)
  qed
  have "unwind_loop (mapped c m) disp ?cur u (i # [Suc i..<72]) = unwind_at (mapped c m) (4 * i) (of_nat (site + 4)) u"
    using copy_word_ok [OF c i] a [of i] copy_is_copy [OF c] by (simp add: copyin_words_mapped length_tpl_words)
  then show ?thesis using sp skip al pcn
    by (simp add: cng_tramp_unwind_def length_tpl_words TRAMP_WORDS_def mapped_def)
qed

lemma run_stays_before:
  "run disp ret n m = Go m' \<Longrightarrow> before_call disp ret g m \<Longrightarrow> before_call disp ret g m'"
proof (induction n arbitrary: m)
  case (Suc n)
  have "mpc m \<noteq> 14" "mpc m \<noteq> 37" using Suc.prems(1) by (auto simp: step_def cng_svc_tramp_tpl_def)
  then obtain m1 where "step disp ret m = Go m1" "before_call disp ret g m1"
    using before_call_step [OF Suc.prems(2)] by metis
  then show ?case using Suc by simp
qed simp

lemma run_stays_after:
  "run disp ret n m = Go m' \<Longrightarrow> after_call ret f M p0 m \<Longrightarrow> after_call ret f M p0 m'"
proof (induction n arbitrary: m)
  case (Suc n)
  have "mpc m \<noteq> 64" "mpc m \<noteq> 70" using Suc.prems(1) by (auto simp: step_def cng_svc_tramp_tpl_def)
  then obtain m1 where "step disp ret m = Go m1" "after_call ret f M p0 m1"
    using after_call_step [OF Suc.prems(2)] by metis
  then show ?case using Suc by simp
qed simp

lemma unwind_before:
  assumes b: "before_call disp (of_nat (site + 4)) g m"
  shows "\<exists>u. unwind_at (mapped c m) (4 * mpc m) (of_nat (site + 4)) (stopped slot m) = Some u \<and>
    regs_eq u (guest_regs (of_nat site) g)"
proof (cases "mpc m = 14 \<or> mpc m < 2")
  case True
  have ps: "mpc m \<le> 2 \<or> mpc m = 13 \<or> mpc m = 14 \<longrightarrow> mx m 16 = mx g 16" "mpc m \<le> 14 \<longrightarrow> mx m 17 = mx g 17"
    "\<And>i. i \<noteq> 16 \<and> i \<noteq> 17 \<and> (i = 0 \<longrightarrow> mpc m \<le> 35) \<longrightarrow> mx m i = mx g i"
    "mpc m \<le> 4 \<or> 12 \<le> mpc m \<and> mpc m \<le> 14 \<longrightarrow> mpst m = mpst g"
    "msp m = (if mpc m = 0 \<or> mpc m = 14 then frame g + 288 else frame g)"
    using b by (simp_all only: before_call_def Let_def) simp_all
  have x: "mx m i = mx g i" for i using ps(1,2) ps(3) [of i] True by (cases "i = 16 \<or> i = 17") auto
  have "mpst m = mpst g" "msp m = (if mpc m = 1 then msp g - 288 else msp g)"
    using ps(4,5) True by (auto simp: frame_def)
  then show ?thesis using True x
    by (auto simp: unwind_at_def T_clone_def T_back_def T_gen_def stopped_def regs_eq_def guest_regs_def)
next
  case False
  then have p: "2 \<le> mpc m" "mpc m \<noteq> 14" "mpc m \<noteq> 15" "mpc m \<le> 37" "msp m = frame g"
    using b by (auto simp: before_call_def Let_def)
  obtain f where f: "copyin_uregs (mapped c m) (frame g) = Some f" "regs_eq f (frame_regs (mmem m) (frame g))"
    using copyin_uregs_mapped by blast
  have l: "list_all (\<lambda>i. saved_by i < mpc m \<longrightarrow> mmem m (cell (frame g) (8 * i)) = mx g i) [0..<31]"
    and xs: "\<And>i. i \<noteq> 16 \<and> i \<noteq> 17 \<and> (i = 0 \<longrightarrow> mpc m \<le> 35) \<longrightarrow> mx m i = mx g i"
    and ps: "set_nzcv (mpst m) 0 = set_nzcv (mpst g) 0" "mpc m \<le> 4 \<longrightarrow> mpst m = mpst g"
      "4 \<le> mpc m \<longrightarrow> mmem m (cell (frame g) 264) = mpst g AND NZCV"
    using b by (simp_all add: before_call_def Let_def)
  have sv: "mmem m (cell (frame g) (8 * i)) = mx g i" if "i < 31" "saved_by i < mpc m" for i
    using l that by (simp add: list_all_iff)
  have fx: "ux f 16 = mx g 16" "ux f 17 = mx g 17" "36 \<le> mpc m \<Longrightarrow> ux f 0 = mx g 0"
    using f(2) sv [of 16] sv [of 17] sv [of 0] p by (simp_all add: regs_eq_def frame_regs_def saved_by_def)
  have fp: "set_nzcv (mpst m) (upst f) = mpst g" if "5 \<le> mpc m"
    using f(2) ps(1,3) that set_nzcv_rest [OF ps(1)] by (simp add: regs_eq_def frame_regs_def)
  show ?thesis
    using p f(1) xs fx fp ps(2)
    by (auto simp: unwind_at_def T_clone_def T_back_def T_gen_def T_call_def stopped_def regs_eq_def guest_regs_def
      Let_def frame_def)
qed

lemma unwind_after:
  assumes a: "after_call (of_nat (site + 4)) f M p0 m"
  shows "\<exists>u. unwind_at (mapped c m) (4 * mpc m) (of_nat (site + 4)) (stopped slot m) = Some u \<and>
    usp u = usp (frame_regs M f) \<and> upc u = upc (frame_regs M f) \<and> upst u = set_nzcv p0 (upst (frame_regs M f)) \<and>
    (\<forall>i<31. i \<noteq> 16 \<and> i \<noteq> 17 \<or> mpc m \<noteq> 70 \<longrightarrow> ux u i = ux (frame_regs M f) i)"
proof (cases "mpc m = 64 \<or> mpc m = 70")
  case True
  note ex = after_call_at_exit [OF a True]
  have "mpc m = 70 \<Longrightarrow> mx m 16 = upc (frame_regs M f)" using a by (simp add: after_call_def Let_def)
  then show ?thesis using ex True
    by (auto simp: unwind_at_def T_clone_def T_back_def T_gen_def stopped_def unmoved_def)
next
  case False
  then have p: "38 \<le> mpc m" "mpc m \<le> 70" "msp m = f" "mmem m = M" "set_nzcv (mpst m) 0 = set_nzcv p0 0"
    using a by (simp_all add: after_call_def Let_def)
  obtain r where r: "copyin_uregs (mapped c m) f = Some r" "regs_eq r (frame_regs M f)"
    using copyin_uregs_mapped p(4) by blast
  show ?thesis using p r False set_nzcv_rest [OF p(5)]
    by (auto simp: unwind_at_def T_clone_def T_back_def T_gen_def T_call_def stopped_def regs_eq_def Let_def)
qed



end
