(* ===== verification/Ptstep.thy ===== *)
theory Ptstep
  imports Tramp
begin

text \<open>
  \<open>src/monitor/ptstep.c\<close>: single-stepping in software. \<open>cng_pt_next_pc\<close> decodes where control goes next; a
  reference semantics of the branch instructions, given by their fields, says where it has to go.
\<close>

unbundle bit_operations_syntax

section \<open>The decoder\<close>

abbreviation "PT_STEP_BRK \<equiv> (0xD420FFE0 :: u32)"

definition sext :: "u64 \<Rightarrow> nat \<Rightarrow> u64" where
  "sext v bits = (let m = push_bit (bits - 1) 1 in (v XOR m) - m)"

definition cond_holds :: "u32 \<Rightarrow> u64 \<Rightarrow> bool" where
  "cond_holds cond pstate =
     (let n = drop_bit 31 pstate AND 1; z = drop_bit 30 pstate AND 1;
          c = drop_bit 29 pstate AND 1; v = drop_bit 28 pstate AND 1;
          k = drop_bit 1 cond;
          r = (if k = 0 then z \<noteq> 0
               else if k = 1 then c \<noteq> 0
               else if k = 2 then n \<noteq> 0
               else if k = 3 then v \<noteq> 0
               else if k = 4 then c \<noteq> 0 \<and> z = 0
               else if k = 5 then n = v
               else if k = 6 then z = 0 \<and> n = v
               else True)
      in if cond AND 1 \<noteq> 0 \<and> cond \<noteq> 0xF then \<not> r else r)"

definition reg :: "uregs \<Rightarrow> u32 \<Rightarrow> u64" where
  "reg r n = (if n = 31 then 0 else ux r (unat n))"

definition cng_pt_next_pc :: "(u64 \<Rightarrow> u32 option) \<Rightarrow> uregs \<Rightarrow> u64" where
  "cng_pt_next_pc fetch r =
     (let pc = upc r in
      case fetch pc of
        None \<Rightarrow> 0
      | Some insn \<Rightarrow>
          if insn AND 0xFC000000 = 0x14000000 \<or> insn AND 0xFC000000 = 0x94000000 then
            pc + sext (ucast (insn AND 0x03FFFFFF)) 26 * 4
          else if insn AND 0xFF000000 = 0x54000000 then
            (if \<not> cond_holds (insn AND 0xF) (upst r) then pc + 4
             else pc + sext (ucast (drop_bit 5 insn AND 0x7FFFF)) 19 * 4)
          else if insn AND 0x7E000000 = 0x34000000 then
            (let v = reg r (insn AND 31);
                 v = (if insn AND 0x80000000 = 0 then ucast (ucast v :: u32) else v);
                 taken = (if insn AND 0x01000000 \<noteq> 0 then v \<noteq> 0 else v = 0) in
             if \<not> taken then pc + 4 else pc + sext (ucast (drop_bit 5 insn AND 0x7FFFF)) 19 * 4)
          else if insn AND 0x7E000000 = 0x36000000 then
            (let b = (drop_bit 26 insn AND 0x20) OR (drop_bit 19 insn AND 0x1F);
                 v = reg r (insn AND 31);
                 set = (drop_bit (unat b) v AND 1 \<noteq> 0);
                 taken = (if insn AND 0x01000000 \<noteq> 0 then set else \<not> set) in
             if \<not> taken then pc + 4 else pc + sext (ucast (drop_bit 5 insn AND 0x3FFF)) 14 * 4)
          else if insn AND 0xFFFFFC1F = 0xD61F0000 \<or> insn AND 0xFFFFFC1F = 0xD63F0000 \<or>
                  insn AND 0xFFFFFC1F = 0xD65F0000 then
            reg r (drop_bit 5 insn AND 31)
          else if insn AND 0xFE000000 = 0xD6000000 \<and> insn AND 0x001F0000 \<noteq> 0 then 0
          else pc + 4)"

section \<open>The branches of the architecture\<close>

text \<open>
  A branch by its fields: an immediate branch with or without link, a conditional one, compare and
  branch on a 32- or 64-bit register, test a bit and branch, and the three branches to a register.
\<close>

datatype reg_branch = BR | BLR | RET

datatype branch =
    Imm bool "26 word"
  | Cond "4 word" "19 word" bool
  | Compare bool bool "19 word" "5 word"
  | Test bool "6 word" "14 word" "5 word"
  | Register reg_branch "5 word"

text \<open>The word of a branch, field by field.\<close>

fun branch_word :: "branch \<Rightarrow> u32" where
  "branch_word (Imm link i) = (if link then 0x94000000 else 0x14000000) OR ucast i"
| "branch_word (Cond c i consistent) =
     0x54000000 OR push_bit 5 (ucast i) OR (if consistent then 16 else 0) OR ucast c"
| "branch_word (Compare wide nz i t) =
     0x34000000 OR (if wide then 0x80000000 else 0) OR (if nz then 0x01000000 else 0) OR push_bit 5 (ucast i) OR ucast t"
| "branch_word (Test nz b i t) =
     0x36000000 OR (if bit b 5 then 0x80000000 else 0) OR (if nz then 0x01000000 else 0) OR
     push_bit 19 (ucast (take_bit 5 b)) OR push_bit 5 (ucast i) OR ucast t"
| "branch_word (Register k t) =
     (case k of BR \<Rightarrow> 0xD61F0000 | BLR \<Rightarrow> 0xD63F0000 | RET \<Rightarrow> 0xD65F0000) OR push_bit 5 (ucast t)"

text \<open>The sixteen conditions, by name, over the flags.\<close>

definition condition :: "4 word \<Rightarrow> u64 \<Rightarrow> bool" where
  "condition c pst =
     (let n = bit pst 31; z = bit pst 30; cy = bit pst 29; v = bit pst 28 in
      [z, \<not> z, cy, \<not> cy, n, \<not> n, v, \<not> v, cy \<and> \<not> z, \<not> cy \<or> z, n = v, n \<noteq> v, \<not> z \<and> n = v, z \<or> n \<noteq> v, True, True]
      ! unat c)"

definition gpr :: "uregs \<Rightarrow> 5 word \<Rightarrow> u64" where
  "gpr r t = (if t = 31 then 0 else ux r (unat t))"

fun branch_goes :: "uregs \<Rightarrow> branch \<Rightarrow> u64" where
  "branch_goes r (Imm link i) = upc r + of_int (4 * sint i)"
| "branch_goes r (Cond c i _) = (if condition c (upst r) then upc r + of_int (4 * sint i) else upc r + 4)"
| "branch_goes r (Compare wide nz i t) =
     (if ((if wide then gpr r t else ucast (ucast (gpr r t) :: u32)) \<noteq> 0) = nz
      then upc r + of_int (4 * sint i) else upc r + 4)"
| "branch_goes r (Test nz b i t) =
     (if bit (gpr r t) (unat b) = nz then upc r + of_int (4 * sint i) else upc r + 4)"
| "branch_goes r (Register k t) = gpr r t"

section \<open>Fields of a word\<close>

lemma all_less_32: "(\<forall>n<32. P n) \<longleftrightarrow> P 0 \<and> P 1 \<and> P 2 \<and> P 3 \<and> P 4 \<and> P 5 \<and> P 6 \<and> P 7 \<and> P 8 \<and> P 9 \<and> P 10 \<and> P 11 \<and>
  P 12 \<and> P 13 \<and> P 14 \<and> P 15 \<and> P 16 \<and> P 17 \<and> P 18 \<and> P 19 \<and> P 20 \<and> P 21 \<and> P 22 \<and> P 23 \<and> P 24 \<and> P 25 \<and>
  P 26 \<and> P 27 \<and> P 28 \<and> P 29 \<and> P 30 \<and> P (31::nat)"
  by (simp add: numeral_eq_Suc less_Suc_eq all_conj_distrib imp_disjL)

lemma u32_eq: "a = (b :: u32) \<longleftrightarrow> (\<forall>n<32. bit a n \<longleftrightarrow> bit b n)"
  by (auto intro: bit_word_eqI)

lemmas field_simps_32 = u32_eq all_less_32 bit_or_iff bit_and_iff bit_push_bit_iff bit_drop_bit_eq bit_unsigned_iff bit_take_bit_iff

lemma no_bit [simp]: "LENGTH('a::len) \<le> n \<Longrightarrow> bit (w :: 'a word) n = False"
  by (auto dest: bit_imp_le_length)

lemma sint_by_top: "sint (w :: 'n::len word) = uint w - (if bit w (LENGTH('n) - 1) then 2 ^ LENGTH('n) else 0)"
proof -
  have "sint w = signed_take_bit (LENGTH('n) - 1) (uint w)" by (simp add: sint_uint)
  also have "\<dots> = uint w - (if bit w (LENGTH('n) - 1) then 2 ^ LENGTH('n) else 0)"
  proof -
    have b: "0 \<le> uint w" "uint w < 2 ^ LENGTH('n)" by (simp_all add: unsigned_less)
    have "take_bit LENGTH('n) (uint w) = uint w" by (rule take_bit_int_eq_self [OF b])
    then show ?thesis by (simp add: signed_take_bit_eq_take_bit_minus bit_uint_iff)
  qed
  finally show ?thesis .
qed

lemma sext_sint:
  assumes "LENGTH('n::len) < 64"
  shows "sext (ucast (w :: 'n word)) LENGTH('n) = of_int (sint w)"
proof -
  let ?n = "LENGTH('n) - 1"
  have e: "sext (ucast w) LENGTH('n) = (ucast w XOR push_bit ?n 1) - push_bit ?n 1" by (simp only: sext_def Let_def)
  define m where "m = (push_bit ?n 1 :: u64)"
  define v where "v = (ucast w :: u64)"
  have v: "v = of_int (uint w)" by (simp only: v_def ucast_eq)
  have m: "bit m i \<longleftrightarrow> i = ?n" if "i < 64" for i
    using that by (auto simp: m_def bit_exp_iff possible_bit_def)
  have bv: "bit v ?n \<longleftrightarrow> bit w ?n" using assms by (auto simp: v_def bit_unsigned_iff dest: bit_imp_le_length)
  have two: "m + m = of_int (2 ^ LENGTH('n))"
    by (cases "LENGTH('n)") (simp_all add: m_def push_bit_eq_mult)
  show ?thesis
  proof (cases "bit w ?n")
    case True
    have vm: "bit v i \<or> \<not> bit m i" "bit m i \<longrightarrow> bit v i" if "i < 64" for i using m [OF that] bv True by auto
    have "v = (v XOR m) OR m"
      by (rule bit_word_eqI) (use vm in \<open>simp add: bit_or_iff bit_xor_iff; blast\<close>)
    also have "\<dots> = (v XOR m) + m"
    proof (rule disjunctive_add [symmetric])
      fix i show "\<not> bit (v XOR m) i \<or> \<not> bit m i" using vm [of i] by (cases "i < 64") (auto simp: bit_xor_iff)
    qed
    finally have "(v XOR m) - m = v - (m + m)" by (simp add: algebra_simps)
    also have "\<dots> = of_int (sint w)" unfolding sint_by_top two v using True by (simp only: if_True of_int_diff)
    finally show ?thesis by (simp only: e m_def v_def)
  next
    case False
    have vm: "\<not> bit v i \<or> \<not> bit m i" if "i < 64" for i using m [OF that] bv False by auto
    have "v XOR m = v OR m"
      by (rule bit_word_eqI) (use vm in \<open>simp add: bit_or_iff bit_xor_iff; blast\<close>)
    also have "\<dots> = v + m"
    proof (rule disjunctive_add [symmetric])
      fix i show "\<not> bit v i \<or> \<not> bit m i" using vm [of i] by (cases "i < 64") auto
    qed
    finally have "(v XOR m) - m = v" by simp
    also have "\<dots> = of_int (sint w)" unfolding sint_by_top v using False by (simp only: if_False diff_0_right)
    finally show ?thesis by (simp only: e m_def v_def)
  qed
qed

lemma ucast_up: "LENGTH('a::len) \<le> LENGTH('b::len) \<Longrightarrow> (ucast (ucast (w :: 'a word) :: 'b word) :: 'c::len word) = ucast w"
  by (rule bit_word_eqI) (auto simp: bit_unsigned_iff dest: bit_imp_le_length)

lemma unat_up: "LENGTH('a::len) \<le> LENGTH('b::len) \<Longrightarrow> unat (ucast (w :: 'a word) :: 'b word) = unat w"
proof -
  assume le: "LENGTH('a) \<le> LENGTH('b)"
  have "unat w < 2 ^ LENGTH('a)" by (rule unsigned_less)
  also have "\<dots> \<le> 2 ^ LENGTH('b)" using le by simp
  finally show ?thesis by (simp add: unsigned_ucast_eq take_bit_nat_eq_self)
qed

lemma one_bit: "drop_bit n x AND 1 = (of_bool (bit x n) :: 'a::len word)"
  by (simp add: and_one_eq bit_iff_odd_drop_bit mod2_eq_if)

lemma cond_holds_condition: "cond_holds (ucast c) pst = condition c pst"
proof -
  have "unat c < 16" using unsigned_less [of c, where ?'a = nat] by simp
  then have "unat c \<in> {0, 1, 2, 3, 4, 5, 6, 7, 8, 9, 10, 11, 12, 13, 14, 15}"
    unfolding insert_iff empty_iff by presburger
  moreover have "c = of_nat (unat c)" by simp
  ultimately have "c \<in> of_nat ` {0, 1, 2, 3, 4, 5, 6, 7, 8, 9, 10, 11, 12, 13, 14, 15}" by (intro image_eqI)
  then have "c \<in> {0, 1, 2, 3, 4, 5, 6, 7, 8, 9, 10, 11, 12, 13, 14, 15}"
    by (simp only: image_insert image_empty of_nat_1 of_nat_numeral semiring_1_class.of_nat_0)
  then show ?thesis
    by (elim insertE emptyE) (auto simp: cond_holds_def condition_def one_bit Let_def)
qed

lemma reg_gpr: "reg r (ucast t) = gpr r t"
proof -
  have "(ucast t :: u32) = 31 \<longleftrightarrow> t = 31"
  proof
    assume "(ucast t :: u32) = 31"
    then have "unat (ucast t :: u32) = 31" by simp
    then have "unat t = unat (31 :: 5 word)" by (simp add: unat_up)
    then show "t = 31" by (rule unsigned_word_eqI)
  qed simp
  then show ?thesis by (simp add: reg_def gpr_def unat_up)
qed

lemma imm_fields:
  "branch_word (Imm l i) AND 0xFC000000 = (if l then 0x94000000 else 0x14000000)"
  "branch_word (Imm l i) AND 0x03FFFFFF = ucast i"
  by (cases l; simp add: field_simps_32)+

lemma cond_fields:
  fixes c :: "4 word" and i :: "19 word" and k
  defines "w \<equiv> branch_word (Cond c i k)"
  shows "w AND 0xFC000000 \<noteq> 0x14000000" "w AND 0xFC000000 \<noteq> 0x94000000" "w AND 0xFF000000 = 0x54000000"
    "w AND 0xF = ucast c" "drop_bit 5 w AND 0x7FFFF = ucast i"
  unfolding w_def by (cases k; simp add: field_simps_32)+

lemma compare_fields:
  fixes t :: "5 word" and i :: "19 word" and wide nz
  defines "w \<equiv> branch_word (Compare wide nz i t)"
  shows "w AND 0xFC000000 \<noteq> 0x14000000" "w AND 0xFC000000 \<noteq> 0x94000000" "w AND 0xFF000000 \<noteq> 0x54000000"
    "w AND 0x7E000000 = 0x34000000" "w AND 31 = ucast t" "w AND 0x80000000 = 0 \<longleftrightarrow> \<not> wide"
    "w AND 0x01000000 = 0 \<longleftrightarrow> \<not> nz" "drop_bit 5 w AND 0x7FFFF = ucast i"
  unfolding w_def by (cases wide; cases nz; simp add: field_simps_32)+

lemma test_fields:
  fixes t :: "5 word" and i :: "14 word" and b :: "6 word" and nz
  defines "w \<equiv> branch_word (Test nz b i t)"
  shows "w AND 0xFC000000 \<noteq> 0x14000000" "w AND 0xFC000000 \<noteq> 0x94000000" "w AND 0xFF000000 \<noteq> 0x54000000"
    "w AND 0x7E000000 \<noteq> 0x34000000" "w AND 0x7E000000 = 0x36000000" "w AND 31 = ucast t"
    "w AND 0x01000000 = 0 \<longleftrightarrow> \<not> nz" "drop_bit 5 w AND 0x3FFF = ucast i"
    "(drop_bit 26 w AND 0x20) OR (drop_bit 19 w AND 0x1F) = ucast b"
  unfolding w_def by (cases nz; cases "bit b 5"; simp add: field_simps_32)+

lemma register_fields:
  fixes t :: "5 word" and k
  defines "w \<equiv> branch_word (Register k t)"
  shows "w AND 0xFC000000 \<noteq> 0x14000000" "w AND 0xFC000000 \<noteq> 0x94000000" "w AND 0xFF000000 \<noteq> 0x54000000"
    "w AND 0x7E000000 \<noteq> 0x34000000" "w AND 0x7E000000 \<noteq> 0x36000000"
    "w AND 0xFFFFFC1F = (case k of BR \<Rightarrow> 0xD61F0000 | BLR \<Rightarrow> 0xD63F0000 | RET \<Rightarrow> 0xD65F0000)"
    "drop_bit 5 w AND 31 = ucast t"
  unfolding w_def by (cases k; simp add: field_simps_32)+

lemma next_pc_branch:
  assumes "fetch (upc r) = Some (branch_word b)"
  shows "cng_pt_next_pc fetch r = branch_goes r b"
proof (cases b)
  case (Imm l i)
  then show ?thesis using assms imm_fields [of l i] sext_sint [of i]
    by (cases l) (simp_all add: cng_pt_next_pc_def ucast_up del: branch_word.simps)
next
  case (Cond c i k)
  then show ?thesis using assms cond_fields [of c i k] sext_sint [of i]
    by (simp add: cng_pt_next_pc_def cond_holds_condition ucast_up del: branch_word.simps)
next
  case (Compare wide nz i t)
  then show ?thesis using assms compare_fields [of wide nz i t] sext_sint [of i]
    by (auto simp: cng_pt_next_pc_def reg_gpr ucast_up Let_def simp del: branch_word.simps)
next
  case (Test nz c i t)
  then show ?thesis using assms test_fields [of nz c i t] sext_sint [of i]
    by (auto simp: cng_pt_next_pc_def reg_gpr one_bit ucast_up unat_up Let_def simp del: branch_word.simps)
next
  case (Register k t)
  then show ?thesis using assms register_fields [of k t]
    by (cases k) (simp_all add: cng_pt_next_pc_def reg_gpr del: branch_word.simps)
qed

text \<open>Every word the decoder takes for a branch is one.\<close>

lemma taken_for_branch:
  "w AND 0xFC000000 = 0x14000000 \<Longrightarrow> w = branch_word (Imm False (ucast w))"
  "w AND 0xFC000000 = 0x94000000 \<Longrightarrow> w = branch_word (Imm True (ucast w))"
  "w AND 0xFF000000 = 0x54000000 \<Longrightarrow> w = branch_word (Cond (ucast w) (ucast (drop_bit 5 w)) (bit w 4))"
  "w AND 0x7E000000 = 0x34000000 \<Longrightarrow> w = branch_word (Compare (bit w 31) (bit w 24) (ucast (drop_bit 5 w)) (ucast w))"
  "w AND 0x7E000000 = 0x36000000 \<Longrightarrow> w = branch_word (Test (bit w 24)
     (ucast (drop_bit 26 w AND 0x20 OR drop_bit 19 w AND 0x1F)) (ucast (drop_bit 5 w)) (ucast w))"
  "w AND 0xFFFFFC1F = 0xD61F0000 \<Longrightarrow> w = branch_word (Register BR (ucast (drop_bit 5 w)))"
  "w AND 0xFFFFFC1F = 0xD63F0000 \<Longrightarrow> w = branch_word (Register BLR (ucast (drop_bit 5 w)))"
  "w AND 0xFFFFFC1F = 0xD65F0000 \<Longrightarrow> w = branch_word (Register RET (ucast (drop_bit 5 w)))"
  by (simp add: field_simps_32)+

text \<open>
  C18. The software single-step goes where the instruction goes. For every branch instruction of the
  architecture but the pointer-authenticated ones - by any immediate, condition and flags, register, bit - the
  decoder's next pc is where the branch goes. Any other word is taken to fall through, unless it is of the
  class of the branches to registers, which is refused.
\<close>

theorem next_pc_is_where_it_goes:
  assumes "fetch (upc r) = Some w"
  shows "(w = branch_word b \<longrightarrow> cng_pt_next_pc fetch r = branch_goes r b) \<and>
    (w \<notin> range branch_word \<longrightarrow> cng_pt_next_pc fetch r =
      (if w AND 0xFE000000 = 0xD6000000 \<and> w AND 0x001F0000 \<noteq> 0 then 0 else upc r + 4))"
proof (intro conjI impI)
  show "cng_pt_next_pc fetch r = branch_goes r b" if "w = branch_word b"
    using next_pc_branch assms that by simp
  assume "w \<notin> range branch_word"
  then have "w AND 0xFC000000 \<noteq> 0x14000000" "w AND 0xFC000000 \<noteq> 0x94000000" "w AND 0xFF000000 \<noteq> 0x54000000"
    "w AND 0x7E000000 \<noteq> 0x34000000" "w AND 0x7E000000 \<noteq> 0x36000000" "w AND 0xFFFFFC1F \<noteq> 0xD61F0000"
    "w AND 0xFFFFFC1F \<noteq> 0xD63F0000" "w AND 0xFFFFFC1F \<noteq> 0xD65F0000"
    using taken_for_branch [of w] by (metis rangeI)+
  then show "cng_pt_next_pc fetch r =
      (if w AND 0xFE000000 = 0xD6000000 \<and> w AND 0x001F0000 \<noteq> 0 then 0 else upc r + 4)"
    using assms by (simp add: cng_pt_next_pc_def)
qed

theorem next_pc_is_where_it_goes_witness:
  "branch_word (Compare True False (- 2) 3) = 0xB4FFFFC3 \<and>
   cng_pt_next_pc (\<lambda>_. Some 0xB4FFFFC3) \<lparr>ux = (\<lambda>_. 0), usp = 0, upc = 0x1000, upst = 0\<rparr> = 0xFF8"
proof -
  have "branch_word (Compare True False (- 2) 3) = 0xB4FFFFC3" by (simp add: field_simps_32)
  then show ?thesis
    using next_pc_is_where_it_goes [of "\<lambda>_. Some 0xB4FFFFC3" "\<lparr>ux = (\<lambda>_. 0), usp = 0, upc = 0x1000, upst = 0\<rparr>" "0xB4FFFFC3"
      "Compare True False (- 2) 3"]
    by (simp add: gpr_def)
qed

end
