(* ===== verification/Ptbreak.thy ===== *)
theory Ptbreak
  imports Ptstep
begin

text \<open>
  The step breakpoints of \<open>src/monitor/ptstep.c\<close> and the records they are kept in (\<open>src/monitor/ptrace.c\<close>): a
  stepped task plants a \<open>brk\<close> at the instruction it reaches next, in text all tasks of the process share.
  Planting and taking down are broken into their loads and stores, which the tasks interleave; a scan of
  the records is one step, and so is a write to the text, which holds a lock.
\<close>

section \<open>State\<close>

record step_rec =
  st_addr :: u64
  st_orig :: u32
  st_live :: bool

text \<open>
  Where a task is in \<open>cng_pt_step_plant\<close> or \<open>step_unplant\<close>: about to read the word at the next pc, to write the
  breakpoint, to publish the record, to look for a sibling's record, to check the word again, to write it
  again; about to look for a sibling before restoring a word, to restore it.
\<close>

datatype phase =
    Idle
  | P_read u64 nat | P_poke | P_live | P_look u64 nat | P_join | P_check | P_repoke
  | U_start | U_look u64 u32 | U_poke u64 u32

record slot =
  sl_alive :: bool
  sl_rec :: step_rec
  sl_at :: phase

record bps =
  b_text :: "u64 \<Rightarrow> u32"
  b_slots :: "slot list"

abbreviation "slot_of st i \<equiv> b_slots st ! i"
abbreviation "PLANT_SPINS \<equiv> (1000 :: nat)"

definition upd :: "nat \<Rightarrow> (slot \<Rightarrow> slot) \<Rightarrow> bps \<Rightarrow> bps" where
  "upd i f st = st\<lparr>b_slots := (b_slots st)[i := f (slot_of st i)]\<rparr>"

definition goto :: "nat \<Rightarrow> phase \<Rightarrow> bps \<Rightarrow> bps" where
  "goto i p = upd i (\<lambda>s. s\<lparr>sl_at := p\<rparr>)"

definition set_live :: "nat \<Rightarrow> bool \<Rightarrow> bps \<Rightarrow> bps" where
  "set_live i l = upd i (\<lambda>s. s\<lparr>sl_rec := (sl_rec s)\<lparr>st_live := l\<rparr>\<rparr>)"

definition set_rec :: "nat \<Rightarrow> u64 \<Rightarrow> u32 \<Rightarrow> bps \<Rightarrow> bps" where
  "set_rec i a w = upd i (\<lambda>s. s\<lparr>sl_rec := (sl_rec s)\<lparr>st_addr := a, st_orig := w\<rparr>\<rparr>)"

definition cng_pt_poke_text :: "u64 \<Rightarrow> u32 \<Rightarrow> bps \<Rightarrow> bps" where
  "cng_pt_poke_text a w st = st\<lparr>b_text := (b_text st)(a := w)\<rparr>"

section \<open>Looking for a sibling's record\<close>

fun shared_scan :: "nat \<Rightarrow> u64 \<Rightarrow> nat list \<Rightarrow> bps \<Rightarrow> u32 option \<times> bps" where
  "shared_scan self a [] st = (None, st)"
| "shared_scan self a (i # is) st =
     (let s = slot_of st i; r = sl_rec s in
      if i = self then shared_scan self a is st
      else if \<not> st_live r \<or> st_addr r \<noteq> a then shared_scan self a is st
      else if \<not> sl_alive s then
        shared_scan self a is (cng_pt_poke_text (st_addr r) (st_orig r) (set_live i False st))
      else (Some (st_orig r), st))"

definition cng_pt_step_shared :: "nat \<Rightarrow> u64 \<Rightarrow> bps \<Rightarrow> u32 option \<times> bps" where
  "cng_pt_step_shared self a st = shared_scan self a [0..<length (b_slots st)] st"

section \<open>Planting and taking down\<close>

text \<open>
  One load or store of \<open>cng_pt_step_plant\<close> (\<open>ok\<close>: whether the text can be read and written) and of \<open>step_unplant\<close>.
\<close>

definition plant_step :: "nat \<Rightarrow> bool \<Rightarrow> bps \<Rightarrow> bps" where
  "plant_step i ok st =
     (let r = sl_rec (slot_of st i) in
      case sl_at (slot_of st i) of
        P_read a n \<Rightarrow>
          (if \<not> ok then goto i Idle st
           else if b_text st a \<noteq> PT_STEP_BRK then goto i P_poke (set_rec i a (b_text st a) st)
           else goto i (P_look a n) st)
      | P_poke \<Rightarrow>
          (if ok then goto i P_live (cng_pt_poke_text (st_addr r) PT_STEP_BRK st) else goto i Idle st)
      | P_live \<Rightarrow> goto i Idle (set_live i True st)
      | P_look a n \<Rightarrow>
          (case cng_pt_step_shared i a st of
             (None, st) \<Rightarrow> if n < PLANT_SPINS then goto i (P_read a (n + 1)) st else goto i Idle st
           | (Some w, st) \<Rightarrow> goto i P_join (set_rec i a w st))
      | P_join \<Rightarrow> goto i P_check (set_live i True st)
      | P_check \<Rightarrow> if b_text st (st_addr r) \<noteq> PT_STEP_BRK then goto i P_repoke st else goto i Idle st
      | P_repoke \<Rightarrow> if ok then goto i Idle (cng_pt_poke_text (st_addr r) PT_STEP_BRK st) else goto i Idle st
      | _ \<Rightarrow> st)"

definition unplant_step :: "nat \<Rightarrow> bps \<Rightarrow> bps" where
  "unplant_step i st =
     (let r = sl_rec (slot_of st i) in
      case sl_at (slot_of st i) of
        U_start \<Rightarrow>
          (if \<not> st_live r then goto i Idle st
           else goto i (U_look (st_addr r) (st_orig r)) (set_live i False st))
      | U_look a w \<Rightarrow>
          (case cng_pt_step_shared i a st of
             (None, st) \<Rightarrow> goto i (U_poke a w) st
           | (Some _, st) \<Rightarrow> goto i Idle (set_rec i 0 (st_orig r) st))
      | U_poke a w \<Rightarrow> goto i Idle (set_rec i 0 (st_orig r) (cng_pt_poke_text a w st))
      | _ \<Rightarrow> st)"

definition cng_pt_step_hit :: "nat \<Rightarrow> u64 \<Rightarrow> bps \<Rightarrow> bool" where
  "cng_pt_step_hit i pc st = (let r = sl_rec (slot_of st i) in st_live r \<and> pc = st_addr r)"

definition clear_one :: "bps \<Rightarrow> nat \<Rightarrow> bps" where
  "clear_one st i =
     (let r = sl_rec (slot_of st i) in
      if \<not> st_live r then st
      else set_rec i 0 (st_orig r) (cng_pt_poke_text (st_addr r) (st_orig r) (set_live i False st)))"

definition cng_pt_step_clear_all :: "bps \<Rightarrow> bps" where
  "cng_pt_step_clear_all st = foldl clear_one st [0..<length (b_slots st)]"

text \<open>Bytes of the text, and the bytes a tracer is shown.\<close>

definition byte_of :: "u32 \<Rightarrow> nat \<Rightarrow> u8" where
  "byte_of w k = ucast (drop_bit (8 * k) w)"

definition mask_byte :: "u64 \<Rightarrow> step_rec \<Rightarrow> u8 list \<Rightarrow> nat \<Rightarrow> u8 list" where
  "mask_byte addr r buf k =
     (let x = st_addr r + of_nat k in
      if x \<ge> addr \<and> x < addr + of_nat (length buf) then buf[unat (x - addr) := byte_of (st_orig r) k] else buf)"

definition mask_slot :: "u64 \<Rightarrow> u8 list \<Rightarrow> slot \<Rightarrow> u8 list" where
  "mask_slot addr buf s =
     (if \<not> st_live (sl_rec s) then buf else foldl (mask_byte addr (sl_rec s)) buf [0..<4])"

definition cng_pt_step_mask :: "u64 \<Rightarrow> u8 list \<Rightarrow> bps \<Rightarrow> u8 list" where
  "cng_pt_step_mask addr buf st = foldl (mask_slot addr) buf (b_slots st)"

section \<open>Runs\<close>

text \<open>
  A task that is not in the middle of an operation starts one, or exits; a task in the middle makes its next
  access; the slot of a task that has exited is taken by a new one, which takes down what it finds there.
\<close>

inductive bp_step :: "bps \<Rightarrow> bps \<Rightarrow> bool" where
  start_plant: "i < length (b_slots st) \<Longrightarrow> sl_alive (slot_of st i) \<Longrightarrow> sl_at (slot_of st i) = Idle \<Longrightarrow>
    \<not> st_live (sl_rec (slot_of st i)) \<Longrightarrow> a \<noteq> 0 \<Longrightarrow> 4 dvd unat a \<Longrightarrow> bp_step st (goto i (P_read a 0) st)"
| start_unplant: "i < length (b_slots st) \<Longrightarrow> sl_alive (slot_of st i) \<Longrightarrow> sl_at (slot_of st i) = Idle \<Longrightarrow>
    bp_step st (goto i U_start st)"
| plant: "i < length (b_slots st) \<Longrightarrow> sl_alive (slot_of st i) \<Longrightarrow> bp_step st (plant_step i ok st)"
| unplant: "i < length (b_slots st) \<Longrightarrow> sl_alive (slot_of st i) \<Longrightarrow> bp_step st (unplant_step i st)"
| exit: "i < length (b_slots st) \<Longrightarrow> sl_at (slot_of st i) = Idle \<Longrightarrow> bp_step st (upd i (\<lambda>s. s\<lparr>sl_alive := False\<rparr>) st)"
| claim: "i < length (b_slots st) \<Longrightarrow> \<not> sl_alive (slot_of st i) \<Longrightarrow>
    bp_step st (upd i (\<lambda>s. s\<lparr>sl_alive := True, sl_at := U_start\<rparr>) st)"

definition bp_init :: "(u64 \<Rightarrow> u32) \<Rightarrow> nat \<Rightarrow> bps" where
  "bp_init W n = \<lparr>b_text = W, b_slots = replicate n \<lparr>sl_alive = True,
     sl_rec = \<lparr>st_addr = 0, st_orig = 0, st_live = False\<rparr>, sl_at = Idle\<rparr>\<rparr>"

inductive bp_reach :: "(u64 \<Rightarrow> u32) \<Rightarrow> nat \<Rightarrow> bps \<Rightarrow> bool" where
  init: "bp_reach W n (bp_init W n)"
| step: "bp_reach W n st \<Longrightarrow> bp_step st st' \<Longrightarrow> bp_reach W n st'"

section \<open>The invariant\<close>

text \<open>A word of the text with a breakpoint in it is accounted for by a task.\<close>

definition accounts :: "u64 \<Rightarrow> slot \<Rightarrow> bool" where
  "accounts a s \<longleftrightarrow> st_live (sl_rec s) \<and> st_addr (sl_rec s) = a \<or>
     (case sl_at s of P_live \<Rightarrow> st_addr (sl_rec s) = a | U_look b w \<Rightarrow> b = a | U_poke b w \<Rightarrow> b = a | _ \<Rightarrow> False)"

text \<open>The word a record, or a task in the middle of an operation, holds is the word of the program.\<close>

definition slot_ok :: "(u64 \<Rightarrow> u32) \<Rightarrow> slot \<Rightarrow> bool" where
  "slot_ok W s \<longleftrightarrow>
     (let r = sl_rec s; held = st_orig r = W (st_addr r) \<and> 4 dvd unat (st_addr r) in
      (st_live r \<longrightarrow> held) \<and> (\<not> sl_alive s \<longrightarrow> sl_at s = Idle) \<and>
      (case sl_at s of
         P_poke \<Rightarrow> held \<and> \<not> st_live r | P_live \<Rightarrow> held \<and> \<not> st_live r | P_join \<Rightarrow> held \<and> \<not> st_live r
       | P_check \<Rightarrow> st_live r | P_repoke \<Rightarrow> st_live r
       | P_read a n \<Rightarrow> 4 dvd unat a \<and> \<not> st_live r | P_look a n \<Rightarrow> 4 dvd unat a \<and> \<not> st_live r
       | U_look a w \<Rightarrow> w = W a \<and> \<not> st_live r | U_poke a w \<Rightarrow> w = W a \<and> \<not> st_live r
       | _ \<Rightarrow> True))"

definition bp_inv :: "(u64 \<Rightarrow> u32) \<Rightarrow> bps \<Rightarrow> bool" where
  "bp_inv W st \<longleftrightarrow>
     (\<forall>i < length (b_slots st). slot_ok W (slot_of st i)) \<and>
     (\<forall>a. b_text st a = W a \<or> b_text st a = PT_STEP_BRK \<and> (\<exists>i < length (b_slots st). accounts a (slot_of st i)))"

lemma upd_fields [simp]:
  "b_text (upd i f st) = b_text st" "length (b_slots (upd i f st)) = length (b_slots st)"
  "i < length (b_slots st) \<Longrightarrow> slot_of (upd i f st) j = (if j = i then f (slot_of st i) else slot_of st j)"
  by (auto simp: upd_def nth_list_update)

lemma poke_fields [simp]: "b_text (cng_pt_poke_text a w st) = (b_text st)(a := w)"
  "b_slots (cng_pt_poke_text a w st) = b_slots st"
  by (simp_all add: cng_pt_poke_text_def)

lemmas slot_moves = goto_def set_live_def set_rec_def

lemma bp_inv_slot: "bp_inv W st \<Longrightarrow> i < length (b_slots st) \<Longrightarrow> slot_ok W (slot_of st i)"
  by (simp add: bp_inv_def)

text \<open>The invariant after a step of one task that changes its slot, and possibly one word.\<close>

lemma bp_inv_upd:
  assumes inv: "bp_inv W st" and i: "i < length (b_slots st)"
    and eq: "length (b_slots st') = length (b_slots st)" "\<And>j. j \<noteq> i \<Longrightarrow> slot_of st' j = slot_of st j"
    and ok: "slot_ok W (slot_of st' i)"
    and words: "\<And>a. b_text st' a = W a \<or> b_text st' a = PT_STEP_BRK \<and> accounts a (slot_of st' i) \<or>
      b_text st' a = b_text st a \<and> (accounts a (slot_of st i) \<longrightarrow> accounts a (slot_of st' i) \<or>
        (\<exists>j < length (b_slots st). j \<noteq> i \<and> accounts a (slot_of st j)))"
  shows "bp_inv W st'"
proof -
  have "slot_ok W (slot_of st' j)" if "j < length (b_slots st)" for j
    using bp_inv_slot [OF inv that] ok eq(2) [of j] by (cases "j = i") auto
  moreover have "b_text st' a = W a \<or> b_text st' a = PT_STEP_BRK \<and> (\<exists>j < length (b_slots st). accounts a (slot_of st' j))" for a
  proof -
    consider "b_text st' a = W a" | "b_text st' a = PT_STEP_BRK" "accounts a (slot_of st' i)"
      | "b_text st' a = b_text st a" "accounts a (slot_of st i) \<longrightarrow> accounts a (slot_of st' i) \<or>
          (\<exists>j < length (b_slots st). j \<noteq> i \<and> accounts a (slot_of st j))"
      using words [of a] by blast
    then show ?thesis
    proof cases
      case 3
      then show ?thesis using inv eq(2) i unfolding bp_inv_def by metis
    qed (use i in auto)
  qed
  ultimately show ?thesis by (simp add: bp_inv_def eq(1))
qed

lemma shared_scan_inv:
  assumes "shared_scan self a is st = (res, st')" "bp_inv W st" "set is \<subseteq> {0..<length (b_slots st)}"
  shows "bp_inv W st' \<and> length (b_slots st') = length (b_slots st) \<and> slot_of st' self = slot_of st self \<and>
    (\<forall>w. res = Some w \<longrightarrow> (\<exists>j < length (b_slots st'). j \<noteq> self \<and> st_live (sl_rec (slot_of st' j)) \<and>
      st_addr (sl_rec (slot_of st' j)) = a \<and> st_orig (sl_rec (slot_of st' j)) = w))"
  using assms
proof (induction "is" arbitrary: st)
  case (Cons i is')
  note IH = Cons.IH and pr = Cons.prems
  let ?s = "slot_of st i"
  have i: "i < length (b_slots st)" and sub: "set is' \<subseteq> {0..<length (b_slots st)}" using pr(3) by auto
  consider "i = self \<or> \<not> st_live (sl_rec ?s) \<or> st_addr (sl_rec ?s) \<noteq> a"
    | "i \<noteq> self" "st_live (sl_rec ?s)" "st_addr (sl_rec ?s) = a" "\<not> sl_alive ?s"
    | "i \<noteq> self" "st_live (sl_rec ?s)" "st_addr (sl_rec ?s) = a" "sl_alive ?s" by blast
  then show ?case
  proof cases
    case 1
    then have "shared_scan self a is' st = (res, st')" using pr(1) by (auto simp: Let_def split: if_splits)
    then show ?thesis using IH pr(2) sub by blast
  next
    case 2
    let ?st = "cng_pt_poke_text (st_addr (sl_rec ?s)) (st_orig (sl_rec ?s)) (set_live i False st)"
    have ok: "slot_ok W ?s" using bp_inv_slot [OF pr(2) i] .
    have "bp_inv W ?st"
      by (rule bp_inv_upd [OF pr(2) i])
        (use ok 2 i in \<open>auto simp: slot_moves slot_ok_def accounts_def Let_def\<close>)
    moreover have "shared_scan self a is' ?st = (res, st')" using 2 pr(1) by (simp add: Let_def)
    moreover have f: "length (b_slots ?st) = length (b_slots st)" "slot_of ?st self = slot_of st self"
      using 2 i by (simp_all add: slot_moves)
    moreover have "set is' \<subseteq> {0..<length (b_slots ?st)}" using sub f(1) by simp
    ultimately show ?thesis using IH [of ?st] unfolding f by blast
  next
    case 3
    then show ?thesis using pr i by (auto simp: Let_def)
  qed
qed simp

lemma shared_inv:
  assumes "cng_pt_step_shared i a st = (res, st')" "bp_inv W st"
  shows "bp_inv W st'" "length (b_slots st') = length (b_slots st)" "slot_of st' i = slot_of st i"
    "res = Some w \<Longrightarrow> \<exists>j < length (b_slots st'). j \<noteq> i \<and> st_live (sl_rec (slot_of st' j)) \<and>
      st_addr (sl_rec (slot_of st' j)) = a \<and> st_orig (sl_rec (slot_of st' j)) = w"
proof -
  have "shared_scan i a [0..<length (b_slots st)] st = (res, st')" using assms(1) by (simp add: cng_pt_step_shared_def)
  from shared_scan_inv [OF this assms(2)] show "bp_inv W st'" "length (b_slots st') = length (b_slots st)"
    "slot_of st' i = slot_of st i"
    "res = Some w \<Longrightarrow> \<exists>j < length (b_slots st'). j \<noteq> i \<and> st_live (sl_rec (slot_of st' j)) \<and>
      st_addr (sl_rec (slot_of st' j)) = a \<and> st_orig (sl_rec (slot_of st' j)) = w"
    by (blast intro: order_refl | simp)+
qed

text \<open>A step that leaves the text alone and accounts for no word less.\<close>

lemma bp_inv_quiet:
  assumes "bp_inv W st" "i < length (b_slots st)" "slot_ok W (f (slot_of st i))"
    "\<And>a. accounts a (slot_of st i) \<Longrightarrow> accounts a (f (slot_of st i))"
  shows "bp_inv W (upd i f st)"
  by (rule bp_inv_upd [OF assms(1,2)]) (use assms(2-4) in auto)

lemma upd_upd [simp]: "i < length (b_slots st) \<Longrightarrow> upd i f (upd i g st) = upd i (f \<circ> g) st"
  by (simp add: upd_def)

lemma upd_poke [simp]: "upd i f (cng_pt_poke_text a w st) = cng_pt_poke_text a w (upd i f st)"
  by (simp add: upd_def cng_pt_poke_text_def)

lemma plant_step_inv:
  assumes inv: "bp_inv W st" and i: "i < length (b_slots st)" and al: "sl_alive (slot_of st i)"
  shows "bp_inv W (plant_step i ok st)"
proof -
  note ok1 = bp_inv_slot [OF inv i]
  show ?thesis
  proof (cases "sl_at (slot_of st i)")
    case (P_read a n)
    have "b_text st a \<noteq> PT_STEP_BRK \<Longrightarrow> b_text st a = W a" using inv unfolding bp_inv_def by metis
    then show ?thesis using P_read ok1 i al
      by (auto simp: plant_step_def slot_moves Let_def slot_ok_def accounts_def intro!: bp_inv_quiet [OF inv i])
  next
    case P_poke
    have "bp_inv W (cng_pt_poke_text (st_addr (sl_rec (slot_of st i))) PT_STEP_BRK (upd i (\<lambda>s. s\<lparr>sl_at := P_live\<rparr>) st))"
      by (rule bp_inv_upd [OF inv i]) (use P_poke ok1 i al in \<open>auto simp: slot_ok_def accounts_def Let_def\<close>)
    then show ?thesis using P_poke ok1 i al
      by (auto simp: plant_step_def slot_moves Let_def slot_ok_def accounts_def intro!: bp_inv_quiet [OF inv i])
  next
    case (P_look a n)
    obtain res st1 where e: "cng_pt_step_shared i a st = (res, st1)" by fastforce
    note sh = shared_inv [OF e inv]
    have i1: "i < length (b_slots st1)" using sh(2) i by simp
    have w: "w = W a" if "res = Some w" for w
      using sh(4) [OF that] bp_inv_slot [OF sh(1)] by (auto simp: slot_ok_def Let_def)
    have s1: "\<not> st_live (sl_rec (slot_of st1 i))" "sl_at (slot_of st1 i) = P_look a n" "4 dvd unat a" "sl_alive (slot_of st1 i)"
      using P_look ok1 sh(3) al by (auto simp: slot_ok_def Let_def)
    show ?thesis
    proof (cases res)
      case None
      have "bp_inv W (goto i (if n < PLANT_SPINS then P_read a (n + 1) else Idle) st1)" unfolding goto_def
        by (rule bp_inv_quiet [OF sh(1) i1]) (use s1 in \<open>simp_all add: slot_ok_def accounts_def Let_def\<close>)
      then show ?thesis using P_look e None by (simp add: plant_step_def Let_def split: if_splits)
    next
      case (Some v)
      have "bp_inv W (upd i ((\<lambda>s. s\<lparr>sl_at := P_join\<rparr>) \<circ> (\<lambda>s. s\<lparr>sl_rec := (sl_rec s)\<lparr>st_addr := a, st_orig := v\<rparr>\<rparr>)) st1)"
        by (rule bp_inv_quiet [OF sh(1) i1]) (use s1 w [OF Some] in \<open>simp_all add: slot_ok_def accounts_def Let_def\<close>)
      then show ?thesis using P_look e Some i1 by (simp add: plant_step_def slot_moves Let_def)
    qed
  next
    case P_repoke
    have "bp_inv W (cng_pt_poke_text (st_addr (sl_rec (slot_of st i))) PT_STEP_BRK (upd i (\<lambda>s. s\<lparr>sl_at := Idle\<rparr>) st))"
      by (rule bp_inv_upd [OF inv i]) (use P_repoke ok1 i al in \<open>auto simp: slot_ok_def accounts_def Let_def\<close>)
    then show ?thesis using P_repoke ok1 i al
      by (auto simp: plant_step_def slot_moves Let_def slot_ok_def accounts_def intro!: bp_inv_quiet [OF inv i])
  qed (use ok1 i al inv in \<open>auto simp: plant_step_def slot_moves Let_def slot_ok_def accounts_def
    intro!: bp_inv_quiet [OF inv i]\<close>)
qed

lemma unplant_step_inv:
  assumes inv: "bp_inv W st" and i: "i < length (b_slots st)" and al: "sl_alive (slot_of st i)"
  shows "bp_inv W (unplant_step i st)"
proof -
  note ok1 = bp_inv_slot [OF inv i]
  show ?thesis
  proof (cases "sl_at (slot_of st i)")
    case (U_look a w)
    obtain res st1 where e: "cng_pt_step_shared i a st = (res, st1)" by fastforce
    note sh = shared_inv [OF e inv]
    have i1: "i < length (b_slots st1)" using sh(2) i by simp
    show ?thesis
    proof (cases res)
      case None
      then show ?thesis using U_look ok1 i al e sh(3) i1
        by (auto simp: unplant_step_def slot_moves Let_def slot_ok_def accounts_def intro!: bp_inv_quiet [OF sh(1) i1])
    next
      case (Some v)
      let ?st = "upd i (\<lambda>s. s\<lparr>sl_rec := (sl_rec s)\<lparr>st_addr := 0, st_orig := st_orig (sl_rec (slot_of st i))\<rparr>, sl_at := Idle\<rparr>) st1"
      obtain j where j: "j < length (b_slots st1)" "j \<noteq> i" "accounts a (slot_of st1 j)"
        using sh(4) [OF Some] by (auto simp: accounts_def)
      have "bp_inv W ?st"
        by (rule bp_inv_upd [OF sh(1) i1])
          (use U_look ok1 sh(3) i1 j in \<open>auto simp: slot_ok_def accounts_def Let_def\<close>)
      then show ?thesis using U_look Some e i1 by (simp add: unplant_step_def slot_moves Let_def comp_def)
    qed
  next
    case (U_poke a w)
    let ?st = "cng_pt_poke_text a w
      (upd i (\<lambda>s. s\<lparr>sl_rec := (sl_rec s)\<lparr>st_addr := 0, st_orig := st_orig (sl_rec (slot_of st i))\<rparr>, sl_at := Idle\<rparr>) st)"
    have "bp_inv W ?st"
      by (rule bp_inv_upd [OF inv i]) (use U_poke ok1 i in \<open>auto simp: slot_ok_def accounts_def Let_def\<close>)
    then show ?thesis using U_poke i by (simp add: unplant_step_def slot_moves Let_def comp_def)
  qed (use ok1 i al inv in \<open>auto simp: unplant_step_def slot_moves Let_def slot_ok_def accounts_def
    intro!: bp_inv_quiet [OF inv i]\<close>)
qed

lemma bp_step_inv: "bp_step st st' \<Longrightarrow> bp_inv W st \<Longrightarrow> bp_inv W st'"
proof (induction rule: bp_step.induct)
  case (start_plant i st a)
  have "slot_ok W (slot_of st i)" by (rule bp_inv_slot [OF start_plant(7,1)])
  then show ?case unfolding goto_def
    by (intro bp_inv_quiet [OF start_plant(7,1)])
      (use start_plant in \<open>auto simp: slot_ok_def accounts_def Let_def\<close>)
next
  case (start_unplant i st)
  have "slot_ok W (slot_of st i)" by (rule bp_inv_slot [OF start_unplant(4,1)])
  then show ?case unfolding goto_def
    by (intro bp_inv_quiet [OF start_unplant(4,1)])
      (use start_unplant in \<open>auto simp: slot_ok_def accounts_def Let_def\<close>)
next
  case (exit i st)
  have "slot_ok W (slot_of st i)" by (rule bp_inv_slot [OF exit(3,1)])
  then show ?case
    by (intro bp_inv_quiet [OF exit(3,1)]) (use exit in \<open>auto simp: slot_ok_def accounts_def Let_def\<close>)
next
  case (claim i st)
  have "slot_ok W (slot_of st i)" by (rule bp_inv_slot [OF claim(3,1)])
  then show ?case
    by (intro bp_inv_quiet [OF claim(3,1)]) (use claim in \<open>auto simp: slot_ok_def accounts_def Let_def\<close>)
qed (simp_all add: plant_step_inv unplant_step_inv)

lemma bp_reach_inv: "bp_reach W n st \<Longrightarrow> bp_inv W st"
  by (induction rule: bp_reach.induct)
    (simp_all add: bp_step_inv, simp add: bp_inv_def bp_init_def slot_ok_def)

section \<open>What a tracer and a fork child see\<close>

definition quiet :: "bps \<Rightarrow> bool" where
  "quiet st \<longleftrightarrow> (\<forall>s\<in>set (b_slots st). sl_at s = Idle)"

definition byte_at :: "(u64 \<Rightarrow> u32) \<Rightarrow> u64 \<Rightarrow> u8" where
  "byte_at T x = byte_of (T (of_nat (unat x div 4 * 4))) (unat x mod 4)"

definition bytes_from :: "(u64 \<Rightarrow> u32) \<Rightarrow> u64 \<Rightarrow> nat \<Rightarrow> u8 list" where
  "bytes_from T addr len = map (\<lambda>k. byte_at T (addr + of_nat k)) [0..<len]"

definition in_word :: "u64 \<Rightarrow> u64 \<Rightarrow> bool" where
  "in_word a x \<longleftrightarrow> unat x div 4 * 4 = unat a"

lemma unat_add_small: "unat (a :: u64) + k < 2 ^ 64 \<Longrightarrow> unat (a + of_nat k) = unat a + k"
proof -
  assume h: "unat a + k < 2 ^ 64"
  then have "unat (of_nat k :: u64) = k" by (simp add: unat_of_nat)
  then show ?thesis using h by (simp add: unat_word_ariths)
qed

lemma mask_byte_nth:
  assumes "unat addr + length buf < 2 ^ 64" "4 dvd unat (st_addr r)" "k < 4" "p < length buf"
  shows "mask_byte addr r buf k ! p =
    (if unat addr + p = unat (st_addr r) + k then byte_of (st_orig r) k else buf ! p)"
proof -
  let ?x = "st_addr r + of_nat k"
  have "unat (st_addr r) < 2 ^ 64" using unsigned_less [of "st_addr r", where ?'a = nat] by simp
  then have x: "unat ?x = unat (st_addr r) + k" using assms(2,3) by (intro unat_add_small) (auto elim!: dvdE)
  have e: "unat (addr + of_nat (length buf)) = unat addr + length buf" using assms(1) by (rule unat_add_small)
  have c: "?x \<ge> addr \<and> ?x < addr + of_nat (length buf) \<longleftrightarrow>
      unat addr \<le> unat (st_addr r) + k \<and> unat (st_addr r) + k < unat addr + length buf"
    by (simp add: word_le_nat_alt word_less_nat_alt x e)
  have d: "unat (?x - addr) = unat (st_addr r) + k - unat addr" if "unat addr \<le> unat (st_addr r) + k"
    using that by (simp add: unat_sub word_le_nat_alt x)
  show ?thesis
  proof (cases "?x \<ge> addr \<and> ?x < addr + of_nat (length buf)")
    case True
    then have b: "unat addr \<le> unat (st_addr r) + k" "unat (st_addr r) + k < unat addr + length buf" using c by auto
    show ?thesis using True b d [OF b(1)] assms(4) by (auto simp: mask_byte_def Let_def nth_list_update)
  next
    case False
    then show ?thesis using c assms(4) by (auto simp: mask_byte_def Let_def)
  qed
qed

lemma length_mask_byte [simp]: "length (mask_byte addr r buf k) = length buf"
  by (simp add: mask_byte_def Let_def)

lemma div_4_iff: "(n::nat) div 4 * 4 = 4 * q \<longleftrightarrow> (\<exists>k<4. n = 4 * q + k)"
proof
  assume "n div 4 * 4 = 4 * q"
  then have "n = 4 * q + n mod 4" using div_mult_mod_eq [of n 4] by simp
  then show "\<exists>k<4. n = 4 * q + k" by (intro exI [of _ "n mod 4"]) simp
qed auto

lemma in_word_iff:
  assumes "4 dvd unat a" "unat addr + p < 2 ^ 64"
  shows "in_word a (addr + of_nat p) \<longleftrightarrow> (\<exists>k<4. unat addr + p = unat a + k)"
proof -
  obtain q where "unat a = 4 * q" using assms(1) by (auto elim: dvdE)
  then show ?thesis unfolding in_word_def unat_add_small [OF assms(2)] by (simp only: div_4_iff)
qed

lemma mask_slot_nth:
  assumes "unat addr + length buf < 2 ^ 64" "slot_ok W s" "p < length buf"
  shows "mask_slot addr buf s ! p = (if st_live (sl_rec s) \<and> in_word (st_addr (sl_rec s)) (addr + of_nat p)
    then byte_at W (addr + of_nat p) else buf ! p)"
proof (cases "st_live (sl_rec s)")
  case True
  let ?a = "st_addr (sl_rec s)"
  have a: "4 dvd unat ?a" "st_orig (sl_rec s) = W ?a" using assms(2) True by (auto simp: slot_ok_def Let_def)
  have l: "unat addr + p < 2 ^ 64" using assms(1,3) by linarith
  have b: "byte_at W (addr + of_nat p) = byte_of (W ?a) k" if k: "k < 4" "unat addr + p = unat ?a + k" for k
  proof -
    have "unat (addr + of_nat p) div 4 * 4 = unat ?a" "unat (addr + of_nat p) mod 4 = k"
      using k a(1) unat_add_small [OF l] by (auto elim!: dvdE)
    then show ?thesis by (simp add: byte_at_def)
  qed
  have u: "[0..<4] = [0, 1, 2, 3 :: nat]" by code_simp
  let ?P = "unat addr + p" and ?A = "unat ?a"
  have e: "mask_slot addr buf s ! p =
      (if ?P = ?A + 3 then byte_of (W ?a) 3 else if ?P = ?A + 2 then byte_of (W ?a) 2
       else if ?P = ?A + 1 then byte_of (W ?a) 1 else if ?P = ?A + 0 then byte_of (W ?a) 0 else buf ! p)"
    using True assms(1,3) a(1) by (simp add: mask_slot_def u mask_byte_nth a(2) del: add_0_right add_Suc_right)
  have "(\<exists>k<4. ?P = ?A + k) \<longleftrightarrow> ?P = ?A + 3 \<or> ?P = ?A + 2 \<or> ?P = ?A + 1 \<or> ?P = ?A + 0"
    by presburger
  then show ?thesis unfolding e in_word_iff [OF a(1) l] using b [of 0] b [of 1] b [of 2] b [of 3] True by simp
qed (simp add: mask_slot_def)

lemma length_mask_slot [simp]: "length (mask_slot addr buf s) = length buf"
  by (simp add: mask_slot_def numeral_eq_Suc)

lemma mask_slots_nth:
  assumes "unat addr + length buf < 2 ^ 64" "\<forall>s\<in>set ss. slot_ok W s" "p < length buf"
  shows "foldl (mask_slot addr) buf ss ! p =
    (if \<exists>s\<in>set ss. st_live (sl_rec s) \<and> in_word (st_addr (sl_rec s)) (addr + of_nat p)
     then byte_at W (addr + of_nat p) else buf ! p)"
  using assms by (induction ss arbitrary: buf) (auto simp: mask_slot_nth)

lemma length_mask_slots [simp]: "length (foldl (mask_slot addr) buf ss) = length buf"
  by (induction ss arbitrary: buf) simp_all

lemma quiet_text:
  assumes "bp_inv W st" "quiet st"
  shows "b_text st a = W a \<or> (\<exists>s\<in>set (b_slots st). st_live (sl_rec s) \<and> st_addr (sl_rec s) = a)"
proof (rule disjCI)
  assume no: "\<not> (\<exists>s\<in>set (b_slots st). st_live (sl_rec s) \<and> st_addr (sl_rec s) = a)"
  have "\<not> accounts a (slot_of st i)" if "i < length (b_slots st)" for i
    using that no assms(2) nth_mem [OF that] by (auto simp: accounts_def quiet_def)
  then show "b_text st a = W a" using assms(1) unfolding bp_inv_def by blast
qed

lemma clear_one_ok:
  assumes "bp_inv W st" "quiet st" "i < length (b_slots st)"
  shows "bp_inv W (clear_one st i)" "quiet (clear_one st i)" "length (b_slots (clear_one st i)) = length (b_slots st)"
    "\<not> st_live (sl_rec (slot_of (clear_one st i) i))" "j \<noteq> i \<Longrightarrow> slot_of (clear_one st i) j = slot_of st j"
proof -
  let ?r = "sl_rec (slot_of st i)"
  have ok: "slot_ok W (slot_of st i)" by (rule bp_inv_slot [OF assms(1,3)])
  have id: "sl_at (slot_of st i) = Idle" using assms(2,3) by (simp add: quiet_def)
  show l: "length (b_slots (clear_one st i)) = length (b_slots st)" by (simp add: clear_one_def Let_def slot_moves)
  show n: "\<not> st_live (sl_rec (slot_of (clear_one st i) i))"
    using assms(3) by (simp add: clear_one_def Let_def slot_moves)
  show o: "slot_of (clear_one st i) j = slot_of st j" if "j \<noteq> i" for j
    using assms(3) that by (simp add: clear_one_def Let_def slot_moves)
  show "bp_inv W (clear_one st i)"
    by (rule bp_inv_upd [OF assms(1,3) l])
      (use ok id assms(3) in \<open>auto simp: clear_one_def Let_def slot_moves slot_ok_def accounts_def\<close>)
  have "sl_at (slot_of (clear_one st i) j) = Idle" if "j < length (b_slots st)" for j
    using assms(2,3) that nth_mem [OF that] by (cases "j = i") (simp_all add: clear_one_def Let_def slot_moves quiet_def)
  then show "quiet (clear_one st i)" using l by (auto simp: quiet_def in_set_conv_nth)
qed

lemma clear_all_ok:
  assumes "bp_inv W st" "quiet st" "k \<le> length (b_slots st)"
  shows "bp_inv W (foldl clear_one st [0..<k]) \<and> quiet (foldl clear_one st [0..<k]) \<and>
    length (b_slots (foldl clear_one st [0..<k])) = length (b_slots st) \<and>
    (\<forall>i<k. \<not> st_live (sl_rec (slot_of (foldl clear_one st [0..<k]) i)))"
  using assms(3)
proof (induction k)
  case (Suc k)
  let ?st = "foldl clear_one st [0..<k]"
  have h: "bp_inv W ?st" "quiet ?st" "length (b_slots ?st) = length (b_slots st)" "k < length (b_slots ?st)"
    "\<And>i. i < k \<Longrightarrow> \<not> st_live (sl_rec (slot_of ?st i))" using Suc by auto
  note c = clear_one_ok [OF h(1,2,4)]
  have "\<not> st_live (sl_rec (slot_of (clear_one ?st k) i))" if "i < Suc k" for i
    using that c(4) c(5) [of i] h(5) [of i] by (cases "i = k") auto
  then show ?case using c h by simp
qed (use assms in simp)


text \<open>Two tasks in a program of \<open>nop\<close>s.\<close>

abbreviation "nops \<equiv> (\<lambda>_. 0xD503201F) :: u64 \<Rightarrow> u32"

definition two :: "(u64 \<Rightarrow> u32) \<Rightarrow> step_rec \<Rightarrow> phase \<Rightarrow> step_rec \<Rightarrow> phase \<Rightarrow> bps" where
  "two T r p r' p' = \<lparr>b_text = T, b_slots = [\<lparr>sl_alive = True, sl_rec = r, sl_at = p\<rparr>, \<lparr>sl_alive = True, sl_rec = r', sl_at = p'\<rparr>]\<rparr>"

lemmas two_simps = two_def plant_step_def unplant_step_def slot_moves upd_def cng_pt_poke_text_def
  cng_pt_step_shared_def Let_def

abbreviation "unset \<equiv> \<lparr>st_addr = 0, st_orig = 0, st_live = False\<rparr>"
abbreviation "rec_at l \<equiv> \<lparr>st_addr = 0x1000, st_orig = 0xD503201F, st_live = l\<rparr>"

lemma two_start: "bp_reach nops 2 (two nops unset Idle unset Idle)"
  using bp_reach.init [of nops 2] by (simp add: two_def bp_init_def numeral_2_eq_2)

lemma two_begin:
  "bp_reach W n (two T r Idle r' p') \<Longrightarrow> \<not> st_live r \<Longrightarrow> bp_reach W n (two T r (P_read 0x1000 0) r' p')"
  "bp_reach W n (two T r p r' Idle) \<Longrightarrow> \<not> st_live r' \<Longrightarrow> bp_reach W n (two T r p r' (P_read 0x1000 0))"
  "bp_reach W n (two T r p r' Idle) \<Longrightarrow> bp_reach W n (two T r p r' U_start)"
  using bp_reach.step [OF _ bp_step.start_plant [of 0 "two T r Idle r' p'" "0x1000"], of W n]
    bp_reach.step [OF _ bp_step.start_plant [of 1 "two T r p r' Idle" "0x1000"], of W n]
    bp_reach.step [OF _ bp_step.start_unplant [of 1 "two T r p r' Idle"], of W n]
  by (simp_all add: two_simps)

lemma two_step:
  "bp_reach W n (two T r p r' p') \<Longrightarrow> bp_reach W n (plant_step 0 True (two T r p r' p'))"
  "bp_reach W n (two T r p r' p') \<Longrightarrow> bp_reach W n (plant_step 1 True (two T r p r' p'))"
  "bp_reach W n (two T r p r' p') \<Longrightarrow> bp_reach W n (unplant_step 1 (two T r p r' p'))"
  using bp_reach.step [OF _ bp_step.plant [of 0 "two T r p r' p'" True], of W n]
    bp_reach.step [OF _ bp_step.plant [of 1 "two T r p r' p'" True], of W n]
    bp_reach.step [OF _ bp_step.unplant [of 1 "two T r p r' p'"], of W n]
  by (simp_all add: two_simps)


text \<open>
  C38. A step can run away. When two tasks plant at the same address and the first one done takes its breakpoint
  down between the other's write of the word and the publication of its record, the other is left with a live
  record and no breakpoint: nothing is in the middle of an operation, and the word is the program's own.
\<close>

theorem breakpoint_can_be_lost:
  "\<exists>st. bp_reach nops 2 st \<and> quiet st \<and> cng_pt_step_hit 0 0x1000 st \<and> b_text st = nops"
proof -
  let ?T = "nops(0x1000 := PT_STEP_BRK)"
  have "bp_reach nops 2 (two nops unset (P_read 0x1000 0) unset Idle)" using two_begin(1) [OF two_start] by simp
  from two_step(1) [OF this] have "bp_reach nops 2 (two nops (rec_at False) P_poke unset Idle)" by (simp add: two_simps)
  from two_begin(2) [OF this] have "bp_reach nops 2 (two nops (rec_at False) P_poke unset (P_read 0x1000 0))" by simp
  from two_step(2) [OF this] have "bp_reach nops 2 (two nops (rec_at False) P_poke (rec_at False) P_poke)" by (simp add: two_simps)
  from two_step(2) [OF this] have "bp_reach nops 2 (two ?T (rec_at False) P_poke (rec_at False) P_live)" by (simp add: two_simps)
  from two_step(2) [OF this] have "bp_reach nops 2 (two ?T (rec_at False) P_poke (rec_at True) Idle)" by (simp add: two_simps)
  from two_step(1) [OF this] have "bp_reach nops 2 (two ?T (rec_at False) P_live (rec_at True) Idle)" by (simp add: two_simps)
  from two_begin(3) [OF this] have "bp_reach nops 2 (two ?T (rec_at False) P_live (rec_at True) U_start)" .
  from two_step(3) [OF this]
  have "bp_reach nops 2 (two ?T (rec_at False) P_live (rec_at False) (U_look 0x1000 0xD503201F))" by (simp add: two_simps)
  from two_step(3) [OF this]
  have "bp_reach nops 2 (two ?T (rec_at False) P_live (rec_at False) (U_poke 0x1000 0xD503201F))" by (simp add: two_simps)
  from two_step(3) [OF this]
  have "bp_reach nops 2 (two nops (rec_at False) P_live ((rec_at False)\<lparr>st_addr := 0\<rparr>) Idle)"
    by (simp add: two_simps fun_upd_idem)
  from two_step(1) [OF this]
  have "bp_reach nops 2 (two nops (rec_at True) Idle ((rec_at False)\<lparr>st_addr := 0\<rparr>) Idle)" by (simp add: two_simps)
  then show ?thesis
    by (intro exI [of _ "two nops (rec_at True) Idle ((rec_at False)\<lparr>st_addr := 0\<rparr>) Idle"])
      (simp add: two_def quiet_def cng_pt_step_hit_def)
qed

end
