(* ===== verification/Stack.thy ===== *)
theory Stack
  imports Rt_Str
begin

text \<open>
  \<open>src/loader/stack.c\<close>: the stack a program starts on. \<open>cng_build_stack\<close> writes the strings at the top of a
  fresh mapping, keeps their addresses in two arrays at its bottom, and copies them from there into the
  vector below the strings. Memory is the partial map of \<open>Rt_Mem\<close>: a store outside what is mapped, the
  guard below the stack for one, is a fault.
\<close>

section \<open>The auxiliary vector\<close>

abbreviation "AT_NULL \<equiv> (0 :: u64)"
abbreviation "AT_PHDR \<equiv> (3 :: u64)"
abbreviation "AT_PHENT \<equiv> (4 :: u64)"
abbreviation "AT_PHNUM \<equiv> (5 :: u64)"
abbreviation "AT_PAGESZ \<equiv> (6 :: u64)"
abbreviation "AT_BASE \<equiv> (7 :: u64)"
abbreviation "AT_FLAGS \<equiv> (8 :: u64)"
abbreviation "AT_ENTRY \<equiv> (9 :: u64)"
abbreviation "AT_UID \<equiv> (11 :: u64)"
abbreviation "AT_EUID \<equiv> (12 :: u64)"
abbreviation "AT_GID \<equiv> (13 :: u64)"
abbreviation "AT_EGID \<equiv> (14 :: u64)"
abbreviation "AT_PLATFORM \<equiv> (15 :: u64)"
abbreviation "AT_HWCAP \<equiv> (16 :: u64)"
abbreviation "AT_CLKTCK \<equiv> (17 :: u64)"
abbreviation "AT_SECURE \<equiv> (23 :: u64)"
abbreviation "AT_RANDOM \<equiv> (25 :: u64)"
abbreviation "AT_HWCAP2 \<equiv> (26 :: u64)"
abbreviation "AT_EXECFN \<equiv> (31 :: u64)"
abbreviation "AT_SYSINFO_EHDR \<equiv> (33 :: u64)"
abbreviation "AT_MINSIGSTKSZ \<equiv> (51 :: u64)"

record cng_loaded =
  ld_entry :: u64
  ld_phdr :: u64
  ld_phent :: u64
  ld_phnum :: u64
  ld_base :: u64

text \<open>
  What the builder takes from its surroundings: the page size, where the host maps the region, the host's
  own auxiliary vector and the sixteen bytes its \<open>AT_RANDOM\<close> points at, what \<open>getrandom\<close> gives if it
  gives sixteen bytes, and the guest identity if there is one (real and effective uid, real and effective gid).
\<close>

record stk_env =
  e_page :: nat
  e_stk :: nat
  e_auxv :: "(u64 \<times> u64) list"
  e_host_random :: "u8 list"
  e_getrandom :: "u8 list option"
  e_fake :: "(u64 \<times> u64 \<times> u64 \<times> u64) option"

fun auxval :: "(u64 \<times> u64) list \<Rightarrow> u64 \<Rightarrow> u64" where
  "auxval [] t = 0"
| "auxval ((k, v) # av) t = (if k = t then v else auxval av t)"

definition aux_ids :: "stk_env \<Rightarrow> u64 \<times> u64 \<times> u64 \<times> u64" where
  "aux_ids e = (case e_fake e of
     Some ids \<Rightarrow> ids
   | None \<Rightarrow> (auxval (e_auxv e) AT_UID, auxval (e_auxv e) AT_EUID, auxval (e_auxv e) AT_GID, auxval (e_auxv e) AT_EGID))"

definition aux_opt :: "stk_env \<Rightarrow> u64 \<Rightarrow> (u64 \<times> u64) list" where
  "aux_opt e t = (if auxval (e_auxv e) t \<noteq> 0 then [(t, auxval (e_auxv e) t)] else [])"

definition aux_vector :: "stk_env \<Rightarrow> cng_loaded \<Rightarrow> cng_loaded option \<Rightarrow> u64 \<Rightarrow> u64 \<Rightarrow> u64 \<Rightarrow> (u64 \<times> u64) list" where
  "aux_vector e prog interp execfn_addr platform_addr random_addr =
     (case aux_ids e of (uid, euid, gid, egid) \<Rightarrow>
        [(AT_PHDR, ld_phdr prog), (AT_PHENT, ld_phent prog), (AT_PHNUM, ld_phnum prog), (AT_PAGESZ, of_nat (e_page e)),
         (AT_BASE, case interp of Some i \<Rightarrow> ld_base i | None \<Rightarrow> 0), (AT_FLAGS, 0), (AT_ENTRY, ld_entry prog),
         (AT_EXECFN, execfn_addr), (AT_PLATFORM, platform_addr), (AT_RANDOM, random_addr),
         (AT_UID, uid), (AT_EUID, euid), (AT_GID, gid), (AT_EGID, egid),
         (AT_SECURE, if uid \<noteq> euid \<or> gid \<noteq> egid then 1 else 0),
         (AT_CLKTCK, let clk = auxval (e_auxv e) AT_CLKTCK in if clk \<noteq> 0 then clk else 100)] @
        aux_opt e AT_HWCAP @ aux_opt e AT_HWCAP2 @ aux_opt e AT_SYSINFO_EHDR @ aux_opt e AT_MINSIGSTKSZ @
        [(AT_NULL, 0)])"

section \<open>Building the stack\<close>

definition GUEST_STACK_SIZE :: nat where "GUEST_STACK_SIZE = 64 * 2 ^ 20"

definition GUEST_STACK_GUARD :: "stk_env \<Rightarrow> nat" where "GUEST_STACK_GUARD e = 256 * e_page e"

text \<open>\<open>PUT_STR\<close> of each string of a vector, its address kept in an array.\<close>

fun put_strs :: "mem \<Rightarrow> nat \<Rightarrow> nat \<Rightarrow> u8 list list \<Rightarrow> (mem \<times> nat) option" where
  "put_strs m pos arr [] = Some (m, pos)"
| "put_strs m pos arr (s # ss) =
     Option.bind (store_bytes m pos (s @ [0])) (\<lambda>m.
     Option.bind (store64 m arr (of_nat pos)) (\<lambda>m.
     put_strs m (pos + (length s + 1)) (arr + 8) ss))"

text \<open>The copy of an array of addresses into the vector, a word at a time.\<close>

fun copy_words :: "mem \<Rightarrow> nat \<Rightarrow> nat \<Rightarrow> nat \<Rightarrow> mem option" where
  "copy_words m dst src 0 = Some m"
| "copy_words m dst src (Suc n) =
     Option.bind (load64 m src) (\<lambda>v. Option.bind (store64 m dst v) (\<lambda>m. copy_words m (dst + 8) (src + 8) n))"

fun put_words :: "mem \<Rightarrow> nat \<Rightarrow> u64 list \<Rightarrow> mem option" where
  "put_words m dst [] = Some m"
| "put_words m dst (v # vs) = Option.bind (store64 m dst v) (\<lambda>m. put_words m (dst + 8) vs)"

record built =
  b_sp :: nat
  b_stack_lo :: nat
  b_stack_len :: nat
  b_arg_start :: nat
  b_arg_end :: nat
  b_env_end :: nat

datatype stack_result = Too_big | Built mem built

definition platform :: "u8 list" where
  "platform = [0x61, 0x61, 0x72, 0x63, 0x68, 0x36, 0x34, 0]"

definition areabytes :: "u8 list list \<Rightarrow> u8 list list \<Rightarrow> u8 list \<Rightarrow> nat" where
  "areabytes argv envp execfn_str =
     length execfn_str + 1 + sum_list (map (\<lambda>s. length s + 1) argv) + sum_list (map (\<lambda>s. length s + 1) envp)"

definition need :: "u8 list list \<Rightarrow> u8 list list \<Rightarrow> u8 list \<Rightarrow> nat" where
  "need argv envp execfn_str =
     (let strbytes = 8 + areabytes argv envp execfn_str + length platform + 16
      in 2 * (length argv + length envp) * 8 + strbytes + (3 + 64 * 2) * 8 + 64)"

definition random_bytes :: "stk_env \<Rightarrow> u8 list" where
  "random_bytes e = (case e_getrandom e of
     Some bs \<Rightarrow> bs
   | None \<Rightarrow> if auxval (e_auxv e) AT_RANDOM \<noteq> 0 then e_host_random e else replicate 16 0x5A)"

definition execfn_of :: "u8 list list \<Rightarrow> u8 list option \<Rightarrow> u8 list" where
  "execfn_of argv execfn = (case execfn of Some s \<Rightarrow> s | None \<Rightarrow> if argv \<noteq> [] then hd argv else [])"

text \<open>The strings and the bytes below them; then the vector. Both return the memory they leave.\<close>

definition put_strings ::
  "stk_env \<Rightarrow> mem \<Rightarrow> nat \<Rightarrow> nat \<Rightarrow> nat \<Rightarrow> u8 list list \<Rightarrow> u8 list list \<Rightarrow> u8 list \<Rightarrow> (mem \<times> nat \<times> nat \<times> nat \<times> nat) option" where
  "put_strings e m sp_str argv_addr env_addr argv envp execfn_str =
     Option.bind (put_strs m sp_str argv_addr argv) (\<lambda>(m, arg_end).
     Option.bind (put_strs m arg_end env_addr envp) (\<lambda>(m, env_end).
     Option.bind (store_bytes m env_end (execfn_str @ [0])) (\<lambda>m.
     Option.bind (store64 m (env_end + (length execfn_str + 1)) 0) (\<lambda>m.
     let platform_addr = sp_str - length platform in
     Option.bind (store_bytes m platform_addr platform) (\<lambda>m.
     let random_addr = (platform_addr - 16) div 16 * 16 in
     Option.bind (store_bytes m random_addr (random_bytes e)) (\<lambda>m.
     Some (m, arg_end, env_end, platform_addr, random_addr)))))))"

definition put_vector :: "mem \<Rightarrow> nat \<Rightarrow> nat \<Rightarrow> nat \<Rightarrow> nat \<Rightarrow> nat \<Rightarrow> (u64 \<times> u64) list \<Rightarrow> mem option" where
  "put_vector m sp argc argv_addr envc env_addr aux =
     Option.bind (store64 m sp (of_nat argc)) (\<lambda>m.
     Option.bind (copy_words m (sp + 8) argv_addr argc) (\<lambda>m.
     Option.bind (store64 m (sp + 8 * (1 + argc)) 0) (\<lambda>m.
     Option.bind (copy_words m (sp + 8 * (2 + argc)) env_addr envc) (\<lambda>m.
     Option.bind (store64 m (sp + 8 * (2 + argc + envc)) 0) (\<lambda>m.
     put_words m (sp + 8 * (3 + argc + envc)) (concat (map (\<lambda>(t, v). [t, v]) aux)))))))"

definition cng_build_stack ::
  "stk_env \<Rightarrow> mem \<Rightarrow> u8 list list \<Rightarrow> u8 list list \<Rightarrow> cng_loaded \<Rightarrow> cng_loaded option \<Rightarrow> u8 list option \<Rightarrow>
   stack_result option" where
  "cng_build_stack e m argv envp prog interp execfn =
     (let argc = length argv; envc = length envp;
          region = GUEST_STACK_GUARD e + GUEST_STACK_SIZE; stk = e_stk e;
          bottom = stk + GUEST_STACK_GUARD e; top = bottom + GUEST_STACK_SIZE;
          argv_addr = bottom; env_addr = argv_addr + 8 * argc;
          execfn_str = execfn_of argv execfn in
      if need argv envp execfn_str > GUEST_STACK_SIZE then Some Too_big
      else
        let sp_str = top - 8 - areabytes argv envp execfn_str in
        Option.bind (put_strings e m sp_str argv_addr env_addr argv envp execfn_str)
          (\<lambda>(m, arg_end, env_end, platform_addr, random_addr).
        let aux = aux_vector e prog interp (of_nat env_end) (of_nat platform_addr) (of_nat random_addr);
            words = 1 + (argc + 1) + (envc + 1) + length aux * 2;
            sp = (random_addr - words * 8) div 16 * 16 in
        Option.bind (put_vector m sp argc argv_addr envc env_addr aux) (\<lambda>m.
        Some (Built m \<lparr>b_sp = sp, b_stack_lo = stk, b_stack_len = region, b_arg_start = sp_str,
                        b_arg_end = arg_end, b_env_end = env_end\<rparr>))))"

section \<open>What the pieces write\<close>

definition quads :: "u64 list \<Rightarrow> u8 list" where
  "quads ws = concat (map bytes_of_u64 ws)"

definition str_area :: "u8 list list \<Rightarrow> u8 list" where
  "str_area ss = concat (map (\<lambda>s. s @ [0]) ss)"

text \<open>Where the strings of a vector are when they follow one another.\<close>

fun str_addrs :: "nat \<Rightarrow> u8 list list \<Rightarrow> nat list" where
  "str_addrs a [] = []"
| "str_addrs a (s # ss) = a # str_addrs (a + (length s + 1)) ss"

lemma quads_simps [simp]: "quads [] = []" "quads (w # ws) = bytes_of_u64 w @ quads ws"
  by (simp_all add: quads_def)

lemma str_area_simps [simp]: "str_area [] = []" "str_area (s # ss) = s @ [0] @ str_area ss"
  by (simp_all add: str_area_def)

lemma length_quads [simp]: "length (quads ws) = 8 * length ws"
  by (induction ws) simp_all

lemma length_str_addrs [simp]: "length (str_addrs a ss) = length ss"
  by (induction ss arbitrary: a) simp_all

lemma length_str_area: "length (str_area ss) = sum_list (map (\<lambda>s. length s + 1) ss)"
  by (induction ss) simp_all

lemma put_commute:
  "a + length xs \<le> b \<or> b + length ys \<le> a \<Longrightarrow> put (put m a xs) b ys = put (put m b ys) a xs"
  by (auto simp: put_def fun_eq_iff)

lemma put_append': "c = a + length xs \<Longrightarrow> put (put m a xs) c ys = put m a (xs @ ys)"
  by (simp add: put_append)

lemma put_strs_eq:
  assumes "mapped m pos (length (str_area ss))" "mapped m arr (8 * length ss)"
    and "arr + 8 * length ss \<le> pos \<or> pos + length (str_area ss) \<le> arr"
  shows "put_strs m pos arr ss =
    Some (put (put m pos (str_area ss)) arr (quads (map of_nat (str_addrs pos ss))), pos + length (str_area ss))"
  using assms
proof (induction ss arbitrary: m pos arr)
  case (Cons s ss)
  let ?q = "bytes_of_u64 (of_nat pos)"
  let ?m1 = "put (put m pos (s @ [0])) arr ?q"
  have l: "length (str_area (s # ss)) = length s + 1 + length (str_area ss)" by simp
  have m: "mapped m pos (length (s @ [0]))" "mapped m arr 8"
    "mapped ?m1 (pos + (length s + 1)) (length (str_area ss))" "mapped ?m1 (arr + 8) (8 * length ss)"
    using Cons.prems(1,2) mapped_sub [of m pos _ 0 "length s + 1"] mapped_sub [of m arr _ 0 8]
      mapped_sub [of m pos _ "length s + 1" "length (str_area ss)"] mapped_sub [of m arr _ 8 "8 * length ss"]
    by (auto simp: l intro!: mapped_put)
  have "put_strs m pos arr (s # ss) = put_strs ?m1 (pos + (length s + 1)) (arr + 8) ss"
    using m by (simp add: store_bytes_put store64_put mapped_put)
  also have "\<dots> = Some (put (put ?m1 (pos + (length s + 1)) (str_area ss)) (arr + 8)
      (quads (map of_nat (str_addrs (pos + (length s + 1)) ss))), pos + (length s + 1) + length (str_area ss))"
    by (rule Cons.IH [OF m(3,4)]) (use Cons.prems(3) l in auto)
  also have "put ?m1 (pos + (length s + 1)) (str_area ss) = put (put m pos (str_area (s # ss))) arr ?q"
  proof -
    have "put ?m1 (pos + (length s + 1)) (str_area ss) =
        put (put (put m pos (s @ [0])) (pos + (length s + 1)) (str_area ss)) arr ?q"
      by (rule put_commute) (use Cons.prems(3) in auto)
    then show ?thesis by (simp add: put_append')
  qed
  finally show ?case by (simp add: put_append' add.assoc)
qed simp

lemma copy_words_eq:
  assumes "mapped m dst (8 * n)" "mapped m src (8 * n)" "src + 8 * n \<le> dst \<or> dst + 8 * n \<le> src"
  shows "copy_words m dst src n = Some (put m dst (bytes_at m src (8 * n)))"
  using assms
proof (induction n arbitrary: m dst src)
  case (Suc n)
  let ?m1 = "put m dst (bytes_at m src 8)"
  have m: "mapped m dst 8" "mapped m src 8" "mapped ?m1 (dst + 8) (8 * n)" "mapped ?m1 (src + 8) (8 * n)"
    using Suc.prems(1,2) mapped_sub [of m dst _ 0 8] mapped_sub [of m src _ 0 8]
      mapped_sub [of m dst _ 8 "8 * n"] mapped_sub [of m src _ 8 "8 * n"]
    by (auto intro!: mapped_put)
  have "copy_words m dst src (Suc n) = copy_words ?m1 (dst + 8) (src + 8) n"
    using m by (simp add: load64_mapped store64_put)
  also have "\<dots> = Some (put ?m1 (dst + 8) (bytes_at ?m1 (src + 8) (8 * n)))"
    by (rule Suc.IH [OF m(3,4)]) (use Suc.prems(3) in auto)
  also have "bytes_at ?m1 (src + 8) (8 * n) = bytes_at m (src + 8) (8 * n)"
    by (rule bytes_at_put) (use Suc.prems(3) in auto)
  finally show ?case
    using bytes_at_split [of 8 "8 * Suc n" m src] by (simp add: put_append')
qed (simp add: bytes_at_def)

lemma put_words_eq: "mapped m dst (8 * length ws) \<Longrightarrow> put_words m dst ws = Some (put m dst (quads ws))"
proof (induction ws arbitrary: m dst)
  case (Cons w ws)
  have "mapped m dst 8" "mapped (put m dst (bytes_of_u64 w)) (dst + 8) (8 * length ws)"
    using Cons.prems mapped_sub [of m dst _ 0 8] mapped_sub [of m dst _ 8 "8 * length ws"] by (auto intro!: mapped_put)
  then show ?case using Cons.IH by (simp add: store64_put put_append')
qed simp

section \<open>Reading the stack\<close>

definition words_at :: "mem \<Rightarrow> nat \<Rightarrow> nat \<Rightarrow> u64 list" where
  "words_at m a n = map (\<lambda>i. u64_of_bytes (bytes_at m (a + 8 * i) 8)) [0..<n]"

lemma u64_of_bytes_of_u64 [simp]: "u64_of_bytes (bytes_of_u64 w) = w"
proof (rule bit_word_eqI)
  fix n assume "n < LENGTH(64)"
  then have n: "n div 8 < 8" "n mod 8 < 8" "8 * (n div 8) + n mod 8 = n" by auto
  have "bit v n \<longleftrightarrow> bit (bytes_of_u64 v ! (n div 8)) (n mod 8)" for v :: u64
    using n by (simp add: bytes_of_u64_def bit_unsigned_iff bit_drop_bit_eq)
  from this [of "u64_of_bytes (bytes_of_u64 w)"] this [of w]
  show "bit (u64_of_bytes (bytes_of_u64 w)) n \<longleftrightarrow> bit w n" by simp
qed

lemma words_at_cong: "(\<And>x. a \<le> x \<Longrightarrow> x < a + 8 * n \<Longrightarrow> m x = m' x) \<Longrightarrow> words_at m a n = words_at m' a n"
  by (auto simp: words_at_def bytes_at_def intro!: arg_cong [of _ _ u64_of_bytes])

lemma words_at_put: "words_at (put m a (quads ws)) a (length ws) = ws"
proof (induction ws arbitrary: m a)
  case (Cons w ws)
  let ?m = "put m a (bytes_of_u64 w)"
  have m: "put m a (quads (w # ws)) = put ?m (a + 8) (quads ws)" by (simp add: put_append')
  have "bytes_at (put ?m (a + 8) (quads ws)) a 8 = bytes_of_u64 w"
    by (rule nth_equalityI) (auto simp: bytes_at_def put_def)
  moreover have "map (\<lambda>i. u64_of_bytes (bytes_at (put ?m (a + 8) (quads ws)) (a + 8 * i) 8)) [Suc 0..<Suc (length ws)] =
      words_at (put ?m (a + 8) (quads ws)) (a + 8) (length ws)"
    by (simp add: words_at_def map_Suc_upt [symmetric] add.assoc del: upt_Suc)
  ultimately show ?case unfolding m using Cons.IH [of ?m "a + 8"]
    by (simp add: words_at_def upt_conv_Cons del: upt_Suc)
qed (simp add: words_at_def)

lemma str_bytes_cong:
  assumes "\<And>x. p \<le> x \<Longrightarrow> x \<le> p + length s \<Longrightarrow> m x = m' x"
  shows "str_bytes m p s = str_bytes m' p s"
proof -
  have "map (\<lambda>i. the (m (p + i))) [0..<length s] = map (\<lambda>i. the (m' (p + i))) [0..<length s]" using assms by auto
  then show ?thesis unfolding str_bytes_def strz_def bytes_at_def using assms by (simp only: le_add1 add_le_cancel_left less_imp_le order_refl) simp
qed

lemma str_addrs_append: "str_addrs a (xs @ ys) = str_addrs a xs @ str_addrs (a + length (str_area xs)) ys"
  by (induction xs arbitrary: a) (simp_all add: add.assoc)

lemma str_area_append: "str_area (xs @ ys) = str_area xs @ str_area ys"
  by (simp add: str_area_def)

lemma str_area_strings:
  assumes "\<forall>s\<in>set ss. 0 \<notin> set s" "i < length ss"
  shows "str_bytes (put m a (str_area ss)) (str_addrs a ss ! i) (ss ! i) \<and>
    a \<le> str_addrs a ss ! i \<and> str_addrs a ss ! i + length (ss ! i) < a + length (str_area ss)"
  using assms
proof (induction ss arbitrary: m a i)
  case (Cons s ss)
  let ?m = "put m a (s @ [0])" and ?b = "a + (length s + 1)"
  have m: "put m a (str_area (s # ss)) = put ?m ?b (str_area ss)" by (simp add: put_append')
  show ?case
  proof (cases i)
    case 0
    have "str_bytes ?m a s" using Cons.prems(1) by (intro str_bytes_put) simp
    then have "str_bytes (put ?m ?b (str_area ss)) a s"
      by (rule iffD1 [OF str_bytes_cong, rotated]) (auto simp: put_def)
    then show ?thesis using 0 m by simp
  next
    case (Suc j)
    then show ?thesis using Cons.IH [of j ?m ?b] Cons.prems unfolding m by auto
  qed
qed simp

section \<open>The layout\<close>

lemma length_aux_vector: "length (aux_vector e prog interp x y z) \<le> 21"
  by (auto simp: aux_vector_def aux_opt_def split: prod.splits)

lemma length_pairs: "length (concat (map (\<lambda>(t, v). [t, v]) aux)) = 2 * length aux"
  by (induction aux) auto

text \<open>Addresses of the parts, and that they are apart.\<close>

lemma stack_arith:
  fixes B area argc envc aux :: nat
  assumes "2 * (argc + envc) * 8 + (8 + area + 8 + 16) + (3 + 64 * 2) * 8 + 64 \<le> S" "aux \<le> 21"
    and "A = B + S - 8 - area" "R = (A - 8 - 16) div 16 * 16"
    and "sp = (R - (1 + (argc + 1) + (envc + 1) + aux * 2) * 8) div 16 * 16"
  shows "A + area + 8 = B + S" "R + 16 \<le> A - 8" "8 \<le> A" "sp + 8 * (3 + argc + envc + 2 * aux) \<le> R"
    "B + 8 * argc + 8 * envc \<le> sp" "sp mod 16 = 0" "R mod 16 = 0"
proof -
  have d: "x - 15 \<le> x div 16 * 16" "x div 16 * 16 \<le> x" for x :: nat by presburger+
  show 1: "A + area + 8 = B + S" using assms(1,3) by linarith
  have h: "16 * (argc + envc) + area + 32 + 1048 + 64 \<le> S" using assms(1) by simp
  have A: "B + 16 * (argc + envc) + 8 + 16 + 1048 + 64 \<le> A" using h 1 by linarith
  then show "8 \<le> A" by linarith
  have R: "A - 8 - 16 - 15 \<le> R" "R \<le> A - 8 - 16" unfolding assms(4) by (rule d)+
  then show "R + 16 \<le> A - 8" using A by linarith
  define w where "w = (1 + (argc + 1) + (envc + 1) + aux * 2) * 8"
  have w: "w = 24 + 8 * argc + 8 * envc + 16 * aux" by (simp add: w_def)
  have s: "R - w - 15 \<le> sp" "sp \<le> R - w" unfolding assms(5) w_def by (rule d)+
  have R': "A \<le> R + 39" using R(1) by simp
  have Rw: "B + 8 * (argc + envc) + 15 + w \<le> R" using A R' assms(2) unfolding w distrib_left by linarith
  show "sp + 8 * (3 + argc + envc + 2 * aux) \<le> R" using s(2) Rw w by simp
  have "R \<le> sp + w + 15" using s(1) by simp
  then show "B + 8 * argc + 8 * envc \<le> sp" using Rw by simp
  show "sp mod 16 = 0" "R mod 16 = 0" unfolding assms(4,5) by simp_all
qed

lemma mapped_inside: "mapped m b n \<Longrightarrow> b \<le> a \<Longrightarrow> a + k \<le> b + n \<Longrightarrow> mapped m a k"
  using mapped_sub [of m b n "a - b" k] by simp

lemma bytes_at_put_same: "n = length xs \<Longrightarrow> bytes_at (put m a xs) a n = xs"
  by (rule nth_equalityI) (auto simp: bytes_at_def put_def)

lemma last_str_addrs: "last (str_addrs a (ss @ [s])) = a + length (str_area ss)"
  by (simp add: str_addrs_append)

text \<open>The vector a program finds at its stack pointer.\<close>

definition start_vector :: "u64 list \<Rightarrow> u64 list \<Rightarrow> (u64 \<times> u64) list \<Rightarrow> u64 list" where
  "start_vector pa pe aux =
     [of_nat (length pa)] @ pa @ [0] @ pe @ [0] @ concat (map (\<lambda>(t, v). [t, v]) aux)"

lemma length_start_vector: "length (start_vector pa pe aux) = 3 + length pa + length pe + 2 * length aux"
  by (simp add: start_vector_def length_pairs)

lemma quads_append: "quads (xs @ ys) = quads xs @ quads ys"
  by (induction xs) simp_all

lemma put_vector_eq:
  assumes mp: "mapped m B S" and b: "B + 8 * length pa + 8 * length pe \<le> sp"
    and t: "sp + 8 * (3 + length pa + length pe + 2 * length aux) \<le> B + S"
    and qa: "bytes_at m B (8 * length pa) = quads pa"
    and qe: "bytes_at m (B + 8 * length pa) (8 * length pe) = quads pe"
  shows "put_vector m sp (length pa) B (length pe) (B + 8 * length pa) aux = Some (put m sp (quads (start_vector pa pe aux)))"
proof -
  let ?a = "length pa" and ?e = "length pe" and ?aw = "concat (map (\<lambda>(t, v). [t, v]) aux)"
  let ?m1 = "put m sp (quads [of_nat ?a])"
  let ?m2 = "put m sp (quads ([of_nat ?a] @ pa))"
  let ?m3 = "put m sp (quads ([of_nat ?a] @ pa @ [0]))"
  let ?m4 = "put m sp (quads ([of_nat ?a] @ pa @ [0] @ pe))"
  let ?m5 = "put m sp (quads ([of_nat ?a] @ pa @ [0] @ pe @ [0]))"
  have at: "mapped (put m sp xs) x k" if "B \<le> x" "x + k \<le> B + S" for xs x k
    using mapped_inside [OF mp that] by (rule mapped_put)
  have keep: "bytes_at (put m sp xs) x k = bytes_at m x k" if "x + k \<le> sp" for xs x k
    using that by (intro bytes_at_put) simp
  have 1: "store64 m sp (of_nat ?a) = Some ?m1"
    using mapped_inside [OF mp, of sp 8] b t by (simp add: store64_put)
  have "copy_words ?m1 (sp + 8) B ?a = Some (put ?m1 (sp + 8) (bytes_at ?m1 B (8 * ?a)))"
    by (rule copy_words_eq; (rule at)?) (use b t in auto)
  then have 2: "copy_words ?m1 (sp + 8) B ?a = Some ?m2"
    using b by (simp add: keep qa put_append' quads_append)
  have 3: "store64 ?m2 (sp + 8 * (1 + ?a)) 0 = Some ?m3"
    using at [of "sp + 8 * (1 + ?a)" 8] b t by (simp add: store64_put put_append' quads_append)
  have "copy_words ?m3 (sp + 8 * (2 + ?a)) (B + 8 * ?a) ?e =
      Some (put ?m3 (sp + 8 * (2 + ?a)) (bytes_at ?m3 (B + 8 * ?a) (8 * ?e)))"
    by (rule copy_words_eq; (rule at)?) (use b t in auto)
  then have 4: "copy_words ?m3 (sp + 8 * (2 + ?a)) (B + 8 * ?a) ?e = Some ?m4"
    using b by (simp add: keep qe put_append' quads_append)
  have 5: "store64 ?m4 (sp + 8 * (2 + ?a + ?e)) 0 = Some ?m5"
    using at [of "sp + 8 * (2 + ?a + ?e)" 8] b t by (simp add: store64_put put_append' quads_append)
  have "put_words ?m5 (sp + 8 * (3 + ?a + ?e)) ?aw = Some (put ?m5 (sp + 8 * (3 + ?a + ?e)) (quads ?aw))"
    by (rule put_words_eq, rule at) (use b t in \<open>auto simp: length_pairs\<close>)
  then show ?thesis unfolding put_vector_def 1 2 3 4 5 bind.simps
    by (simp add: put_append' quads_append start_vector_def)
qed

text \<open>The memory with strings, addresses, platform name and random bytes in place.\<close>

definition strings_mem :: "mem \<Rightarrow> nat \<Rightarrow> nat \<Rightarrow> nat \<Rightarrow> u8 list list \<Rightarrow> u8 list list \<Rightarrow> u8 list \<Rightarrow> u8 list \<Rightarrow> mem" where
  "strings_mem m B A R argv envp ex rnd =
     (let U = A + length (str_area argv); E = A + length (str_area (argv @ envp)) in
      put (put (put (put (put (put (put (put m A (str_area argv)) B (quads (map of_nat (str_addrs A argv))))
        U (str_area envp)) (B + 8 * length argv) (quads (map of_nat (str_addrs U envp))))
        E (ex @ [0])) (E + (length ex + 1)) (bytes_of_u64 0)) (A - 8) platform) R rnd)"

lemma put_strings_eq:
  assumes mp: "mapped m B S" and lo: "B + 8 * length argv + 8 * length envp \<le> R" and R: "R = (A - 8 - 16) div 16 * 16"
    and hi: "A + length (str_area (argv @ envp @ [ex])) + 8 = B + S" "R + 16 \<le> A - 8" "8 \<le> A"
    and rl: "length (random_bytes e) = 16"
  defines "U \<equiv> A + length (str_area argv)" and "E \<equiv> A + length (str_area (argv @ envp))"
  shows "put_strings e m A B (B + 8 * length argv) argv envp ex =
    Some (strings_mem m B A R argv envp ex (random_bytes e), U, E, A - 8, R)"
proof -
  let ?a = "length argv" and ?e = "length envp"
  have pl: "length platform = 8" by (simp add: platform_def)
  have EU: "E = U + length (str_area envp)" by (simp add: E_def U_def str_area_append)
  have top: "E + (length ex + 1) + 8 = B + S" using hi(1) by (simp add: E_def str_area_append)
  have o: "A \<le> U" "U \<le> E" "B \<le> R" "B + 8 * ?a + 8 * ?e \<le> A" using lo hi by (simp_all add: U_def EU)
  let ?m1 = "put (put m A (str_area argv)) B (quads (map of_nat (str_addrs A argv)))"
  let ?m2 = "put (put ?m1 U (str_area envp)) (B + 8 * ?a) (quads (map of_nat (str_addrs U envp)))"
  let ?m3 = "put ?m2 E (ex @ [0])"
  let ?m4 = "put ?m3 (E + (length ex + 1)) (bytes_of_u64 0)"
  let ?m5 = "put ?m4 (A - 8) platform"
  have mm: "mapped ?m1 B S" "mapped ?m2 B S" "mapped ?m3 B S" "mapped ?m4 B S" "mapped ?m5 B S"
    using mp by (simp_all add: mapped_put)
  have 1: "put_strs m A B argv = Some (?m1, U)"
    unfolding U_def by (rule put_strs_eq; (rule mapped_inside [OF mp])?) (use o top EU in \<open>auto simp: U_def\<close>)
  have 2: "put_strs ?m1 U (B + 8 * ?a) envp = Some (?m2, E)"
    unfolding EU by (rule put_strs_eq; (rule mapped_inside [OF mm(1)])?) (use o top EU in auto)
  have 3: "store_bytes ?m2 E (ex @ [0]) = Some ?m3"
    by (rule store_bytes_put, rule mapped_inside [OF mm(2)]) (use o top in auto)
  have 4: "store64 ?m3 (E + (length ex + 1)) 0 = Some ?m4"
    by (rule store64_put, rule mapped_inside [OF mm(3)]) (use o top in auto)
  have 5: "store_bytes ?m4 (A - 8) platform = Some ?m5"
    by (rule store_bytes_put, rule mapped_inside [OF mm(4)]) (use o top hi pl in auto)
  have 6: "store_bytes ?m5 R (random_bytes e) = Some (strings_mem m B A R argv envp ex (random_bytes e))"
    unfolding strings_mem_def Let_def U_def [symmetric] E_def [symmetric] by (rule store_bytes_put, rule mapped_inside [OF mm(5)]) (use o top hi rl in auto)
  show ?thesis unfolding put_strings_def using 1 2 3 4 5 6 by (simp add: pl R Let_def)
qed

lemma strings_mem_parts:
  fixes m :: mem and ex :: "u8 list"
  assumes lo: "B + 8 * length argv + 8 * length envp \<le> R" "R + 16 \<le> A - 8" "8 \<le> A" and rl: "length rnd = 16"
  defines "m' \<equiv> strings_mem m B A R argv envp ex rnd" and "strs \<equiv> argv @ envp @ [ex]"
  shows "bytes_at m' B (8 * length argv) = quads (map of_nat (str_addrs A argv))"
    "bytes_at m' (B + 8 * length argv) (8 * length envp) = quads (map of_nat (str_addrs (A + length (str_area argv)) envp))"
    "A \<le> x \<Longrightarrow> x < A + length (str_area strs) \<Longrightarrow> m' x = put m A (str_area strs) x"
    "bytes_at m' (A - 8) 8 = platform" "bytes_at m' R 16 = rnd" "mapped m B S \<Longrightarrow> mapped m' B S"
    "x < B \<or> A + length (str_area strs) + 8 \<le> x \<Longrightarrow> m' x = m x"
proof -
  let ?U = "A + length (str_area argv)" and ?E = "A + length (str_area (argv @ envp))"
  have pl: "length platform = 8" by (simp add: platform_def)
  have o: "?U + length (str_area envp) = ?E" "B + 8 * length argv + 8 * length envp \<le> A - 8" "A \<le> ?U" "?U \<le> ?E"
    using lo by (simp_all add: str_area_append)
  have e: "length (str_area strs) = length (str_area (argv @ envp)) + (length ex + 1)"
    by (simp add: strs_def str_area_append)
  show "bytes_at m' B (8 * length argv) = quads (map of_nat (str_addrs A argv))"
    by (rule nth_equalityI) (use o lo rl pl in \<open>auto simp: m'_def strings_mem_def Let_def bytes_at_def put_def\<close>)
  show "bytes_at m' (B + 8 * length argv) (8 * length envp) = quads (map of_nat (str_addrs ?U envp))"
    by (rule nth_equalityI) (use o lo rl pl in \<open>auto simp: m'_def strings_mem_def Let_def bytes_at_def put_def\<close>)
  show "bytes_at m' (A - 8) 8 = platform"
    by (rule nth_equalityI) (use o lo rl pl in \<open>auto simp: m'_def strings_mem_def Let_def bytes_at_def put_def\<close>)
  show "bytes_at m' R 16 = rnd"
    by (rule nth_equalityI) (use o lo rl pl in \<open>auto simp: m'_def strings_mem_def Let_def bytes_at_def put_def\<close>)
  show "mapped m B S \<Longrightarrow> mapped m' B S" by (simp add: m'_def strings_mem_def Let_def mapped_put)
  show "m' x = m x" if "x < B \<or> A + length (str_area strs) + 8 \<le> x"
    unfolding m'_def strings_mem_def Let_def
    by (subst put_other; (use that o lo rl pl e in \<open>simp; linarith?\<close>))+
  show "m' x = put m A (str_area strs) x" if xs: "A \<le> x" "x < A + length (str_area strs)"
  proof -
    obtain k where k: "x = A + k" using le_Suc_ex [OF xs(1)] by blast
    consider "x < ?U" | "?U \<le> x" "x < ?E" | "?E \<le> x" by linarith
    then show ?thesis
    proof cases
      case 1
      have "m' x = put m A (str_area argv) x" unfolding m'_def strings_mem_def Let_def
        by (subst put_other; (use 1 xs o lo rl pl e in \<open>simp; linarith?\<close>))+
      then show ?thesis using xs 1 by (simp add: k put_def strs_def str_area_append nth_append)
    next
      case 2
      have "m' x = put (put (put m A (str_area argv)) B (quads (map of_nat (str_addrs A argv)))) ?U (str_area envp) x"
        unfolding m'_def strings_mem_def Let_def
        by (subst put_other; (use 2 xs o lo rl pl e in \<open>simp; linarith?\<close>))+
      moreover have "k - length (str_area argv) < length (str_area envp)" using 2 k by (simp add: str_area_append less_diff_conv2)
      ultimately show ?thesis using xs 2 o by (simp add: k put_def strs_def str_area_append nth_append)
    next
      case 3
      let ?m2 = "put (put (put (put m A (str_area argv)) B (quads (map of_nat (str_addrs A argv)))) ?U (str_area envp))
        (B + 8 * length argv) (quads (map of_nat (str_addrs ?U envp)))"
      have "m' x = put ?m2 ?E (ex @ [0]) x" unfolding m'_def strings_mem_def Let_def
        by (subst put_other; (use 3 xs o lo rl pl e in \<open>simp; linarith?\<close>))+
      moreover have "\<not> k - length (str_area argv) < length (str_area envp)" using 3 k by (simp add: str_area_append)
      ultimately show ?thesis using xs 3 o by (simp add: k put_def strs_def str_area_append nth_append)
    qed
  qed
qed

text \<open>
  C17. A program starts on the stack the kernel would have built. Whenever the arguments fit, the builder
  succeeds without a fault and touches nothing outside the stack proper, the guard below it included. The
  stack pointer is aligned to 16 bytes and points at the argument count, followed by the addresses of the
  argument strings, a null, the addresses of the environment strings, a null, and the auxiliary vector up
  to \<open>AT_NULL\<close>. Every address is that of its string; the strings follow one another without a gap, arguments
  first, then environment, then the executed path; and the platform name and sixteen random bytes are
  where the auxiliary vector says.
\<close>

theorem stack_as_the_kernel_builds_it:
  assumes fit: "need argv envp ex \<le> GUEST_STACK_SIZE" and ex: "ex = execfn_of argv execfn"
    and B: "B = e_stk e + GUEST_STACK_GUARD e" and mp: "mapped m B GUEST_STACK_SIZE"
    and nz: "\<forall>s\<in>set (argv @ envp @ [ex]). 0 \<notin> set s" and rl: "length (random_bytes e) = 16"
  shows "\<exists>m' b A R. cng_build_stack e m argv envp prog interp execfn = Some (Built m' b) \<and>
    (let strs = argv @ envp @ [ex]; ptrs = map of_nat (str_addrs A strs);
         aux = aux_vector e prog interp (last ptrs) (of_nat (A - 8)) (of_nat R);
         vec = start_vector (take (length argv) ptrs) (butlast (drop (length argv) ptrs)) aux
     in b_sp b mod 16 = 0 \<and> words_at m' (b_sp b) (length vec) = vec \<and>
        list_all2 (str_bytes m') (str_addrs A strs) strs \<and>
        bytes_at m' (A - 8) 8 = platform \<and> bytes_at m' R 16 = random_bytes e \<and> R mod 16 = 0 \<and>
        b_arg_start b = A \<and> b_arg_end b = A + length (str_area argv) \<and> b_env_end b = A + length (str_area (argv @ envp)) \<and>
        (\<forall>x. x < B \<or> B + GUEST_STACK_SIZE \<le> x \<longrightarrow> m' x = m x))"
proof -
  let ?S = GUEST_STACK_SIZE and ?strs = "argv @ envp @ [ex]" and ?rnd = "random_bytes e"
  define A where "A = B + ?S - 8 - areabytes argv envp ex"
  define R where "R = (A - 8 - 16) div 16 * 16"
  define U where "U = A + length (str_area argv)"
  define E where "E = A + length (str_area (argv @ envp))"
  define aux where "aux = aux_vector e prog interp (of_nat E) (of_nat (A - 8)) (of_nat R)"
  define sp where "sp = (R - (1 + (length argv + 1) + (length envp + 1) + length aux * 2) * 8) div 16 * 16"
  let ?pa = "map of_nat (str_addrs A argv) :: u64 list" and ?pe = "map of_nat (str_addrs U envp) :: u64 list"
  have la: "length (str_area ?strs) = areabytes argv envp ex"
    by (simp add: areabytes_def str_area_append length_str_area)
  have f: "2 * (length argv + length envp) * 8 + (8 + areabytes argv envp ex + 8 + 16) + (3 + 64 * 2) * 8 + 64 \<le> ?S"
    using fit by (simp add: need_def platform_def)
  note ar = stack_arith [OF f length_aux_vector A_def R_def sp_def [unfolded aux_def], folded aux_def]
  have lo: "B + 8 * length argv + 8 * length envp \<le> R" using ar(4,5) by linarith
  let ?m6 = "strings_mem m B A R argv envp ex ?rnd"
  note parts = strings_mem_parts [OF lo ar(2,3) rl, where m = m and ex = ex]
  have s: "put_strings e m A B (B + 8 * length argv) argv envp ex = Some (?m6, U, E, A - 8, R)"
    unfolding U_def E_def by (rule put_strings_eq [OF mp lo R_def _ ar(2,3) rl]) (use ar(1) la in simp)
  let ?vec = "start_vector ?pa ?pe aux"
  let ?m = "put ?m6 sp (quads ?vec)"
  have v: "put_vector ?m6 sp (length argv) B (length envp) (B + 8 * length argv) aux = Some ?m"
    using put_vector_eq [OF parts(6) [OF mp], of ?pa ?pe sp aux] ar parts(1,2)
    by (simp add: U_def)
  let ?b = "\<lparr>b_sp = sp, b_stack_lo = e_stk e, b_stack_len = GUEST_STACK_GUARD e + ?S, b_arg_start = A, b_arg_end = U, b_env_end = E\<rparr>"
  have run: "cng_build_stack e m argv envp prog interp execfn = Some (Built ?m ?b)"
    using fit s v by (simp add: cng_build_stack_def ex B A_def aux_def sp_def Let_def)
  have vl: "sp + length (quads ?vec) \<le> R" using ar(4) by (simp add: length_start_vector)
  have out: "?m x = ?m6 x" if "x < sp \<or> R \<le> x" for x using that vl by (intro put_other) auto
  have "list_all2 (str_bytes ?m) (str_addrs A ?strs) ?strs"
  proof (rule list_all2_all_nthI)
    fix i assume "i < length (str_addrs A ?strs)"
    then have i: "i < length ?strs" by simp
    let ?p = "str_addrs A ?strs ! i"
    note st = str_area_strings [OF nz i, of m A]
    have "?m x = put m A (str_area ?strs) x" if "?p \<le> x" "x \<le> ?p + length (?strs ! i)" for x
    proof -
      have "A \<le> x" "x < A + length (str_area ?strs)" "R \<le> x" using that st ar(2) by linarith+
      then show ?thesis using parts(3) [of x] out [of x] by simp
    qed
    then show "str_bytes ?m ?p (?strs ! i)" using st str_bytes_cong [of ?p "?strs ! i" ?m] by blast
  qed simp
  moreover have "?m x = m x" if "x < B \<or> B + ?S \<le> x" for x
  proof -
    have "x < sp \<or> R \<le> x" using that ar(1,2,5) by linarith
    then show ?thesis using that parts(7) [of x] out [of x] ar(1) la by auto
  qed
  moreover have "bytes_at ?m (A - 8) 8 = platform" "bytes_at ?m R 16 = ?rnd"
    using parts(4,5) vl ar(2) by (simp_all add: bytes_at_put)
  moreover have "words_at ?m sp (length ?vec) = ?vec" by (rule words_at_put)
  ultimately show ?thesis using ar(6,7) run
    by (intro exI [of _ ?m] exI [of _ ?b] exI [of _ A] exI [of _ R])
      (simp add: str_addrs_append str_area_append Let_def U_def E_def aux_def add.assoc)
qed

definition demo_env :: stk_env where
  "demo_env = \<lparr>e_page = 4096, e_stk = 0x10000, e_auxv = [(AT_UID, 5)], e_host_random = [], e_getrandom = None, e_fake = None\<rparr>"

definition demo_prog :: cng_loaded where
  "demo_prog = \<lparr>ld_entry = 0x400, ld_phdr = 64, ld_phent = 56, ld_phnum = 2, ld_base = 0\<rparr>"

theorem stack_as_the_kernel_builds_it_witness:
  "\<exists>m' b A. cng_build_stack demo_env (\<lambda>_. Some 0) [[0x6C, 0x73]] [[0x61, 0x3D]] demo_prog None None = Some (Built m' b) \<and>
    b_sp b mod 16 = 0 \<and> str_bytes m' A [0x6C, 0x73] \<and> str_bytes m' (A + 3) [0x61, 0x3D] \<and> str_bytes m' (A + 6) [0x6C, 0x73]"
proof -
  let ?argv = "[[0x6C, 0x73]] :: u8 list list" and ?envp = "[[0x61, 0x3D]] :: u8 list list" and ?ex = "[0x6C, 0x73] :: u8 list"
  let ?B = "e_stk demo_env + GUEST_STACK_GUARD demo_env"
  have h: "need ?argv ?envp ?ex \<le> GUEST_STACK_SIZE" "?ex = execfn_of ?argv None" "mapped (\<lambda>_. Some 0) ?B GUEST_STACK_SIZE"
    "\<forall>s\<in>set (?argv @ ?envp @ [?ex]). 0 \<notin> set s" "length (random_bytes demo_env) = 16"
    by (simp_all add: need_def areabytes_def platform_def GUEST_STACK_SIZE_def execfn_of_def mapped_def random_bytes_def
      demo_env_def)
  from stack_as_the_kernel_builds_it [OF h(1,2) refl h(3-5), of demo_prog None]
  obtain m' b A where r: "cng_build_stack demo_env (\<lambda>_. Some 0) ?argv ?envp demo_prog None None = Some (Built m' b)"
    and q: "b_sp b mod 16 = 0" "list_all2 (str_bytes m') (str_addrs A (?argv @ ?envp @ [?ex])) (?argv @ ?envp @ [?ex])"
    unfolding Let_def by (elim exE conjE) (rule that)
  have "A + 3 = Suc (Suc (Suc A))" "A + 6 = Suc (Suc (Suc (Suc (Suc (Suc A)))))" by simp_all
  moreover from q(2) have "str_bytes m' A ?ex" "str_bytes m' (Suc (Suc (Suc A))) [0x61, 0x3D]"
    "str_bytes m' (Suc (Suc (Suc (Suc (Suc (Suc A)))))) ?ex" by simp_all
  ultimately show ?thesis using r q(1) by metis
qed

end
