(* ===== verification/Elf.thy ===== *)
theory Elf
  imports Cng_Prelude
begin

text \<open>
  \<open>src/loader/elf.c\<close>: the two passes of a load. The header pass (\<open>elf_read_headers\<close>) reads a file's headers and validates
  them without mapping anything; the map pass (\<open>cng_elf_map\<close>) reserves one range and puts every segment inside it, by copying
  (\<open>map_anon\<close>) or by mapping the file (\<open>map_file\<close>). Addresses and sizes are 64-bit words, since every field of a header is chosen
  by whoever wrote the file.

  What the kernel answers is a parameter. The map pass gives, besides its result, the list of what it did to the address
  space in order. Rewriting a segment (\<open>Rewrite\<close>) is one such act, on the segment and the pool; how much of the pool it used is a
  parameter here.
\<close>

unbundle bit_operations_syntax

section \<open>Pages\<close>

definition cng_page_down :: "u64 \<Rightarrow> u64 \<Rightarrow> u64" where
  "cng_page_down pg a = a AND NOT (pg - 1)"

definition cng_page_up :: "u64 \<Rightarrow> u64 \<Rightarrow> u64" where
  "cng_page_up pg a = (a + pg - 1) AND NOT (pg - 1)"

definition cng_page_end :: "u64 \<Rightarrow> u64 \<Rightarrow> u64 \<Rightarrow> u64 option" where
  "cng_page_end pg a n = (let e = a + n in if e < a \<or> e > NOT 0 - (pg - 1) then None else Some (cng_page_up pg e))"

section \<open>Headers\<close>

record phdr =
  p_type :: u32
  p_flags :: u32
  p_offset :: u64
  p_vaddr :: u64
  p_filesz :: u64
  p_memsz :: u64

record Elf64_Ehdr =
  e_ident :: "u8 list"
  e_type :: nat
  e_machine :: nat
  e_entry :: u64
  e_phoff :: u64
  e_phentsize :: nat
  e_phnum :: nat

definition PT_LOAD :: u32 where "PT_LOAD = 1"
definition PT_INTERP :: u32 where "PT_INTERP = 3"
definition PF_X :: u32 where "PF_X = 1"
definition PF_W :: u32 where "PF_W = 2"
definition PF_R :: u32 where "PF_R = 4"
definition PROT_R :: u32 where "PROT_R = 1"
definition PROT_W :: u32 where "PROT_W = 2"
definition PROT_X :: u32 where "PROT_X = 4"
definition ET_EXEC :: nat where "ET_EXEC = 2"
definition ET_DYN :: nat where "ET_DYN = 3"
definition EM_AARCH64 :: nat where "EM_AARCH64 = 183"
definition MAX_PHDR :: nat where "MAX_PHDR = 64"
definition INTERP_SZ :: nat where "INTERP_SZ = 256"
definition CNG_TRAMP_POOL :: u64 where "CNG_TRAMP_POOL = 0x80000"
definition CNG_LOAD_COPIED :: nat where "CNG_LOAD_COPIED = 8"

datatype load_rc =
    LOAD_OK | LOAD_EOPEN | LOAD_EFORMAT | LOAD_EIO | LOAD_EMAP | LOAD_ETOOBIG | LOAD_EEXEC | LOAD_EACCES
  | LOAD_ECLOBBER | LOAD_EINTERP | LOAD_EINVAL

definition prot_of :: "u32 \<Rightarrow> u32" where
  "prot_of pf = (if pf AND PF_R \<noteq> 0 then PROT_R else 0) OR (if pf AND PF_W \<noteq> 0 then PROT_W else 0) OR
     (if pf AND PF_X \<noteq> 0 then PROT_X else 0)"

text \<open>
  What the map pass does to the address space: the reservation, fixed at an address or not; a copy from the file; a change of protection;
  a file mapping; an anonymous one; clearing; rewriting of a segment's text into the pool; giving a range back.
\<close>

datatype mev =
    M_reserve u64 u64 bool
  | M_read u64 u64 u64
  | M_prot u64 u64 u32
  | M_file u64 u64 u32 u64
  | M_anon u64 u64 u32
  | M_zero u64 u64
  | M_rewrite u64 u64
  | M_pool u64 u64
  | M_unmap u64 u64

text \<open>
  The answers: the file's mode, or nothing; its header and its program headers, or nothing where the read is short;
  the bytes of a range; whether the file holds a range; whether a probe of executable anonymous memory is refused; the address
  of a reservation, by strategy; the result of a change of protection; whether a file mapping and an anonymous one
  succeed; and how much of the pool the rewriter used.
\<close>

record elf_host =
  x_mode :: "u32 option"
  x_ehdr :: "Elf64_Ehdr option"
  x_phdrs :: "u64 \<Rightarrow> nat \<Rightarrow> phdr list option"
  x_bytes :: "u64 \<Rightarrow> nat \<Rightarrow> u8 list option"
  x_holds :: "u64 \<Rightarrow> u64 \<Rightarrow> bool"
  x_exec_denied :: bool
  x_reserve :: "bool \<Rightarrow> bool \<Rightarrow> u64 \<Rightarrow> u64 \<Rightarrow> u64 option"
  x_mprotect :: "u64 \<Rightarrow> u64 \<Rightarrow> u32 \<Rightarrow> int"
  x_mmap_file :: "u64 \<Rightarrow> u64 \<Rightarrow> u32 \<Rightarrow> u64 \<Rightarrow> bool"
  x_mmap_anon :: "u64 \<Rightarrow> u64 \<Rightarrow> u32 \<Rightarrow> bool"
  x_used :: u64

text \<open>The monitor itself: its image, its registered mappings and its scratch stacks, as ranges; and the switches.\<close>

record elf_env =
  v_page :: u64
  v_rewrite :: bool
  v_image :: "u64 \<times> u64"
  v_own :: "(u64 \<times> u64) list"
  v_scr :: "(u64 \<times> u64) list"

definition range_hit :: "u64 \<Rightarrow> u64 \<Rightarrow> u64 \<times> u64 \<Rightarrow> bool" where
  "range_hit lo hi r \<longleftrightarrow> lo < snd r \<and> fst r < hi"

definition cng_hits_monitor :: "elf_env \<Rightarrow> u64 \<Rightarrow> u64 \<Rightarrow> bool" where
  "cng_hits_monitor v addr len =
     (if len = 0 then False
      else let e = (if addr + len < addr then NOT 0 else addr + len) in
        range_hit addr e (v_image v) \<or> list_ex (range_hit addr e) (v_own v) \<or> list_ex (range_hit addr e) (v_scr v))"

section \<open>The header pass\<close>

record hdr_st =
  h_lo :: u64
  h_hi :: u64
  h_nload :: nat
  h_interp :: "u8 list option"
  h_file_ok :: bool
  h_loader_file :: bool

definition hdr_interp :: "elf_host \<Rightarrow> phdr \<Rightarrow> hdr_st \<Rightarrow> load_rc \<times> hdr_st" where
  "hdr_interp x p s =
     (if p_type p \<noteq> PT_INTERP then (LOAD_OK, s)
      else if p_filesz p < 2 \<or> p_filesz p > of_nat INTERP_SZ then (LOAD_ETOOBIG, s)
      else case x_bytes x (p_offset p) (unat (p_filesz p)) of
          None \<Rightarrow> (LOAD_EINTERP, s)
        | Some bs \<Rightarrow> if last bs \<noteq> 0 then (LOAD_EFORMAT, s) else (LOAD_OK, s\<lparr>h_interp := Some bs\<rparr>))"

definition hdr_load :: "elf_env \<Rightarrow> elf_host \<Rightarrow> phdr \<Rightarrow> hdr_st \<Rightarrow> load_rc \<times> hdr_st" where
  "hdr_load v x p s =
     (let s = s\<lparr>h_nload := h_nload s + 1\<rparr> in
      if p_filesz p > p_memsz p then (LOAD_EINVAL, s)
      else let
          bad = (p_filesz p \<noteq> 0 \<and> (p_offset p XOR p_vaddr p) AND (v_page v - 1) \<noteq> 0);
          s = (if bad then s\<lparr>h_file_ok := False, h_loader_file := h_loader_file s \<or> x_exec_denied x\<rparr> else s)
        in if bad \<and> h_loader_file s then (LOAD_EINVAL, s)
        else case cng_page_end (v_page v) (p_vaddr p) (p_memsz p) of
            None \<Rightarrow> (LOAD_EFORMAT, s)
          | Some e \<Rightarrow>
              let d = cng_page_down (v_page v) (p_vaddr p) in
              (LOAD_OK, s\<lparr>h_lo := (if d < h_lo s then d else h_lo s), h_hi := (if e > h_hi s then e else h_hi s)\<rparr>))"

fun hdr_loop :: "elf_env \<Rightarrow> elf_host \<Rightarrow> phdr list \<Rightarrow> hdr_st \<Rightarrow> load_rc \<times> hdr_st" where
  "hdr_loop v x [] s = (LOAD_OK, s)"
| "hdr_loop v x (p # ps) s =
     (case hdr_interp x p s of
        (LOAD_OK, s) \<Rightarrow>
          if p_type p \<noteq> PT_LOAD then hdr_loop v x ps s
          else (case hdr_load v x p s of (LOAD_OK, s) \<Rightarrow> hdr_loop v x ps s | (rc, s) \<Rightarrow> (rc, s))
      | (rc, s) \<Rightarrow> (rc, s))"

record plan =
  pl_eh :: Elf64_Ehdr
  pl_ph :: "phdr list"
  pl_lo :: u64
  pl_hi :: u64
  pl_dyn :: bool
  pl_file_ok :: bool
  pl_interp :: "u8 list option"

definition elf_ident_ok :: "Elf64_Ehdr \<Rightarrow> bool" where
  "elf_ident_ok eh \<longleftrightarrow> take 6 (e_ident eh) = [0x7F, 0x45, 0x4C, 0x46, 2, 1] \<and> e_machine eh = EM_AARCH64 \<and>
     (e_type eh = ET_DYN \<or> e_type eh = ET_EXEC)"

text \<open>The pass: the result, the plan where there is one, and whether the file strategy is in force afterwards.\<close>

definition elf_read_headers :: "elf_env \<Rightarrow> elf_host \<Rightarrow> bool \<Rightarrow> load_rc \<times> plan option \<times> bool" where
  "elf_read_headers v x lf =
     (case x_ehdr x of
        None \<Rightarrow> (LOAD_EIO, None, lf)
      | Some eh \<Rightarrow>
          if \<not> elf_ident_ok eh then (LOAD_EFORMAT, None, lf)
          else if e_phnum eh = 0 \<or> e_phnum eh > MAX_PHDR \<or> e_phentsize eh \<noteq> 56 then (LOAD_ETOOBIG, None, lf)
          else case x_phdrs x (e_phoff eh) (e_phnum eh) of
              None \<Rightarrow> (LOAD_EIO, None, lf)
            | Some ph \<Rightarrow>
                case hdr_loop v x ph \<lparr>h_lo = NOT 0, h_hi = 0, h_nload = 0, h_interp = None, h_file_ok = True, h_loader_file = lf\<rparr> of
                  (LOAD_OK, s) \<Rightarrow>
                    if h_nload s = 0 then (LOAD_EFORMAT, None, h_loader_file s)
                    else if h_hi s - h_lo s > NOT 0 - CNG_TRAMP_POOL then (LOAD_EFORMAT, None, h_loader_file s)
                    else if e_type eh = ET_EXEC \<and>
                        cng_hits_monitor v (h_lo s) ((h_hi s - h_lo s) + (if v_rewrite v then CNG_TRAMP_POOL else 0))
                      then (LOAD_ECLOBBER, None, h_loader_file s)
                    else (LOAD_OK, Some \<lparr>pl_eh = eh, pl_ph = ph, pl_lo = h_lo s, pl_hi = h_hi s, pl_dyn = (e_type eh = ET_DYN),
                        pl_file_ok = h_file_ok s, pl_interp = h_interp s\<rparr>, h_loader_file s)
                | (rc, s) \<Rightarrow> (rc, None, h_loader_file s))"

definition elf_check_execable :: "elf_host \<Rightarrow> load_rc" where
  "elf_check_execable x =
     (case x_mode x of
        None \<Rightarrow> LOAD_EACCES
      | Some mode \<Rightarrow> if mode AND 0xF000 \<noteq> 0x8000 \<or> mode AND 0x49 = 0 then LOAD_EACCES else LOAD_OK)"

definition cng_elf_plan_fd :: "elf_env \<Rightarrow> elf_host \<Rightarrow> bool \<Rightarrow> load_rc \<times> plan option \<times> bool" where
  "cng_elf_plan_fd v x lf =
     (let rc = elf_check_execable x in if rc = LOAD_OK then elf_read_headers v x lf else (rc, None, lf))"

section \<open>The map pass\<close>

definition loads :: "phdr list \<Rightarrow> phdr list" where
  "loads ph = filter (\<lambda>p. p_type p = PT_LOAD) ph"

subsection \<open>Copying\<close>

fun read_segs :: "elf_host \<Rightarrow> u64 \<Rightarrow> phdr list \<Rightarrow> bool \<times> mev list" where
  "read_segs x bias [] = (True, [])"
| "read_segs x bias (p # ps) =
     (if p_type p \<noteq> PT_LOAD \<or> p_filesz p = 0 then read_segs x bias ps
      else let ev = M_read (bias + p_vaddr p) (p_filesz p) (p_offset p) in
        if \<not> x_holds x (p_offset p) (p_filesz p) then (False, [ev])
        else let (ok, evs) = read_segs x bias ps in (ok, ev # evs))"

definition rewrite_segs :: "elf_env \<Rightarrow> elf_host \<Rightarrow> u64 \<Rightarrow> u64 \<Rightarrow> phdr list \<Rightarrow> mev list" where
  "rewrite_segs v x bias pool ph =
     (if \<not> v_rewrite v then []
      else map (\<lambda>p. M_rewrite (bias + p_vaddr p) (p_filesz p)) (filter (\<lambda>p. p_flags p AND PF_X \<noteq> 0) (loads ph)) @
        M_pool pool (x_used x) #
        (if x_used x \<noteq> 0 then [M_prot pool (cng_page_up (v_page v) (x_used x)) (PROT_R OR PROT_X)] else []))"

fun add_edge :: "u64 \<Rightarrow> u64 list \<Rightarrow> u64 list" where
  "add_edge e [] = [e]"
| "add_edge e (x # xs) = (if x < e then x # add_edge e xs else if x = e then x # xs else e # x # xs)"

definition seg_lo :: "elf_env \<Rightarrow> u64 \<Rightarrow> phdr \<Rightarrow> u64" where
  "seg_lo v bias p = cng_page_down (v_page v) (bias + p_vaddr p)"

definition seg_hi :: "elf_env \<Rightarrow> u64 \<Rightarrow> phdr \<Rightarrow> u64" where
  "seg_hi v bias p = cng_page_up (v_page v) (bias + p_vaddr p + p_memsz p)"

definition edges :: "elf_env \<Rightarrow> u64 \<Rightarrow> phdr list \<Rightarrow> u64 list" where
  "edges v bias ph = foldl (\<lambda>es p. add_edge (seg_hi v bias p) (add_edge (seg_lo v bias p) es)) [] (loads ph)"

definition covering :: "elf_env \<Rightarrow> u64 \<Rightarrow> phdr list \<Rightarrow> u64 \<Rightarrow> u64 \<Rightarrow> phdr list" where
  "covering v bias ph ps pe = filter (\<lambda>p. seg_lo v bias p \<le> ps \<and> seg_hi v bias p \<ge> pe) (loads ph)"

definition union_prot :: "phdr list \<Rightarrow> u32" where
  "union_prot ps = foldl (\<lambda>pr p. pr OR prot_of (p_flags p)) 0 ps"

fun prot_runs :: "elf_env \<Rightarrow> elf_host \<Rightarrow> u64 \<Rightarrow> phdr list \<Rightarrow> u64 list \<Rightarrow> load_rc \<times> mev list" where
  "prot_runs v x bias ph (ps # pe # es) =
     (let cov = covering v bias ph ps pe; prot = union_prot cov in
      if cov = [] then prot_runs v x bias ph (pe # es)
      else let mr = x_mprotect x ps (pe - ps) prot; ev = M_prot ps (pe - ps) prot in
        if mr < 0 then (if mr = - EACCES \<and> prot AND PROT_X \<noteq> 0 then LOAD_EEXEC else LOAD_EMAP, [ev])
        else let (rc, evs) = prot_runs v x bias ph (pe # es) in (rc, ev # evs))"
| "prot_runs v x bias ph es = (LOAD_OK, [])"

text \<open>A strategy's result: the code, what it did, the bias and the length of the reservation.\<close>

type_synonym mapped_as = "load_rc \<times> mev list \<times> u64 \<times> u64"

definition map_anon :: "elf_env \<Rightarrow> elf_host \<Rightarrow> phdr list \<Rightarrow> bool \<Rightarrow> u64 \<Rightarrow> u64 \<Rightarrow> u64 \<Rightarrow> mapped_as" where
  "map_anon v x ph is_dyn lo span base_hint =
     (let len = span + (if v_rewrite v then CNG_TRAMP_POOL else 0);
          want = (if is_dyn then base_hint else lo)
      in case x_reserve x True (\<not> is_dyn) want len of
           None \<Rightarrow> (LOAD_EMAP, [], 0, len)
         | Some seg \<Rightarrow>
             let bias = (if is_dyn then seg - lo else 0); r = M_reserve seg len (\<not> is_dyn); (ok, rd) = read_segs x bias ph in
             if \<not> ok then (LOAD_EIO, r # rd @ [M_unmap seg len], 0, len)
             else let rw = rewrite_segs v x bias (seg + span) ph;
                    (rc, pr) = prot_runs v x bias ph (edges v bias ph)
               in if rc \<noteq> LOAD_OK then (rc, r # rd @ rw @ pr @ [M_unmap seg len], 0, len)
                  else (LOAD_OK, r # rd @ rw @ pr, bias, len))"

subsection \<open>Mapping the file\<close>

fun file_segs :: "elf_env \<Rightarrow> elf_host \<Rightarrow> u64 \<Rightarrow> phdr list \<Rightarrow> bool \<times> mev list" where
  "file_segs v x bias [] = (True, [])"
| "file_segs v x bias (p # ps) =
     (if p_type p \<noteq> PT_LOAD then file_segs v x bias ps
      else let
          prot = prot_of (p_flags p);
          vstart = bias + p_vaddr p;
          vpage = cng_page_down (v_page v) vstart;
          fileend = vstart + p_filesz p;
          pend = cng_page_up (v_page v) fileend;
          off = p_offset p - (vstart - vpage);
          misfit = (p_filesz p \<noteq> 0 \<and> (p_offset p XOR vstart) AND (v_page v - 1) \<noteq> 0);
          evf = (if p_filesz p \<noteq> 0 then [M_file vpage (pend - vpage) prot off] else []);
          fail = (p_filesz p \<noteq> 0 \<and> \<not> x_mmap_file x vpage (pend - vpage) prot off);
          evz = (if p_filesz p \<noteq> 0 \<and> p_memsz p > p_filesz p \<and> prot AND PROT_W \<noteq> 0 \<and> pend > fileend
                 then [M_zero fileend (pend - fileend)] else []);
          bss_lo = (if p_filesz p \<noteq> 0 then pend else vpage);
          bss_hi = cng_page_up (v_page v) (vstart + p_memsz p);
          evb = (if bss_hi > bss_lo then [M_anon bss_lo (bss_hi - bss_lo) prot] else []);
          failb = (bss_hi > bss_lo \<and> \<not> x_mmap_anon x bss_lo (bss_hi - bss_lo) prot)
        in if misfit then (False, [])
           else if fail then (False, evf)
           else if failb then (False, evf @ evz @ evb)
           else let (ok, evs) = file_segs v x bias ps in (ok, evf @ evz @ evb @ evs))"

definition map_file :: "elf_env \<Rightarrow> elf_host \<Rightarrow> phdr list \<Rightarrow> bool \<Rightarrow> u64 \<Rightarrow> u64 \<Rightarrow> u64 \<Rightarrow> mapped_as" where
  "map_file v x ph is_dyn lo span base_hint =
     (let want = (if is_dyn then base_hint else lo) in
      case x_reserve x False (\<not> is_dyn) want span of
        None \<Rightarrow> (LOAD_EMAP, [], 0, span)
      | Some base \<Rightarrow>
          let bias = (if is_dyn then base - lo else 0); r = M_reserve base span (\<not> is_dyn); (ok, evs) = file_segs v x bias ph in
          if \<not> ok then (LOAD_EMAP, r # evs @ [M_unmap base span], 0, span) else (LOAD_OK, r # evs, bias, span))"

subsection \<open>The pass\<close>

record loaded =
  o_entry :: u64
  o_phdr :: u64
  o_phent :: nat
  o_phnum :: nat
  o_base :: u64
  o_load_lo :: u64
  o_load_hi :: u64
  o_map_lo :: u64
  o_map_len :: u64
  o_copied :: "(u64 \<times> u64) list"
  o_is_dyn :: bool

definition phdr_addr :: "u64 \<Rightarrow> Elf64_Ehdr \<Rightarrow> phdr list \<Rightarrow> u64" where
  "phdr_addr bias eh ph =
     (case List.find (\<lambda>p. e_phoff eh \<ge> p_offset p \<and> e_phoff eh < p_offset p + p_filesz p) (loads ph) of
        None \<Rightarrow> 0
      | Some p \<Rightarrow> bias + p_vaddr p + (e_phoff eh - p_offset p))"

definition copied :: "elf_env \<Rightarrow> u64 \<Rightarrow> phdr list \<Rightarrow> (u64 \<times> u64) list" where
  "copied v bias ph = take CNG_LOAD_COPIED
     (map (\<lambda>p. (cng_page_down (v_page v) (bias + p_vaddr p), cng_page_up (v_page v) (bias + p_vaddr p + p_filesz p)))
        (filter (\<lambda>p. p_filesz p \<noteq> 0) (loads ph)))"

definition load_out :: "elf_env \<Rightarrow> plan \<Rightarrow> bool \<Rightarrow> u64 \<Rightarrow> u64 \<Rightarrow> loaded" where
  "load_out v pl anon bias maplen =
     (let eh = pl_eh pl; ph = pl_ph pl; pa = phdr_addr bias eh ph in
      \<lparr>o_entry = bias + e_entry eh, o_phdr = (if pa \<noteq> 0 then pa else bias + pl_lo pl + e_phoff eh),
       o_phent = e_phentsize eh, o_phnum = e_phnum eh, o_base = bias,
       o_load_lo = bias + pl_lo pl, o_load_hi = bias + pl_hi pl, o_map_lo = bias + pl_lo pl, o_map_len = maplen,
       o_copied = (if anon then copied v bias ph else []), o_is_dyn = pl_dyn pl\<rparr>)"

definition cng_elf_map :: "elf_env \<Rightarrow> elf_host \<Rightarrow> bool \<Rightarrow> plan \<Rightarrow> u64 \<Rightarrow> load_rc \<times> mev list \<times> loaded option \<times> bool" where
  "cng_elf_map v x lf pl base_hint =
     (let lo = pl_lo pl; span = pl_hi pl - lo in
      if lf \<and> \<not> pl_file_ok pl then (LOAD_EINVAL, [], None, lf)
      else if \<not> pl_dyn pl \<and> cng_hits_monitor v lo (span + (if v_rewrite v then CNG_TRAMP_POOL else 0)) then (LOAD_ECLOBBER, [], None, lf)
      else let (rc, evs, bias, maplen) =
             (if lf then map_file v x (pl_ph pl) (pl_dyn pl) lo span base_hint
              else map_anon v x (pl_ph pl) (pl_dyn pl) lo span base_hint)
        in if rc = LOAD_EEXEC then
             if \<not> pl_file_ok pl then (LOAD_EINVAL, evs, None, True)
             else let (rc, evs2, bias, maplen) = map_file v x (pl_ph pl) (pl_dyn pl) lo span base_hint in
               (rc, evs @ evs2, if rc = LOAD_OK then Some (load_out v pl False bias maplen) else None, True)
           else (rc, evs, if rc = LOAD_OK then Some (load_out v pl (\<not> lf) bias maplen) else None, lf))"

definition cng_load_elf_fd :: "elf_env \<Rightarrow> elf_host \<Rightarrow> bool \<Rightarrow> u64 \<Rightarrow> load_rc \<times> mev list \<times> loaded option \<times> bool" where
  "cng_load_elf_fd v x lf base_hint =
     (case cng_elf_plan_fd v x lf of
        (LOAD_OK, Some pl, lf) \<Rightarrow> cng_elf_map v x lf pl base_hint
      | (rc, _, lf) \<Rightarrow> (rc, [], None, lf))"

end
