(* ===== verification/Elf_Props.thy ===== *)
theory Elf_Props
  imports Elf
begin

text \<open>
  What a load does to the address space, whatever the headers say. The header pass accepts only segments whose pages lie in
  the span it computes (\<open>plan_ok\<close>); the map pass then stays inside the one range it reserves, gives it back whenever it fails, and never
  fixes a program over the monitor; and a page shared by several segments gets the protections of all of them.
\<close>

unbundle bit_operations_syntax

section \<open>Rounding to pages\<close>

definition dn :: "nat \<Rightarrow> nat \<Rightarrow> nat" where
  "dn k n = n - n mod 2 ^ k"

definition up :: "nat \<Rightarrow> nat \<Rightarrow> nat" where
  "up k n = dn k (n + (2 ^ k - 1))"

lemma dn_div: "dn k n = 2 ^ k * (n div 2 ^ k)"
  by (simp add: dn_def minus_mod_eq_mult_div)

lemma dn_dvd [simp]: "2 ^ k dvd dn k n"
  by (simp add: dn_div)

lemma up_dvd [simp]: "2 ^ k dvd up k n"
  by (simp add: up_def)

lemma dn_le: "dn k n \<le> n"
  by (simp add: dn_def)

lemma dn_mono: "m \<le> n \<Longrightarrow> dn k m \<le> dn k n"
  by (simp add: dn_div div_le_mono)

lemma up_mono: "m \<le> n \<Longrightarrow> up k m \<le> up k n"
  by (simp add: up_def dn_mono)

lemma le_up: "n \<le> up k n"
proof -
  let ?m = "n + (2 ^ k - 1)"
  have "?m = 2 ^ k * (?m div 2 ^ k) + ?m mod 2 ^ k" by simp
  moreover have "?m mod 2 ^ k < 2 ^ k" by simp
  ultimately show ?thesis unfolding up_def dn_div by linarith
qed

lemma dn_shift: "2 ^ k dvd s \<Longrightarrow> dn k (s + n) = s + dn k n"
  by (auto simp: dn_div dvd_def distrib_left)

lemma up_shift: "2 ^ k dvd s \<Longrightarrow> up k (s + n) = s + up k n"
  using dn_shift [of k s "n + (2 ^ k - 1)"] by (simp add: up_def add.assoc)

lemma dn_minus: "2 ^ k dvd l \<Longrightarrow> l \<le> n \<Longrightarrow> dn k (n - l) = dn k n - l"
  using dn_shift [of k l "n - l"] by simp

lemma up_minus: "2 ^ k dvd l \<Longrightarrow> l \<le> n \<Longrightarrow> up k (n - l) = up k n - l"
  using up_shift [of k l "n - l"] by simp

lemma dn_id: "2 ^ k dvd n \<Longrightarrow> dn k n = n"
  by (simp add: dn_div)

lemma up_least: "2 ^ k dvd m \<Longrightarrow> n \<le> m \<Longrightarrow> up k n \<le> m"
proof -
  assume d: "2 ^ k dvd m" and "n \<le> m"
  then have "up k n \<le> up k m" by (simp add: up_mono)
  moreover have "up k m = m" using up_shift [OF d, of 0] by (simp add: up_def dn_def)
  ultimately show ?thesis by simp
qed

lemma clear_low: "a AND NOT (mask k) = a - take_bit k (a :: u64)"
proof -
  have "push_bit k (drop_bit k a) = a AND NOT (mask k)"
    by (rule bit_word_eqI) (auto simp: bit_simps)
  then show ?thesis using bits_ident [of k a] by (metis add_diff_cancel_right')
qed

lemma unat_clear_low: "unat (a AND NOT (2 ^ k - 1 :: u64)) = dn k (unat a)"
proof -
  have t: "unat (take_bit k a) = unat a mod 2 ^ k" by (simp only: unsigned_take_bit_eq) (simp add: take_bit_eq_mod)
  then have "take_bit k a \<le> a" by (simp add: word_le_nat_alt)
  then have "unat (a - take_bit k a) = unat a - unat (take_bit k a)" by (rule unat_sub)
  then show ?thesis using t by (simp add: clear_low mask_eq_exp_minus_1 [symmetric] dn_def)
qed

lemma unat_page_down: "unat (cng_page_down (2 ^ k) a) = dn k (unat a)"
  by (simp add: cng_page_down_def unat_clear_low)

lemma u64_less: "unat (a :: u64) < 2 ^ 64"
  using unsigned_less [of a, where 'a = nat] by simp

lemma unat_plus64: "unat a + unat b < 2 ^ 64 \<Longrightarrow> unat (a + b :: u64) = unat a + unat b"
  by (simp add: unat_word_ariths)

lemma unat_pow: "k < 64 \<Longrightarrow> unat (2 ^ k :: u64) = 2 ^ k"
proof -
  assume "k < 64"
  then have "(2 :: nat) ^ k < 2 ^ 64" by (rule power_strict_increasing) simp
  moreover have "(2 ^ k :: u64) = of_nat (2 ^ k)" by simp
  ultimately show "unat (2 ^ k :: u64) = 2 ^ k" by (simp only: unat_of_nat) simp
qed

lemma unat_page_up:
  assumes "k < 64" "unat a + 2 ^ k \<le> 2 ^ 64"
  shows "unat (cng_page_up (2 ^ k) a) = up k (unat a)"
proof -
  have one: "unat (2 ^ k - 1 :: u64) = 2 ^ k - 1"
    using assms(1) by (subst unat_sub) (simp_all add: word_le_nat_alt unat_pow)
  have "unat (a + (2 ^ k - 1)) = unat a + (2 ^ k - 1)" using assms(2) one by (subst unat_plus64) simp_all
  moreover have "a + 2 ^ k - 1 = a + (2 ^ k - 1)" by simp
  ultimately show ?thesis by (simp only: cng_page_up_def unat_clear_low up_def)
qed

lemma cng_page_end_ok:
  assumes "cng_page_end (2 ^ k) a n = Some e" "k < 64"
  shows "unat a + unat n + 2 ^ k \<le> 2 ^ 64" "unat e = up k (unat a + unat n)"
proof -
  have c: "\<not> a + n < a" "\<not> a + n > NOT 0 - (2 ^ k - 1)" "e = cng_page_up (2 ^ k) (a + n)"
    using assms(1) by (auto simp: cng_page_end_def Let_def split: if_splits)
  have s: "unat (a + n) = unat a + unat n" using c(1) by (rule no_wrap)
  have one: "unat (2 ^ k - 1 :: u64) = 2 ^ k - 1"
    using assms(2) by (subst unat_sub) (simp_all add: word_le_nat_alt unat_pow)
  have p: "(1 :: nat) \<le> 2 ^ k" "(2 :: nat) ^ k \<le> 2 ^ 64" using assms(2) by (simp, intro power_increasing) simp_all
  have m: "unat (NOT 0 - (2 ^ k - 1) :: u64) = 2 ^ 64 - 1 - (2 ^ k - 1)"
    using one p by (subst unat_sub) (simp_all add: word_le_nat_alt unsigned_minus_1_eq_mask mask_eq_exp_minus_1)
  show b: "unat a + unat n + 2 ^ k \<le> 2 ^ 64"
    using c(2) m s p by (simp add: word_less_nat_alt not_less)
  show "unat e = up k (unat a + unat n)" using b s by (simp add: c(3) unat_page_up [OF assms(2)])
qed

section \<open>The header pass\<close>

text \<open>A segment whose file part is within its memory part and whose pages are within a span.\<close>

definition seg_ok :: "nat \<Rightarrow> u64 \<Rightarrow> u64 \<Rightarrow> phdr \<Rightarrow> bool" where
  "seg_ok k lo hi p \<longleftrightarrow> unat (p_filesz p) \<le> unat (p_memsz p) \<and> unat lo \<le> dn k (unat (p_vaddr p)) \<and>
     up k (unat (p_vaddr p) + unat (p_memsz p)) \<le> unat hi"

definition span_ok :: "nat \<Rightarrow> u64 \<Rightarrow> u64 \<Rightarrow> bool" where
  "span_ok k lo hi \<longleftrightarrow> 2 ^ k dvd unat lo \<and> 2 ^ k dvd unat hi \<and> unat lo \<le> unat hi"

definition hst_ok :: "nat \<Rightarrow> hdr_st \<Rightarrow> bool" where
  "hst_ok k s \<longleftrightarrow> (if h_nload s = 0 then h_lo s = NOT 0 \<and> h_hi s = 0 else span_ok k (h_lo s) (h_hi s))"

definition plan_ok :: "nat \<Rightarrow> plan \<Rightarrow> bool" where
  "plan_ok k pl \<longleftrightarrow> span_ok k (pl_lo pl) (pl_hi pl) \<and> unat (pl_hi pl) - unat (pl_lo pl) + unat CNG_TRAMP_POOL < 2 ^ 64 \<and>
     (\<forall>p \<in> set (loads (pl_ph pl)). seg_ok k (pl_lo pl) (pl_hi pl) p)"

lemma seg_ok_mono: "seg_ok k lo hi p \<Longrightarrow> lo' \<le> lo \<Longrightarrow> hi \<le> hi' \<Longrightarrow> seg_ok k lo' hi' p"
  by (auto simp: seg_ok_def word_le_nat_alt)

lemma hdr_load_ok:
  assumes l: "hdr_load v x p s = (LOAD_OK, s')" and pg: "v_page v = 2 ^ k" "k < 64" and h: "hst_ok k s"
  shows "hst_ok k s' \<and> h_nload s' \<noteq> 0 \<and> seg_ok k (h_lo s') (h_hi s') p \<and> h_lo s' \<le> h_lo s \<and> h_hi s \<le> h_hi s'"
proof -
  let ?d = "cng_page_down (2 ^ k) (p_vaddr p)"
  have f: "\<not> p_filesz p > p_memsz p" using l by (auto simp: hdr_load_def Let_def)
  obtain e where e: "cng_page_end (2 ^ k) (p_vaddr p) (p_memsz p) = Some e"
    using l pg(1) by (auto simp: hdr_load_def Let_def split: if_splits option.splits)
  have s': "h_lo s' = (if ?d < h_lo s then ?d else h_lo s)" "h_hi s' = (if e > h_hi s then e else h_hi s)" "h_nload s' = h_nload s + 1"
    using l f e pg(1) by (auto simp: hdr_load_def Let_def split: if_splits)
  note ee = cng_page_end_ok [OF e pg(2)]
  have d: "unat ?d = dn k (unat (p_vaddr p))" by (rule unat_page_down)
  have de: "unat ?d \<le> unat e" using le_up [of "unat (p_vaddr p) + unat (p_memsz p)" k] dn_le [of k "unat (p_vaddr p)"] by (simp add: d ee)
  have mono: "h_lo s' \<le> h_lo s" "h_hi s \<le> h_hi s'" "h_lo s' \<le> ?d" "e \<le> h_hi s'" by (auto simp: s')
  have seg: "seg_ok k (h_lo s') (h_hi s') p"
    using f mono(3,4) d ee(2) by (simp add: seg_ok_def word_le_nat_alt word_less_nat_alt not_less)
  have dv: "2 ^ k dvd unat ?d" "2 ^ k dvd unat e" by (simp_all add: d ee)
  have "span_ok k (h_lo s') (h_hi s')"
  proof (cases "h_nload s = 0")
    case True
    then have z: "h_lo s = NOT 0" "h_hi s = 0" using h by (simp_all add: hst_ok_def)
    have "?d = - 1" if "\<not> ?d < - 1" using that by (intro antisym) (simp_all add: not_less word_n1_ge)
    then have "h_lo s' = ?d" using s'(1) z(1) by (cases "?d < - 1") simp_all
    moreover have "h_hi s' = e" using s'(2) z(2) by (auto simp: not_less)
    ultimately show ?thesis using dv de by (simp add: span_ok_def)
  next
    case False
    then have "span_ok k (h_lo s) (h_hi s)" using h by (simp add: hst_ok_def)
    moreover have "unat (h_lo s') \<le> unat ?d" "unat e \<le> unat (h_hi s')" using mono(3,4) by (simp_all add: word_le_nat_alt)
    ultimately show ?thesis using dv de unfolding span_ok_def s' by (simp split: if_splits)
  qed
  then show ?thesis using seg mono(1,2) s'(3) by (simp add: hst_ok_def)
qed

lemma hdr_interp_keeps:
  "hdr_interp x p s = (rc, s') \<Longrightarrow> h_lo s' = h_lo s \<and> h_hi s' = h_hi s \<and> h_nload s' = h_nload s"
  by (auto simp: hdr_interp_def split: if_splits option.splits)

lemma hdr_loop_ok:
  assumes "hdr_loop v x ps s = (LOAD_OK, s')" "v_page v = 2 ^ k" "k < 64" "hst_ok k s"
  shows "hst_ok k s' \<and> h_lo s' \<le> h_lo s \<and> h_hi s \<le> h_hi s' \<and> (\<forall>p \<in> set (loads ps). seg_ok k (h_lo s') (h_hi s') p)"
  using assms(1,4)
proof (induction ps arbitrary: s)
  case (Cons p ps)
  obtain s1 where i: "hdr_interp x p s = (LOAD_OK, s1)" using Cons.prems(1) by (auto split: prod.splits load_rc.splits)
  have h1: "hst_ok k s1" "h_lo s1 = h_lo s" "h_hi s1 = h_hi s"
    using hdr_interp_keeps [OF i] Cons.prems(2) by (simp_all add: hst_ok_def)
  show ?case
  proof (cases "p_type p = PT_LOAD")
    case False
    then have "hdr_loop v x ps s1 = (LOAD_OK, s')" using Cons.prems(1) i by simp
    then show ?thesis using Cons.IH [of s1] h1 False by (simp add: loads_def)
  next
    case True
    obtain s2 where l: "hdr_load v x p s1 = (LOAD_OK, s2)" using Cons.prems(1) i True by (auto split: prod.splits load_rc.splits)
    then have r: "hdr_loop v x ps s2 = (LOAD_OK, s')" using Cons.prems(1) i True by simp
    note h2 = hdr_load_ok [OF l assms(2,3) h1(1)]
    have IH: "hst_ok k s' \<and> h_lo s' \<le> h_lo s2 \<and> h_hi s2 \<le> h_hi s' \<and> (\<forall>p \<in> set (loads ps). seg_ok k (h_lo s') (h_hi s') p)"
      using Cons.IH [OF r] h2 by blast
    then have "seg_ok k (h_lo s') (h_hi s') p" using h2 seg_ok_mono by blast
    moreover have "h_lo s' \<le> h_lo s" "h_hi s \<le> h_hi s'" using IH h2 h1 by auto
    ultimately show ?thesis using IH True by (simp add: loads_def)
  qed
qed (simp add: loads_def)

lemma span_sub: "span_ok k lo hi \<Longrightarrow> unat (hi - lo) = unat hi - unat lo"
  by (intro unat_sub) (simp add: span_ok_def word_le_nat_alt)

lemma elf_read_headers_ok:
  assumes "elf_read_headers v x lf = (LOAD_OK, Some pl, lf')" "v_page v = 2 ^ k" "k < 64"
  shows "plan_ok k pl"
    and "\<not> pl_dyn pl \<Longrightarrow> \<not> cng_hits_monitor v (pl_lo pl) ((pl_hi pl - pl_lo pl) + (if v_rewrite v then CNG_TRAMP_POOL else 0))"
proof -
  let ?s0 = "\<lparr>h_lo = NOT 0, h_hi = 0, h_nload = 0, h_interp = None, h_file_ok = True, h_loader_file = lf\<rparr>"
  obtain eh where eh: "x_ehdr x = Some eh" using assms(1) by (auto simp: elf_read_headers_def split: option.splits)
  have id: "elf_ident_ok eh" using assms(1) eh by (auto simp: elf_read_headers_def split: if_splits)
  obtain ph where ph: "x_phdrs x (e_phoff eh) (e_phnum eh) = Some ph"
    using assms(1) eh by (auto simp: elf_read_headers_def split: if_splits option.splits)
  obtain s where s: "hdr_loop v x ph ?s0 = (LOAD_OK, s)"
    using assms(1) eh ph by (auto simp: elf_read_headers_def split: if_splits prod.splits load_rc.splits)
  have r: "h_nload s \<noteq> 0" "\<not> h_hi s - h_lo s > NOT 0 - CNG_TRAMP_POOL"
      "\<not> (e_type eh = ET_EXEC \<and> cng_hits_monitor v (h_lo s) ((h_hi s - h_lo s) + (if v_rewrite v then CNG_TRAMP_POOL else 0)))"
      "pl_ph pl = ph" "pl_lo pl = h_lo s" "pl_hi pl = h_hi s" "pl_dyn pl = (e_type eh = ET_DYN)"
    using assms(1) eh ph s by (auto simp: elf_read_headers_def split: if_splits)
  have h: "hst_ok k s" "\<forall>p \<in> set (loads ph). seg_ok k (h_lo s) (h_hi s) p"
    using hdr_loop_ok [OF s assms(2,3)] by (simp_all add: hst_ok_def)
  then have sp: "span_ok k (h_lo s) (h_hi s)" using r(1) by (simp add: hst_ok_def)
  have "unat (NOT 0 - CNG_TRAMP_POOL :: u64) = 2 ^ 64 - 1 - unat CNG_TRAMP_POOL"
    by (simp add: CNG_TRAMP_POOL_def)
  moreover have "unat CNG_TRAMP_POOL = 0x80000" by (simp add: CNG_TRAMP_POOL_def)
  ultimately have "unat (h_hi s) - unat (h_lo s) + unat CNG_TRAMP_POOL < 2 ^ 64"
    using r(2) span_sub [OF sp] by (simp add: word_less_nat_alt not_less)
  then show "plan_ok k pl" using sp h(2) by (simp add: plan_ok_def r)
  assume "\<not> pl_dyn pl"
  then have "e_type eh = ET_EXEC" using id r(7) by (simp add: elf_ident_ok_def)
  then show "\<not> cng_hits_monitor v (pl_lo pl) ((pl_hi pl - pl_lo pl) + (if v_rewrite v then CNG_TRAMP_POOL else 0))"
    using r by simp
qed

section \<open>Where segments land\<close>

definition fits :: "nat \<Rightarrow> u64 \<Rightarrow> u64 \<Rightarrow> u64 \<Rightarrow> bool" where
  "fits k seg lo hi \<longleftrightarrow> k \<le> 19 \<and> 2 ^ k dvd unat seg \<and> span_ok k lo hi \<and> unat seg + (unat hi - unat lo) < 2 ^ 64"

lemma at_bias:
  assumes "fits k seg lo hi" "unat lo \<le> unat a" "unat a \<le> unat hi"
  shows "unat (seg - lo + a) = unat seg + (unat a - unat lo)"
proof -
  have "unat (a - lo) = unat a - unat lo" using assms(2) by (intro unat_sub) (simp add: word_le_nat_alt)
  moreover have "unat seg + (unat a - unat lo) < 2 ^ 64"
  proof -
    have "unat seg + (unat hi - unat lo) < 2 ^ 64" using assms(1) unfolding fits_def by blast
    then show ?thesis using assms(3) by linarith
  qed
  ultimately have "unat (seg + (a - lo)) = unat seg + (unat a - unat lo)" by (subst unat_plus64) simp_all
  moreover have "seg - lo + a = seg + (a - lo)" by simp
  ultimately show ?thesis by (simp only:)
qed

text \<open>A multiple of the page size below the top of the address space is a whole page below it.\<close>

lemma room_above: "2 ^ k dvd t \<Longrightarrow> t < 2 ^ 64 \<Longrightarrow> k \<le> 19 \<Longrightarrow> t + 2 ^ k \<le> (2 :: nat) ^ 64"
proof -
  assume d: "2 ^ k dvd t" and t: "t < 2 ^ 64" and k: "k \<le> 19"
  obtain q where q: "t = 2 ^ k * q" using d by auto
  have e: "(2 :: nat) ^ 64 = 2 ^ k * 2 ^ (64 - k)" using k by (simp add: power_add [symmetric])
  have "q < 2 ^ (64 - k)" using t unfolding q e by simp
  then have "2 ^ k * (q + 1) \<le> (2 :: nat) ^ k * 2 ^ (64 - k)" by (intro mult_le_mono) simp_all
  then show ?thesis unfolding q e by simp
qed

lemma up_at:
  assumes f: "fits k seg lo hi" and a: "unat lo \<le> unat a" "up k (unat a) \<le> unat hi"
  shows "unat (cng_page_up (2 ^ k) (seg - lo + a)) = unat seg + (up k (unat a) - unat lo)"
    "unat (seg - lo + a) = unat seg + (unat a - unat lo)" "unat a \<le> up k (unat a)"
proof -
  have k: "k \<le> 19" "2 ^ k dvd unat seg" "2 ^ k dvd unat lo" "2 ^ k dvd unat hi" "unat seg + (unat hi - unat lo) < 2 ^ 64"
    using f unfolding fits_def span_ok_def by blast+
  show u: "unat a \<le> up k (unat a)" by (rule le_up)
  then show b: "unat (seg - lo + a) = unat seg + (unat a - unat lo)" using at_bias [OF f] a by simp
  have "2 ^ k dvd unat seg + (unat hi - unat lo)" using k by (simp add: dvd_diff_nat)
  then have "unat seg + (unat hi - unat lo) + 2 ^ k \<le> 2 ^ 64" using room_above k by blast
  then have "unat (seg - lo + a) + 2 ^ k \<le> 2 ^ 64" using b u a by simp
  then have "unat (cng_page_up (2 ^ k) (seg - lo + a)) = up k (unat seg + (unat a - unat lo))"
    using unat_page_up [of k "seg - lo + a"] k(1) b by simp
  also have "\<dots> = unat seg + (up k (unat a) - unat lo)" using up_shift [OF k(2)] up_minus [OF k(3) a(1)] by simp
  finally show "unat (cng_page_up (2 ^ k) (seg - lo + a)) = unat seg + (up k (unat a) - unat lo)" .
qed

lemma down_at:
  assumes f: "fits k seg lo hi" and a: "unat lo \<le> unat a" "unat a \<le> unat hi"
  shows "unat (cng_page_down (2 ^ k) (seg - lo + a)) = unat seg + (dn k (unat a) - unat lo)"
proof -
  have k: "2 ^ k dvd unat seg" "2 ^ k dvd unat lo" using f by (simp_all add: fits_def span_ok_def)
  show ?thesis using at_bias [OF f a] dn_shift [OF k(1)] dn_minus [OF k(2) a(1)] by (simp add: unat_page_down)
qed

text \<open>The places of a segment in the reservation, as numbers.\<close>

lemma seg_places:
  assumes f: "fits k seg lo hi" and p: "seg_ok k lo hi p"
  defines "v \<equiv> unat (p_vaddr p)" and "fz \<equiv> unat (p_filesz p)" and "mz \<equiv> unat (p_memsz p)" and "b \<equiv> seg - lo"
  shows "unat (b + p_vaddr p) = unat seg + (v - unat lo)"
    "unat (cng_page_down (2 ^ k) (b + p_vaddr p)) = unat seg + (dn k v - unat lo)"
    "unat (b + p_vaddr p + p_filesz p) = unat seg + (v + fz - unat lo)"
    "unat (cng_page_up (2 ^ k) (b + p_vaddr p + p_filesz p)) = unat seg + (up k (v + fz) - unat lo)"
    "unat (cng_page_up (2 ^ k) (b + p_vaddr p + p_memsz p)) = unat seg + (up k (v + mz) - unat lo)"
    "unat lo \<le> dn k v" "dn k v \<le> v" "v + fz \<le> v + mz" "v + fz \<le> up k (v + fz)" "up k (v + fz) \<le> up k (v + mz)" "up k (v + mz) \<le> unat hi"
proof -
  have s: "fz \<le> mz" "unat lo \<le> dn k v" "up k (v + mz) \<le> unat hi" using p by (simp_all add: seg_ok_def v_def fz_def mz_def)
  show o: "unat lo \<le> dn k v" "dn k v \<le> v" "v + fz \<le> v + mz" "v + fz \<le> up k (v + fz)" "up k (v + fz) \<le> up k (v + mz)" "up k (v + mz) \<le> unat hi"
    using s dn_le le_up up_mono by simp_all
  have vm: "v + mz \<le> unat hi" using le_up [of "v + mz" k] o(6) by simp
  have l: "unat lo \<le> v" "v \<le> unat hi" using o vm by simp_all
  have uf: "unat (p_vaddr p + p_filesz p) = v + fz" using vm s(1) u64_less [of hi] by (subst unat_plus64) (simp_all add: v_def fz_def)
  have um: "unat (p_vaddr p + p_memsz p) = v + mz" using vm u64_less [of hi] by (subst unat_plus64) (simp_all add: v_def mz_def)
  have af: "b + p_vaddr p + p_filesz p = seg - lo + (p_vaddr p + p_filesz p)" by (simp add: b_def)
  have am: "b + p_vaddr p + p_memsz p = seg - lo + (p_vaddr p + p_memsz p)" by (simp add: b_def)
  show "unat (b + p_vaddr p) = unat seg + (v - unat lo)" using at_bias [OF f] l by (simp add: b_def v_def)
  show "unat (cng_page_down (2 ^ k) (b + p_vaddr p)) = unat seg + (dn k v - unat lo)" using down_at [OF f] l by (simp add: b_def v_def)
  show "unat (b + p_vaddr p + p_filesz p) = unat seg + (v + fz - unat lo)"
    "unat (cng_page_up (2 ^ k) (b + p_vaddr p + p_filesz p)) = unat seg + (up k (v + fz) - unat lo)"
    unfolding af using up_at [OF f, of "p_vaddr p + p_filesz p"] l o uf by simp_all
  show "unat (cng_page_up (2 ^ k) (b + p_vaddr p + p_memsz p)) = unat seg + (up k (v + mz) - unat lo)"
    unfolding am using up_at [OF f, of "p_vaddr p + p_memsz p"] l o um by simp
qed

section \<open>Staying inside the reservation\<close>

definition inside :: "u64 \<times> u64 \<Rightarrow> u64 \<Rightarrow> u64 \<Rightarrow> bool" where
  "inside r a n \<longleftrightarrow> unat (fst r) \<le> unat a \<and> unat a + unat n \<le> unat (fst r) + unat (snd r)"

fun ev_inside :: "u64 \<times> u64 \<Rightarrow> mev \<Rightarrow> bool" where
  "ev_inside r (M_reserve a n f) = False"
| "ev_inside r (M_unmap a n) = False"
| "ev_inside r (M_read a n off) = inside r a n"
| "ev_inside r (M_prot a n pr) = inside r a n"
| "ev_inside r (M_file a n pr off) = inside r a n"
| "ev_inside r (M_anon a n pr) = inside r a n"
| "ev_inside r (M_zero a n) = inside r a n"
| "ev_inside r (M_rewrite a n) = inside r a n"
| "ev_inside r (M_pool a n) = inside r a n"

text \<open>
  What is reserved after a list of acts, or nothing if one of them touched anything outside what was reserved then,
  reserved twice, or gave back something else.
\<close>

fun replay :: "(u64 \<times> u64) option \<Rightarrow> mev list \<Rightarrow> (u64 \<times> u64) option option" where
  "replay r [] = Some r"
| "replay r (M_reserve a n f # evs) = (if r = None then replay (Some (a, n)) evs else None)"
| "replay r (M_unmap a n # evs) = (if r = Some (a, n) then replay None evs else None)"
| "replay r (ev # evs) = (case r of None \<Rightarrow> None | Some q \<Rightarrow> if ev_inside q ev then replay r evs else None)"

lemma replay_inside: "list_all (ev_inside q) evs \<Longrightarrow> replay (Some q) (evs @ es) = replay (Some q) es"
proof (induction evs)
  case (Cons ev evs)
  then show ?case by (cases ev) simp_all
qed simp

lemma replay_append: "replay r evs = Some r' \<Longrightarrow> replay r (evs @ es) = replay r' es"
proof (induction evs arbitrary: r)
  case (Cons ev evs)
  then show ?case by (cases ev) (auto split: if_splits option.splits)
qed simp

text \<open>A reservation long enough for the span.\<close>

definition holds_span :: "u64 \<Rightarrow> u64 \<Rightarrow> u64 \<Rightarrow> u64 \<Rightarrow> bool" where
  "holds_span seg len lo hi \<longleftrightarrow> unat hi - unat lo \<le> unat len"

lemma inside_file_part:
  assumes "fits k seg lo hi" "seg_ok k lo hi p" "holds_span seg len lo hi"
  shows "inside (seg, len) (seg - lo + p_vaddr p) (p_filesz p)"
  using seg_places [OF assms(1,2)] assms(3) by (auto simp: inside_def holds_span_def)

lemma read_segs_inside:
  assumes "fits k seg lo hi" "\<forall>p \<in> set (loads ph). seg_ok k lo hi p" "holds_span seg len lo hi"
  shows "list_all (ev_inside (seg, len)) (snd (read_segs x (seg - lo) ph))"
  using assms(2)
proof (induction ph)
  case (Cons p ph)
  obtain ok evs where r: "read_segs x (seg - lo) ph = (ok, evs)" by fastforce
  show ?case
  proof (cases "p_type p = PT_LOAD")
    case True
    then have "seg_ok k lo hi p" using Cons.prems by (simp add: loads_def)
    then show ?thesis using inside_file_part [OF assms(1) _ assms(3)] Cons r True by (simp add: loads_def Let_def)
  next
    case False
    then show ?thesis using Cons by (simp add: loads_def)
  qed
qed simp

lemma sub_between: "unat a \<le> unat b \<Longrightarrow> unat (b - a :: u64) = unat b - unat a"
  by (intro unat_sub) (simp add: word_le_nat_alt)

lemma inside_between: "unat seg \<le> unat a \<Longrightarrow> unat a \<le> unat b \<Longrightarrow> unat b \<le> unat seg + unat len \<Longrightarrow> inside (seg, len) a (b - a)"
  by (simp add: inside_def sub_between)

lemma file_segs_inside:
  assumes f: "fits k seg lo hi" and "\<forall>p \<in> set (loads ph). seg_ok k lo hi p" and h: "holds_span seg len lo hi" and pg: "v_page v = 2 ^ k"
  shows "list_all (ev_inside (seg, len)) (snd (file_segs v x (seg - lo) ph))"
  using assms(2)
proof (induction ph)
  case (Cons p ph)
  obtain ok evs where r: "file_segs v x (seg - lo) ph = (ok, evs)" by fastforce
  show ?case
  proof (cases "p_type p = PT_LOAD")
    case False
    then show ?thesis using Cons by (simp add: loads_def)
  next
    case True
    then have p: "seg_ok k lo hi p" and ps: "\<forall>p \<in> set (loads ph). seg_ok k lo hi p" using Cons.prems by (simp_all add: loads_def)
    note pl = seg_places [OF f p]
    let ?vs = "seg - lo + p_vaddr p"
    let ?vp = "cng_page_down (2 ^ k) ?vs" and ?fe = "?vs + p_filesz p"
    let ?pe = "cng_page_up (2 ^ k) ?fe" and ?bh = "cng_page_up (2 ^ k) (?vs + p_memsz p)"
    have i1: "inside (seg, len) ?vp (?pe - ?vp)" using pl h by (intro inside_between) (simp_all add: holds_span_def)
    have i2: "inside (seg, len) ?fe (?pe - ?fe)" using pl h by (intro inside_between) (simp_all add: holds_span_def)
    have i3: "inside (seg, len) ?pe (?bh - ?pe)" using pl h by (intro inside_between) (simp_all add: holds_span_def)
    have i4: "inside (seg, len) ?vp (?bh - ?vp)" using pl h by (intro inside_between) (simp_all add: holds_span_def)
    have IH: "list_all (ev_inside (seg, len)) evs" using Cons.IH [OF ps] r by simp
    show ?thesis
      using True i1 i2 i3 i4 IH unfolding file_segs.simps(2) pg r Let_def prod.case by simp
  qed
qed simp

subsection \<open>Edges and runs\<close>

lemma add_edge_set: "set (add_edge e xs) = insert e (set xs)"
  by (induction xs) auto

lemma add_edge_sorted: "sorted_wrt (<) xs \<Longrightarrow> sorted_wrt (<) (add_edge e xs)"
proof (induction xs)
  case (Cons y ys)
  then show ?case by (auto simp: add_edge_set)
qed simp

lemma add_edge_length: "length (add_edge e xs) \<le> length xs + 1"
  by (induction xs) auto

lemma edges_foldl:
  assumes "sorted_wrt (<) es"
  shows "sorted_wrt (<) (foldl (\<lambda>es p. add_edge (seg_hi v bias p) (add_edge (seg_lo v bias p) es)) es ps) \<and>
    set (foldl (\<lambda>es p. add_edge (seg_hi v bias p) (add_edge (seg_lo v bias p) es)) es ps) =
      set es \<union> (\<Union>p \<in> set ps. {seg_lo v bias p, seg_hi v bias p}) \<and>
    length (foldl (\<lambda>es p. add_edge (seg_hi v bias p) (add_edge (seg_lo v bias p) es)) es ps) \<le> length es + 2 * length ps"
  using assms
proof (induction ps arbitrary: es)
  case (Cons p ps)
  let ?e = "add_edge (seg_hi v bias p) (add_edge (seg_lo v bias p) es)"
  have "sorted_wrt (<) ?e" using Cons.prems by (intro add_edge_sorted)
  note IH = Cons.IH [OF this]
  have "length ?e \<le> length es + 2"
    using add_edge_length [of "seg_hi v bias p" "add_edge (seg_lo v bias p) es"] add_edge_length [of "seg_lo v bias p" es] by linarith
  then show ?case using IH by (auto simp: add_edge_set)
qed simp

lemma edges_sorted: "sorted_wrt (<) (edges v bias ph)"
  and edges_set: "set (edges v bias ph) = (\<Union>p \<in> set (loads ph). {seg_lo v bias p, seg_hi v bias p})"
  and edges_length: "length (edges v bias ph) \<le> 2 * length (loads ph)"
  using edges_foldl [of "[]" v bias "loads ph"] by (simp_all add: edges_def)

lemma prot_runs_inside:
  assumes "sorted_wrt (<) es" "\<forall>e \<in> set es. unat seg \<le> unat e \<and> unat e \<le> unat seg + unat len"
  shows "list_all (ev_inside (seg, len)) (snd (prot_runs v x bias ph es))"
  using assms
proof (induction es rule: induct_list012)
  case (3 ps pe es)
  have "unat ps \<le> unat pe" using "3.prems"(1) by (simp add: word_less_nat_alt)
  then have i: "inside (seg, len) ps (pe - ps)" using "3.prems"(2) by (intro inside_between) simp_all
  obtain rc evs where r: "prot_runs v x bias ph (pe # es) = (rc, evs)" by fastforce
  have "list_all (ev_inside (seg, len)) evs" using "3.IH"(2) "3.prems" r by simp
  then show ?case using i r by (simp add: Let_def)
qed simp_all

lemma edges_inside:
  assumes f: "fits k seg lo hi" and s: "\<forall>p \<in> set (loads ph). seg_ok k lo hi p" and h: "holds_span seg len lo hi" and pg: "v_page v = 2 ^ k"
  shows "\<forall>e \<in> set (edges v (seg - lo) ph). unat seg \<le> unat e \<and> unat e \<le> unat seg + unat len"
proof
  fix e assume "e \<in> set (edges v (seg - lo) ph)"
  then obtain p where p: "p \<in> set (loads ph)" "e = seg_lo v (seg - lo) p \<or> e = seg_hi v (seg - lo) p" by (auto simp: edges_set)
  note pl = seg_places [OF f s [rule_format, OF p(1)]]
  show "unat seg \<le> unat e \<and> unat e \<le> unat seg + unat len"
    using p(2) pl h by (auto simp: seg_lo_def seg_hi_def pg holds_span_def)
qed

lemma rewrite_segs_inside:
  assumes f: "fits k seg lo hi" and s: "\<forall>p \<in> set (loads ph). seg_ok k lo hi p" and pg: "v_page v = 2 ^ k"
    and u: "unat (x_used x) \<le> unat CNG_TRAMP_POOL" and l: "unat len = unat hi - unat lo + (if v_rewrite v then unat CNG_TRAMP_POOL else 0)"
  shows "list_all (ev_inside (seg, len)) (rewrite_segs v x (seg - lo) (seg + (hi - lo)) ph)"
proof (cases "v_rewrite v")
  case True
  have k: "k \<le> 19" "span_ok k lo hi" "unat seg + (unat hi - unat lo) < 2 ^ 64" using f unfolding fits_def by blast+
  have pool: "unat (seg + (hi - lo)) = unat seg + (unat hi - unat lo)"
    using k(3) span_sub [OF k(2)] by (subst unat_plus64) simp_all
  have "2 ^ k dvd (2 :: nat) ^ 19" using k(1) by (rule le_imp_power_dvd)
  then have "up k (unat (x_used x)) \<le> 2 ^ 19" using u by (intro up_least) (simp_all add: CNG_TRAMP_POOL_def)
  moreover have "unat (cng_page_up (2 ^ k) (x_used x)) = up k (unat (x_used x))"
  proof (rule unat_page_up)
    have "(2 :: nat) ^ k \<le> 2 ^ 19" using k(1) by (intro power_increasing) simp_all
    then show "unat (x_used x) + 2 ^ k \<le> 2 ^ 64" using u by (simp add: CNG_TRAMP_POOL_def)
  qed (use k(1) in simp)
  ultimately have i: "inside (seg, len) (seg + (hi - lo)) (x_used x)" "inside (seg, len) (seg + (hi - lo)) (cng_page_up (2 ^ k) (x_used x))"
    using pool u l True by (simp_all add: inside_def CNG_TRAMP_POOL_def)
  have "holds_span seg len lo hi" using l by (simp add: holds_span_def)
  then have "list_all (ev_inside (seg, len)) (map (\<lambda>p. M_rewrite (seg - lo + p_vaddr p) (p_filesz p)) (filter (\<lambda>p. p_flags p AND PF_X \<noteq> 0) (loads ph)))"
    using s inside_file_part [OF f] by (auto simp: list_all_iff)
  then show ?thesis using i True by (simp add: rewrite_segs_def pg)
qed (simp add: rewrite_segs_def)

section \<open>The two strategies\<close>

text \<open>
  What the kernel promises of a reservation: it is page-aligned, it ends below the top of the address space, and a fixed one is where
  it was asked for.
\<close>

definition reserve_ok :: "nat \<Rightarrow> elf_host \<Rightarrow> bool" where
  "reserve_ok k x \<longleftrightarrow> (\<forall>anon fixed want len a. x_reserve x anon fixed want len = Some a \<longrightarrow>
     2 ^ k dvd unat a \<and> unat a + unat len < 2 ^ 64 \<and> (fixed \<longrightarrow> a = want))"

lemma reserve_okD:
  assumes "reserve_ok k x" "x_reserve x anon fixed want len = Some a"
  shows "2 ^ k dvd unat a" "unat a + unat len < 2 ^ 64" "fixed \<Longrightarrow> a = want"
  using assms unfolding reserve_ok_def by blast+

lemma no_reserve: "list_all (ev_inside r) evs \<Longrightarrow> M_reserve a n f \<notin> set evs"
  by (auto simp: list_all_iff)

lemma map_anon_stays:
  assumes sp: "span_ok k lo hi" "k \<le> 19" "unat hi - unat lo + unat CNG_TRAMP_POOL < 2 ^ 64" and s: "\<forall>p \<in> set (loads ph). seg_ok k lo hi p"
    and pg: "v_page v = 2 ^ k" and rs: "reserve_ok k x" and u: "unat (x_used x) \<le> unat CNG_TRAMP_POOL"
    and m: "map_anon v x ph dyn lo (hi - lo) hint = (rc, evs, bias, len)"
  shows "replay None evs = Some (if rc = LOAD_OK then Some (bias + lo, len) else None)"
    "M_reserve a n True \<in> set evs \<Longrightarrow> \<not> dyn \<and> a = lo \<and> n = (hi - lo) + (if v_rewrite v then CNG_TRAMP_POOL else 0)"
proof -
  let ?len = "(hi - lo) + (if v_rewrite v then CNG_TRAMP_POOL else 0)"
  have len: "unat ?len = unat hi - unat lo + (if v_rewrite v then unat CNG_TRAMP_POOL else 0)"
    using sp(3) span_sub [OF sp(1)] by (auto simp: unat_plus64)
  have "replay None evs = Some (if rc = LOAD_OK then Some (bias + lo, len) else None) \<and>
      (M_reserve a n True \<in> set evs \<longrightarrow> \<not> dyn \<and> a = lo \<and> n = ?len)"
  proof (cases "x_reserve x True (\<not> dyn) (if dyn then hint else lo) ?len")
    case None
    then have "rc = LOAD_EMAP" "evs = []" using m unfolding map_anon_def Let_def by simp_all
    then show ?thesis by simp
  next
    case (Some seg)
    have r: "2 ^ k dvd unat seg" "unat seg + unat ?len < 2 ^ 64" "\<not> dyn \<Longrightarrow> seg = lo"
      by (rule reserve_okD(1) [OF rs Some], rule reserve_okD(2) [OF rs Some]) (use reserve_okD(3) [OF rs Some] in simp)
    have bias: "(if dyn then seg - lo else 0) = seg - lo" using r(3) by simp
    have f: "fits k seg lo hi" using sp r len unfolding fits_def by auto
    have h: "holds_span seg ?len lo hi" using len by (simp add: holds_span_def)
    obtain ok rd where rd: "read_segs x (seg - lo) ph = (ok, rd)" by fastforce
    obtain rc' pr where pr: "prot_runs v x (seg - lo) ph (edges v (seg - lo) ph) = (rc', pr)" by fastforce
    let ?rw = "rewrite_segs v x (seg - lo) (seg + (hi - lo)) ph"
    have ins: "list_all (ev_inside (seg, ?len)) rd" "list_all (ev_inside (seg, ?len)) ?rw" "list_all (ev_inside (seg, ?len)) pr"
      using read_segs_inside [OF f s h, of x] rd rewrite_segs_inside [OF f s pg u len]
        prot_runs_inside [OF edges_sorted edges_inside [OF f s h pg], of v x "seg - lo" ph] pr by simp_all
    have e: "(rc, evs, bias, len) =
        (if \<not> ok then (LOAD_EIO, M_reserve seg ?len (\<not> dyn) # rd @ [M_unmap seg ?len], 0, ?len)
         else if rc' \<noteq> LOAD_OK then (rc', M_reserve seg ?len (\<not> dyn) # rd @ ?rw @ pr @ [M_unmap seg ?len], 0, ?len)
         else (LOAD_OK, M_reserve seg ?len (\<not> dyn) # rd @ ?rw @ pr, seg - lo, ?len))"
      using m Some unfolding map_anon_def Let_def by (simp only: bias option.case rd pr prod.case if_True if_False)
    have "replay (Some (seg, ?len)) pr = Some (Some (seg, ?len))" using replay_inside [OF ins(3), of "[]"] by simp
    then have "replay None evs = Some (if rc = LOAD_OK then Some (bias + lo, len) else None)"
      using e replay_inside [OF ins(1)] replay_inside [OF ins(2)] replay_inside [OF ins(3)] by (auto split: if_splits)
    moreover have "\<not> dyn \<and> a = lo \<and> n = ?len" if "M_reserve a n True \<in> set evs"
      using that e r(3) no_reserve [OF ins(1)] no_reserve [OF ins(2)] no_reserve [OF ins(3)] by (auto split: if_splits)
    ultimately show ?thesis by blast
  qed
  then show "replay None evs = Some (if rc = LOAD_OK then Some (bias + lo, len) else None)"
    "M_reserve a n True \<in> set evs \<Longrightarrow> \<not> dyn \<and> a = lo \<and> n = ?len" by blast+
qed

lemma map_file_stays:
  assumes sp: "span_ok k lo hi" "k \<le> 19" and s: "\<forall>p \<in> set (loads ph). seg_ok k lo hi p"
    and pg: "v_page v = 2 ^ k" and rs: "reserve_ok k x" and m: "map_file v x ph dyn lo (hi - lo) hint = (rc, evs, bias, len)"
  shows "replay None evs = Some (if rc = LOAD_OK then Some (bias + lo, len) else None)"
    "M_reserve a n True \<in> set evs \<Longrightarrow> \<not> dyn \<and> a = lo \<and> n = hi - lo"
proof -
  have len: "unat (hi - lo) = unat hi - unat lo" by (rule span_sub [OF sp(1)])
  have "replay None evs = Some (if rc = LOAD_OK then Some (bias + lo, len) else None) \<and>
      (M_reserve a n True \<in> set evs \<longrightarrow> \<not> dyn \<and> a = lo \<and> n = hi - lo)"
  proof (cases "x_reserve x False (\<not> dyn) (if dyn then hint else lo) (hi - lo)")
    case None
    then have "rc = LOAD_EMAP" "evs = []" using m unfolding map_file_def Let_def by simp_all
    then show ?thesis by simp
  next
    case (Some seg)
    have r: "2 ^ k dvd unat seg" "unat seg + unat (hi - lo) < 2 ^ 64" "\<not> dyn \<Longrightarrow> seg = lo"
      by (rule reserve_okD(1) [OF rs Some], rule reserve_okD(2) [OF rs Some]) (use reserve_okD(3) [OF rs Some] in simp)
    have bias: "(if dyn then seg - lo else 0) = seg - lo" using r(3) by simp
    have f: "fits k seg lo hi" using sp r len unfolding fits_def by auto
    have h: "holds_span seg (hi - lo) lo hi" using len by (simp add: holds_span_def)
    obtain ok es where es: "file_segs v x (seg - lo) ph = (ok, es)" by fastforce
    have ins: "list_all (ev_inside (seg, hi - lo)) es" using file_segs_inside [OF f s h pg, of x] es by simp
    have e: "(rc, evs, bias, len) =
        (if \<not> ok then (LOAD_EMAP, M_reserve seg (hi - lo) (\<not> dyn) # es @ [M_unmap seg (hi - lo)], 0, hi - lo)
         else (LOAD_OK, M_reserve seg (hi - lo) (\<not> dyn) # es, seg - lo, hi - lo))"
      using m Some unfolding map_file_def Let_def by (simp only: bias option.case es prod.case if_True if_False)
    have "replay (Some (seg, hi - lo)) es = Some (Some (seg, hi - lo))" using replay_inside [OF ins, of "[]"] by simp
    then have "replay None evs = Some (if rc = LOAD_OK then Some (bias + lo, len) else None)"
      using e replay_inside [OF ins] by (auto split: if_splits)
    moreover have "\<not> dyn \<and> a = lo \<and> n = hi - lo" if "M_reserve a n True \<in> set evs"
      using that e r(3) no_reserve [OF ins] by (auto split: if_splits)
    ultimately show ?thesis by blast
  qed
  then show "replay None evs = Some (if rc = LOAD_OK then Some (bias + lo, len) else None)"
    "M_reserve a n True \<in> set evs \<Longrightarrow> \<not> dyn \<and> a = lo \<and> n = hi - lo" by blast+
qed

section \<open>The load\<close>

definition range_end :: "u64 \<Rightarrow> u64 \<Rightarrow> u64" where
  "range_end a n = (if a + n < a then NOT 0 else a + n)"

lemma range_end_mono:
  assumes "unat m \<le> unat n"
  shows "range_end a m \<le> range_end a n"
proof (cases "a + n < a")
  case True
  then show ?thesis by (simp add: range_end_def word_n1_ge)
next
  case False
  then have n: "unat (a + n) = unat a + unat n" by (rule no_wrap)
  then have "unat a + unat m < 2 ^ 64" using assms u64_less [of "a + n"] by linarith
  then have m: "unat (a + m) = unat a + unat m" by (rule unat_plus64)
  then have "\<not> a + m < a" by (simp add: word_less_nat_alt)
  then show ?thesis using False n m assms by (simp add: range_end_def word_le_nat_alt)
qed

lemma hits_iff:
  "cng_hits_monitor v a n \<longleftrightarrow> n \<noteq> 0 \<and> (\<exists>r \<in> insert (v_image v) (set (v_own v) \<union> set (v_scr v)). range_hit a (range_end a n) r)"
  unfolding cng_hits_monitor_def range_end_def [symmetric] Let_def list_ex_iff by (simp add: bex_Un)

lemma hits_mono:
  assumes "cng_hits_monitor v a m" "unat m \<le> unat n"
  shows "cng_hits_monitor v a n"
proof -
  have e: "range_end a m \<le> range_end a n" by (rule range_end_mono [OF assms(2)])
  have r: "range_hit a (range_end a n) r" if "range_hit a (range_end a m) r" for r
    using that e unfolding range_hit_def by (meson order_less_le_trans)
  have "m \<noteq> 0" using assms(1) by (simp add: hits_iff)
  then have "n \<noteq> 0" using assms(2) by (auto simp: unat_eq_zero)
  then show ?thesis using assms(1) r unfolding hits_iff by blast
qed

definition strategies_ok :: "nat \<Rightarrow> elf_env \<Rightarrow> elf_host \<Rightarrow> bool" where
  "strategies_ok k v x \<longleftrightarrow> v_page v = 2 ^ k \<and> k \<le> 19 \<and> reserve_ok k x \<and> unat (x_used x) \<le> unat CNG_TRAMP_POOL"

lemma elf_map_stays:
  assumes ok: "strategies_ok k v x" and pl: "plan_ok k pl" and m: "cng_elf_map v x lf pl hint = (rc, evs, out, lf')"
  shows "replay None evs = Some (map_option (\<lambda>ld. (o_map_lo ld, o_map_len ld)) out)" "rc = LOAD_OK \<longleftrightarrow> out \<noteq> None"
    "M_reserve a n True \<in> set evs \<Longrightarrow> \<not> cng_hits_monitor v a n"
proof -
  have o: "v_page v = 2 ^ k" "k \<le> 19" "reserve_ok k x" "unat (x_used x) \<le> unat CNG_TRAMP_POOL"
    using ok unfolding strategies_ok_def by blast+
  have p: "span_ok k (pl_lo pl) (pl_hi pl)" "unat (pl_hi pl) - unat (pl_lo pl) + unat CNG_TRAMP_POOL < 2 ^ 64"
      "\<forall>p \<in> set (loads (pl_ph pl)). seg_ok k (pl_lo pl) (pl_hi pl) p"
    using pl unfolding plan_ok_def by blast+
  let ?span = "pl_hi pl - pl_lo pl"
  let ?len = "?span + (if v_rewrite v then CNG_TRAMP_POOL else 0)"
  note fl = map_file_stays [OF p(1) o(2) p(3) o(1,3)]
  note an = map_anon_stays [OF p(1) o(2) p(2,3) o(1,3,4)]
  have longer: "unat ?span \<le> unat ?len" using p(2) span_sub [OF p(1)] by (auto simp: unat_plus64)
  have "replay None evs = Some (map_option (\<lambda>ld. (o_map_lo ld, o_map_len ld)) out) \<and> (rc = LOAD_OK \<longleftrightarrow> out \<noteq> None) \<and>
      (M_reserve a n True \<in> set evs \<longrightarrow> \<not> cng_hits_monitor v a n)"
  proof (cases "lf \<and> \<not> pl_file_ok pl \<or> \<not> pl_dyn pl \<and> cng_hits_monitor v (pl_lo pl) ?len")
    case True
    then have "evs = []" "out = None" "rc \<noteq> LOAD_OK" using m by (auto simp: cng_elf_map_def Let_def split: if_splits)
    then show ?thesis by simp
  next
    case go: False
    obtain rc1 evs1 bias1 len1 where s1: "(if lf then map_file v x (pl_ph pl) (pl_dyn pl) (pl_lo pl) ?span hint
        else map_anon v x (pl_ph pl) (pl_dyn pl) (pl_lo pl) ?span hint) = (rc1, evs1, bias1, len1)" by (metis prod_cases4)
    obtain rc2 evs2 bias2 len2 where s2: "map_file v x (pl_ph pl) (pl_dyn pl) (pl_lo pl) ?span hint = (rc2, evs2, bias2, len2)" by (metis prod_cases4)
    have r1: "replay None evs1 = Some (if rc1 = LOAD_OK then Some (bias1 + pl_lo pl, len1) else None)"
      using s1 fl(1) an(1) by (cases lf) auto
    have r2: "replay None evs2 = Some (if rc2 = LOAD_OK then Some (bias2 + pl_lo pl, len2) else None)" by (rule fl(1) [OF s2])
    have c1: "\<not> pl_dyn pl \<and> a = pl_lo pl \<and> (n = ?span \<or> n = ?len)" if "M_reserve a n True \<in> set evs1" 
      using s1 fl(2) an(2) that by (cases lf) (simp, blast)+
    have c2: "\<not> pl_dyn pl \<and> a = pl_lo pl \<and> (n = ?span \<or> n = ?len)" if "M_reserve a n True \<in> set evs2"
      using fl(2) [OF s2] that by blast
    have clear: "\<not> cng_hits_monitor v a n" if "\<not> pl_dyn pl \<and> a = pl_lo pl \<and> (n = ?span \<or> n = ?len)"
      using that go hits_mono [of v a ?span ?len, OF _ longer] by blast
    have e: "(rc, evs, out, lf') =
        (if rc1 = LOAD_EEXEC then
           if \<not> pl_file_ok pl then (LOAD_EINVAL, evs1, None, True)
           else (rc2, evs1 @ evs2, if rc2 = LOAD_OK then Some (load_out v pl False bias2 len2) else None, True)
         else (rc1, evs1, if rc1 = LOAD_OK then Some (load_out v pl (\<not> lf) bias1 len1) else None, lf))"
      using m go unfolding cng_elf_map_def Let_def s1 prod.case unfolding s2 prod.case
      by (simp only: if_False de_Morgan_disj simp_thms)
    have lo: "o_map_lo (load_out v pl b c d) = c + pl_lo pl" "o_map_len (load_out v pl b c d) = d" for b c d
      by (simp_all add: load_out_def Let_def)
    show ?thesis
    proof (cases "rc1 = LOAD_EEXEC \<and> pl_file_ok pl")
      case True
      then have z: "replay None evs1 = Some None" using r1 by simp
      have "replay None (evs1 @ evs2) = replay None evs2" by (rule replay_append [OF z])
      moreover have ev: "rc = rc2" "evs = evs1 @ evs2" "out = (if rc2 = LOAD_OK then Some (load_out v pl False bias2 len2) else None)"
        using e True by simp_all
      ultimately have "replay None evs = Some (map_option (\<lambda>ld. (o_map_lo ld, o_map_len ld)) out) \<and> (rc = LOAD_OK \<longleftrightarrow> out \<noteq> None)"
        using r2 by (cases "rc2 = LOAD_OK") (simp_all add: lo)
      moreover have "\<not> cng_hits_monitor v a n" if "M_reserve a n True \<in> set evs"
      proof (rule clear)
        have "M_reserve a n True \<in> set evs1 \<or> M_reserve a n True \<in> set evs2" using that unfolding ev(2) by simp
        then show "\<not> pl_dyn pl \<and> a = pl_lo pl \<and> (n = ?span \<or> n = ?len)" using c1 c2 by blast
      qed
      ultimately show ?thesis by blast
    next
      case False
      have ev: "evs = evs1" "rc = (if rc1 = LOAD_EEXEC then LOAD_EINVAL else rc1)"
          "out = (if rc1 = LOAD_OK then Some (load_out v pl (\<not> lf) bias1 len1) else None)"
        using e False by (cases "rc1 = LOAD_EEXEC"; simp)+
      have "replay None evs = Some (map_option (\<lambda>ld. (o_map_lo ld, o_map_len ld)) out) \<and> (rc = LOAD_OK \<longleftrightarrow> out \<noteq> None)"
        using r1 unfolding ev by (cases "rc1 = LOAD_OK") (simp_all add: lo)
      moreover have "\<not> cng_hits_monitor v a n" if "M_reserve a n True \<in> set evs"
        using clear [OF c1] that unfolding ev(1) by blast
      ultimately show ?thesis by blast
    qed
  qed
  then show "replay None evs = Some (map_option (\<lambda>ld. (o_map_lo ld, o_map_len ld)) out)" "rc = LOAD_OK \<longleftrightarrow> out \<noteq> None"
    "M_reserve a n True \<in> set evs \<Longrightarrow> \<not> cng_hits_monitor v a n" by blast+
qed

text \<open>
  C14. A load stays inside what it reserves, whatever the file's headers say. Every copy, mapping, clearing, change of protection
  and trampoline of a load lies inside the one range reserved at the time; a load that fails has given its range back, and one that
  succeeds reports the range it holds; and a range fixed at the addresses the file asks for does not touch the monitor.
\<close>

theorem load_stays_in_its_reservation:
  assumes "strategies_ok k v x" "cng_load_elf_fd v x lf hint = (rc, evs, out, lf')"
  shows "replay None evs = Some (map_option (\<lambda>ld. (o_map_lo ld, o_map_len ld)) out) \<and> (rc = LOAD_OK \<longleftrightarrow> out \<noteq> None) \<and>
    (\<forall>a n. M_reserve a n True \<in> set evs \<longrightarrow> \<not> cng_hits_monitor v a n)"
proof -
  obtain rc1 plo lf1 where p: "cng_elf_plan_fd v x lf = (rc1, plo, lf1)" by (metis prod_cases3)
  have none: "rc1 \<noteq> LOAD_OK" if "plo = None"
    using p that by (auto simp: cng_elf_plan_fd_def elf_read_headers_def Let_def split: if_splits option.splits prod.splits load_rc.splits)
  show ?thesis
  proof (cases "rc1 = LOAD_OK")
    case False
    then have "rc = rc1" "evs = []" "out = None" using assms(2) p by (auto simp: cng_load_elf_fd_def split: load_rc.splits option.splits)
    then show ?thesis using False by simp
  next
    case True
    then obtain pl where pl: "plo = Some pl" using none by blast
    have h: "elf_read_headers v x lf = (LOAD_OK, Some pl, lf1)"
      using p True pl by (auto simp: cng_elf_plan_fd_def Let_def split: if_splits)
    have k: "v_page v = 2 ^ k" "k < 64" using assms(1) by (auto simp: strategies_ok_def)
    have m: "cng_elf_map v x lf1 pl hint = (rc, evs, out, lf')" using assms(2) p True pl by (simp add: cng_load_elf_fd_def)
    show ?thesis using elf_map_stays [OF assms(1) elf_read_headers_ok(1) [OF h k] m] by blast
  qed
qed

section \<open>Protections\<close>

text \<open>The protection an address has after a list of acts: that of the last change of protection that covers it.\<close>

fun prot_step :: "u64 \<Rightarrow> u32 option \<Rightarrow> mev \<Rightarrow> u32 option" where
  "prot_step a r (M_prot q n pr) = (if q \<le> a \<and> a - q < n then Some pr else r)"
| "prot_step a r ev = r"

definition prot_at :: "mev list \<Rightarrow> u64 \<Rightarrow> u32 option" where
  "prot_at evs a = foldl (prot_step a) None evs"

text \<open>The run of pages between two neighbouring edges that holds an address.\<close>

fun find_run :: "u64 list \<Rightarrow> u64 \<Rightarrow> (u64 \<times> u64) option" where
  "find_run (ps # pe # es) a = (if ps \<le> a \<and> a < pe then Some (ps, pe) else find_run (pe # es) a)"
| "find_run es a = None"

lemma in_run: "ps < pe \<Longrightarrow> (ps \<le> a \<and> a - ps < pe - ps) \<longleftrightarrow> (ps \<le> a \<and> a < (pe :: u64))"
  by (auto simp: word_less_nat_alt word_le_nat_alt unat_sub_if_size size_word.rep_eq)

lemma find_run_above: "sorted_wrt (<) es \<Longrightarrow> \<forall>e \<in> set es. a < e \<Longrightarrow> find_run es a = None"
  by (induction es rule: induct_list012) auto

lemma prot_runs_prot:
  assumes "sorted_wrt (<) es" "prot_runs v x bias ph es = (LOAD_OK, evs)"
  shows "foldl (prot_step a) r evs =
    (case find_run es a of None \<Rightarrow> r
     | Some (ps, pe) \<Rightarrow> let cov = covering v bias ph ps pe in if cov = [] then r else Some (union_prot cov))"
  using assms
proof (induction es arbitrary: r evs rule: induct_list012)
  case (3 ps pe es)
  have lt: "ps < pe" "sorted_wrt (<) (pe # es)" using "3.prems"(1) by simp_all
  have up: "find_run (pe # es) a = None" if "a < pe"
    using lt(2) that by (intro find_run_above) (auto intro: order_less_trans)
  let ?cov = "covering v bias ph ps pe"
  show ?case
  proof (cases "?cov = []")
    case True
    then have "prot_runs v x bias ph (pe # es) = (LOAD_OK, evs)" using "3.prems"(2) by simp
    then show ?thesis using "3.IH"(2) [OF lt(2)] True up by (auto simp: Let_def)
  next
    case False
    let ?ev = "M_prot ps (pe - ps) (union_prot ?cov)"
    obtain rc evs' where r': "prot_runs v x bias ph (pe # es) = (rc, evs')" by fastforce
    have e: "rc = LOAD_OK" "evs = ?ev # evs'" using "3.prems"(2) False r' by (auto simp: Let_def split: if_splits)
    have st: "prot_step a r ?ev = (if ps \<le> a \<and> a < pe then Some (union_prot ?cov) else r)" using in_run [OF lt(1)] by simp
    have IH: "foldl (prot_step a) q evs' = (case find_run (pe # es) a of None \<Rightarrow> q
        | Some (ps, pe) \<Rightarrow> let cov = covering v bias ph ps pe in if cov = [] then q else Some (union_prot cov))" for q
      using "3.IH"(2) [OF lt(2)] r' e(1) by simp
    show ?thesis
    proof (cases "ps \<le> a \<and> a < pe")
      case True
      then show ?thesis using e(2) st IH up False by (simp add: Let_def)
    next
      case out: False
      then have "prot_step a r ?ev = r" unfolding st by (simp only: if_False)
      then show ?thesis using e(2) IH [of r] out by (simp del: prot_step.simps) blast
    qed
  qed
qed simp_all

lemma find_run_edges:
  assumes "sorted_wrt (<) es" "l \<in> set es" "h \<in> set es" "l \<le> a" "a < (h :: u64)"
  shows "\<exists>ps pe. find_run es a = Some (ps, pe) \<and> ps \<le> a \<and> a < pe \<and> (\<forall>e \<in> set es. e \<le> ps \<or> pe \<le> e)"
  using assms
proof (induction es arbitrary: l rule: induct_list012)
  case (3 ps pe es)
  have lt: "ps < pe" "sorted_wrt (<) (pe # es)" "\<forall>e \<in> set es. pe < e" using "3.prems"(1) by simp_all
  have "ps \<le> l" using "3.prems"(1,2) by auto
  then have pa: "ps \<le> a" using "3.prems"(4) by simp
  show ?case
  proof (cases "a < pe")
    case True
    then show ?thesis using pa lt by (auto intro: order_less_imp_le)
  next
    case False
    have "h \<in> set (pe # es)" using "3.prems"(3,5) pa by auto
    then obtain qs qe where q: "find_run (pe # es) a = Some (qs, qe)" "qs \<le> a" "a < qe" "\<forall>e \<in> set (pe # es). e \<le> qs \<or> qe \<le> e"
      using "3.IH"(2) [OF lt(2), of pe] False "3.prems"(5) by (auto simp: not_less)
    have "pe \<le> qs" using q(3,4) False by auto
    then have "ps \<le> qs" using lt(1) by simp
    then show ?thesis using q False by auto
  qed
qed auto

lemma union_prot_and: "union_prot ps AND m = 0 \<longleftrightarrow> (\<forall>p \<in> set ps. prot_of (p_flags p) AND m = 0)"
proof -
  have "foldl (\<lambda>pr p. pr OR prot_of (p_flags p)) a ps AND m = 0 \<longleftrightarrow> a AND m = 0 \<and> (\<forall>p \<in> set ps. prot_of (p_flags p) AND m = 0)" for a
    by (induction ps arbitrary: a) (auto simp: bit.conj_disj_distrib2 or_eq_0_iff)
  then show ?thesis by (simp add: union_prot_def)
qed

lemma prot_of_and:
  "prot_of f AND PROT_R = 0 \<longleftrightarrow> f AND PF_R = 0" "prot_of f AND PROT_W = 0 \<longleftrightarrow> f AND PF_W = 0" "prot_of f AND PROT_X = 0 \<longleftrightarrow> f AND PF_X = 0"
  by (simp_all add: prot_of_def PROT_R_def PROT_W_def PROT_X_def)

text \<open>The segments whose pages hold an address.\<close>

definition touching :: "elf_env \<Rightarrow> u64 \<Rightarrow> phdr list \<Rightarrow> u64 \<Rightarrow> phdr list" where
  "touching v bias ph a = filter (\<lambda>p. seg_lo v bias p \<le> a \<and> a < seg_hi v bias p) (loads ph)"

lemma anon_prot:
  assumes m: "map_anon v x ph dyn lo span hint = (LOAD_OK, evs, bias, len)" and t: "touching v bias ph a \<noteq> []"
  shows "prot_at evs a = Some (union_prot (touching v bias ph a))"
proof -
  obtain seg where sg: "x_reserve x True (\<not> dyn) (if dyn then hint else lo) (span + (if v_rewrite v then CNG_TRAMP_POOL else 0)) = Some seg"
    using m by (auto simp: map_anon_def Let_def split: option.splits)
  let ?b = "if dyn then seg - lo else 0"
  obtain ok rd where rd: "read_segs x ?b ph = (ok, rd)" by fastforce
  obtain rc pr where pr: "prot_runs v x ?b ph (edges v ?b ph) = (rc, pr)" by fastforce
  have e: "rc = LOAD_OK" "bias = ?b" "\<exists>es. evs = es @ pr"
    using m sg rd pr by (auto simp: map_anon_def Let_def split: if_splits)
  obtain es where es: "evs = es @ pr" using e(3) by blast
  obtain p where p: "p \<in> set (loads ph)" "seg_lo v bias p \<le> a" "a < seg_hi v bias p"
    using t by (auto simp: touching_def filter_empty_conv)
  have ed: "seg_lo v bias q \<in> set (edges v bias ph)" "seg_hi v bias q \<in> set (edges v bias ph)" if "q \<in> set (loads ph)" for q
    using that by (auto simp: edges_set)
  obtain ps pe where r: "find_run (edges v bias ph) a = Some (ps, pe)" "ps \<le> a" "a < pe" "\<forall>e \<in> set (edges v bias ph). e \<le> ps \<or> pe \<le> e"
    using find_run_edges [OF edges_sorted ed [OF p(1)] p(2,3)] by blast
  have "covering v bias ph ps pe = touching v bias ph a"
    unfolding covering_def touching_def
  proof (rule filter_cong [OF refl])
    fix q assume q: "q \<in> set (loads ph)"
    have "seg_lo v bias q \<le> ps \<or> pe \<le> seg_lo v bias q" "seg_hi v bias q \<le> ps \<or> pe \<le> seg_hi v bias q" using r(4) ed [OF q] by blast+
    then show "(seg_lo v bias q \<le> ps \<and> pe \<le> seg_hi v bias q) = (seg_lo v bias q \<le> a \<and> a < seg_hi v bias q)" using r(2,3) by auto
  qed
  then show ?thesis
    using prot_runs_prot [OF edges_sorted pr [unfolded e(1), folded e(2)], of a] r(1) t by (simp add: prot_at_def es)
qed

text \<open>
  C21. A page two segments share serves both. After a load by copying, every address in the pages of at least one segment
  may be read, written or executed exactly if one of the segments that reach into that page asks for it, whatever the order, the overlap and the
  alignment of the segments are.
\<close>

theorem shared_pages_serve_every_segment:
  assumes "cng_elf_map v x False pl hint = (LOAD_OK, evs, Some ld, False)" "touching v (o_base ld) (pl_ph pl) a \<noteq> []"
  shows "\<exists>pr. prot_at evs a = Some pr \<and>
    (pr AND PROT_R \<noteq> 0 \<longleftrightarrow> (\<exists>p \<in> set (touching v (o_base ld) (pl_ph pl) a). p_flags p AND PF_R \<noteq> 0)) \<and>
    (pr AND PROT_W \<noteq> 0 \<longleftrightarrow> (\<exists>p \<in> set (touching v (o_base ld) (pl_ph pl) a). p_flags p AND PF_W \<noteq> 0)) \<and>
    (pr AND PROT_X \<noteq> 0 \<longleftrightarrow> (\<exists>p \<in> set (touching v (o_base ld) (pl_ph pl) a). p_flags p AND PF_X \<noteq> 0))"
proof -
  obtain rc1 evs1 bias len where m: "map_anon v x (pl_ph pl) (pl_dyn pl) (pl_lo pl) (pl_hi pl - pl_lo pl) hint = (rc1, evs1, bias, len)"
    by (metis prod_cases4)
  have e: "rc1 = LOAD_OK" "evs1 = evs" "o_base ld = bias"
    using assms(1) m by (auto simp: cng_elf_map_def Let_def load_out_def split: if_splits prod.splits)
  show ?thesis
    using anon_prot [OF m [unfolded e(1,2)]] assms(2) by (simp add: e(3) union_prot_and prot_of_and)
qed

section \<open>A program\<close>

definition demo_ph :: "phdr list" where
  "demo_ph = [\<lparr>p_type = PT_LOAD, p_flags = 5, p_offset = 0, p_vaddr = 0, p_filesz = 0x1800, p_memsz = 0x1800\<rparr>,
     \<lparr>p_type = PT_LOAD, p_flags = 6, p_offset = 0x1800, p_vaddr = 0x1900, p_filesz = 0x100, p_memsz = 0x900\<rparr>]"

definition demo_elf_env :: elf_env where
  "demo_elf_env = \<lparr>v_page = 4096, v_rewrite = True, v_image = (0x1000000000, 0x1000100000), v_own = [], v_scr = []\<rparr>"

definition demo_elf_host :: elf_host where
  "demo_elf_host = \<lparr>x_mode = Some 0x81ED,
     x_ehdr = Some \<lparr>e_ident = [0x7F, 0x45, 0x4C, 0x46, 2, 1], e_type = ET_DYN, e_machine = EM_AARCH64, e_entry = 0x100, e_phoff = 64,
       e_phentsize = 56, e_phnum = 2\<rparr>,
     x_phdrs = (\<lambda>off n. Some demo_ph), x_bytes = (\<lambda>off n. None), x_holds = (\<lambda>off n. True), x_exec_denied = False,
     x_reserve = (\<lambda>anon fixed want len. if \<not> fixed \<and> len < 0x100000 then Some 0x400000 else None), x_mprotect = (\<lambda>a n pr. 0),
     x_mmap_file = (\<lambda>a n pr off. True), x_mmap_anon = (\<lambda>a n pr. True), x_used = 0x50\<rparr>"

definition demo_plan :: plan where
  "demo_plan = \<lparr>pl_eh = the (x_ehdr demo_elf_host), pl_ph = demo_ph, pl_lo = 0, pl_hi = 0x3000, pl_dyn = True, pl_file_ok = False,
     pl_interp = None\<rparr>"

lemma demo_pages:
  "cng_page_down 4096 0 = 0" "cng_page_down 4096 0x1900 = 0x1000" "cng_page_end 4096 0 0x1800 = Some 0x2000"
  "cng_page_end 4096 0x1900 0x900 = Some 0x3000" "cng_page_down 4096 0x400000 = 0x400000" "cng_page_down 4096 0x401900 = 0x401000"
  "cng_page_up 4096 0x401800 = 0x402000" "cng_page_up 4096 0x402200 = 0x403000"
  by (simp_all add: cng_page_down_def cng_page_up_def cng_page_end_def Let_def)

lemma demo_headers: "cng_elf_plan_fd demo_elf_env demo_elf_host False = (LOAD_OK, Some demo_plan, False)"
  by (simp add: cng_elf_plan_fd_def elf_check_execable_def elf_read_headers_def elf_ident_ok_def MAX_PHDR_def demo_elf_host_def demo_elf_env_def
      demo_ph_def demo_plan_def hdr_interp_def hdr_load_def PT_LOAD_def PT_INTERP_def ET_DYN_def ET_EXEC_def Let_def demo_pages CNG_TRAMP_POOL_def word_gt_0)

lemma demo_edges: "edges demo_elf_env 0x400000 demo_ph = [0x400000, 0x401000, 0x402000, 0x403000]"
  by (simp add: edges_def loads_def demo_ph_def seg_lo_def seg_hi_def demo_elf_env_def PT_LOAD_def demo_pages)

lemma demo_map: "\<exists>evs ld. cng_elf_map demo_elf_env demo_elf_host False demo_plan 0 = (LOAD_OK, evs, Some ld, False) \<and> o_base ld = 0x400000"
proof -
  have r: "\<exists>rd. read_segs demo_elf_host 0x400000 demo_ph = (True, rd)"
    by (simp add: demo_ph_def demo_elf_host_def PT_LOAD_def Let_def)
  then obtain rd where rd: "read_segs demo_elf_host 0x400000 demo_ph = (True, rd)" by blast
  have "fst (prot_runs demo_elf_env demo_elf_host b ph es) = LOAD_OK" for b ph es
    by (induction es rule: induct_list012) (auto simp: Let_def demo_elf_host_def split: prod.split)
  then obtain pr where pr: "prot_runs demo_elf_env demo_elf_host 0x400000 demo_ph (edges demo_elf_env 0x400000 demo_ph) = (LOAD_OK, pr)"
    by (metis prod.collapse)
  have s: "x_reserve demo_elf_host True False 0 0x83000 = Some 0x400000" by (simp add: demo_elf_host_def)
  have p: "pl_ph demo_plan = demo_ph" "pl_lo demo_plan = 0" "pl_hi demo_plan = 0x3000" "pl_dyn demo_plan" "v_rewrite demo_elf_env"
    by (simp_all add: demo_plan_def demo_elf_env_def)
  show ?thesis
    by (simp add: cng_elf_map_def map_anon_def Let_def p CNG_TRAMP_POOL_def s rd pr load_out_def)
qed

lemma demo_strategies: "strategies_ok 12 demo_elf_env demo_elf_host"
proof -
  have "reserve_ok 12 demo_elf_host"
    unfolding reserve_ok_def by (auto simp: demo_elf_host_def word_less_nat_alt split: if_splits)
  then show ?thesis by (simp add: strategies_ok_def demo_elf_env_def demo_elf_host_def CNG_TRAMP_POOL_def)
qed

theorem load_stays_in_its_reservation_witness:
  "\<exists>evs ld. cng_load_elf_fd demo_elf_env demo_elf_host False 0 = (LOAD_OK, evs, Some ld, False) \<and>
     replay None evs = Some (Some (o_map_lo ld, o_map_len ld))"
proof -
  obtain evs ld where m: "cng_elf_map demo_elf_env demo_elf_host False demo_plan 0 = (LOAD_OK, evs, Some ld, False)" using demo_map by blast
  then have l: "cng_load_elf_fd demo_elf_env demo_elf_host False 0 = (LOAD_OK, evs, Some ld, False)"
    by (simp add: cng_load_elf_fd_def demo_headers)
  show ?thesis using load_stays_in_its_reservation [OF demo_strategies l] l by auto
qed

theorem shared_pages_serve_every_segment_witness:
  "\<exists>evs ld pr. cng_elf_map demo_elf_env demo_elf_host False demo_plan 0 = (LOAD_OK, evs, Some ld, False) \<and>
     prot_at evs 0x401800 = Some pr \<and> pr AND PROT_W \<noteq> 0 \<and> pr AND PROT_X \<noteq> 0"
proof -
  obtain evs ld where m: "cng_elf_map demo_elf_env demo_elf_host False demo_plan 0 = (LOAD_OK, evs, Some ld, False)" "o_base ld = 0x400000"
    using demo_map by blast
  have t: "touching demo_elf_env 0x400000 demo_ph 0x401800 = demo_ph"
    by (simp add: touching_def loads_def demo_ph_def seg_lo_def seg_hi_def demo_elf_env_def PT_LOAD_def demo_pages)
  have p: "pl_ph demo_plan = demo_ph" by (simp add: demo_plan_def)
  have ne: "touching demo_elf_env (o_base ld) (pl_ph demo_plan) 0x401800 \<noteq> []" by (simp add: m(2) p t) (simp add: demo_ph_def)
  from shared_pages_serve_every_segment [OF m(1) ne] show ?thesis
    unfolding m(2) p t using m(1) by (auto simp: demo_ph_def PF_R_def PF_W_def PF_X_def)
qed

end
