(* ===== verification/Spec2Isabelle.thy ===== *)
theory Spec2Isabelle
  imports Cng_Prelude Rt_Mem Rt_Str Path_Canon Path_Core Path_Props Path_Chroot Path_Host
    Ipc_State Ipc_Sem Ipc_Sem_Props Ipc_Msg Ipc_Wait Ipc_Serve Ipc_Inv Ipc_Live Ipc_Daemon
    Cred Cred_Props Publish Views Bpf Sysno Seccomp Seccomp_Props Blocklist
    Rewrite Rewrite_Props Lazy_Maps Lazy Lazy_Props Tramp Tramp_Run Tramp_Props Ptstep Ptbreak Stack Elf Elf_Props
begin

text \<open>
  A verification development for chroot-ng, a chroot and bind-mount emulator for AArch64 Linux
  that runs a guest without root privileges: the monitor shares the guest's address space,
  intercepts its system calls by rewriting them or by a seccomp trap, and translates every path and
  every emulated kernel object on the way.

  How the parts fit. The loader (\<open>src/loader\<close>) maps a program (\<open>Elf\<close>) and builds the stack it starts on
  (\<open>Stack\<close>). Its \<open>svc\<close> instructions are rewritten to branches into trampolines, ahead of time
  (\<open>Rewrite\<close>) or when they first trap (\<open>Lazy\<close>); a trampoline (\<open>Tramp\<close>) calls the dispatcher and
  resumes the guest. Whatever is not rewritten is caught by a seccomp filter (\<open>Seccomp\<close>). The
  dispatcher translates paths through the current view (\<open>Path_Core\<close>), answers for the guest's identity (\<open>Cred\<close>), both
  of which are published to all threads without a reader's lock (\<open>Publish\<close>, \<open>Views\<close>), and sends System V IPC to a daemon
  (\<open>Ipc_State\<close> to \<open>Ipc_Daemon\<close>). A guest tracer single-steps its tracees in software (\<open>Ptstep\<close>, \<open>Ptbreak\<close>).

  \<^bold>\<open>Conventions.\<close> C functions keep their names; a static helper that a loop or a branch of a function became
  carries a name of its own beside it. A struct is a \<open>record\<close>, an enumeration a \<open>datatype\<close>, an out
  parameter a component of the result, an early return a branch. Words are \<open>u8\<close>, \<open>u32\<close> and \<open>u64\<close> where width matters; addresses
  and sizes are natural numbers or \<open>u64\<close> as each theory says. What the kernel or the hardware answers is a parameter, a record
  of functions, and what is relied on is a named hypothesis about it. \<open>Cng_Prelude\<close> holds the integer types, the errno values,
  the generic facts on lists and the two generic interfaces, \<open>str_copy\<close> and \<open>inv_system\<close>; \<open>id_table\<close> (\<open>Ipc_State\<close>) is the contract of the two
  tables of IPC identifiers and \<open>object_cells\<close> (\<open>Publish\<close>) that of an object published in cells. Each is interpreted on the code's own
  definitions.

  \<^bold>\<open>Runtime\<close> (\<open>src/rt/rt.c\<close>). \<open>Rt_Mem\<close> models the word-at-a-time memory routines and \<open>Rt_Str\<close> the
  string routines, loop for loop, on a memory in which an unmapped byte is a fault. They are shown equal to their
  value-level meaning for every alignment and length, and never to touch a byte outside what they are
  given, but for the rest of the aligned word a scan ends in, which is mapped whole or not at all.

  \<^bold>\<open>Paths\<close> (\<open>src/path/path.c\<close>). \<open>Path_Canon\<close>: \<open>cng_path_canon\<close> and its refusals, equal to a walk over components. \<open>Path_Core\<close>: the view
  \<open>cng_fs\<close>, the search for a mount, translation (\<open>translate_mnt_1\<close>) and its reverse, the read-only test. \<open>Path_Chroot\<close>: \<open>chroot_1\<close> and
  \<open>set_cwd_1\<close>. \<open>Path_Host\<close>: how host prefixes are stored, \<open>cng_fs_init\<close>, \<open>cng_fs_add_bind\<close> and the private
  temporary directory. \<open>Path_Props\<close> and the ends of the others show containment below the mount's host root, hiding of
  foreign processes, the round trip, the meaning of a chroot, and that every view is well-formed.

  \<^bold>\<open>System V IPC\<close> (\<open>src/monitor/ipcreg.c\<close>). \<open>Ipc_State\<close>, \<open>Ipc_Sem\<close>, \<open>Ipc_Msg\<close>, \<open>Ipc_Wait\<close>, \<open>Ipc_Serve\<close>: the registry of the
  broker daemon, one definition per function, with the replies it sends as a list of events. \<open>Ipc_Sem_Props\<close>, \<open>Ipc_Inv\<close>, \<open>Ipc_Live\<close>,
  \<open>Ipc_Daemon\<close>: a failing \<open>semop\<close> changes nothing, a committing one has the net effect of its vector, undo gives back what was
  taken, the receiver gets the message the rules name, the rescan terminates with every sleeper left blocked, and the invariant
  holds in every state the entry points reach. The rescan is a recursion that ends because a round that makes progress leaves fewer sleepers.

  \<^bold>\<open>Identity and publication\<close> (\<open>src/monitor/cred.c\<close>, \<open>src/path/path.c\<close>). \<open>Cred\<close>, \<open>Cred_Props\<close>: the credential setters, capabilities, the rules of
  exec; a dropped privilege does not return. \<open>Publish\<close>, \<open>Views\<close>: writers, readers, forks and a takeover of an orphaned lock, interleaved one
  load or store at a time; a reader whose sequence number did not move has worked on one published object. The interleavings are sequentially consistent.

  \<^bold>\<open>Filters\<close> (\<open>src/monitor/seccomp.c\<close>, \<open>src/monitor/blocklist.c\<close>). \<open>Bpf\<close>: the interpreter. \<open>Sysno\<close>, \<open>Seccomp\<close>: the tables and the three
  builders, in the order they emit. \<open>Seccomp_Props\<close>: each emitted program decides as a decision function says, fits its buffer and its 8-bit
  offsets, and no call that names a file, a socket or an IPC object runs untranslated. \<open>Blocklist\<close>: the probe of the host's own filter.

  \<^bold>\<open>Rewriting\<close> (\<open>src/monitor/rewrite.c\<close>, \<open>src/monitor/tramp.S\<close>). \<open>Rewrite\<close>, \<open>Rewrite_Props\<close>: code ranges from the section headers, the scan with
  its guards, emission; only \<open>svc\<close> words in code change. \<open>Lazy_Maps\<close>: the survey of \<open>/proc/self/maps\<close>, whatever the sizes of the reads; \<open>Lazy\<close>: pool placement,
  the table of mappings, the patch, the reset; \<open>Lazy_Props\<close>: a patched site never loses its trampoline, and only private code is written. \<open>Tramp\<close>: the template as
  instructions and words for a small AArch64 machine, and \<open>cng_tramp_unwind\<close>; \<open>Tramp_Run\<close>, \<open>Tramp_Props\<close>: a rewritten site is the call it replaced, and a thread
  stopped anywhere inside a copy is unwound to the guest's state. The machine runs the template straight through: its length bounds the number of steps.

  \<^bold>\<open>Single-step\<close> (\<open>src/monitor/ptstep.c\<close>, \<open>src/monitor/ptrace.c\<close>). \<open>Ptstep\<close>: the decoder of the next pc against the architecture's branches.
  \<open>Ptbreak\<close>: planting and taking down of breakpoints by tasks that interleave; nothing is left behind and a tracer never sees a breakpoint, though one
  can be lost.

  \<^bold>\<open>Loader\<close> (\<open>src/loader/elf.c\<close>, \<open>src/loader/stack.c\<close>). \<open>Elf\<close>: the header pass and the map pass, on words as wide as the file's fields, with the
  list of what the map pass does to the address space. \<open>Elf_Props\<close>: for every header a load stays inside the one range it reserves, gives it back when it fails and
  never covers the monitor, and a page that segments share serves all of them. Pages are of any size up to 512 KiB, which divides the trampoline
  pool. \<open>Stack\<close>: \<open>cng_build_stack\<close> on a byte memory, against the layout the kernel documents.

  \<^bold>\<open>Not modelled.\<close> The dispatcher proper (\<open>dispatch.c\<close>), the exec emulation (\<open>execve.c\<close>, \<open>execmap.c\<close>), the synthesised \<open>/proc\<close> and its
  registry (\<open>procfs.c\<close>, \<open>procreg.c\<close>), the netlink and socket shims, link-to-symlink, pinning and terminal handling are sequences of host system calls whose
  meaning is that of the host kernel's file system, network and address space: a model of them would have to invent that kernel. Of \<open>ptrace.c\<close> and
  \<open>ptsig.c\<close> only the step records are modelled: the rest rests on signal delivery between processes. The arena of
  \<open>ipcreg.c\<close>, \<open>tab.c\<close> and the registry of \<open>ownmap.c\<close> are allocators, whose answer to an allocation is a parameter here. Assembly other than the trampoline
  (\<open>gate.S\<close>, \<open>start.S\<close>, \<open>enter.S\<close>, \<open>cache.S\<close>, \<open>sig.S\<close>, \<open>stackswitch.S\<close>) enters the kernel or switches contexts. \<open>main.c\<close>, \<open>run.c\<close> and \<open>probe.c\<close> parse options and
  call the parts above; \<open>debug.c\<close> holds the self-tests. Weak memory is not modelled anywhere.
\<close>

end
